(* ===== verification/Prelude.thy ===== *)
theory Prelude
  imports Main "HOL-Library.Word" "HOL-Library.Monad_Syntax"
begin

text \<open>Shared types, errno values and generic lemmas.\<close>

unbundle bit_operations_syntax

subsection \<open>Machine types of the C sources\<close>

type_synonym u8 = "8 word"
type_synonym u16 = "16 word"
type_synonym u32 = "32 word"
type_synonym u64 = "64 word"

text \<open>
  A pointer is an address in an explicit store; NULL is \<open>None\<close>. A partial operation returns
  an option whose \<open>None\<close> stands for an access to freed or never allocated memory.
\<close>

type_synonym addr = nat
type_synonym ptr = "addr option"

subsection \<open>Linux errno values\<close>

abbreviation EAGAIN :: int where "EAGAIN \<equiv> 11"
abbreviation ENOMEM :: int where "ENOMEM \<equiv> 12"
abbreviation EBUSY :: int where "EBUSY \<equiv> 16"
abbreviation ENODEV :: int where "ENODEV \<equiv> 19"
abbreviation EINVAL :: int where "EINVAL \<equiv> 22"
abbreviation ENOSPC :: int where "ENOSPC \<equiv> 28"
abbreviation ENOSYS :: int where "ENOSYS \<equiv> 38"
abbreviation ENODATA :: int where "ENODATA \<equiv> 61"
abbreviation EPROTONOSUPPORT :: int where "EPROTONOSUPPORT \<equiv> 93"
abbreviation EOPNOTSUPP :: int where "EOPNOTSUPP \<equiv> 95"

subsection \<open>Lists\<close>

lemma set_map_nth_subset: "list_all (\<lambda>i. i < length xs) is \<Longrightarrow> set (map (nth xs) is) \<subseteq> set xs"
  by (auto simp: list_all_iff)

subsection \<open>Maps\<close>

lemma map_upd_same_eq [simp]: "m(k \<mapsto> a) = m(k \<mapsto> b) \<longleftrightarrow> a = b"
  by (metis fun_upd_same option.inject)

subsection \<open>Decimal printing\<close>

text \<open>The conversion of \<^verbatim>\<open>%d\<close> and \<^verbatim>\<open>%u\<close> for a non-negative number.\<close>

fun show_nat :: "nat \<Rightarrow> string" where
  "show_nat n = (if n < 10 then [char_of (48 + n)] else show_nat (n div 10) @ [char_of (48 + n mod 10)])"

declare show_nat.simps [simp del]

lemma show_nat_digit: "n < 10 \<Longrightarrow> show_nat n = [char_of (48 + n)]"
  by (simp add: show_nat.simps)

subsection \<open>Machine words\<close>

lemma unat_succ: "unat (w :: u64) + 1 < 2 ^ 64 \<Longrightarrow> unat (w + 1) = unat w + 1"
  by (simp add: unat_word_ariths)

lemma unat_below: "unat (w :: u64) < 2 ^ 64"
  using unsigned_less [of w] by simp

lemma unat_succ_less: "(a :: u64) < b \<Longrightarrow> unat (a + 1) = unat a + 1"
  using unat_below [of b] by (intro unat_succ) (simp add: word_less_nat_alt)

lemma nat_and_pred: "n \<noteq> 0 \<Longrightarrow> n AND (n - 1) = 0 \<Longrightarrow> \<exists>k. n = (2 :: nat) ^ k"
proof (induction n rule: less_induct)
  case (less n)
  show ?case
  proof (cases "even n")
    case True
    then obtain m where m: "n = 2 * m" by auto
    with less.prems obtain q where q: "m = Suc q" by (cases m) auto
    have "(2 * m) AND (2 * m - 1) = 2 * (m AND (m - 1))"
      by (subst and_nat_rec) (simp add: q)
    then have "m AND (m - 1) = 0" using less.prems m by simp
    then obtain k where "m = 2 ^ k" using less.IH [of m] m q by auto
    then show ?thesis using m by (auto intro: exI [of _ "Suc k"])
  next
    case False
    then obtain m where m: "n = 2 * m + 1" by (auto elim: oddE)
    have "(2 * m + 1) AND (2 * m) = 2 * m" by (subst and_nat_rec) simp
    then show ?thesis using less.prems m by (auto intro: exI [of _ 0])
  qed
qed

lemma unat_and_not_mask: "unat ((x :: u64) AND NOT (mask k)) = unat x div 2 ^ k * 2 ^ k"
proof -
  have "x AND NOT (mask k) = push_bit k (drop_bit k x)"
    by (rule bit_word_eqI) (auto simp: bit_simps)
  moreover have "unat (push_bit k (drop_bit k x)) = take_bit 64 (unat x div 2 ^ k * 2 ^ k)"
    unfolding unsigned_push_bit_eq unsigned_drop_bit_eq
    by (simp add: push_bit_eq_mult drop_bit_eq_div take_bit_nat_eq_self [OF unat_below])
  moreover have "unat x div 2 ^ k * 2 ^ k < 2 ^ 64"
    by (rule le_less_trans [OF div_times_less_eq_dividend unat_below])
  ultimately show ?thesis
    by (metis take_bit_nat_eq_self)
qed

end
