(* ===== verification/Slot_Table.thy ===== *)
theory Slot_Table
  imports Prelude
begin

text \<open>
  The interface of an indexed table: entries are stored at an index, cleared at an index and
  looked up at an index. The kernel driver's GID table promises it. The client's lemma, proved once here, says what a lookup sees after any history
  of stores and clears.
\<close>

subsection \<open>Histories of table operations\<close>

datatype 'a slot_op = Store nat 'a | Clear nat

fun slot_index :: "'a slot_op \<Rightarrow> nat" where
  "slot_index (Store i a) = i"
| "slot_index (Clear i) = i"

fun slot_run :: "('s \<Rightarrow> nat \<Rightarrow> 'a \<Rightarrow> 's) \<Rightarrow> ('s \<Rightarrow> nat \<Rightarrow> 's) \<Rightarrow> 's \<Rightarrow> 'a slot_op list \<Rightarrow> 's" where
  "slot_run st cl s [] = s"
| "slot_run st cl s (Store i a # ops) = slot_run st cl (st s i a) ops"
| "slot_run st cl s (Clear i # ops) = slot_run st cl (cl s i) ops"

text \<open>
  The abstract table is a partial map. \<open>slot_spec\<close> is its transition function.
\<close>

fun slot_spec :: "('a \<Rightarrow> 'v) \<Rightarrow> (nat \<rightharpoonup> 'v) \<Rightarrow> 'a slot_op list \<Rightarrow> (nat \<rightharpoonup> 'v)" where
  "slot_spec val m [] = m"
| "slot_spec val m (Store i a # ops) = slot_spec val (m(i \<mapsto> val a)) ops"
| "slot_spec val m (Clear i # ops) = slot_spec val (m(i := None)) ops"

lemma slot_spec_append:
  "slot_spec val m (xs @ ys) = slot_spec val (slot_spec val m xs) ys"
proof (induction xs arbitrary: m)
  case (Cons op xs)
  then show ?case by (cases op) (simp_all add: fun_upd_def)
qed simp

lemma slot_spec_untouched:
  "\<forall>op \<in> set ops. slot_index op \<noteq> j \<Longrightarrow> slot_spec val m ops j = m j"
proof (induction ops arbitrary: m)
  case (Cons op ops)
  then show ?case by (cases op) simp_all
qed simp

lemma slot_spec_last_store:
  assumes "\<forall>op \<in> set later. slot_index op \<noteq> i"
  shows "slot_spec val m (earlier @ Store i a # later) i = Some (val a)"
  using assms by (simp add: slot_spec_append slot_spec_untouched)

lemma slot_spec_last_clear:
  assumes "\<forall>op \<in> set later. slot_index op \<noteq> i"
  shows "slot_spec val m (earlier @ Clear i # later) i = None"
  using assms by (simp add: slot_spec_append slot_spec_untouched)

subsection \<open>The interface\<close>

locale slot_table =
  fixes lookup :: "'s \<Rightarrow> nat \<Rightarrow> 'v option"
    and store :: "'s \<Rightarrow> nat \<Rightarrow> 'a \<Rightarrow> 's"
    and clear :: "'s \<Rightarrow> nat \<Rightarrow> 's"
    and val :: "'a \<Rightarrow> 'v"
    and ok :: "'a \<Rightarrow> bool"
    and invar :: "'s \<Rightarrow> bool"
    and cap :: nat
  assumes invar_store: "invar s \<Longrightarrow> i < cap \<Longrightarrow> ok a \<Longrightarrow> invar (store s i a)"
    and invar_clear: "invar s \<Longrightarrow> i < cap \<Longrightarrow> invar (clear s i)"
    and lookup_store: "invar s \<Longrightarrow> i < cap \<Longrightarrow> ok a \<Longrightarrow> j < cap \<Longrightarrow>
          lookup (store s i a) j = ((lookup s)(i \<mapsto> val a)) j"
    and lookup_clear: "invar s \<Longrightarrow> i < cap \<Longrightarrow> j < cap \<Longrightarrow>
          lookup (clear s i) j = ((lookup s)(i := None)) j"
begin

definition op_ok :: "'a slot_op \<Rightarrow> bool" where
  "op_ok op \<longleftrightarrow> (case op of Store i a \<Rightarrow> i < cap \<and> ok a | Clear i \<Rightarrow> i < cap)"

lemma invar_run:
  "invar s \<Longrightarrow> list_all op_ok ops \<Longrightarrow> invar (slot_run store clear s ops)"
proof (induction ops arbitrary: s)
  case (Cons op ops)
  then show ?case by (cases op) (simp_all add: op_ok_def invar_store invar_clear)
qed simp

lemma lookup_run:
  "invar s \<Longrightarrow> list_all op_ok ops \<Longrightarrow> j < cap \<Longrightarrow> (\<And>k. k < cap \<Longrightarrow> m k = lookup s k) \<Longrightarrow>
   lookup (slot_run store clear s ops) j = slot_spec val m ops j"
proof (induction ops arbitrary: s m)
  case (Cons op ops)
  show ?case
  proof (cases op)
    case (Store i a)
    with Cons.prems have "invar (store s i a)" "i < cap" "ok a"
      by (auto simp: op_ok_def invar_store)
    moreover from Cons.prems this have "\<And>k. k < cap \<Longrightarrow> (m(i \<mapsto> val a)) k = lookup (store s i a) k"
      by (simp only: lookup_store fun_upd_apply)
    ultimately show ?thesis
      using Cons.IH [of "store s i a" "m(i \<mapsto> val a)"] Cons.prems Store by (simp add: fun_upd_def)
  next
    case (Clear i)
    with Cons.prems have "invar (clear s i)" "i < cap"
      by (auto simp: op_ok_def invar_clear)
    moreover from Cons.prems this have "\<And>k. k < cap \<Longrightarrow> (m(i := None)) k = lookup (clear s i) k"
      by (simp only: lookup_clear fun_upd_apply)
    ultimately show ?thesis
      using Cons.IH [of "clear s i" "m(i := None)"] Cons.prems Clear by (simp add: fun_upd_def)
  qed
qed simp

lemma refines_map:
  "invar s \<Longrightarrow> list_all op_ok ops \<Longrightarrow> j < cap \<Longrightarrow>
   lookup (slot_run store clear s ops) j = slot_spec val (lookup s) ops j"
  by (rule lookup_run) simp_all

end

end
