(* ===== verification/KernelGid.thy ===== *)
theory KernelGid
  imports Slot_Table
begin

text \<open>
  The device state of the kernel driver (\<^verbatim>\<open>kernel-driver/bluerdma.h\<close>) and its GID table: the
  EUI-64 derivation and table initialisation of \<^verbatim>\<open>ethernet.c\<close> and the query/add/delete verbs of
  \<^verbatim>\<open>verbs.c\<close>. A GID is a list of 16 bytes, a MAC address a list of 6 bytes.
\<close>

subsection \<open>Data\<close>

definition BLUERDMA_DEFAULT_MTU :: nat where "BLUERDMA_DEFAULT_MTU = 1500"
definition BLUERDMA_GID_TABLE_SIZE :: nat where "BLUERDMA_GID_TABLE_SIZE = 16"

type_synonym ib_gid = "u8 list"
type_synonym mac = "u8 list"

text \<open>The fields of the IB core's GID attribute that the driver copies or reads.\<close>

record ib_gid_attr =
  ga_port_num :: u32
  ga_index :: u32
  ga_gid :: ib_gid
  ga_gid_type :: nat
  ga_ndev :: ptr

record bluerdma_gid_entry =
  ge_gid :: ib_gid
  ge_attr :: ib_gid_attr
  ge_valid :: bool

datatype ib_port_state =
  IB_PORT_NOP | IB_PORT_DOWN | IB_PORT_INIT | IB_PORT_ARMED | IB_PORT_ACTIVE | IB_PORT_ACTIVE_DEFER

text \<open>A sysfs attribute: its name, mode and which show routine it calls.\<close>

datatype show_routine = Show_None | Show_Gids | Show_Mac

record device_attribute =
  da_name :: string
  da_mode :: nat
  da_show :: show_routine
  da_store :: show_routine

text \<open>The fields of \<^verbatim>\<open>struct ib_device\<close> that the driver fills in.\<close>

record ib_device =
  ib_node_desc :: string
  ib_node_type :: nat
  ib_phys_port_cnt :: u32
  ib_num_comp_vectors :: nat
  ib_local_dma_lkey :: u32
  ib_ops_set :: bool

record bluerdma_dev =
  bd_ibdev :: ib_device
  bd_netdev :: ptr
  bd_state :: ib_port_state
  bd_id :: nat
  bd_mac_addr :: mac
  bd_gid_table :: "bluerdma_gid_entry list"
  bd_gids_attr :: device_attribute
  bd_mac_attr :: device_attribute

subsection \<open>Zero-initialised objects\<close>

definition zero_gid :: ib_gid where "zero_gid = replicate 16 0"

definition zero_gid_attr :: ib_gid_attr where
  "zero_gid_attr = \<lparr>ga_port_num = 0, ga_index = 0, ga_gid = zero_gid, ga_gid_type = 0, ga_ndev = None\<rparr>"

definition zero_gid_entry :: bluerdma_gid_entry where
  "zero_gid_entry = \<lparr>ge_gid = zero_gid, ge_attr = zero_gid_attr, ge_valid = False\<rparr>"

definition zero_attribute :: device_attribute where
  "zero_attribute = \<lparr>da_name = [], da_mode = 0, da_show = Show_None, da_store = Show_None\<rparr>"

definition zero_ib_device :: ib_device where
  "zero_ib_device = \<lparr>ib_node_desc = [], ib_node_type = 0, ib_phys_port_cnt = 0,
     ib_num_comp_vectors = 0, ib_local_dma_lkey = 0, ib_ops_set = False\<rparr>"

definition zero_dev :: bluerdma_dev where
  "zero_dev = \<lparr>bd_ibdev = zero_ib_device, bd_netdev = None, bd_state = IB_PORT_NOP, bd_id = 0,
     bd_mac_addr = replicate 6 0, bd_gid_table = replicate BLUERDMA_GID_TABLE_SIZE zero_gid_entry,
     bd_gids_attr = zero_attribute, bd_mac_attr = zero_attribute\<rparr>"

subsection \<open>EUI-64 GIDs and the initial table\<close>

definition mac_to_eui64_gid :: "mac \<Rightarrow> ib_gid" where
  "mac_to_eui64_gid m =
     [0xfe, 0x80] @ replicate 6 0 @
     [m ! 0 XOR 0x02, m ! 1, m ! 2, 0xFF, 0xFE, m ! 3, m ! 4, m ! 5]"

definition bluerdma_init_gid_table :: "bluerdma_dev \<Rightarrow> bluerdma_dev" where
  "bluerdma_init_gid_table dev =
     (let dev = dev\<lparr>bd_gid_table := replicate BLUERDMA_GID_TABLE_SIZE
                       (zero_gid_entry\<lparr>ge_valid := False\<rparr>)\<rparr>
      in if bd_netdev dev \<noteq> None
         then dev\<lparr>bd_gid_table := (bd_gid_table dev)
                [0 := ((bd_gid_table dev) ! 0)
                   \<lparr>ge_gid := mac_to_eui64_gid (bd_mac_addr dev), ge_valid := True\<rparr>]\<rparr>
         else dev)"

subsection \<open>The GID verbs\<close>

text \<open>
  Each verb returns the C return value; the negated errno of an error is a negative number. The
  caller's GID buffer is an argument and a result of the query.
\<close>

definition bluerdma_query_gid :: "bluerdma_dev \<Rightarrow> u32 \<Rightarrow> int \<Rightarrow> ib_gid \<Rightarrow> int \<times> ib_gid" where
  "bluerdma_query_gid dev port_num index gid =
     (if port_num \<noteq> 1 then (- EINVAL, gid)
      else if index < 0 \<or> index \<ge> int BLUERDMA_GID_TABLE_SIZE then (- EINVAL, gid)
      else if \<not> ge_valid (bd_gid_table dev ! nat index) then (- EAGAIN, gid)
      else (0, ge_gid (bd_gid_table dev ! nat index)))"

definition bluerdma_add_gid :: "bluerdma_dev \<Rightarrow> ib_gid_attr \<Rightarrow> int \<times> bluerdma_dev" where
  "bluerdma_add_gid dev attr =
     (if ga_port_num attr \<noteq> 1 then (- EINVAL, dev)
      else if ga_index attr < 0 \<or> ga_index attr \<ge> word_of_nat BLUERDMA_GID_TABLE_SIZE
      then (- EINVAL, dev)
      else (0, dev\<lparr>bd_gid_table := (bd_gid_table dev)
                 [unat (ga_index attr) := \<lparr>ge_gid = ga_gid attr, ge_attr = attr, ge_valid = True\<rparr>]\<rparr>))"

definition bluerdma_del_gid :: "bluerdma_dev \<Rightarrow> ib_gid_attr \<Rightarrow> int \<times> bluerdma_dev" where
  "bluerdma_del_gid dev attr =
     (if ga_port_num attr \<noteq> 1 then (- EINVAL, dev)
      else if ga_index attr < 0 \<or> ga_index attr \<ge> word_of_nat BLUERDMA_GID_TABLE_SIZE
      then (- EINVAL, dev)
      else (0, dev\<lparr>bd_gid_table := (bd_gid_table dev)
                 [unat (ga_index attr) := (bd_gid_table dev ! unat (ga_index attr))\<lparr>ge_valid := False\<rparr>]\<rparr>))"

text \<open>
  A history of calls from the IB core, run in order; a rejected call returns an error and leaves
  the device as it was.
\<close>

datatype gid_call = Add_Gid ib_gid_attr | Del_Gid ib_gid_attr

fun gid_call_attr :: "gid_call \<Rightarrow> ib_gid_attr" where
  "gid_call_attr (Add_Gid attr) = attr"
| "gid_call_attr (Del_Gid attr) = attr"

fun run_gid_calls :: "bluerdma_dev \<Rightarrow> gid_call list \<Rightarrow> bluerdma_dev" where
  "run_gid_calls dev [] = dev"
| "run_gid_calls dev (Add_Gid attr # cs) = run_gid_calls (snd (bluerdma_add_gid dev attr)) cs"
| "run_gid_calls dev (Del_Gid attr # cs) = run_gid_calls (snd (bluerdma_del_gid dev attr)) cs"

text \<open>The table operations that the accepted calls of a history stand for.\<close>

definition gid_attr_accepted :: "ib_gid_attr \<Rightarrow> bool" where
  "gid_attr_accepted attr \<longleftrightarrow>
     ga_port_num attr = 1 \<and> unat (ga_index attr) < BLUERDMA_GID_TABLE_SIZE"

fun gid_slot_ops :: "gid_call list \<Rightarrow> ib_gid_attr slot_op list" where
  "gid_slot_ops [] = []"
| "gid_slot_ops (Add_Gid attr # cs) =
     (if gid_attr_accepted attr then [Store (unat (ga_index attr)) attr] else []) @ gid_slot_ops cs"
| "gid_slot_ops (Del_Gid attr # cs) =
     (if gid_attr_accepted attr then [Clear (unat (ga_index attr))] else []) @ gid_slot_ops cs"

subsection \<open>The GID table as a slot table\<close>

definition gid_table_wf :: "bluerdma_dev \<Rightarrow> bool" where
  "gid_table_wf dev \<longleftrightarrow> length (bd_gid_table dev) = BLUERDMA_GID_TABLE_SIZE \<and>
     list_all (\<lambda>e. length (ge_gid e) = 16) (bd_gid_table dev)"

definition gid_lookup :: "bluerdma_dev \<Rightarrow> nat \<Rightarrow> ib_gid option" where
  "gid_lookup dev i =
     (if ge_valid (bd_gid_table dev ! i) then Some (ge_gid (bd_gid_table dev ! i)) else None)"

definition gid_store :: "bluerdma_dev \<Rightarrow> nat \<Rightarrow> ib_gid_attr \<Rightarrow> bluerdma_dev" where
  "gid_store dev i attr = snd (bluerdma_add_gid dev (attr\<lparr>ga_port_num := 1, ga_index := of_nat i\<rparr>))"

definition gid_clear :: "bluerdma_dev \<Rightarrow> nat \<Rightarrow> bluerdma_dev" where
  "gid_clear dev i =
     snd (bluerdma_del_gid dev (zero_gid_attr\<lparr>ga_port_num := 1, ga_index := of_nat i\<rparr>))"

abbreviation gid_len_ok :: "ib_gid_attr \<Rightarrow> bool" where
  "gid_len_ok attr \<equiv> length (ga_gid attr) = 16"

lemmas gid_verb_defs =
  bluerdma_add_gid_def bluerdma_del_gid_def BLUERDMA_GID_TABLE_SIZE_def

lemma gid_index_word: "i < 16 \<Longrightarrow> unat (of_nat i :: u32) = i" "i < 16 \<Longrightarrow> \<not> 16 \<le> (of_nat i :: u32)"
  by (simp_all add: unat_of_nat word_le_nat_alt)

lemma gid_attr_accepted_iff:
  "gid_attr_accepted attr \<longleftrightarrow> ga_port_num attr = 1 \<and> ga_index attr < 16"
  by (simp add: gid_attr_accepted_def BLUERDMA_GID_TABLE_SIZE_def word_less_nat_alt)

lemma add_gid_accepted:
  assumes "gid_attr_accepted attr"
  shows "snd (bluerdma_add_gid dev attr) = gid_store dev (unat (ga_index attr)) attr"
proof -
  from assms have "attr\<lparr>ga_port_num := 1, ga_index := of_nat (unat (ga_index attr))\<rparr> = attr"
    by (cases attr) (simp add: gid_attr_accepted_def)
  then show ?thesis by (simp add: gid_store_def)
qed

lemma del_gid_accepted:
  assumes "gid_attr_accepted attr"
  shows "snd (bluerdma_del_gid dev attr) = gid_clear dev (unat (ga_index attr))"
  using assms by (simp add: gid_clear_def gid_verb_defs gid_attr_accepted_def not_le)

lemma add_gid_rejected: "\<not> gid_attr_accepted attr \<Longrightarrow> bluerdma_add_gid dev attr = (- EINVAL, dev)"
  by (auto simp: gid_verb_defs gid_attr_accepted_iff)

lemma del_gid_rejected: "\<not> gid_attr_accepted attr \<Longrightarrow> bluerdma_del_gid dev attr = (- EINVAL, dev)"
  by (auto simp: gid_verb_defs gid_attr_accepted_iff)

interpretation gid_slots: slot_table gid_lookup gid_store gid_clear ga_gid gid_len_ok gid_table_wf
    BLUERDMA_GID_TABLE_SIZE
  by unfold_locales
    (auto simp: gid_lookup_def gid_store_def gid_clear_def gid_verb_defs gid_table_wf_def
      gid_index_word not_le nth_list_update list_all_length)

lemma run_gid_calls_slots:
  "run_gid_calls dev cs = slot_run gid_store gid_clear dev (gid_slot_ops cs)"
  by (induction dev cs rule: run_gid_calls.induct)
    (simp_all add: add_gid_accepted del_gid_accepted add_gid_rejected del_gid_rejected)

lemma gid_slot_ops_ok:
  "list_all (\<lambda>c. gid_len_ok (gid_call_attr c)) cs \<Longrightarrow> list_all gid_slots.op_ok (gid_slot_ops cs)"
  by (induction cs rule: gid_slot_ops.induct)
    (simp_all add: gid_slots.op_ok_def gid_attr_accepted_def)

lemma run_gid_calls_wf:
  "gid_table_wf dev \<Longrightarrow> list_all (\<lambda>c. gid_len_ok (gid_call_attr c)) cs \<Longrightarrow>
   gid_table_wf (run_gid_calls dev cs)"
  by (simp add: run_gid_calls_slots gid_slots.invar_run gid_slot_ops_ok)

lemma init_gid_table_wf: "gid_table_wf (bluerdma_init_gid_table dev)"
  by (simp add: bluerdma_init_gid_table_def gid_table_wf_def zero_gid_entry_def zero_gid_def
      mac_to_eui64_gid_def BLUERDMA_GID_TABLE_SIZE_def list_all_length nth_list_update Let_def)

lemma query_gid_lookup:
  assumes "i < BLUERDMA_GID_TABLE_SIZE"
  shows "bluerdma_query_gid dev 1 (int i) g =
    (case gid_lookup dev i of None \<Rightarrow> (- EAGAIN, g) | Some x \<Rightarrow> (0, x))"
  using assms by (simp add: bluerdma_query_gid_def gid_lookup_def)

subsection \<open>Properties\<close>

text \<open>C1. The GID table refines a partial map: after any history of \<open>add_gid\<close> and \<open>del_gid\<close> calls
  (with any ports and indices) a query of a table index on port 1 returns the GID that the abstract
  map holds there, and \<open>-EAGAIN\<close> with the caller's buffer untouched where the map is empty. Calls
  with a bad port or index do not count.
\<close>

theorem gid_table_refines_map:
  assumes "gid_table_wf dev"
    and "list_all (\<lambda>c. length (ga_gid (gid_call_attr c)) = 16) cs"
    and "i < BLUERDMA_GID_TABLE_SIZE"
  shows "bluerdma_query_gid (run_gid_calls dev cs) 1 (int i) g =
    (case slot_spec ga_gid (gid_lookup dev) (gid_slot_ops cs) i of
       None \<Rightarrow> (- EAGAIN, g) | Some x \<Rightarrow> (0, x))"
proof -
  have "gid_lookup (run_gid_calls dev cs) i = slot_spec ga_gid (gid_lookup dev) (gid_slot_ops cs) i"
    unfolding run_gid_calls_slots
    by (rule gid_slots.refines_map) (simp_all add: assms gid_slot_ops_ok)
  with assms(3) show ?thesis by (simp add: query_gid_lookup)
qed

theorem gid_table_refines_map_witness:
  "bluerdma_query_gid (run_gid_calls (bluerdma_init_gid_table zero_dev)
     [Add_Gid \<lparr>ga_port_num = 1, ga_index = 3, ga_gid = replicate 16 7, ga_gid_type = 0, ga_ndev = None\<rparr>,
      Add_Gid \<lparr>ga_port_num = 2, ga_index = 3, ga_gid = replicate 16 9, ga_gid_type = 0, ga_ndev = None\<rparr>])
     1 (int 3) zero_gid = (0, replicate 16 7)"
  by (subst gid_table_refines_map)
    (simp_all add: init_gid_table_wf BLUERDMA_GID_TABLE_SIZE_def gid_attr_accepted_def)

text \<open>
  The EUI-64 GID of a MAC address is a 16-byte link-local GID (\<open>fe80::/64\<close>) from which the
  address can be recovered, so two adapters have the same derived GID exactly when they have the
  same MAC address.
\<close>

definition eui64_gid_to_mac :: "ib_gid \<Rightarrow> mac" where
  "eui64_gid_to_mac g = [g ! 8 XOR 0x02, g ! 9, g ! 10, g ! 13, g ! 14, g ! 15]"

lemma length6_expand: "length m = 6 \<Longrightarrow> m = [m ! 0, m ! 1, m ! 2, m ! 3, m ! 4, m ! 5]"
  by (rule nth_equalityI) (auto simp: less_Suc_eq numeral_eq_Suc nth_Cons')

lemma eui64_gid_inverse: "length m = 6 \<Longrightarrow> eui64_gid_to_mac (mac_to_eui64_gid m) = m"
  by (subst (3) length6_expand)
    (simp_all add: eui64_gid_to_mac_def mac_to_eui64_gid_def nth_append xor.assoc)

theorem mac_to_eui64_gid_injective:
  assumes "length m = 6" and "length m' = 6"
  shows "length (mac_to_eui64_gid m) = 16 \<and> take 8 (mac_to_eui64_gid m) = [0xfe, 0x80, 0, 0, 0, 0, 0, 0]
    \<and> (mac_to_eui64_gid m = mac_to_eui64_gid m' \<longleftrightarrow> m = m')"
proof -
  have "m = m'" if "mac_to_eui64_gid m = mac_to_eui64_gid m'"
    using arg_cong [OF that, of eui64_gid_to_mac] assms by (simp add: eui64_gid_inverse)
  then show ?thesis
    by (auto simp: mac_to_eui64_gid_def numeral_eq_Suc)
qed

end
