(* ===== verification/KernelNet.thy ===== *)
theory KernelNet
  imports KernelGid
begin

text \<open>
  The network interface of the kernel driver (\<^verbatim>\<open>kernel-driver/ethernet.c\<close>): transmit, open, stop,
  MTU, NAPI poll, set-up and the sysfs show routines; and the port query of \<^verbatim>\<open>verbs.c\<close>, which
  reads the interface. The private area of a \<^verbatim>\<open>struct net_device\<close> is a second
  \<^verbatim>\<open>struct bluerdma_dev\<close>, distinct from the one the IB core allocates.
\<close>

subsection \<open>The network device\<close>

datatype netif_feature = NETIF_F_SG | NETIF_F_IP_CSUM | NETIF_F_IPV6_CSUM | NETIF_F_RXCSUM

text \<open>
  \<open>nd_running\<close> is the flag behind \<^verbatim>\<open>netif_running\<close>, which the network core (not the driver)
  sets; \<open>nd_carrier\<close>, \<open>nd_queue_started\<close> and \<open>nd_napi_enabled\<close> are the flags the driver's calls
  switch.
\<close>

record net_device =
  nd_name :: string
  nd_ops_set :: bool
  nd_hw_features :: "netif_feature list"
  nd_features :: "netif_feature list"
  nd_min_mtu :: nat
  nd_max_mtu :: nat
  nd_mtu :: nat
  nd_dev_addr :: mac
  nd_running :: bool
  nd_carrier :: bool
  nd_queue_started :: bool
  nd_napi_added :: bool
  nd_napi_enabled :: bool
  nd_tx_packets :: u64
  nd_tx_bytes :: u64
  nd_priv :: bluerdma_dev

definition zero_netdev :: net_device where
  "zero_netdev = \<lparr>nd_name = [], nd_ops_set = False, nd_hw_features = [], nd_features = [],
     nd_min_mtu = 0, nd_max_mtu = 0, nd_mtu = 0, nd_dev_addr = replicate 6 0,
     nd_running = False, nd_carrier = True, nd_queue_started = False, nd_napi_added = False,
     nd_napi_enabled = False, nd_tx_packets = 0, nd_tx_bytes = 0, nd_priv = zero_dev\<rparr>"

text \<open>MTU limits of the Ethernet layer.\<close>

definition ETH_MIN_MTU :: nat where "ETH_MIN_MTU = 68"
definition ETH_MAX_MTU :: nat where "ETH_MAX_MTU = 65535"

subsection \<open>Network device operations\<close>

datatype netdev_tx = NETDEV_TX_OK | NETDEV_TX_BUSY

text \<open>Socket buffers live in a store from addresses to lengths; a transmit consumes its buffer.\<close>

definition bluerdma_netdev_xmit ::
  "(addr \<rightharpoonup> u32) \<Rightarrow> net_device \<Rightarrow> addr \<Rightarrow> (netdev_tx \<times> (addr \<rightharpoonup> u32) \<times> net_device) option" where
  "bluerdma_netdev_xmit skbs nd skb = do {
     len \<leftarrow> skbs skb;
     let nd = nd\<lparr>nd_tx_packets := nd_tx_packets nd + 1,
                 nd_tx_bytes := nd_tx_bytes nd + ucast len\<rparr>;
     Some (NETDEV_TX_OK, skbs(skb := None), nd)
   }"

definition bluerdma_netdev_open :: "net_device \<Rightarrow> int \<times> net_device" where
  "bluerdma_netdev_open nd =
     (0, nd\<lparr>nd_carrier := True, nd_queue_started := True, nd_napi_enabled := True,
            nd_priv := (nd_priv nd)\<lparr>bd_state := IB_PORT_ACTIVE\<rparr>\<rparr>)"

definition bluerdma_netdev_stop :: "net_device \<Rightarrow> int \<times> net_device" where
  "bluerdma_netdev_stop nd =
     (0, nd\<lparr>nd_napi_enabled := False, nd_queue_started := False, nd_carrier := False,
            nd_priv := (nd_priv nd)\<lparr>bd_state := IB_PORT_DOWN\<rparr>\<rparr>)"

definition bluerdma_netdev_change_mtu :: "net_device \<Rightarrow> nat \<Rightarrow> int \<times> net_device" where
  "bluerdma_netdev_change_mtu nd new_mtu = (0, nd\<lparr>nd_mtu := new_mtu\<rparr>)"

text \<open>
  The poll routine completes with no work done; the result is the work done and whether the NAPI
  context was completed.
\<close>

definition bluerdma_napi_poll :: "nat \<Rightarrow> nat \<times> bool" where
  "bluerdma_napi_poll budget = (let work_done = 0 in (work_done, True))"

definition bluerdma_netdev_setup :: "mac \<Rightarrow> net_device \<Rightarrow> net_device" where
  "bluerdma_netdev_setup random_addr nd =
     (let nd = nd\<lparr>nd_ops_set := True,
                  nd_hw_features := [NETIF_F_SG, NETIF_F_IP_CSUM, NETIF_F_IPV6_CSUM, NETIF_F_RXCSUM]\<rparr>;
          nd = nd\<lparr>nd_features := nd_hw_features nd, nd_min_mtu := ETH_MIN_MTU,
                  nd_max_mtu := ETH_MAX_MTU, nd_mtu := BLUERDMA_DEFAULT_MTU,
                  nd_napi_added := True\<rparr>;
          nd = nd\<lparr>nd_dev_addr := random_addr\<rparr>;
          nd = nd\<lparr>nd_priv := (nd_priv nd)\<lparr>bd_mac_addr := nd_dev_addr nd\<rparr>\<rparr>
      in nd\<lparr>nd_carrier := False\<rparr>)"

subsection \<open>Sysfs\<close>

definition PAGE_SIZE :: nat where "PAGE_SIZE = 4096"

text \<open>
  The formatted print \<^verbatim>\<open>scnprintf\<close> of the kernel is a parameter \<open>scn\<close>: given the room left and a
  GID it yields the characters it stored, of which it returns the number.
\<close>

definition bluerdma_show_gids :: "(nat \<Rightarrow> ib_gid \<Rightarrow> string) \<Rightarrow> bluerdma_dev \<Rightarrow> nat \<times> string" where
  "bluerdma_show_gids scn dev =
     fold (\<lambda>i (len, buf).
             if ge_valid (bd_gid_table dev ! i)
             then let out = scn (PAGE_SIZE - len) (ge_gid (bd_gid_table dev ! i))
                  in (len + length out, buf @ out)
             else (len, buf))
       [0..<BLUERDMA_GID_TABLE_SIZE] (0, [])"

definition bluerdma_show_mac ::
  "(nat \<Rightarrow> mac \<Rightarrow> string) \<Rightarrow> (addr \<rightharpoonup> net_device) \<Rightarrow> bluerdma_dev \<Rightarrow> (nat \<times> string) option" where
  "bluerdma_show_mac scn netdevs dev =
     (case bd_netdev dev of
        Some q \<Rightarrow> do { nd \<leftarrow> netdevs q; let out = scn PAGE_SIZE (nd_dev_addr nd); Some (length out, out) }
      | None \<Rightarrow> let out = scn PAGE_SIZE (bd_mac_addr dev) in Some (length out, out))"

definition bluerdma_init_sysfs_attrs :: "bluerdma_dev \<Rightarrow> bluerdma_dev" where
  "bluerdma_init_sysfs_attrs dev = dev
     \<lparr>bd_gids_attr := \<lparr>da_name = ''gids'', da_mode = 0x124, da_show = Show_Gids, da_store = Show_None\<rparr>,
      bd_mac_attr := \<lparr>da_name = ''mac'', da_mode = 0x124, da_show = Show_Mac, da_store = Show_None\<rparr>\<rparr>"

subsection \<open>Port query\<close>

datatype ib_port_phys_state = IB_PORT_PHYS_STATE_DISABLED | IB_PORT_PHYS_STATE_LINK_UP

record ib_port_attr =
  pa_state :: ib_port_state
  pa_max_mtu :: nat
  pa_active_mtu :: nat
  pa_gid_tbl_len :: nat
  pa_port_cap_flags :: u32
  pa_max_msg_sz :: u32
  pa_bad_pkey_cntr :: u32
  pa_qkey_viol_cntr :: u32
  pa_pkey_tbl_len :: u16
  pa_lid :: u32
  pa_sm_lid :: u32
  pa_lmc :: u8
  pa_max_vl_num :: u8
  pa_sm_sl :: u8
  pa_subnet_timeout :: u8
  pa_init_type_reply :: u8
  pa_active_width :: u8
  pa_active_speed :: u16
  pa_phys_state :: "ib_port_phys_state option"

definition zero_port_attr :: ib_port_attr where
  "zero_port_attr = \<lparr>pa_state = IB_PORT_NOP, pa_max_mtu = 0, pa_active_mtu = 0, pa_gid_tbl_len = 0,
     pa_port_cap_flags = 0, pa_max_msg_sz = 0, pa_bad_pkey_cntr = 0, pa_qkey_viol_cntr = 0,
     pa_pkey_tbl_len = 0, pa_lid = 0, pa_sm_lid = 0, pa_lmc = 0, pa_max_vl_num = 0, pa_sm_sl = 0,
     pa_subnet_timeout = 0, pa_init_type_reply = 0, pa_active_width = 0, pa_active_speed = 0,
     pa_phys_state = None\<rparr>"

definition IB_PORT_CM_SUP :: u32 where "IB_PORT_CM_SUP = push_bit 16 1"
definition IB_PORT_DEVICE_MGMT_SUP :: u32 where "IB_PORT_DEVICE_MGMT_SUP = push_bit 19 1"

text \<open>
  The query takes the interface that the device's \<^verbatim>\<open>netdev\<close> pointer designates (\<open>None\<close> for NULL)
  and two IB core helpers as parameters: the speed and width of the Ethernet link and the MTU
  encoding.
\<close>

definition bluerdma_query_port ::
  "(net_device \<Rightarrow> u16 \<times> u8) \<Rightarrow> (nat \<Rightarrow> nat) \<Rightarrow> bluerdma_dev \<Rightarrow> net_device option
     \<Rightarrow> int \<times> ib_port_attr \<times> bluerdma_dev" where
  "bluerdma_query_port eth_speed mtu_enum dev ndev =
     (let attr = zero_port_attr\<lparr>pa_gid_tbl_len := BLUERDMA_GID_TABLE_SIZE,
            pa_port_cap_flags := IB_PORT_CM_SUP OR IB_PORT_DEVICE_MGMT_SUP,
            pa_max_msg_sz := 0x80000000, pa_pkey_tbl_len := 1, pa_bad_pkey_cntr := 0,
            pa_qkey_viol_cntr := 0, pa_lid := 0, pa_sm_lid := 0, pa_lmc := 0, pa_max_vl_num := 1,
            pa_sm_sl := 0, pa_subnet_timeout := 0, pa_init_type_reply := 0\<rparr>;
          (attr, dev) =
            (case ndev of
               None \<Rightarrow> (attr, dev)
             | Some nd \<Rightarrow>
                 let attr = attr\<lparr>pa_active_speed := fst (eth_speed nd),
                                 pa_active_width := snd (eth_speed nd),
                                 pa_max_mtu := mtu_enum (nd_mtu nd),
                                 pa_active_mtu := mtu_enum (nd_mtu nd)\<rparr>;
                     dev = (if nd_running nd \<and> nd_carrier nd then dev\<lparr>bd_state := IB_PORT_ACTIVE\<rparr>
                            else dev\<lparr>bd_state := IB_PORT_DOWN\<rparr>)
                 in (attr\<lparr>pa_state := bd_state dev\<rparr>, dev));
          attr = (if bd_state dev = IB_PORT_ACTIVE
                  then attr\<lparr>pa_phys_state := Some IB_PORT_PHYS_STATE_LINK_UP\<rparr>
                  else attr\<lparr>pa_phys_state := Some IB_PORT_PHYS_STATE_DISABLED\<rparr>)
      in (0, attr, dev))"

subsection \<open>The interface as a state machine\<close>

text \<open>
  The network core opens only an interface that is down and stops only one that is up, setting its
  running flag before it calls the driver; it sends packets to a running interface and checks a new
  MTU against the limits the driver announced. The carrier of the link may come and go at any time.
\<close>

inductive net_step :: "net_device \<Rightarrow> net_device \<Rightarrow> bool" where
  net_open: "\<not> nd_running nd \<Longrightarrow>
     net_step nd (snd (bluerdma_netdev_open (nd\<lparr>nd_running := True\<rparr>)))"
| net_stop: "nd_running nd \<Longrightarrow>
     net_step nd (snd (bluerdma_netdev_stop (nd\<lparr>nd_running := False\<rparr>)))"
| net_xmit: "nd_running nd \<Longrightarrow> bluerdma_netdev_xmit skbs nd skb = Some (r, skbs', nd') \<Longrightarrow>
     net_step nd nd'"
| net_mtu: "nd_min_mtu nd \<le> m \<Longrightarrow> m \<le> nd_max_mtu nd \<Longrightarrow>
     net_step nd (snd (bluerdma_netdev_change_mtu nd m))"
| net_carrier: "net_step nd (nd\<lparr>nd_carrier := c\<rparr>)"

inductive net_reachable :: "mac \<Rightarrow> net_device \<Rightarrow> bool" for a where
  net_start: "net_reachable a (bluerdma_netdev_setup a
     (zero_netdev\<lparr>nd_name := n, nd_priv := zero_dev\<lparr>bd_id := i, bd_netdev := q\<rparr>\<rparr>))"
| net_next: "net_reachable a nd \<Longrightarrow> net_step nd nd' \<Longrightarrow> net_reachable a nd'"

definition net_inv :: "mac \<Rightarrow> net_device \<Rightarrow> bool" where
  "net_inv a nd \<longleftrightarrow>
     nd_queue_started nd = nd_running nd \<and>
     nd_napi_enabled nd = nd_running nd \<and>
     (bd_state (nd_priv nd) = IB_PORT_ACTIVE \<longleftrightarrow> nd_running nd) \<and>
     nd_min_mtu nd = ETH_MIN_MTU \<and> nd_max_mtu nd = ETH_MAX_MTU \<and>
     ETH_MIN_MTU \<le> nd_mtu nd \<and> nd_mtu nd \<le> ETH_MAX_MTU \<and>
     nd_dev_addr nd = a \<and> bd_mac_addr (nd_priv nd) = a"

text \<open>The interface is running and its link has a carrier.\<close>

definition port_up :: "net_device \<Rightarrow> bool" where
  "port_up nd \<longleftrightarrow> nd_running nd \<and> nd_carrier nd"

lemmas net_op_defs =
  bluerdma_netdev_open_def bluerdma_netdev_stop_def bluerdma_netdev_xmit_def
  bluerdma_netdev_change_mtu_def

lemma net_inv_setup:
  "net_inv a (bluerdma_netdev_setup a
     (zero_netdev\<lparr>nd_name := n, nd_priv := zero_dev\<lparr>bd_id := i, bd_netdev := q\<rparr>\<rparr>))"
  by (simp add: net_inv_def bluerdma_netdev_setup_def zero_netdev_def zero_dev_def Let_def
      ETH_MIN_MTU_def ETH_MAX_MTU_def BLUERDMA_DEFAULT_MTU_def)

lemma net_inv_step: "net_step nd nd' \<Longrightarrow> net_inv a nd \<Longrightarrow> net_inv a nd'"
  by (induction rule: net_step.induct) (auto simp: net_inv_def net_op_defs split: bind_splits)

lemma net_reachable_inv: "net_reachable a nd \<Longrightarrow> net_inv a nd"
  by (induction rule: net_reachable.induct) (auto intro: net_inv_setup net_inv_step)

subsection \<open>Properties\<close>

text \<open>C3. In every state the interface can reach by opening, stopping, transmitting, changing the MTU and
  losing or regaining the carrier, the port query succeeds and reports the port active with its link up
  exactly when the interface is running and has a carrier, and down with the link disabled otherwise; the
  state reported is recorded in the device, and the MTU reported encodes that of the interface, which lies
  between the Ethernet limits. Opening a stopped interface brings the port up, stopping a running one takes
  it down.
\<close>

theorem query_port_reports_interface:
  assumes "net_reachable a nd"
  shows "(\<exists>attr dev'. bluerdma_query_port eth_speed mtu_enum dev (Some nd) = (0, attr, dev') \<and>
      pa_state attr = (if port_up nd then IB_PORT_ACTIVE else IB_PORT_DOWN) \<and>
      pa_phys_state attr = Some (if port_up nd then IB_PORT_PHYS_STATE_LINK_UP else IB_PORT_PHYS_STATE_DISABLED) \<and>
      dev' = dev\<lparr>bd_state := pa_state attr\<rparr> \<and> pa_active_mtu attr = mtu_enum (nd_mtu nd) \<and>
      ETH_MIN_MTU \<le> nd_mtu nd \<and> nd_mtu nd \<le> ETH_MAX_MTU) \<and>
    (\<not> nd_running nd \<longrightarrow> port_up (snd (bluerdma_netdev_open (nd\<lparr>nd_running := True\<rparr>)))) \<and>
    (nd_running nd \<longrightarrow> \<not> port_up (snd (bluerdma_netdev_stop (nd\<lparr>nd_running := False\<rparr>))))"
proof -
  have "net_inv a nd" using assms by (rule net_reachable_inv)
  then show ?thesis
    by (auto simp: net_inv_def bluerdma_query_port_def net_op_defs Let_def port_up_def)
qed

theorem query_port_reports_interface_witness:
  "let nd = snd (bluerdma_netdev_open ((bluerdma_netdev_setup [2, 0, 0, 0, 0, 1]
        (zero_netdev\<lparr>nd_name := ''blue0'', nd_priv := zero_dev\<lparr>bd_id := 0, bd_netdev := Some 1\<rparr>\<rparr>))
          \<lparr>nd_running := True\<rparr>))\<lparr>nd_carrier := False\<rparr>
   in \<exists>attr dev'. bluerdma_query_port (\<lambda>_. (32, 2)) (\<lambda>m. if 1024 \<le> m then 3 else 1) zero_dev (Some nd)
        = (0, attr, dev') \<and> pa_state attr = IB_PORT_DOWN"
proof -
  let ?fresh = "bluerdma_netdev_setup [2, 0, 0, 0, 0, 1]
        (zero_netdev\<lparr>nd_name := ''blue0'', nd_priv := zero_dev\<lparr>bd_id := 0, bd_netdev := Some 1\<rparr>\<rparr>)"
  let ?open = "snd (bluerdma_netdev_open (?fresh\<lparr>nd_running := True\<rparr>))"
  have "\<not> nd_running ?fresh" by (simp add: bluerdma_netdev_setup_def zero_netdev_def Let_def)
  then have "net_step ?fresh ?open" by (rule net_open)
  with net_start have "net_reachable [2, 0, 0, 0, 0, 1] ?open" by (rule net_next)
  from net_next [OF this net_carrier [of _ False]] have r: "net_reachable [2, 0, 0, 0, 0, 1] (?open\<lparr>nd_carrier := False\<rparr>)" .
  show ?thesis
    using conjunct1 [OF query_port_reports_interface [OF r, of "\<lambda>_. (32, 2)" "\<lambda>m. if 1024 \<le> m then 3 else 1" zero_dev]]
    unfolding Let_def by (auto simp: port_up_def)
qed

text \<open>A burst of transmits: each call consumes its buffer and is counted.\<close>

fun xmit_all :: "(addr \<rightharpoonup> u32) \<Rightarrow> net_device \<Rightarrow> addr list \<Rightarrow> ((addr \<rightharpoonup> u32) \<times> net_device) option" where
  "xmit_all skbs nd [] = Some (skbs, nd)"
| "xmit_all skbs nd (skb # ss) = do {
     (r, skbs', nd') \<leftarrow> bluerdma_netdev_xmit skbs nd skb;
     xmit_all skbs' nd' ss
   }"

text \<open>
  Transmitting a list of distinct live socket buffers never touches freed memory, frees exactly
  those buffers, and adds their number to the packet counter and the sum of their lengths to the
  byte counter (both modulo 2 to the 64, as the C counters wrap); sending one buffer twice is an
  access to freed memory.
\<close>

theorem xmit_all_accounting:
  assumes "distinct ss" and "set ss \<subseteq> dom skbs"
  shows "xmit_all skbs nd ss = Some (skbs |` (- set ss),
      nd\<lparr>nd_tx_packets := nd_tx_packets nd + of_nat (length ss),
         nd_tx_bytes := nd_tx_bytes nd + (\<Sum>s\<leftarrow>ss. ucast (the (skbs s)))\<rparr>)
    \<and> (skb \<in> set ss \<longrightarrow> bluerdma_netdev_xmit (skbs |` (- set ss)) nd skb = None)"
proof -
  have "xmit_all skbs nd ss = Some (skbs |` (- set ss),
      nd\<lparr>nd_tx_packets := nd_tx_packets nd + of_nat (length ss),
         nd_tx_bytes := nd_tx_bytes nd + (\<Sum>s\<leftarrow>ss. ucast (the (skbs s)))\<rparr>)"
    using assms
  proof (induction ss arbitrary: skbs nd)
    case (Cons s ss)
    then obtain len where len: "skbs s = Some len" by auto
    let ?m = "skbs(s := None)"
    let ?nd = "nd\<lparr>nd_tx_packets := nd_tx_packets nd + 1, nd_tx_bytes := nd_tx_bytes nd + ucast len\<rparr>"
    have "map (\<lambda>x. ucast (the (?m x)) :: u64) ss = map (\<lambda>x. ucast (the (skbs x))) ss"
      using Cons.prems by auto
    then have same: "(\<Sum>x\<leftarrow>ss. ucast (the (?m x)) :: u64) = (\<Sum>x\<leftarrow>ss. ucast (the (skbs x)))"
      by (rule arg_cong)
    have "?m |` (- set ss) = skbs |` (- set (s # ss))"
      by (auto simp: restrict_map_def fun_eq_iff)
    moreover from Cons.prems have "distinct ss" "set ss \<subseteq> dom ?m" by auto
    moreover have "xmit_all skbs nd (s # ss) = xmit_all ?m ?nd ss"
      by (simp add: bluerdma_netdev_xmit_def len)
    ultimately show ?case
      unfolding Cons.IH [OF \<open>distinct ss\<close> \<open>set ss \<subseteq> dom ?m\<close>, of ?nd]
      by (simp only: same) (simp add: len add.assoc)
  qed (simp add: restrict_map_def)
  then show ?thesis
    by (simp add: bluerdma_netdev_xmit_def)
qed

text \<open>
  The \<^verbatim>\<open>gids\<close> file lists every valid GID of the table in index order, one line of 40 characters
  each, without truncation, and the length returned is the length written, below the page size.
  The formatted print stores a line cut to the room left less one, and a GID with its newline
  prints as 40 characters.
\<close>

definition valid_gids :: "bluerdma_dev \<Rightarrow> ib_gid list" where
  "valid_gids dev = map ge_gid (filter ge_valid (bd_gid_table dev))"

lemma show_gids_loop:
  assumes fmt: "\<And>g. length (fmt g) = 40"
    and "len = length buf" and "len + 40 * length is < PAGE_SIZE"
  shows "fold (\<lambda>i (len, buf).
             if ge_valid (tab ! i)
             then let out = take (PAGE_SIZE - len - 1) (fmt (ge_gid (tab ! i)))
                  in (len + length out, buf @ out)
             else (len, buf)) is (len, buf) =
       (let out = buf @ concat (map (\<lambda>i. if ge_valid (tab ! i) then fmt (ge_gid (tab ! i)) else []) is)
        in (length out, out))"
  using assms(2-)
proof (induction "is" arbitrary: len buf)
  case (Cons i "is")
  then have "take (PAGE_SIZE - len - 1) (fmt g) = fmt g" for g
    by (simp add: fmt)
  then have step: "take (PAGE_SIZE - Suc len) (fmt g) = fmt g" for g
    by simp
  show ?case
  proof (cases "ge_valid (tab ! i)")
    case True
    with Cons.prems Cons.IH [of "len + 40" "buf @ fmt (ge_gid (tab ! i))"] show ?thesis
      by (simp add: step fmt Let_def)
  next
    case False
    with Cons.prems Cons.IH [of len buf] show ?thesis by simp
  qed
qed simp

lemma concat_map_filter_nth:
  "concat (map (\<lambda>i. if P (xs ! i) then f (xs ! i) else []) [0..<length xs]) = concat (map f (filter P xs))"
proof -
  have "concat (map (\<lambda>i. if P (xs ! i) then f (xs ! i) else []) [0..<length xs]) =
      concat (map (\<lambda>x. if P x then f x else []) xs)"
    using map_map [of "\<lambda>x. if P x then f x else []" "\<lambda>i. xs ! i" "[0..<length xs]"]
    by (simp add: map_nth comp_def)
  also have "\<dots> = concat (map f (filter P xs))"
    by (induction xs) auto
  finally show ?thesis .
qed

theorem show_gids_complete:
  assumes "gid_table_wf dev" and "\<And>g. length (fmt g) = 40"
  shows "bluerdma_show_gids (\<lambda>room g. take (room - 1) (fmt g)) dev =
      (let out = concat (map fmt (valid_gids dev)) in (length out, out))
    \<and> fst (bluerdma_show_gids (\<lambda>room g. take (room - 1) (fmt g)) dev) = 40 * length (valid_gids dev)
    \<and> 40 * length (valid_gids dev) < PAGE_SIZE"
proof -
  from assms(1) have n: "length (bd_gid_table dev) = BLUERDMA_GID_TABLE_SIZE"
    by (simp add: gid_table_wf_def)
  then have room: "40 * length (bd_gid_table dev) < PAGE_SIZE"
    by (simp add: BLUERDMA_GID_TABLE_SIZE_def PAGE_SIZE_def)
  have "bluerdma_show_gids (\<lambda>room g. take (room - 1) (fmt g)) dev =
      (let out = concat (map fmt (valid_gids dev)) in (length out, out))"
    unfolding bluerdma_show_gids_def
    unfolding n [symmetric]
    by (subst show_gids_loop)
      (simp_all add: assms valid_gids_def comp_def room
        concat_map_filter_nth [of ge_valid "bd_gid_table dev" "\<lambda>e. fmt (ge_gid e)"])
  moreover have "length (concat (map fmt gs)) = 40 * length gs" for gs
    by (induction gs) (simp_all add: assms)
  moreover have "length (valid_gids dev) \<le> 16"
    using length_filter_le [of ge_valid "bd_gid_table dev"] n
    by (simp add: valid_gids_def BLUERDMA_GID_TABLE_SIZE_def)
  ultimately show ?thesis by (simp add: Let_def PAGE_SIZE_def)
qed

lemma valid_gids_init:
  "valid_gids (bluerdma_init_gid_table dev) =
     (if bd_netdev dev = None then [] else [mac_to_eui64_gid (bd_mac_addr dev)])"
proof -
  have "replicate BLUERDMA_GID_TABLE_SIZE x = x # replicate 15 x" for x :: bluerdma_gid_entry
    using replicate_Suc [of 15 x] by (simp add: BLUERDMA_GID_TABLE_SIZE_def)
  then show ?thesis
    by (simp add: valid_gids_def bluerdma_init_gid_table_def Let_def zero_gid_entry_def)
qed

end
