(* ===== verification/KernelMain.thy ===== *)
theory KernelMain
  imports KernelNet
begin

text \<open>
  The life of the kernel module (\<^verbatim>\<open>kernel-driver/main.c\<close> and the creation and destruction of the
  interfaces in \<^verbatim>\<open>ethernet.c\<close>): the array of testing devices, their allocation and registration
  with the unwinding of every error path, and module load and unload. Objects of the IB core and the
  network core live in stores from addresses to values; \<open>None\<close> at an address is freed memory, and
  an operation that touches freed memory or a NULL pointer has no result.
\<close>

subsection \<open>Kernel state and the kernel's decisions\<close>

definition N_TESTING :: nat where "N_TESTING = 2"

record kernel =
  k_ib :: "addr \<rightharpoonup> bluerdma_dev"
  k_net :: "addr \<rightharpoonup> net_device"
  k_next :: addr
  k_testing :: "ptr list"
  k_ib_registered :: "addr set"
  k_net_registered :: "addr set"
  k_files :: "(addr \<times> string) set"
  k_netdev_of :: "(addr \<times> addr) set"

definition kernel_boot :: kernel where
  "kernel_boot = \<lparr>k_ib = Map.empty, k_net = Map.empty, k_next = 8,
     k_testing = replicate N_TESTING None, k_ib_registered = {}, k_net_registered = {},
     k_files = {}, k_netdev_of = {}\<rparr>"

text \<open>
  What the kernel decides for device \<open>i\<close>: whether allocations succeed, the random address, and the
  return values of the registration calls.
\<close>

record kernel_env =
  ib_alloc_device_ok :: "nat \<Rightarrow> bool"
  alloc_etherdev_ok :: "nat \<Rightarrow> bool"
  eth_random_addr :: "nat \<Rightarrow> mac"
  register_netdev_ret :: "nat \<Rightarrow> int"
  ib_register_device_ret :: "nat \<Rightarrow> int"
  device_create_file_ret :: "nat \<Rightarrow> string \<Rightarrow> int"
  ib_device_set_netdev_ret :: "nat \<Rightarrow> int"
  num_possible_cpus :: nat

subsection \<open>Kernel services\<close>

definition ib_dealloc_device :: "kernel \<Rightarrow> addr \<Rightarrow> kernel option" where
  "ib_dealloc_device k p = do { _ \<leftarrow> k_ib k p; Some (k\<lparr>k_ib := (k_ib k)(p := None)\<rparr>) }"

definition ib_unregister_device :: "kernel \<Rightarrow> addr \<Rightarrow> kernel option" where
  "ib_unregister_device k p = do {
     _ \<leftarrow> k_ib k p;
     Some (k\<lparr>k_ib_registered := k_ib_registered k - {p},
             k_files := {f \<in> k_files k. fst f \<noteq> p},
             k_netdev_of := {a \<in> k_netdev_of k. fst a \<noteq> p}\<rparr>)
   }"

definition free_netdev :: "kernel \<Rightarrow> addr \<Rightarrow> kernel option" where
  "free_netdev k q = do { _ \<leftarrow> k_net k q; Some (k\<lparr>k_net := (k_net k)(q := None)\<rparr>) }"

definition unregister_netdev :: "kernel \<Rightarrow> addr \<Rightarrow> kernel option" where
  "unregister_netdev k q = do { _ \<leftarrow> k_net k q; Some (k\<lparr>k_net_registered := k_net_registered k - {q}\<rparr>) }"

definition device_remove_file :: "kernel \<Rightarrow> addr \<Rightarrow> string \<Rightarrow> kernel option" where
  "device_remove_file k p name = do { _ \<leftarrow> k_ib k p; Some (k\<lparr>k_files := k_files k - {(p, name)}\<rparr>) }"

subsection \<open>Interfaces: creation and destruction\<close>

definition IFNAMSIZ :: nat where "IFNAMSIZ = 16"

definition bluerdma_create_netdev :: "kernel_env \<Rightarrow> kernel \<Rightarrow> addr \<Rightarrow> nat \<Rightarrow> (int \<times> kernel) option" where
  "bluerdma_create_netdev env k p i =
     (if \<not> alloc_etherdev_ok env i then Some (- ENOMEM, k)
      else do {
        let q = k_next k;
        let nd = zero_netdev\<lparr>nd_name := take (IFNAMSIZ - 1) (''blue'' @ show_nat i)\<rparr>;
        let nd = nd\<lparr>nd_priv := zero_dev\<lparr>bd_id := i, bd_netdev := Some q\<rparr>\<rparr>;
        dev \<leftarrow> k_ib k p;
        let dev = dev\<lparr>bd_netdev := Some q\<rparr>;
        let nd = bluerdma_netdev_setup (eth_random_addr env i) nd;
        let dev = bluerdma_init_gid_table dev;
        let k = k\<lparr>k_ib := (k_ib k)(p \<mapsto> dev), k_net := (k_net k)(q \<mapsto> nd), k_next := Suc q\<rparr>;
        let ret = register_netdev_ret env i;
        if ret \<noteq> 0 then do {
          k \<leftarrow> free_netdev k q;
          Some (ret, k\<lparr>k_ib := (k_ib k)(p \<mapsto> dev\<lparr>bd_netdev := None\<rparr>)\<rparr>)
        }
        else Some (0, k\<lparr>k_net_registered := insert q (k_net_registered k)\<rparr>)
      })"

definition bluerdma_destroy_netdev :: "kernel \<Rightarrow> addr \<Rightarrow> kernel option" where
  "bluerdma_destroy_netdev k p = do {
     dev \<leftarrow> k_ib k p;
     case bd_netdev dev of
       None \<Rightarrow> Some k
     | Some q \<Rightarrow> do {
         k \<leftarrow> unregister_netdev k q;
         k \<leftarrow> free_netdev k q;
         Some (k\<lparr>k_ib := (k_ib k)(p \<mapsto> dev\<lparr>bd_netdev := None\<rparr>)\<rparr>)
       }
   }"

subsection \<open>The testing devices\<close>

text \<open>
  Freeing the device in slot \<open>i\<close>: destroy its interface if it has one, deallocate it, clear the
  slot. Both unwinding loops of \<^verbatim>\<open>bluerdma_new_testing\<close> run it for the slots below \<open>i\<close>, downwards.
\<close>

definition free_testing_slot :: "kernel \<Rightarrow> nat \<Rightarrow> kernel option" where
  "free_testing_slot k i = do {
     p \<leftarrow> k_testing k ! i;
     dev \<leftarrow> k_ib k p;
     k \<leftarrow> (if bd_netdev dev \<noteq> None then bluerdma_destroy_netdev k p else Some k);
     k \<leftarrow> ib_dealloc_device k p;
     Some (k\<lparr>k_testing := (k_testing k)[i := None]\<rparr>)
   }"

fun new_testing_unwind :: "kernel \<Rightarrow> nat \<Rightarrow> kernel option" where
  "new_testing_unwind k 0 = Some k"
| "new_testing_unwind k (Suc i) = do { k \<leftarrow> free_testing_slot k i; new_testing_unwind k i }"

fun new_testing_loop :: "kernel_env \<Rightarrow> kernel \<Rightarrow> nat list \<Rightarrow> (int \<times> kernel) option" where
  "new_testing_loop env k [] = Some (0, k)"
| "new_testing_loop env k (i # is) =
     (if \<not> ib_alloc_device_ok env i then do {
        k \<leftarrow> new_testing_unwind k i;
        Some (- ENOMEM, k)
      }
      else do {
        let p = k_next k;
        let k = k\<lparr>k_ib := (k_ib k)(p \<mapsto> zero_dev\<lparr>bd_id := i\<rparr>), k_next := Suc p,
                  k_testing := (k_testing k)[i := Some p]\<rparr>;
        (ret, k) \<leftarrow> bluerdma_create_netdev env k p i;
        if ret \<noteq> 0 then do {
          k \<leftarrow> ib_dealloc_device k p;
          k \<leftarrow> new_testing_unwind k i;
          Some (ret, k)
        }
        else new_testing_loop env k is
      })"

definition bluerdma_new_testing :: "kernel_env \<Rightarrow> kernel \<Rightarrow> (int \<times> kernel) option" where
  "bluerdma_new_testing env k = new_testing_loop env k [0..<N_TESTING]"

fun free_testing_loop :: "kernel \<Rightarrow> nat list \<Rightarrow> kernel option" where
  "free_testing_loop k [] = Some k"
| "free_testing_loop k (i # is) =
     (if k_testing k ! i = None then free_testing_loop k is
      else do { k \<leftarrow> free_testing_slot k i; free_testing_loop k is })"

definition bluerdma_free_testing :: "kernel \<Rightarrow> kernel option" where
  "bluerdma_free_testing k = free_testing_loop k [0..<N_TESTING]"

subsection \<open>Registration with the IB core\<close>

definition RDMA_NODE_RNIC :: nat where "RDMA_NODE_RNIC = 4"

fun unregister_below :: "kernel \<Rightarrow> nat \<Rightarrow> kernel option" where
  "unregister_below k 0 = Some k"
| "unregister_below k (Suc i) = do {
     p \<leftarrow> k_testing k ! i;
     k \<leftarrow> ib_unregister_device k p;
     unregister_below k i
   }"

text \<open>
  A sysfs file exists once its creation succeeded; a failure is only logged. The same holds for the
  association of the interface.
\<close>

definition create_file :: "kernel_env \<Rightarrow> nat \<Rightarrow> addr \<Rightarrow> string \<Rightarrow> kernel \<Rightarrow> kernel" where
  "create_file env i p name k =
     (if device_create_file_ret env i name = 0 then k\<lparr>k_files := insert (p, name) (k_files k)\<rparr> else k)"

definition set_netdev :: "kernel_env \<Rightarrow> nat \<Rightarrow> addr \<Rightarrow> ptr \<Rightarrow> kernel \<Rightarrow> kernel" where
  "set_netdev env i p ndev k =
     (case ndev of
        None \<Rightarrow> k
      | Some q \<Rightarrow> if ib_device_set_netdev_ret env i = 0
                   then k\<lparr>k_netdev_of := insert (p, q) (k_netdev_of k)\<rparr> else k)"

fun device_add_loop :: "kernel_env \<Rightarrow> kernel \<Rightarrow> nat list \<Rightarrow> (int \<times> kernel) option" where
  "device_add_loop env k [] = Some (0, k)"
| "device_add_loop env k (i # is) = do {
     p \<leftarrow> k_testing k ! i;
     dev \<leftarrow> k_ib k p;
     let ib = (bd_ibdev dev)\<lparr>ib_node_desc := ''bluerdma'', ib_node_type := RDMA_NODE_RNIC,
                 ib_phys_port_cnt := 1, ib_num_comp_vectors := num_possible_cpus env,
                 ib_local_dma_lkey := 0, ib_ops_set := True\<rparr>;
     let dev = bluerdma_init_sysfs_attrs (dev\<lparr>bd_ibdev := ib\<rparr>);
     let k = k\<lparr>k_ib := (k_ib k)(p \<mapsto> dev)\<rparr>;
     let ret = ib_register_device_ret env i;
     if ret \<noteq> 0 then do {
       k \<leftarrow> unregister_below k i;
       k \<leftarrow> bluerdma_free_testing k;
       Some (ret, k)
     }
     else do {
       let k = k\<lparr>k_ib_registered := insert p (k_ib_registered k)\<rparr>;
       let k = create_file env i p (da_name (bd_gids_attr dev)) k;
       let k = create_file env i p (da_name (bd_mac_attr dev)) k;
       let k = set_netdev env i p (bd_netdev dev) k;
       device_add_loop env k is
     }
   }"

definition bluerdma_ib_device_add :: "kernel_env \<Rightarrow> kernel \<Rightarrow> (int \<times> kernel) option" where
  "bluerdma_ib_device_add env k = do {
     (ret, k) \<leftarrow> bluerdma_new_testing env k;
     if ret \<noteq> 0 then Some (ret, k) else device_add_loop env k [0..<N_TESTING]
   }"

fun device_remove_loop :: "kernel \<Rightarrow> nat list \<Rightarrow> kernel option" where
  "device_remove_loop k [] = Some k"
| "device_remove_loop k (i # is) =
     (case k_testing k ! i of
        None \<Rightarrow> device_remove_loop k is
      | Some p \<Rightarrow> do {
          dev \<leftarrow> k_ib k p;
          k \<leftarrow> device_remove_file k p (da_name (bd_gids_attr dev));
          k \<leftarrow> device_remove_file k p (da_name (bd_mac_attr dev));
          k \<leftarrow> ib_unregister_device k p;
          device_remove_loop k is
        })"

definition bluerdma_ib_device_remove :: "kernel \<Rightarrow> kernel option" where
  "bluerdma_ib_device_remove k = do {
     k \<leftarrow> device_remove_loop k [0..<N_TESTING];
     bluerdma_free_testing k
   }"

subsection \<open>Probe, remove and the module entry points\<close>

definition bluerdma_probe :: "kernel_env \<Rightarrow> kernel \<Rightarrow> (int \<times> kernel) option" where
  "bluerdma_probe env k = do {
     (ret, k) \<leftarrow> bluerdma_ib_device_add env k;
     if ret \<noteq> 0 then Some (ret, k) else Some (0, k)
   }"

definition bluerdma_remove :: "kernel \<Rightarrow> kernel option" where
  "bluerdma_remove k = bluerdma_ib_device_remove k"

definition bluerdma_init_module :: "kernel_env \<Rightarrow> kernel \<Rightarrow> (int \<times> kernel) option" where
  "bluerdma_init_module env k = do { (ret, k) \<leftarrow> bluerdma_probe env k; Some (0, k) }"

definition bluerdma_exit_module :: "kernel \<Rightarrow> kernel option" where
  "bluerdma_exit_module k = bluerdma_remove k"

subsection \<open>When module load leaves a freed device behind\<close>

definition netdev_create_fails :: "kernel_env \<Rightarrow> nat \<Rightarrow> bool" where
  "netdev_create_fails env i \<longleftrightarrow> \<not> alloc_etherdev_ok env i \<or> register_netdev_ret env i \<noteq> 0"

definition leaves_dangling_slot :: "kernel_env \<Rightarrow> bool" where
  "leaves_dangling_slot env \<longleftrightarrow> ib_alloc_device_ok env 0 \<and>
     (netdev_create_fails env 0 \<or> (ib_alloc_device_ok env 1 \<and> netdev_create_fails env 1))"

definition kernel_clean :: "kernel \<Rightarrow> bool" where
  "kernel_clean k \<longleftrightarrow> k_ib k = Map.empty \<and> k_net k = Map.empty \<and> k_testing k = [None, None] \<and>
     k_ib_registered k = {} \<and> k_net_registered k = {} \<and> k_files k = {} \<and> k_netdev_of k = {}"

subsection \<open>Effects of the loops, step by step\<close>

declare new_testing_loop.simps(2) [simp del] device_add_loop.simps(2) [simp del]
  device_remove_loop.simps(2) [simp del] free_testing_loop.simps(2) [simp del]

lemma testing_slots: "[0..<N_TESTING] = [0, 1]"
  by (simp add: N_TESTING_def upt_rec)

lemma init_gid_table_fields [simp]:
  "bd_netdev (bluerdma_init_gid_table dev) = bd_netdev dev"
  "bd_mac_addr (bluerdma_init_gid_table dev) = bd_mac_addr dev"
  "bd_ibdev (bluerdma_init_gid_table dev) = bd_ibdev dev"
  by (simp_all add: bluerdma_init_gid_table_def Let_def)

text \<open>The device in slot i with its interface: what creation leaves.\<close>

definition new_ib_dev :: "nat \<Rightarrow> addr \<Rightarrow> bluerdma_dev" where
  "new_ib_dev i q = bluerdma_init_gid_table (zero_dev\<lparr>bd_id := i, bd_netdev := Some q\<rparr>)"

definition new_net_dev :: "kernel_env \<Rightarrow> nat \<Rightarrow> addr \<Rightarrow> net_device" where
  "new_net_dev env i q = bluerdma_netdev_setup (eth_random_addr env i)
     (zero_netdev\<lparr>nd_name := take (IFNAMSIZ - 1) (''blue'' @ show_nat i),
                  nd_priv := zero_dev\<lparr>bd_id := i, bd_netdev := Some q\<rparr>\<rparr>)"

lemma new_ib_dev_netdev [simp]: "bd_netdev (new_ib_dev i q) = Some q"
  by (simp add: new_ib_dev_def)

definition add_pair :: "kernel_env \<Rightarrow> kernel \<Rightarrow> nat \<Rightarrow> kernel" where
  "add_pair env k i = (let p = k_next k; q = Suc p in
     k\<lparr>k_ib := (k_ib k)(p \<mapsto> new_ib_dev i q), k_net := (k_net k)(q \<mapsto> new_net_dev env i q),
       k_next := Suc q, k_testing := (k_testing k)[i := Some p],
       k_net_registered := insert q (k_net_registered k)\<rparr>)"

lemma new_testing_step:
  assumes "ib_alloc_device_ok env i" "\<not> netdev_create_fails env i"
  shows "new_testing_loop env k (i # is) = new_testing_loop env (add_pair env k i) is"
  using assms
  by (auto simp: new_testing_loop.simps(2) netdev_create_fails_def bluerdma_create_netdev_def Let_def add_pair_def
     new_ib_dev_def new_net_dev_def intro!: arg_cong [where f = "\<lambda>k. new_testing_loop env k is"] kernel.equality)

text \<open>Freeing a slot.\<close>

lemma free_testing_slot_eq:
  assumes "k_testing k ! i = Some p" "k_ib k p = Some dev" "bd_netdev dev = Some q" "k_net k q = Some nd"
  shows "free_testing_slot k i = Some (k\<lparr>k_ib := (k_ib k)(p := None), k_net := (k_net k)(q := None),
     k_net_registered := k_net_registered k - {q}, k_testing := (k_testing k)[i := None]\<rparr>)"
  using assms
  by (simp add: free_testing_slot_def bluerdma_destroy_netdev_def unregister_netdev_def
     free_netdev_def ib_dealloc_device_def)

definition register_dev :: "kernel_env \<Rightarrow> bluerdma_dev \<Rightarrow> bluerdma_dev" where
  "register_dev env dev = bluerdma_init_sysfs_attrs (dev\<lparr>bd_ibdev := (bd_ibdev dev)
    \<lparr>ib_node_desc := ''bluerdma'', ib_node_type := RDMA_NODE_RNIC,
                 ib_phys_port_cnt := 1, ib_num_comp_vectors := num_possible_cpus env,
                 ib_local_dma_lkey := 0, ib_ops_set := True\<rparr>\<rparr>)"

lemma register_dev_fields [simp]:
  "bd_netdev (register_dev env dev) = bd_netdev dev"
  "bd_gid_table (register_dev env dev) = bd_gid_table dev"
  "da_name (bd_gids_attr (register_dev env dev)) = ''gids''"
  "da_name (bd_mac_attr (register_dev env dev)) = ''mac''"
  by (simp_all add: register_dev_def bluerdma_init_sysfs_attrs_def)

lemma device_add_step:
  assumes "k_testing k ! i = Some p" "k_ib k p = Some dev"
  shows "device_add_loop env k (i # is) =
    (let k = k\<lparr>k_ib := (k_ib k)(p \<mapsto> register_dev env dev)\<rparr> in
     if ib_register_device_ret env i \<noteq> 0 then do {
       k \<leftarrow> unregister_below k i; k \<leftarrow> bluerdma_free_testing k; Some (ib_register_device_ret env i, k) }
     else device_add_loop env (set_netdev env i p (bd_netdev dev)
       (create_file env i p ''mac'' (create_file env i p ''gids''
          (k\<lparr>k_ib_registered := insert p (k_ib_registered k)\<rparr>)))) is)"
  using assms register_dev_fields [of env dev, unfolded register_dev_def]
  by (simp add: device_add_loop.simps(2) Let_def register_dev_def)

definition reg_ok :: "kernel_env \<Rightarrow> nat \<Rightarrow> addr \<Rightarrow> bluerdma_dev \<Rightarrow> kernel \<Rightarrow> kernel" where
  "reg_ok env i p dev k = set_netdev env i p (bd_netdev dev)
     (create_file env i p ''mac'' (create_file env i p ''gids''
        (k\<lparr>k_ib := (k_ib k)(p \<mapsto> register_dev env dev), k_ib_registered := insert p (k_ib_registered k)\<rparr>)))"

lemma reg_ok_fields [simp]:
  "k_ib (reg_ok env i p dev k) = (k_ib k)(p \<mapsto> register_dev env dev)"
  "k_net (reg_ok env i p dev k) = k_net k"
  "k_testing (reg_ok env i p dev k) = k_testing k"
  "k_net_registered (reg_ok env i p dev k) = k_net_registered k"
  "k_ib_registered (reg_ok env i p dev k) = insert p (k_ib_registered k)"
  by (simp_all add: reg_ok_def set_netdev_def create_file_def split: option.split)

lemma reg_ok_subset:
  "fst ` k_files k \<subseteq> R \<Longrightarrow> fst ` k_files (reg_ok env i p dev k) \<subseteq> insert p R"
  "fst ` k_netdev_of k \<subseteq> R \<Longrightarrow> fst ` k_netdev_of (reg_ok env i p dev k) \<subseteq> insert p R"
  by (auto simp: reg_ok_def set_netdev_def create_file_def split: option.splits if_splits)

lemma device_add_ok:
  assumes "k_testing k ! i = Some p" "k_ib k p = Some dev" "ib_register_device_ret env i = 0"
  shows "device_add_loop env k (i # is) = device_add_loop env (reg_ok env i p dev k) is"
  using assms by (simp add: device_add_step reg_ok_def)

lemma device_add_fail:
  assumes "k_testing k ! i = Some p" "k_ib k p = Some dev" "ib_register_device_ret env i \<noteq> 0"
  shows "device_add_loop env k (i # is) = do {
       k \<leftarrow> unregister_below (k\<lparr>k_ib := (k_ib k)(p \<mapsto> register_dev env dev)\<rparr>) i;
       k \<leftarrow> bluerdma_free_testing k; Some (ib_register_device_ret env i, k) }"
  using assms by (simp add: device_add_step)

lemma device_remove_step:
  assumes "k_testing k ! i = Some p" "k_ib k p = Some dev"
  shows "device_remove_loop k (i # is) = device_remove_loop (k\<lparr>k_ib_registered := k_ib_registered k - {p},
             k_files := {f \<in> k_files k. fst f \<noteq> p},
             k_netdev_of := {a \<in> k_netdev_of k. fst a \<noteq> p}\<rparr>) is"
  using assms by (auto simp: device_remove_loop.simps(2) device_remove_file_def ib_unregister_device_def intro!: arg_cong [where f = "\<lambda>k. device_remove_loop k is"] kernel.equality)


subsection \<open>Two live devices\<close>

definition two_devices :: "kernel_env \<Rightarrow> kernel" where
  "two_devices env = add_pair env (add_pair env kernel_boot 0) 1"

lemma two_devices_new:
  assumes "ib_alloc_device_ok env 0" "\<not> netdev_create_fails env 0" "ib_alloc_device_ok env 1" "\<not> netdev_create_fails env 1"
  shows "bluerdma_new_testing env kernel_boot = Some (0, two_devices env)"
  using assms by (simp add: bluerdma_new_testing_def testing_slots new_testing_step two_devices_def)

text \<open>Both slots hold a live device with its live interface.\<close>

definition live_pairs :: "kernel \<Rightarrow> bool" where
  "live_pairs k \<longleftrightarrow> k_testing k = [Some 8, Some 10] \<and>
     (\<exists>d e. k_ib k = [8 \<mapsto> d, 10 \<mapsto> e] \<and> bd_netdev d = Some 9 \<and> bd_netdev e = Some 11) \<and>
     (\<exists>m n. k_net k = [9 \<mapsto> m, 11 \<mapsto> n]) \<and> k_net_registered k = {9, 11} \<and>
     k_ib_registered k \<subseteq> {8, 10} \<and>
     fst ` k_files k \<subseteq> k_ib_registered k \<and> fst ` k_netdev_of k \<subseteq> k_ib_registered k"

lemma live_pairsE:
  assumes "live_pairs k"
  obtains d e m n where "k_testing k = [Some 8, Some 10]" "k_ib k = [8 \<mapsto> d, 10 \<mapsto> e]"
    "bd_netdev d = Some 9" "bd_netdev e = Some 11" "k_net k = [9 \<mapsto> m, 11 \<mapsto> n]"
    "k_net_registered k = {9, 11}" "k_ib_registered k \<subseteq> {8, 10}"
    "fst ` k_files k \<subseteq> k_ib_registered k" "fst ` k_netdev_of k \<subseteq> k_ib_registered k"
  using assms unfolding live_pairs_def by (elim conjE exE) (rule that)

lemma live_pairsI:
  assumes "k_testing k = [Some 8, Some 10]" "k_ib k = [8 \<mapsto> d, 10 \<mapsto> e]"
    "bd_netdev d = Some 9" "bd_netdev e = Some 11" "k_net k = [9 \<mapsto> m, 11 \<mapsto> n]"
    "k_net_registered k = {9, 11}" "k_ib_registered k \<subseteq> {8, 10}"
    "fst ` k_files k \<subseteq> k_ib_registered k" "fst ` k_netdev_of k \<subseteq> k_ib_registered k"
  shows "live_pairs k"
  unfolding live_pairs_def by (intro conjI exI) (rule assms)+

lemma two_devices_fields:
  "k_testing (two_devices env) = [Some 8, Some 10]"
  "k_ib (two_devices env) = [8 \<mapsto> new_ib_dev 0 9, 10 \<mapsto> new_ib_dev 1 11]"
  "k_net (two_devices env) = [9 \<mapsto> new_net_dev env 0 9, 11 \<mapsto> new_net_dev env 1 11]"
  "k_net_registered (two_devices env) = {9, 11}" "k_ib_registered (two_devices env) = {}"
  "k_files (two_devices env) = {}" "k_netdev_of (two_devices env) = {}"
  by (auto simp: two_devices_def add_pair_def kernel_boot_def N_TESTING_def Let_def numeral_2_eq_2)

lemma two_devices_live: "live_pairs (two_devices env)"
  by (rule live_pairsI [of _ "new_ib_dev 0 9" "new_ib_dev 1 11"]) (simp_all add: two_devices_fields)

lemma free_loop_step:
  assumes "k_testing k ! i = Some p" 
  shows "free_testing_loop k (i # is) = do { k \<leftarrow> free_testing_slot k i; free_testing_loop k is }"
  using assms by (simp add: free_testing_loop.simps(2))

lemma free_live_pairs:
  assumes "live_pairs k" "k_ib_registered k = {}"
  shows "\<exists>k'. bluerdma_free_testing k = Some k' \<and> kernel_clean k'"
  using assms(1)
proof (rule live_pairsE)
  fix d e m n
  assume "k_testing k = [Some 8, Some 10]" "k_ib k = [8 \<mapsto> d, 10 \<mapsto> e]"
    "bd_netdev d = Some 9" "bd_netdev e = Some 11" "k_net k = [9 \<mapsto> m, 11 \<mapsto> n]"
    "k_net_registered k = {9, 11}" 
    "fst ` k_files k \<subseteq> k_ib_registered k" "fst ` k_netdev_of k \<subseteq> k_ib_registered k"
  with assms(2) show ?thesis
    by (simp add: bluerdma_free_testing_def testing_slots free_loop_step free_testing_slot_eq kernel_clean_def fun_eq_iff)
qed

lemma owned_by_one: "fst ` S \<subseteq> {p} \<Longrightarrow> {x \<in> S. fst x \<noteq> p} = {}"
  by auto

lemma owned_by_two: "fst ` S \<subseteq> R \<Longrightarrow> R \<subseteq> {p, q} \<Longrightarrow> {x \<in> S. fst x \<noteq> p \<and> fst x \<noteq> q} = {}"
  by fastforce

lemma remove_live_pairs:
  assumes "live_pairs k"
  shows "\<exists>k'. bluerdma_ib_device_remove k = Some k' \<and> kernel_clean k'"
proof -
  let ?k = "k\<lparr>k_ib_registered := {}, k_files := {}, k_netdev_of := {}\<rparr>"
  from assms have "device_remove_loop k [0, 1] = Some ?k"
  proof (rule live_pairsE)
    fix d e m n
    assume "k_testing k = [Some 8, Some 10]" "k_ib k = [8 \<mapsto> d, 10 \<mapsto> e]"
      and R: "k_ib_registered k \<subseteq> {8, 10}"
      and F: "fst ` k_files k \<subseteq> k_ib_registered k" and N: "fst ` k_netdev_of k \<subseteq> k_ib_registered k"
    moreover have "k_ib_registered k - {8} - {10} = {}" using R by blast
    ultimately show ?thesis
      using owned_by_two [OF F R] owned_by_two [OF N R] by (simp add: device_remove_step)
  qed
  moreover from assms have "live_pairs ?k" by (simp add: live_pairs_def)
  ultimately show ?thesis by (simp add: bluerdma_ib_device_remove_def testing_slots free_live_pairs)
qed

lemma live_pairs_reg:
  assumes "live_pairs k" "k_ib k p = Some dev" "p = 8 \<or> p = 10"
  shows "live_pairs (reg_ok env i p dev k)" "live_pairs (k\<lparr>k_ib := (k_ib k)(p \<mapsto> register_dev env dev)\<rparr>)"
proof -
  from assms(1) obtain d e m n where *: "k_testing k = [Some 8, Some 10]" "k_ib k = [8 \<mapsto> d, 10 \<mapsto> e]"
    "bd_netdev d = Some 9" "bd_netdev e = Some 11" "k_net k = [9 \<mapsto> m, 11 \<mapsto> n]"
    "k_net_registered k = {9, 11}" "k_ib_registered k \<subseteq> {8, 10}"
    "fst ` k_files k \<subseteq> k_ib_registered k" "fst ` k_netdev_of k \<subseteq> k_ib_registered k" by (rule live_pairsE)
  have "live_pairs (reg_ok env i p dev k) \<and> live_pairs (k\<lparr>k_ib := (k_ib k)(p \<mapsto> register_dev env dev)\<rparr>)"
  proof (cases "p = 8")
    case True
    with * assms have [simp]: "dev = d" by simp
    have "(k_ib k)(8 \<mapsto> register_dev env d) = [8 \<mapsto> register_dev env d, 10 \<mapsto> e]" by (auto simp: *)
    with True * show ?thesis
      using live_pairsI [of "reg_ok env i p dev k" "register_dev env d" e m n]
        live_pairsI [of "k\<lparr>k_ib := (k_ib k)(p \<mapsto> register_dev env dev)\<rparr>" "register_dev env d" e m n]
      by (auto simp: reg_ok_subset)
  next
    case False
    with * assms have [simp]: "dev = e" "p = 10" by simp_all
    have "(k_ib k)(10 \<mapsto> register_dev env e) = [8 \<mapsto> d, 10 \<mapsto> register_dev env e]" by (auto simp: *)
    with * show ?thesis
      using live_pairsI [of "reg_ok env i p dev k" d "register_dev env e" m n]
        live_pairsI [of "k\<lparr>k_ib := (k_ib k)(p \<mapsto> register_dev env dev)\<rparr>" d "register_dev env e" m n]
      by (auto simp: reg_ok_subset)
  qed
  then show "live_pairs (reg_ok env i p dev k)" "live_pairs (k\<lparr>k_ib := (k_ib k)(p \<mapsto> register_dev env dev)\<rparr>)" by simp_all
qed

lemma device_add_fails:
  assumes "live_pairs k" "k_ib_registered k = {}"
    and "ib_register_device_ret env 0 \<noteq> 0 \<or> ib_register_device_ret env 1 \<noteq> 0"
  shows "\<exists>r k'. device_add_loop env k [0, 1] = Some (r, k') \<and> kernel_clean k'"
proof -
  from assms(1) obtain d e where *: "k_testing k = [Some 8, Some 10]" "k_ib k = [8 \<mapsto> d, 10 \<mapsto> e]"
    by (rule live_pairsE)
  show ?thesis
  proof (cases "ib_register_device_ret env 0 = 0")
    case False
    let ?k = "k\<lparr>k_ib := (k_ib k)(8 \<mapsto> register_dev env d)\<rparr>"
    have "live_pairs ?k" using assms(1) * by (intro live_pairs_reg(2)) simp_all
    with assms(2) obtain k' where "bluerdma_free_testing ?k = Some k'" "kernel_clean k'"
      using free_live_pairs [of ?k] by auto
    with False * show ?thesis by (simp add: device_add_fail)
  next
    case True
    let ?k1 = "reg_ok env 0 8 d k"
    let ?k2 = "?k1\<lparr>k_ib := (k_ib ?k1)(10 \<mapsto> register_dev env e)\<rparr>"
    let ?k3 = "?k2\<lparr>k_ib_registered := {}, k_files := {}, k_netdev_of := {}\<rparr>"
    have 1: "live_pairs ?k1" by (rule live_pairs_reg(1) [OF assms(1)]) (simp_all add: *)
    have 2: "live_pairs ?k2" by (rule live_pairs_reg(2) [OF 1]) (simp_all add: *)
    have "fst ` k_files ?k2 \<subseteq> {8}" "fst ` k_netdev_of ?k2 \<subseteq> {8}"
      using 2 assms(2) by (simp_all add: live_pairs_def)
    from this [THEN owned_by_one] have "unregister_below ?k2 1 = Some ?k3"
      using * assms(2) by (simp add: ib_unregister_device_def)
    moreover from 2 have "live_pairs ?k3" by (simp add: live_pairs_def)
    then obtain k' where "bluerdma_free_testing ?k3 = Some k'" "kernel_clean k'"
      using free_live_pairs [of ?k3] by auto
    ultimately show ?thesis using True * assms(3) by (simp add: device_add_ok device_add_fail)
  qed
qed

lemma device_add_succeeds:
  assumes "live_pairs k" "k_ib_registered k = {}" "ib_register_device_ret env 0 = 0" "ib_register_device_ret env 1 = 0"
  shows "\<exists>k'. device_add_loop env k [0, 1] = Some (0, k') \<and> live_pairs k' \<and> k_ib_registered k' = {8, 10} \<and> 
    k_ib k' = map_option (register_dev env) \<circ> k_ib k \<and> k_net k' = k_net k"
proof -
  from assms(1) obtain d e where *: "k_testing k = [Some 8, Some 10]" "k_ib k = [8 \<mapsto> d, 10 \<mapsto> e]"
    by (rule live_pairsE)
  let ?k1 = "reg_ok env 0 8 d k"
  let ?k2 = "reg_ok env 1 10 e ?k1"
  have 1: "live_pairs ?k1" by (rule live_pairs_reg(1) [OF assms(1)]) (simp_all add: *)
  have 2: "live_pairs ?k2" by (rule live_pairs_reg(1) [OF 1]) (simp_all add: *)
  moreover have "device_add_loop env k [0, 1] = Some (0, ?k2)"
    using * assms by (simp add: device_add_ok)
  moreover have "k_ib ?k2 = map_option (register_dev env) \<circ> k_ib k" using * by (simp add: fun_eq_iff)
  ultimately show ?thesis using assms(2) by auto
qed


subsection \<open>Load and unload\<close>

lemma boot_fields [simp]:
  "k_testing kernel_boot = [None, None]" "k_ib kernel_boot = Map.empty" "k_net kernel_boot = Map.empty"
  "k_next kernel_boot = 8" "k_ib_registered kernel_boot = {}" "k_net_registered kernel_boot = {}"
  "k_files kernel_boot = {}" "k_netdev_of kernel_boot = {}"
  by (simp_all add: kernel_boot_def N_TESTING_def numeral_2_eq_2)

lemma exit_clean: "kernel_clean k \<Longrightarrow> bluerdma_exit_module k = Some k"
  by (simp add: bluerdma_exit_module_def bluerdma_remove_def bluerdma_ib_device_remove_def
     bluerdma_free_testing_def testing_slots kernel_clean_def device_remove_loop.simps(2) free_testing_loop.simps(2))

lemma init_from_new_testing_fails:
  assumes "bluerdma_new_testing env k = Some (r, k')" "r \<noteq> 0"
  shows "bluerdma_init_module env k = Some (0, k')"
  using assms by (simp add: bluerdma_init_module_def bluerdma_probe_def bluerdma_ib_device_add_def)

lemma init_from_device_add:
  assumes "bluerdma_new_testing env k = Some (0, k')" "device_add_loop env k' [0, 1] = Some (r, k'')"
  shows "bluerdma_init_module env k = Some (0, k'')"
  using assms by (simp add: bluerdma_init_module_def bluerdma_probe_def bluerdma_ib_device_add_def testing_slots)

text \<open>A slot that still points to a freed device makes the unload touch freed memory.\<close>

lemma exit_dangling:
  assumes "k_testing k = [Some p, None] \<or> k_testing k = [None, Some p]" "k_ib k p = None"
  shows "bluerdma_exit_module k = None"
  using assms by (auto simp: bluerdma_exit_module_def bluerdma_remove_def bluerdma_ib_device_remove_def
     testing_slots device_remove_loop.simps(2))

definition create_failure :: "kernel_env \<Rightarrow> kernel \<Rightarrow> nat \<Rightarrow> int \<times> kernel" where
  "create_failure env k i =
    (let k' = k\<lparr>k_ib := (k_ib k)(k_next k := None), k_next := Suc (k_next k), k_testing := (k_testing k)[i := Some (k_next k)]\<rparr>
     in if alloc_etherdev_ok env i
      then (register_netdev_ret env i, k'\<lparr>k_next := Suc (k_next k'), k_net := (k_net k)(k_next k' := None)\<rparr>)
      else (- ENOMEM, k'))"

lemma new_testing_netdev_fails:
  assumes "ib_alloc_device_ok env i" "netdev_create_fails env i"
  shows "new_testing_loop env k (i # is) =
     do { k' \<leftarrow> new_testing_unwind (snd (create_failure env k i)) i; Some (fst (create_failure env k i), k') }"
  using assms 
  by (cases "alloc_etherdev_ok env i")
    (auto simp: new_testing_loop.simps(2) netdev_create_fails_def bluerdma_create_netdev_def Let_def
      free_netdev_def ib_dealloc_device_def create_failure_def
      intro!: arg_cong [where f = "\<lambda>k. Option.bind (new_testing_unwind k i) (\<lambda>k. Some (_, k))"] kernel.equality)

lemma new_testing_alloc_fails:
  "\<not> ib_alloc_device_ok env i \<Longrightarrow>
   new_testing_loop env k (i # is) = do { k \<leftarrow> new_testing_unwind k i; Some (- ENOMEM, k) }"
  by (simp add: new_testing_loop.simps(2))

lemma create_failure_fields:
  "netdev_create_fails env i \<Longrightarrow> fst (create_failure env k i) \<noteq> 0"
  "k_testing (snd (create_failure env k i)) = (k_testing k)[i := Some (k_next k)]"
  "k_ib (snd (create_failure env k i)) = (k_ib k)(k_next k := None)"
  "q < k_next k \<Longrightarrow> k_net (snd (create_failure env k i)) q = k_net k q"
  by (auto simp: create_failure_def netdev_create_fails_def Let_def)

lemma module_load_dangling:
  assumes "leaves_dangling_slot env"
  shows "\<exists>k. bluerdma_init_module env kernel_boot = Some (0, k) \<and> bluerdma_exit_module k = None"
proof (cases "netdev_create_fails env 0")
  case True
  with assms have "bluerdma_new_testing env kernel_boot =
      Some (fst (create_failure env kernel_boot 0), snd (create_failure env kernel_boot 0))"
    by (simp add: bluerdma_new_testing_def testing_slots leaves_dangling_slot_def new_testing_netdev_fails)
  moreover have "bluerdma_exit_module (snd (create_failure env kernel_boot 0)) = None"
    by (rule exit_dangling [of _ 8]) (simp_all add: create_failure_fields)
  ultimately show ?thesis
    using True init_from_new_testing_fails create_failure_fields(1) by blast
next
  case False
  let ?k = "add_pair env kernel_boot 0"
  let ?f = "create_failure env ?k 1"
  have k: "k_testing ?k = [Some 8, None]" "k_ib ?k = [8 \<mapsto> new_ib_dev 0 9]" "k_net ?k = [9 \<mapsto> new_net_dev env 0 9]"
    "k_next ?k = 10" by (simp_all add: add_pair_def Let_def)
  let ?k' = "(snd ?f)\<lparr>k_ib := (k_ib (snd ?f))(8 := None), k_net := (k_net (snd ?f))(9 := None),
     k_net_registered := k_net_registered (snd ?f) - {9}, k_testing := (k_testing (snd ?f))[0 := None]\<rparr>"
  have "new_testing_unwind (snd ?f) 1 = Some ?k'"
    by (simp add: free_testing_slot_eq [of _ 0 8 "new_ib_dev 0 9" 9 "new_net_dev env 0 9"] create_failure_fields k)
  with assms False have "bluerdma_new_testing env kernel_boot = Some (fst ?f, ?k')"
    by (simp add: bluerdma_new_testing_def testing_slots leaves_dangling_slot_def new_testing_step new_testing_netdev_fails)
  moreover have "bluerdma_exit_module ?k' = None"
    by (rule exit_dangling [of _ 10]) (simp_all add: create_failure_fields k)
  moreover have "fst ?f \<noteq> 0"
    using assms False by (simp add: leaves_dangling_slot_def create_failure_fields)
  ultimately show ?thesis
    using init_from_new_testing_fails by blast
qed

lemma module_load_no_dangling:
  assumes "\<not> leaves_dangling_slot env"
  shows "\<exists>k k'. bluerdma_init_module env kernel_boot = Some (0, k) \<and> bluerdma_exit_module k = Some k' \<and> kernel_clean k'"
proof -
  have boot: "kernel_clean kernel_boot" by (simp add: kernel_clean_def)
  consider "\<not> ib_alloc_device_ok env 0"
    | "ib_alloc_device_ok env 0" "\<not> netdev_create_fails env 0" "\<not> ib_alloc_device_ok env 1"
    | "ib_alloc_device_ok env 0" "\<not> netdev_create_fails env 0" "ib_alloc_device_ok env 1" "\<not> netdev_create_fails env 1"
    using assms unfolding leaves_dangling_slot_def by blast
  then show ?thesis
  proof cases
    case 1
    then have "bluerdma_new_testing env kernel_boot = Some (- ENOMEM, kernel_boot)"
      by (simp add: bluerdma_new_testing_def testing_slots new_testing_loop.simps(2))
    then show ?thesis
      using boot exit_clean init_from_new_testing_fails [of env kernel_boot "- ENOMEM"] by auto
  next
    case 2
    let ?k = "add_pair env kernel_boot 0"
    have k: "k_testing ?k = [Some 8, None]" "k_ib ?k = [8 \<mapsto> new_ib_dev 0 9]" "k_net ?k = [9 \<mapsto> new_net_dev env 0 9]"
      "k_net_registered ?k = {9}" by (simp_all add: add_pair_def Let_def)
    let ?k' = "?k\<lparr>k_ib := (k_ib ?k)(8 := None), k_net := (k_net ?k)(9 := None),
       k_net_registered := k_net_registered ?k - {9}, k_testing := (k_testing ?k)[0 := None]\<rparr>"
    have "new_testing_unwind ?k 1 = Some ?k'"
      by (simp add: free_testing_slot_eq [of _ 0 8 "new_ib_dev 0 9" 9 "new_net_dev env 0 9"] k)
    with 2 have "bluerdma_new_testing env kernel_boot = Some (- ENOMEM, ?k')"
      by (simp add: bluerdma_new_testing_def testing_slots new_testing_step new_testing_alloc_fails)
    moreover have "kernel_clean ?k'" by (simp add: kernel_clean_def k add_pair_def Let_def)
    ultimately show ?thesis
      using exit_clean init_from_new_testing_fails [of env kernel_boot "- ENOMEM"] by auto
  next
    case 3
    then have new: "bluerdma_new_testing env kernel_boot = Some (0, two_devices env)" by (rule two_devices_new)
    show ?thesis
    proof (cases "ib_register_device_ret env 0 = 0 \<and> ib_register_device_ret env 1 = 0")
      case True
      then obtain k where "device_add_loop env (two_devices env) [0, 1] = Some (0, k)" "live_pairs k"
        using device_add_succeeds [OF two_devices_live two_devices_fields(5)] by blast
      then show ?thesis
        using init_from_device_add [OF new] remove_live_pairs [of k] by (simp add: bluerdma_exit_module_def bluerdma_remove_def)
    next
      case False
      then obtain r k where "device_add_loop env (two_devices env) [0, 1] = Some (r, k)" "kernel_clean k"
        using device_add_fails [OF two_devices_live two_devices_fields(5)] by blast
      then show ?thesis using init_from_device_add [OF new] exit_clean by blast
    qed
  qed
qed

subsection \<open>Properties\<close>

text \<open>C2. Loading the module always reports success; unloading it afterwards touches freed memory exactly
  when the creation of an interface failed during the load (its device was freed but its slot was
  not cleared), and in every other case, whatever allocation or registration failed, it leaves no
  device, interface, registration, sysfs file or association behind.
\<close>

theorem module_unload_safe_iff:
  "\<exists>k. bluerdma_init_module env kernel_boot = Some (0, k) \<and>
     (case bluerdma_exit_module k of
        None \<Rightarrow> leaves_dangling_slot env
      | Some k' \<Rightarrow> \<not> leaves_dangling_slot env \<and> kernel_clean k')"
proof (cases "leaves_dangling_slot env")
  case True
  with module_load_dangling [OF this] show ?thesis by auto
next
  case False
  from module_load_no_dangling [OF this] obtain k k'
    where "bluerdma_init_module env kernel_boot = Some (0, k)" "bluerdma_exit_module k = Some k'"
      "kernel_clean k'" by blast
  with False show ?thesis by (intro exI [of _ k]) simp
qed

definition load_succeeds :: "kernel_env \<Rightarrow> bool" where
  "load_succeeds env \<longleftrightarrow> (\<forall>i \<in> {0, 1}. ib_alloc_device_ok env i \<and> \<not> netdev_create_fails env i \<and>
     ib_register_device_ret env i = 0)"

lemma query_gid_new_dev:
  "bluerdma_query_gid (register_dev env (new_ib_dev i q)) 1 0 g = (0, mac_to_eui64_gid (replicate 6 0))"
  by (simp add: bluerdma_query_gid_def new_ib_dev_def bluerdma_init_gid_table_def Let_def zero_dev_def
    BLUERDMA_GID_TABLE_SIZE_def)

text \<open>C4. After a successful load both devices are registered and each has its own interface with its
  own random MAC address, but the GID at index 0 of both is the EUI-64 GID of the all-zero MAC
  address: the table is derived from the address field of the IB device, which creation never
  writes, so the two devices share one default GID whatever their addresses are.
\<close>

theorem default_gid_ignores_mac:
  assumes "load_succeeds env"
  shows "\<exists>k d e m n. bluerdma_init_module env kernel_boot = Some (0, k) \<and>
     k_testing k = [Some 8, Some 10] \<and> k_ib_registered k = {8, 10} \<and>
     k_ib k 8 = Some d \<and> k_ib k 10 = Some e \<and> bd_netdev d = Some 9 \<and> bd_netdev e = Some 11 \<and>
     k_net k 9 = Some m \<and> k_net k 11 = Some n \<and>
     nd_dev_addr m = eth_random_addr env 0 \<and> nd_dev_addr n = eth_random_addr env 1 \<and>
     bluerdma_query_gid d 1 0 g = (0, [0xfe, 0x80, 0, 0, 0, 0, 0, 0, 2, 0, 0, 0xFF, 0xFE, 0, 0, 0]) \<and>
     bluerdma_query_gid e 1 0 g = bluerdma_query_gid d 1 0 g"
proof -
  from assms have ok: "ib_alloc_device_ok env 0" "\<not> netdev_create_fails env 0"
    "ib_alloc_device_ok env 1" "\<not> netdev_create_fails env 1"
    "ib_register_device_ret env 0 = 0" "ib_register_device_ret env 1 = 0"
    by (simp_all add: load_succeeds_def)
  from two_devices_new [OF ok(1-4)] have new: "bluerdma_new_testing env kernel_boot = Some (0, two_devices env)" .
  from device_add_succeeds [OF two_devices_live two_devices_fields(5) ok(5,6)] obtain k
    where add: "device_add_loop env (two_devices env) [0, 1] = Some (0, k)" and live: "live_pairs k"
      and ib: "k_ib k = map_option (register_dev env) \<circ> k_ib (two_devices env)"
      and net: "k_net k = k_net (two_devices env)" and reg: "k_ib_registered k = {8, 10}"
    by blast
  have "nd_dev_addr (new_net_dev env i q) = eth_random_addr env i" for i q
    by (simp add: new_net_dev_def bluerdma_netdev_setup_def Let_def)
  moreover have "k_testing k = [Some 8, Some 10]" using live by (simp add: live_pairs_def)
  moreover have "mac_to_eui64_gid (replicate 6 0) = [0xfe, 0x80, 0, 0, 0, 0, 0, 0, 2, 0, 0, 0xFF, 0xFE, 0, 0, 0]"
    by (simp add: mac_to_eui64_gid_def numeral_eq_Suc)
  ultimately show ?thesis
    using init_from_device_add [OF new add] reg
    by (simp add: ib net two_devices_fields query_gid_new_dev)
qed

theorem default_gid_ignores_mac_witness:
  "let env = \<lparr>ib_alloc_device_ok = \<lambda>_. True, alloc_etherdev_ok = \<lambda>_. True,
       eth_random_addr = (\<lambda>i. [2, 0, 0, 0, 0, of_nat i]), register_netdev_ret = \<lambda>_. 0, ib_register_device_ret = \<lambda>_. 0,
       device_create_file_ret = \<lambda>_ _. -1, ib_device_set_netdev_ret = \<lambda>_. 0, num_possible_cpus = 4\<rparr>
   in \<exists>k d e m n. bluerdma_init_module env kernel_boot = Some (0, k) \<and> k_ib k 8 = Some d \<and> k_ib k 10 = Some e \<and>
     k_net k 9 = Some m \<and> k_net k 11 = Some n \<and> nd_dev_addr m \<noteq> nd_dev_addr n \<and>
     bluerdma_query_gid e 1 0 zero_gid = bluerdma_query_gid d 1 0 zero_gid"
proof -
  let ?env = "\<lparr>ib_alloc_device_ok = \<lambda>_. True, alloc_etherdev_ok = \<lambda>_. True,
       eth_random_addr = (\<lambda>i. [2, 0, 0, 0, 0, of_nat i]), register_netdev_ret = \<lambda>_. 0, ib_register_device_ret = \<lambda>_. 0,
       device_create_file_ret = \<lambda>_ _. -1, ib_device_set_netdev_ret = \<lambda>_. 0, num_possible_cpus = 4\<rparr>"
  have "load_succeeds ?env" by (simp add: load_succeeds_def netdev_create_fails_def)
  from default_gid_ignores_mac [OF this, of zero_gid] show ?thesis by fastforce
qed

end
