(* ===== verification/KernelVerbs.thy ===== *)
theory KernelVerbs
  imports KernelMain
begin

text \<open>
  The remaining verbs of the kernel driver (\<^verbatim>\<open>kernel-driver/verbs.c\<close>). Most of them answer success
  and leave the object they are given as it is: the data path runs in user space. The memory region
  verbs allocate and free the kernel's region object, and the port data that never changes is
  checked against the port query.
\<close>

subsection \<open>Verbs that acknowledge\<close>

definition bluerdma_query_device :: "'dev \<Rightarrow> 'attr \<Rightarrow> int \<times> 'dev \<times> 'attr" where
  "bluerdma_query_device ibdev attr = (0, ibdev, attr)"

definition bluerdma_alloc_pd :: "'pd \<Rightarrow> int \<times> 'pd" where "bluerdma_alloc_pd pd = (0, pd)"

definition bluerdma_dealloc_pd :: "'pd \<Rightarrow> int \<times> 'pd" where "bluerdma_dealloc_pd pd = (0, pd)"

definition bluerdma_create_qp :: "'qp \<Rightarrow> 'init \<Rightarrow> int \<times> 'qp" where "bluerdma_create_qp qp init = (0, qp)"

definition bluerdma_destroy_qp :: "'qp \<Rightarrow> int \<times> 'qp" where "bluerdma_destroy_qp qp = (0, qp)"

definition bluerdma_modify_qp :: "'qp \<Rightarrow> 'attr \<Rightarrow> u32 \<Rightarrow> int \<times> 'qp" where
  "bluerdma_modify_qp qp attr attr_mask = (0, qp)"

definition bluerdma_post_send :: "'qp \<Rightarrow> 'wr \<Rightarrow> 'wr option \<Rightarrow> int \<times> 'qp \<times> 'wr option" where
  "bluerdma_post_send qp wr bad_wr = (0, qp, bad_wr)"

definition bluerdma_post_recv :: "'qp \<Rightarrow> 'wr \<Rightarrow> 'wr option \<Rightarrow> int \<times> 'qp \<times> 'wr option" where
  "bluerdma_post_recv qp wr bad_wr = (0, qp, bad_wr)"

definition bluerdma_create_cq :: "'cq \<Rightarrow> 'attr \<Rightarrow> int \<times> 'cq" where "bluerdma_create_cq cq attr = (0, cq)"

definition bluerdma_destroy_cq :: "'cq \<Rightarrow> int \<times> 'cq" where "bluerdma_destroy_cq cq = (0, cq)"

text \<open>The poll reports no completions and writes none.\<close>

definition bluerdma_poll_cq :: "'cq \<Rightarrow> nat \<Rightarrow> 'wc list \<Rightarrow> int \<times> 'cq \<times> 'wc list" where
  "bluerdma_poll_cq cq num_entries wc = (0, cq, wc)"

definition bluerdma_req_notify_cq :: "'cq \<Rightarrow> nat \<Rightarrow> int \<times> 'cq" where
  "bluerdma_req_notify_cq cq flags = (0, cq)"

definition bluerdma_alloc_ucontext :: "'uc \<Rightarrow> int \<times> 'uc" where "bluerdma_alloc_ucontext uc = (0, uc)"

definition bluerdma_dealloc_ucontext :: "'uc \<Rightarrow> 'uc" where "bluerdma_dealloc_ucontext uc = uc"

definition bluerdma_query_pkey :: "u32 \<Rightarrow> u16 \<Rightarrow> int \<times> u16" where
  "bluerdma_query_pkey port_num index = (0, 1)"

subsection \<open>Memory regions\<close>

text \<open>
  Region objects live in a store; an allocation yields a fresh zeroed object or fails with
  \<^verbatim>\<open>ERR_PTR(-ENOMEM)\<close> (the left side). Freeing an address that holds no object has no result.
\<close>

record ib_mr =
  mr_lkey :: u32
  mr_rkey :: u32

definition zero_mr :: ib_mr where "zero_mr = \<lparr>mr_lkey = 0, mr_rkey = 0\<rparr>"

type_synonym mr_store = "addr \<rightharpoonup> ib_mr"

definition kzalloc_mr :: "ptr \<Rightarrow> mr_store \<Rightarrow> (int + addr) \<times> mr_store" where
  "kzalloc_mr fresh mrs = (case fresh of None \<Rightarrow> (Inl (- ENOMEM), mrs) | Some p \<Rightarrow> (Inr p, mrs(p \<mapsto> zero_mr)))"

definition bluerdma_get_dma_mr :: "ptr \<Rightarrow> mr_store \<Rightarrow> u32 \<Rightarrow> (int + addr) \<times> mr_store" where
  "bluerdma_get_dma_mr fresh mrs access = kzalloc_mr fresh mrs"

definition bluerdma_reg_user_mr ::
  "ptr \<Rightarrow> mr_store \<Rightarrow> u64 \<Rightarrow> u64 \<Rightarrow> u64 \<Rightarrow> u32 \<Rightarrow> (int + addr) \<times> mr_store" where
  "bluerdma_reg_user_mr fresh mrs start len virt_addr access_flags = kzalloc_mr fresh mrs"

definition bluerdma_dereg_mr :: "mr_store \<Rightarrow> addr \<Rightarrow> (int \<times> mr_store) option" where
  "bluerdma_dereg_mr mrs p = do { _ \<leftarrow> mrs p; Some (0, mrs(p := None)) }"

subsection \<open>Immutable port data\<close>

datatype core_cap = RDMA_CORE_CAP_PROT_ROCE | RDMA_CORE_CAP_PROT_ROCE_UDP_ENCAP

record ib_port_immutable =
  im_core_cap_flags :: "core_cap list"
  im_pkey_tbl_len :: nat
  im_gid_tbl_len :: nat

text \<open>
  The IB core's port query is a parameter that yields its return value; it calls back into the
  driver's port query.
\<close>

definition bluerdma_get_port_immutable ::
  "(bluerdma_dev \<Rightarrow> u32 \<Rightarrow> int) \<Rightarrow> bluerdma_dev \<Rightarrow> u32 \<Rightarrow> ib_port_immutable \<Rightarrow> int \<times> ib_port_immutable" where
  "bluerdma_get_port_immutable ib_query_port dev port_num immutable =
     (if port_num \<noteq> 1 then (- EINVAL, immutable)
      else let err = ib_query_port dev port_num
           in if err \<noteq> 0 then (err, immutable)
              else (0, immutable\<lparr>im_core_cap_flags := [RDMA_CORE_CAP_PROT_ROCE, RDMA_CORE_CAP_PROT_ROCE_UDP_ENCAP],
                                 im_pkey_tbl_len := 1, im_gid_tbl_len := BLUERDMA_GID_TABLE_SIZE\<rparr>))"

subsection \<open>Agreement of the port data\<close>

text \<open>
  The immutable port data agrees with the port query: asked with the driver's own query behind
  the IB core, port 1 gets the GID and P\_Key table lengths that the port query reports and every
  other port number is refused with \<open>-EINVAL\<close> and leaves the caller's structure unchanged.
\<close>

theorem port_immutable_agrees_with_query:
  "bluerdma_get_port_immutable (\<lambda>d _. fst (bluerdma_query_port eth_speed mtu_enum d nd)) dev port_num im =
     (if port_num = 1
      then (0, im\<lparr>im_core_cap_flags := [RDMA_CORE_CAP_PROT_ROCE, RDMA_CORE_CAP_PROT_ROCE_UDP_ENCAP],
              im_pkey_tbl_len := unat (pa_pkey_tbl_len (fst (snd (bluerdma_query_port eth_speed mtu_enum dev nd)))),
              im_gid_tbl_len := pa_gid_tbl_len (fst (snd (bluerdma_query_port eth_speed mtu_enum dev nd)))\<rparr>)
      else (- EINVAL, im))"
  by (simp add: bluerdma_get_port_immutable_def bluerdma_query_port_def Let_def split: option.split)

end
