(* ===== verification/VerbsOps.thy ===== *)
theory VerbsOps
  imports Prelude
begin

text \<open>
  The operation tables of a user-space verbs context: \<^verbatim>\<open>struct verbs_context_ops\<close> and
  \<^verbatim>\<open>struct verbs_ex_private\<close> of libibverbs (\<^verbatim>\<open>driver.h\<close>, \<^verbatim>\<open>ibverbs.h\<close>), the dummy operations and
  \<^verbatim>\<open>verbs_set_ops\<close> of \<^verbatim>\<open>dummy_ops.c\<close>. A structure of function pointers is a partial map from the
  member names to the functions they point to, NULL being \<open>None\<close>. The macro calls in the body of
  \<^verbatim>\<open>verbs_set_ops\<close> are the list \<open>set_ops_body\<close>, in the order of the source; their token pasting
  and stringification are operations on the member names.
\<close>

subsection \<open>Function pointers and the structures that hold them\<close>

text \<open>
  The functions a pointer can name: a dummy of \<^verbatim>\<open>dummy_ops.c\<close>, a function of the bluerdma provider, an
  entry point of libibverbs itself, or a symbol of a loaded shared object, given by its address.
\<close>

datatype fnptr = Fn_dummy string | Fn_bluerdma string | Fn_lib string | Fn_dl addr

type_synonym verbs_context_ops = "string \<rightharpoonup> fnptr"

definition verbs_context_ops_members :: "string list" where
  "verbs_context_ops_members = [
    ''advise_mr'', ''alloc_dm'', ''alloc_mw'', ''alloc_null_mr'', ''alloc_parent_domain'',
    ''alloc_pd'', ''alloc_td'', ''async_event'', ''attach_counters_point_flow'',
    ''attach_mcast'', ''bind_mw'', ''close_xrcd'', ''cq_event'', ''create_ah'',
    ''create_counters'', ''create_cq'', ''create_cq_ex'', ''create_flow'',
    ''create_flow_action_esp'', ''create_qp'', ''create_qp_ex'', ''create_rwq_ind_table'',
    ''create_srq'', ''create_srq_ex'', ''create_wq'', ''dealloc_mw'', ''dealloc_pd'',
    ''dealloc_td'', ''dereg_mr'', ''destroy_ah'', ''destroy_counters'', ''destroy_cq'',
    ''destroy_flow'', ''destroy_flow_action'', ''destroy_qp'', ''destroy_rwq_ind_table'',
    ''destroy_srq'', ''destroy_wq'', ''detach_mcast'', ''free_context'', ''free_dm'',
    ''get_srq_num'', ''import_dm'', ''import_mr'', ''import_pd'', ''modify_cq'',
    ''modify_flow_action_esp'', ''modify_qp'', ''modify_qp_rate_limit'', ''modify_srq'',
    ''modify_wq'', ''open_qp'', ''open_xrcd'', ''poll_cq'', ''post_recv'', ''post_send'',
    ''post_srq_ops'', ''post_srq_recv'', ''query_device_ex'', ''query_ece'', ''query_port'',
    ''query_qp'', ''query_qp_data_in_order'', ''query_rt_values'', ''query_srq'',
    ''read_counters'', ''reg_dm_mr'', ''reg_dmabuf_mr'', ''reg_mr'', ''req_notify_cq'',
    ''rereg_mr'', ''resize_cq'', ''set_ece'', ''unimport_dm'', ''unimport_mr'', ''unimport_pd'']"

record verbs_ex_private =
  priv_driver_id :: nat
  priv_use_ioctl_write :: bool
  priv_ops :: verbs_context_ops
  priv_imported :: bool

definition zero_priv :: verbs_ex_private where
  "zero_priv = \<lparr>priv_driver_id = 0, priv_use_ioctl_write = False, priv_ops = Map.empty,
     priv_imported = False\<rparr>"

text \<open>
  The function pointer members a program sees: those of \<^verbatim>\<open>struct verbs_context\<close> itself (\<open>Vctx\<close>) and
  those of the \<^verbatim>\<open>struct ibv_context_ops\<close> embedded in it (\<open>Ctx\<close>).
\<close>

datatype macro_ptr = Vctx | Ctx

type_synonym ctx_members = "macro_ptr \<times> string \<rightharpoonup> fnptr"

subsection \<open>The dummy operations\<close>

text \<open>The five bodies the functions of \<^verbatim>\<open>dummy_ops.c\<close> have, and the body of each function in the order of the file.\<close>

datatype dummy_body = Return_EOPNOTSUPP | Errno_and_NULL | Empty_body | Return_0 | Errno_and_ERR_INPUT

definition dummy_functions_1 :: "(string \<times> dummy_body) list" where
  "dummy_functions_1 = [
    (''advise_mr'', Return_EOPNOTSUPP), (''alloc_dm'', Errno_and_NULL),
    (''alloc_mw'', Errno_and_NULL), (''alloc_null_mr'', Errno_and_NULL),
    (''alloc_parent_domain'', Errno_and_NULL), (''alloc_pd'', Errno_and_NULL),
    (''alloc_td'', Errno_and_NULL), (''async_event'', Empty_body),
    (''attach_counters_point_flow'', Return_EOPNOTSUPP), (''attach_mcast'', Return_EOPNOTSUPP),
    (''bind_mw'', Return_EOPNOTSUPP), (''close_xrcd'', Return_EOPNOTSUPP),
    (''cq_event'', Empty_body), (''create_ah'', Errno_and_NULL),
    (''create_counters'', Errno_and_NULL), (''create_cq'', Errno_and_NULL),
    (''create_cq_ex'', Errno_and_NULL), (''create_flow'', Errno_and_NULL),
    (''create_flow_action_esp'', Errno_and_NULL), (''create_qp'', Errno_and_NULL),
    (''create_qp_ex'', Errno_and_NULL), (''create_rwq_ind_table'', Errno_and_NULL),
    (''create_srq'', Errno_and_NULL), (''create_srq_ex'', Errno_and_NULL),
    (''create_wq'', Errno_and_NULL)]"

definition dummy_functions_2 :: "(string \<times> dummy_body) list" where
  "dummy_functions_2 = [
    (''dealloc_mw'', Return_EOPNOTSUPP), (''dealloc_pd'', Return_EOPNOTSUPP),
    (''dealloc_td'', Return_EOPNOTSUPP), (''dereg_mr'', Return_EOPNOTSUPP),
    (''destroy_ah'', Return_EOPNOTSUPP), (''destroy_counters'', Return_EOPNOTSUPP),
    (''destroy_cq'', Return_EOPNOTSUPP), (''destroy_flow'', Return_EOPNOTSUPP),
    (''destroy_flow_action'', Return_EOPNOTSUPP), (''destroy_qp'', Return_EOPNOTSUPP),
    (''destroy_rwq_ind_table'', Return_EOPNOTSUPP), (''destroy_srq'', Return_EOPNOTSUPP),
    (''destroy_wq'', Return_EOPNOTSUPP), (''detach_mcast'', Return_EOPNOTSUPP),
    (''free_context'', Empty_body), (''free_dm'', Return_EOPNOTSUPP)]"

definition dummy_functions_3 :: "(string \<times> dummy_body) list" where
  "dummy_functions_3 = [
    (''get_srq_num'', Return_EOPNOTSUPP), (''import_dm'', Errno_and_NULL),
    (''import_mr'', Errno_and_NULL), (''import_pd'', Errno_and_NULL),
    (''modify_cq'', Return_EOPNOTSUPP), (''modify_flow_action_esp'', Return_EOPNOTSUPP),
    (''modify_qp'', Return_EOPNOTSUPP), (''modify_qp_rate_limit'', Return_EOPNOTSUPP),
    (''modify_srq'', Return_EOPNOTSUPP), (''modify_wq'', Return_EOPNOTSUPP),
    (''open_qp'', Errno_and_NULL), (''open_xrcd'', Errno_and_NULL),
    (''poll_cq'', Return_EOPNOTSUPP), (''post_recv'', Return_EOPNOTSUPP),
    (''post_send'', Return_EOPNOTSUPP), (''post_srq_ops'', Return_EOPNOTSUPP),
    (''post_srq_recv'', Return_EOPNOTSUPP)]"

definition dummy_functions_4 :: "(string \<times> dummy_body) list" where
  "dummy_functions_4 = [
    (''query_device_ex'', Return_EOPNOTSUPP), (''query_ece'', Return_EOPNOTSUPP),
    (''query_qp_data_in_order'', Return_0), (''query_port'', Return_EOPNOTSUPP),
    (''query_qp'', Return_EOPNOTSUPP), (''query_rt_values'', Return_EOPNOTSUPP),
    (''query_srq'', Return_EOPNOTSUPP), (''read_counters'', Return_EOPNOTSUPP),
    (''reg_dm_mr'', Errno_and_NULL), (''reg_mr'', Errno_and_NULL),
    (''reg_dmabuf_mr'', Errno_and_NULL), (''req_notify_cq'', Return_EOPNOTSUPP),
    (''rereg_mr'', Errno_and_ERR_INPUT), (''resize_cq'', Return_EOPNOTSUPP),
    (''set_ece'', Return_EOPNOTSUPP), (''unimport_dm'', Empty_body),
    (''unimport_mr'', Empty_body), (''unimport_pd'', Empty_body)]"

definition dummy_functions :: "(string \<times> dummy_body) list" where
  "dummy_functions = dummy_functions_1 @ dummy_functions_2 @ dummy_functions_3 @ dummy_functions_4"

text \<open>
  Calling a dummy: its result, and the value of \<^verbatim>\<open>errno\<close> after the call, given the one before.
\<close>

datatype op_result = Ret_int int | Ret_ptr ptr | Ret_void

definition IBV_REREG_MR_ERR_INPUT :: int where "IBV_REREG_MR_ERR_INPUT = -1"

fun dummy_call :: "dummy_body \<Rightarrow> int \<Rightarrow> op_result \<times> int" where
  "dummy_call Return_EOPNOTSUPP e = (Ret_int EOPNOTSUPP, e)"
| "dummy_call Errno_and_NULL e = (Ret_ptr None, EOPNOTSUPP)"
| "dummy_call Empty_body e = (Ret_void, e)"
| "dummy_call Return_0 e = (Ret_int 0, e)"
| "dummy_call Errno_and_ERR_INPUT e = (Ret_int IBV_REREG_MR_ERR_INPUT, EOPNOTSUPP)"

definition verbs_dummy_ops :: verbs_context_ops where
  "verbs_dummy_ops = map_of [
    (''advise_mr'', Fn_dummy ''advise_mr''), (''alloc_dm'', Fn_dummy ''alloc_dm''),
    (''alloc_mw'', Fn_dummy ''alloc_mw''), (''alloc_null_mr'', Fn_dummy ''alloc_null_mr''),
    (''alloc_parent_domain'', Fn_dummy ''alloc_parent_domain''),
    (''alloc_pd'', Fn_dummy ''alloc_pd''), (''alloc_td'', Fn_dummy ''alloc_td''),
    (''async_event'', Fn_dummy ''async_event''),
    (''attach_counters_point_flow'', Fn_dummy ''attach_counters_point_flow''),
    (''attach_mcast'', Fn_dummy ''attach_mcast''), (''bind_mw'', Fn_dummy ''bind_mw''),
    (''close_xrcd'', Fn_dummy ''close_xrcd''), (''cq_event'', Fn_dummy ''cq_event''),
    (''create_ah'', Fn_dummy ''create_ah''), (''create_counters'', Fn_dummy ''create_counters''),
    (''create_cq'', Fn_dummy ''create_cq''), (''create_cq_ex'', Fn_dummy ''create_cq_ex''),
    (''create_flow'', Fn_dummy ''create_flow''),
    (''create_flow_action_esp'', Fn_dummy ''create_flow_action_esp''),
    (''create_qp'', Fn_dummy ''create_qp''), (''create_qp_ex'', Fn_dummy ''create_qp_ex''),
    (''create_rwq_ind_table'', Fn_dummy ''create_rwq_ind_table''),
    (''create_srq'', Fn_dummy ''create_srq''), (''create_srq_ex'', Fn_dummy ''create_srq_ex''),
    (''create_wq'', Fn_dummy ''create_wq''), (''dealloc_mw'', Fn_dummy ''dealloc_mw''),
    (''dealloc_pd'', Fn_dummy ''dealloc_pd''), (''dealloc_td'', Fn_dummy ''dealloc_td''),
    (''dereg_mr'', Fn_dummy ''dereg_mr''), (''destroy_ah'', Fn_dummy ''destroy_ah''),
    (''destroy_counters'', Fn_dummy ''destroy_counters''),
    (''destroy_cq'', Fn_dummy ''destroy_cq''), (''destroy_flow'', Fn_dummy ''destroy_flow''),
    (''destroy_flow_action'', Fn_dummy ''destroy_flow_action''),
    (''destroy_qp'', Fn_dummy ''destroy_qp''),
    (''destroy_rwq_ind_table'', Fn_dummy ''destroy_rwq_ind_table''),
    (''destroy_srq'', Fn_dummy ''destroy_srq''), (''destroy_wq'', Fn_dummy ''destroy_wq''),
    (''detach_mcast'', Fn_dummy ''detach_mcast''), (''free_context'', Fn_dummy ''free_context''),
    (''free_dm'', Fn_dummy ''free_dm''), (''get_srq_num'', Fn_dummy ''get_srq_num''),
    (''import_dm'', Fn_dummy ''import_dm''), (''import_mr'', Fn_dummy ''import_mr''),
    (''import_pd'', Fn_dummy ''import_pd''), (''modify_cq'', Fn_dummy ''modify_cq''),
    (''modify_flow_action_esp'', Fn_dummy ''modify_flow_action_esp''),
    (''modify_qp'', Fn_dummy ''modify_qp''),
    (''modify_qp_rate_limit'', Fn_dummy ''modify_qp_rate_limit''),
    (''modify_srq'', Fn_dummy ''modify_srq''), (''modify_wq'', Fn_dummy ''modify_wq''),
    (''open_qp'', Fn_dummy ''open_qp''), (''open_xrcd'', Fn_dummy ''open_xrcd''),
    (''poll_cq'', Fn_dummy ''poll_cq''), (''post_recv'', Fn_dummy ''post_recv''),
    (''post_send'', Fn_dummy ''post_send''), (''post_srq_ops'', Fn_dummy ''post_srq_ops''),
    (''post_srq_recv'', Fn_dummy ''post_srq_recv''),
    (''query_device_ex'', Fn_dummy ''query_device_ex''), (''query_ece'', Fn_dummy ''query_ece''),
    (''query_port'', Fn_dummy ''query_port''), (''query_qp'', Fn_dummy ''query_qp''),
    (''query_qp_data_in_order'', Fn_dummy ''query_qp_data_in_order''),
    (''query_rt_values'', Fn_dummy ''query_rt_values''), (''query_srq'', Fn_dummy ''query_srq''),
    (''read_counters'', Fn_dummy ''read_counters''), (''reg_dm_mr'', Fn_dummy ''reg_dm_mr''),
    (''reg_dmabuf_mr'', Fn_dummy ''reg_dmabuf_mr''), (''reg_mr'', Fn_dummy ''reg_mr''),
    (''req_notify_cq'', Fn_dummy ''req_notify_cq''), (''rereg_mr'', Fn_dummy ''rereg_mr''),
    (''resize_cq'', Fn_dummy ''resize_cq''), (''set_ece'', Fn_dummy ''set_ece''),
    (''unimport_dm'', Fn_dummy ''unimport_dm''), (''unimport_mr'', Fn_dummy ''unimport_mr''),
    (''unimport_pd'', Fn_dummy ''unimport_pd'')]"

subsection \<open>\<^verbatim>\<open>verbs_set_ops\<close>\<close>

datatype set_macro =
  SET_PRIV_OP macro_ptr string
| SET_PRIV_OP_IC macro_ptr string
| SET_OP macro_ptr string
| SET_OP2 macro_ptr string string

fun macro_op :: "set_macro \<Rightarrow> string" where
  "macro_op (SET_PRIV_OP p name) = name"
| "macro_op (SET_PRIV_OP_IC p name) = name"
| "macro_op (SET_OP p name) = name"
| "macro_op (SET_OP2 p iname name) = name"

text \<open>The member a macro call stores to beside the private table.\<close>

fun macro_member :: "set_macro \<Rightarrow> (macro_ptr \<times> string) option" where
  "macro_member (SET_PRIV_OP p name) = Some (p, ''_compat_'' @ name)"
| "macro_member (SET_PRIV_OP_IC p name) = None"
| "macro_member (SET_OP p name) = Some (p, name)"
| "macro_member (SET_OP2 p iname name) = Some (p, iname)"

definition run_macro :: "verbs_context_ops \<Rightarrow> set_macro \<Rightarrow> verbs_ex_private \<times> ctx_members \<Rightarrow> verbs_ex_private \<times> ctx_members" where
  "run_macro ops mac st =
     (case ops (macro_op mac) of
        None \<Rightarrow> st
      | Some f \<Rightarrow> ((fst st)\<lparr>priv_ops := (priv_ops (fst st))(macro_op mac \<mapsto> f)\<rparr>,
                   case macro_member mac of None \<Rightarrow> snd st | Some fld \<Rightarrow> (snd st)(fld \<mapsto> f)))"

definition set_ops_body :: "set_macro list" where
  "set_ops_body = [
    SET_OP Vctx ''advise_mr'', SET_OP Vctx ''alloc_dm'', SET_OP Ctx ''alloc_mw'',
    SET_OP Vctx ''alloc_null_mr'', SET_PRIV_OP Ctx ''alloc_pd'',
    SET_OP Vctx ''alloc_parent_domain'', SET_OP Vctx ''alloc_td'',
    SET_OP Vctx ''attach_counters_point_flow'', SET_OP Vctx ''create_counters'',
    SET_PRIV_OP Ctx ''async_event'', SET_PRIV_OP Ctx ''attach_mcast'', SET_OP Ctx ''bind_mw'',
    SET_OP Vctx ''close_xrcd'', SET_PRIV_OP Ctx ''cq_event'', SET_PRIV_OP Ctx ''create_ah'',
    SET_PRIV_OP Ctx ''create_cq'', SET_PRIV_OP_IC Vctx ''create_cq_ex'',
    SET_OP2 Vctx ''ibv_create_flow'' ''create_flow'', SET_OP Vctx ''create_flow_action_esp'',
    SET_PRIV_OP Ctx ''create_qp'', SET_OP Vctx ''create_qp_ex'',
    SET_OP Vctx ''create_rwq_ind_table'', SET_PRIV_OP Ctx ''create_srq'',
    SET_OP Vctx ''create_srq_ex'', SET_OP Vctx ''create_wq'', SET_OP Ctx ''dealloc_mw'',
    SET_PRIV_OP Ctx ''dealloc_pd'', SET_OP Vctx ''dealloc_td'', SET_OP Vctx ''destroy_counters'',
    SET_PRIV_OP Ctx ''dereg_mr'', SET_PRIV_OP Ctx ''destroy_ah'', SET_PRIV_OP Ctx ''destroy_cq'',
    SET_OP2 Vctx ''ibv_destroy_flow'' ''destroy_flow'', SET_OP Vctx ''destroy_flow_action'',
    SET_PRIV_OP Ctx ''destroy_qp'', SET_OP Vctx ''destroy_rwq_ind_table'',
    SET_PRIV_OP Ctx ''destroy_srq'', SET_OP Vctx ''destroy_wq'',
    SET_PRIV_OP Ctx ''detach_mcast'', SET_PRIV_OP_IC Ctx ''free_context'',
    SET_OP Vctx ''free_dm'', SET_OP Vctx ''get_srq_num'', SET_PRIV_OP_IC Vctx ''import_dm'',
    SET_PRIV_OP_IC Vctx ''import_mr'', SET_PRIV_OP_IC Vctx ''import_pd'',
    SET_OP Vctx ''modify_cq'', SET_OP Vctx ''modify_flow_action_esp'',
    SET_PRIV_OP Ctx ''modify_qp'', SET_OP Vctx ''modify_qp_rate_limit'',
    SET_PRIV_OP Ctx ''modify_srq'', SET_OP Vctx ''modify_wq'', SET_OP Vctx ''open_qp'',
    SET_OP Vctx ''open_xrcd'', SET_OP Ctx ''poll_cq'', SET_OP Ctx ''post_recv'',
    SET_OP Ctx ''post_send'', SET_OP Vctx ''post_srq_ops'', SET_OP Ctx ''post_srq_recv'',
    SET_OP Vctx ''query_device_ex'', SET_PRIV_OP_IC Vctx ''query_ece'',
    SET_PRIV_OP_IC Ctx ''query_port'', SET_PRIV_OP Ctx ''query_qp'',
    SET_PRIV_OP_IC Ctx ''query_qp_data_in_order'', SET_OP Vctx ''query_rt_values'',
    SET_OP Vctx ''read_counters'', SET_PRIV_OP Ctx ''query_srq'', SET_OP Vctx ''reg_dm_mr'',
    SET_PRIV_OP_IC Vctx ''reg_dmabuf_mr'', SET_PRIV_OP Ctx ''reg_mr'',
    SET_OP Ctx ''req_notify_cq'', SET_PRIV_OP Ctx ''rereg_mr'', SET_PRIV_OP Ctx ''resize_cq'',
    SET_PRIV_OP_IC Vctx ''set_ece'', SET_PRIV_OP_IC Vctx ''unimport_dm'',
    SET_PRIV_OP_IC Vctx ''unimport_mr'', SET_PRIV_OP_IC Vctx ''unimport_pd'']"

definition verbs_set_ops :: "verbs_context_ops \<Rightarrow> verbs_ex_private \<times> ctx_members \<Rightarrow> verbs_ex_private \<times> ctx_members" where
  "verbs_set_ops ops = fold (run_macro ops) set_ops_body"

subsection \<open>\<^verbatim>\<open>verbs_set_ops\<close> overrides\<close>

text \<open>The members the macro calls store to, each with the operation it mirrors.\<close>

fun member_table :: "set_macro list \<Rightarrow> ((macro_ptr \<times> string) \<times> string) list" where
  "member_table [] = []"
| "member_table (mac # ms) =
     (case macro_member mac of None \<Rightarrow> member_table ms
      | Some fld \<Rightarrow> (fld, macro_op mac) # member_table ms)"

definition api_member_op :: "macro_ptr \<times> string \<rightharpoonup> string" where
  "api_member_op = map_of (member_table set_ops_body)"

lemma fold_run_macro_priv:
  "fst (fold (run_macro ops) ms st) =
     (fst st)\<lparr>priv_ops := priv_ops (fst st) ++ ops |` set (map macro_op ms)\<rparr>"
proof (induction ms arbitrary: st)
  case Nil
  then show ?case by simp
next
  case (Cons mac ms)
  have "priv_ops (fst (run_macro ops mac st)) ++ ops |` set (map macro_op ms) =
      priv_ops (fst st) ++ ops |` set (map macro_op (mac # ms))"
    by (rule ext) (auto simp: run_macro_def map_add_def restrict_map_def split: option.splits)
  moreover have "(fst (run_macro ops mac st))\<lparr>priv_ops := x\<rparr> = (fst st)\<lparr>priv_ops := x\<rparr>" for x
    by (simp add: run_macro_def split: option.splits)
  ultimately show ?case by (simp add: Cons.IH del: set_map)
qed

lemma fold_run_macro_vis:
  assumes "distinct (map fst (member_table ms))"
  shows "snd (fold (run_macro ops) ms st) = snd st ++ (ops \<circ>\<^sub>m map_of (member_table ms))"
  using assms
proof (induction ms arbitrary: st)
  case Nil
  then show ?case by (simp add: map_comp_def map_add_def)
next
  case (Cons mac ms)
  have d: "distinct (map fst (member_table ms))"
    using Cons.prems by (auto split: option.splits)
  have "snd (run_macro ops mac st) ++ (ops \<circ>\<^sub>m map_of (member_table ms)) =
      snd st ++ (ops \<circ>\<^sub>m map_of (member_table (mac # ms)))"
  proof (cases "macro_member mac")
    case None
    then show ?thesis by (simp add: run_macro_def split: option.splits)
  next
    case (Some fld)
    then have "map_of (member_table ms) fld = None"
      using Cons.prems by (simp add: map_of_eq_None_iff)
    with Some show ?thesis
      by (intro ext) (auto simp: run_macro_def map_comp_def map_add_def split: option.splits)
  qed
  with Cons.IH [OF d] show ?case by (simp del: member_table.simps)
qed

lemma set_ops_body_covers: "set (map macro_op set_ops_body) = set verbs_context_ops_members"
proof (rule equalityI)
  have "map macro_op set_ops_body = map (nth verbs_context_ops_members) [
      0, 1, 2, 3, 5, 4, 6, 8, 14, 7, 9, 10, 11, 12, 13, 15, 16, 17, 18, 19, 20, 21, 22, 23, 24,
      25, 26, 27, 30, 28, 29, 31, 32, 33, 34, 35, 36, 37, 38, 39, 40, 41, 42, 43, 44, 45, 46, 47,
      48, 49, 50, 51, 52, 53, 54, 55, 56, 57, 58, 59, 60, 61, 62, 63, 65, 64, 66, 67, 68, 69, 70,
      71, 72, 73, 74, 75]"
    by (simp add: verbs_context_ops_members_def set_ops_body_def)
  also have "set \<dots> \<subseteq> set verbs_context_ops_members"
    by (rule set_map_nth_subset) (simp add: verbs_context_ops_members_def)
  finally show "set (map macro_op set_ops_body) \<subseteq> set verbs_context_ops_members" .
next
  have "verbs_context_ops_members = map (nth (map macro_op set_ops_body)) [
      0, 1, 2, 3, 5, 4, 6, 9, 7, 10, 11, 12, 13, 14, 8, 15, 16, 17, 18, 19, 20, 21, 22, 23, 24,
      25, 26, 27, 29, 30, 28, 31, 32, 33, 34, 35, 36, 37, 38, 39, 40, 41, 42, 43, 44, 45, 46, 47,
      48, 49, 50, 51, 52, 53, 54, 55, 56, 57, 58, 59, 60, 61, 62, 63, 65, 64, 66, 67, 68, 69, 70,
      71, 72, 73, 74, 75]"
    by (simp add: verbs_context_ops_members_def set_ops_body_def)
  also have "set \<dots> \<subseteq> set (map macro_op set_ops_body)"
    by (rule set_map_nth_subset) (simp add: set_ops_body_def)
  finally show "set verbs_context_ops_members \<subseteq> set (map macro_op set_ops_body)" .
qed

lemma set_ops_body_members_distinct: "distinct (map fst (member_table set_ops_body))"
  by code_simp

lemma verbs_set_ops_priv:
  "fst (verbs_set_ops ops st) =
     (fst st)\<lparr>priv_ops := priv_ops (fst st) ++ ops |` set verbs_context_ops_members\<rparr>"
  unfolding verbs_set_ops_def fold_run_macro_priv set_ops_body_covers ..

lemma verbs_set_ops_vis: "snd (verbs_set_ops ops st) = snd st ++ (ops \<circ>\<^sub>m api_member_op)"
  unfolding verbs_set_ops_def api_member_op_def by (rule fold_run_macro_vis [OF set_ops_body_members_distinct])

text \<open>
  \<^verbatim>\<open>verbs_set_ops\<close> overrides a context's operations by those the given table defines, and leaves
  every other one in place: the private table becomes the map override \<open>priv ++ ops\<close> on the 76 members
  of \<^verbatim>\<open>struct verbs_context_ops\<close>, no other field of the private structure changes, and every
  member a program calls through is overridden by the operation it mirrors.
\<close>

theorem verbs_set_ops_overrides:
  "verbs_set_ops ops (priv, vis) =
     (priv\<lparr>priv_ops := priv_ops priv ++ ops |` set verbs_context_ops_members\<rparr>,
      vis ++ (ops \<circ>\<^sub>m api_member_op))"
  by (simp add: prod_eq_iff verbs_set_ops_priv verbs_set_ops_vis)

subsection \<open>Every operation of a context can be called\<close>

lemma verbs_dummy_ops_eq: "verbs_dummy_ops = (Some \<circ> Fn_dummy) |` set verbs_context_ops_members"
proof -
  have "verbs_dummy_ops = map_of (map (\<lambda>n. (n, Fn_dummy n)) verbs_context_ops_members)"
    by (simp add: verbs_dummy_ops_def verbs_context_ops_members_def)
  then show ?thesis by (simp add: map_of_map_restrict)
qed

lemma api_member_op_range: "api_member_op fld = Some op \<Longrightarrow> op \<in> set verbs_context_ops_members"
proof -
  have "snd ` set (member_table ms) \<subseteq> set (map macro_op ms)" for ms
    by (induction ms) (auto split: option.splits)
  then have "snd ` set (member_table set_ops_body) \<subseteq> set verbs_context_ops_members"
    unfolding set_ops_body_covers [symmetric] .
  then show "api_member_op fld = Some op \<Longrightarrow> op \<in> set verbs_context_ops_members"
    unfolding api_member_op_def by (force dest: map_of_SomeD)
qed

text \<open>
  A context is ready when each of the 76 operations has a function and each member a program calls
  through holds the same function as the private table.
\<close>

definition ops_ready :: "verbs_ex_private \<times> ctx_members \<Rightarrow> bool" where
  "ops_ready st \<longleftrightarrow> dom (priv_ops (fst st)) = set verbs_context_ops_members \<and>
     (\<forall>fld op. api_member_op fld = Some op \<longrightarrow> snd st fld = priv_ops (fst st) op)"

lemma ops_ready_set_ops: "ops_ready st \<Longrightarrow> ops_ready (verbs_set_ops ops st)"
  unfolding ops_ready_def verbs_set_ops_priv verbs_set_ops_vis
  by (auto simp: map_add_def map_comp_def restrict_map_def dom_def dest: api_member_op_range split: option.splits)

lemma ops_ready_dummy: "ops_ready (verbs_set_ops verbs_dummy_ops (zero_priv\<lparr>priv_driver_id := i\<rparr>, Map.empty))"
  unfolding ops_ready_def verbs_set_ops_priv verbs_set_ops_vis
  by (auto simp: zero_priv_def verbs_dummy_ops_eq map_comp_def restrict_map_def dom_def
      dest: api_member_op_range split: option.splits)

lemma ops_ready_fold: "ops_ready st \<Longrightarrow> ops_ready (fold verbs_set_ops tables st)"
  by (induction tables arbitrary: st) (simp_all add: ops_ready_set_ops)

text \<open>C5. A context initialised with the dummy operations can be called through every operation for the rest
  of its life: after any sequence of provider tables, with any members left NULL, none of the 76
  operations is NULL, and the members a program calls through (inline verbs and compatibility pointers)
  hold the same functions as the private table.
\<close>

theorem context_ops_always_callable:
  "ops_ready (fold verbs_set_ops tables
     (verbs_set_ops verbs_dummy_ops (zero_priv\<lparr>priv_driver_id := driver_id\<rparr>, Map.empty)))"
  by (intro ops_ready_fold ops_ready_dummy)

end
