(* ===== verification/VerbsMatch.thy ===== *)
theory VerbsMatch
  imports Prelude "HOL-Library.Sublist"
begin

text \<open>
  How libibverbs decides which provider drives a device: the sysfs device structure and the match
  tables of \<^verbatim>\<open>driver.h\<close>, and the matching functions of \<^verbatim>\<open>init.c\<close>. The file \<^verbatim>\<open>device/modalias\<close> of a device
  is a parameter: its content, or \<open>None\<close> when it cannot be read.
\<close>

subsection \<open>Devices and match tables\<close>

datatype ibv_node_type =
  IBV_NODE_UNKNOWN | IBV_NODE_CA | IBV_NODE_SWITCH | IBV_NODE_ROUTER | IBV_NODE_RNIC | IBV_NODE_USNIC |
  IBV_NODE_USNIC_UDP | IBV_NODE_UNSPECIFIED

datatype ibv_transport_type =
  IBV_TRANSPORT_UNKNOWN | IBV_TRANSPORT_IB | IBV_TRANSPORT_IWARP | IBV_TRANSPORT_USNIC |
  IBV_TRANSPORT_USNIC_UDP | IBV_TRANSPORT_UNSPECIFIED

definition RDMA_DRIVER_UNKNOWN :: nat where "RDMA_DRIVER_UNKNOWN = 0"

definition IBV_SYSFS_NAME_MAX :: nat where "IBV_SYSFS_NAME_MAX = 64"
definition IBV_SYSFS_PATH_MAX :: nat where "IBV_SYSFS_PATH_MAX = 256"

definition VSYSFS_READ_MODALIAS :: u32 where "VSYSFS_READ_MODALIAS = 1"
definition VSYSFS_READ_NODE_GUID :: u32 where "VSYSFS_READ_NODE_GUID = 2"

text \<open>
  \<^verbatim>\<open>struct verbs_match_ent\<close>: the \<^verbatim>\<open>kind\<close> member selects the constructor; the terminating sentinel
  entry is the end of the list.
\<close>

datatype verbs_match_ent =
  VERBS_PCI_MATCH u16 u16 | VERBS_MODALIAS_MATCH string | VERBS_DRIVER_ID nat

definition VERBS_NAME_MATCH :: "string \<Rightarrow> verbs_match_ent" where
  "VERBS_NAME_MATCH name_prefix = VERBS_MODALIAS_MATCH (''rdma_device:*N'' @ name_prefix @ ''*'')"

record verbs_sysfs_dev =
  sd_match :: "verbs_match_ent option"
  sd_flags :: u32
  sd_sysfs_name :: string
  sd_sysfs_cdev :: nat
  sd_ibdev_name :: string
  sd_ibdev_path :: string
  sd_modalias :: string
  sd_node_guid :: u64
  sd_driver_id :: nat
  sd_node_type :: ibv_node_type
  sd_ibdev_idx :: int
  sd_num_ports :: nat
  sd_abi_ver :: nat
  sd_time_created :: "int \<times> int"

text \<open>The members of \<^verbatim>\<open>struct verbs_device_ops\<close> that matching reads.\<close>

record verbs_match_ops =
  vo_name :: string
  vo_match_min_abi_version :: nat
  vo_match_max_abi_version :: nat
  vo_match_table :: "verbs_match_ent list option"
  vo_match_device :: "(verbs_sysfs_dev \<Rightarrow> bool) option"

subsection \<open>Decoding and comparison\<close>

text \<open>The kernel's node type codes are 1 to 7.\<close>

definition decode_knode_type :: "nat \<Rightarrow> ibv_node_type" where
  "decode_knode_type k =
     (if k = 1 then IBV_NODE_CA else if k = 2 then IBV_NODE_SWITCH else if k = 3 then IBV_NODE_ROUTER
      else if k = 4 then IBV_NODE_RNIC else if k = 5 then IBV_NODE_USNIC
      else if k = 6 then IBV_NODE_USNIC_UDP else if k = 7 then IBV_NODE_UNSPECIFIED
      else IBV_NODE_UNKNOWN)"

fun node_transport :: "ibv_node_type \<Rightarrow> ibv_transport_type" where
  "node_transport IBV_NODE_CA = IBV_TRANSPORT_IB"
| "node_transport IBV_NODE_SWITCH = IBV_TRANSPORT_IB"
| "node_transport IBV_NODE_ROUTER = IBV_TRANSPORT_IB"
| "node_transport IBV_NODE_RNIC = IBV_TRANSPORT_IWARP"
| "node_transport IBV_NODE_USNIC = IBV_TRANSPORT_USNIC"
| "node_transport IBV_NODE_USNIC_UDP = IBV_TRANSPORT_USNIC_UDP"
| "node_transport IBV_NODE_UNSPECIFIED = IBV_TRANSPORT_UNSPECIFIED"
| "node_transport IBV_NODE_UNKNOWN = IBV_TRANSPORT_UNKNOWN"

definition same_sysfs_dev :: "verbs_sysfs_dev \<Rightarrow> verbs_sysfs_dev \<Rightarrow> bool" where
  "same_sysfs_dev sysfs1 sysfs2 =
     (if sd_sysfs_name sysfs1 \<noteq> sd_sysfs_name sysfs2 then False
      else if sd_ibdev_idx sysfs1 \<noteq> sd_ibdev_idx sysfs2 then False
      else if sd_ibdev_idx sysfs1 = -1 \<and> sd_time_created sysfs1 \<noteq> sd_time_created sysfs2 then False
      else True)"

text \<open>
  \<^verbatim>\<open>fnmatch\<close> with no flags, on the patterns the match tables use: a star, a question mark, a
  backslash escape or an ordinary character. Bracket expressions are not among them.
\<close>

fun fnmatch :: "string \<Rightarrow> string \<Rightarrow> bool" where
  "fnmatch [] s = (s = [])"
| "fnmatch (p # ps) [] = (p = CHR ''*'' \<and> fnmatch ps [])"
| "fnmatch (p # ps) (c # s) =
     (if p = CHR ''*'' then fnmatch ps (c # s) \<or> fnmatch (p # ps) s
      else if p = CHR ''?'' then fnmatch ps s
      else if p = CHR 0x5C then (case ps of [] \<Rightarrow> False | q # qs \<Rightarrow> q = c \<and> fnmatch qs s)
      else p = c \<and> fnmatch ps s)"

definition hex_digit :: "nat \<Rightarrow> char" where
  "hex_digit d = char_of (if d < 10 then 48 + d else 55 + d)"

text \<open>The conversion \<^verbatim>\<open>%08X\<close> of a value below $2^{32}$.\<close>

definition show_hex8 :: "nat \<Rightarrow> string" where
  "show_hex8 n = map (\<lambda>i. hex_digit ((n div 16 ^ i) mod 16)) [7, 6, 5, 4, 3, 2, 1, 0]"

fun match_modalias :: "verbs_match_ent \<Rightarrow> string \<Rightarrow> bool" where
  "match_modalias (VERBS_MODALIAS_MATCH pat) v = fnmatch pat v"
| "match_modalias (VERBS_PCI_MATCH vendor device) v =
     fnmatch (''pci:v'' @ show_hex8 (unat vendor) @ ''d'' @ show_hex8 (unat device) @ ''sv*'') v"
| "match_modalias (VERBS_DRIVER_ID i) v = False"

text \<open>
  The loops over a match table return the first entry that matches. The name is printed into 100
  bytes and the modalias file read into 512.
\<close>

definition match_modalias_device ::
  "(string \<Rightarrow> string option) \<Rightarrow> verbs_match_ent list \<Rightarrow> verbs_sysfs_dev \<Rightarrow> verbs_match_ent option \<times> verbs_sysfs_dev" where
  "match_modalias_device modalias_file table dev =
     (if sd_flags dev AND VSYSFS_READ_MODALIAS = 0 then
        let dev = dev\<lparr>sd_flags := sd_flags dev OR VSYSFS_READ_MODALIAS\<rparr> in
        case modalias_file (sd_ibdev_path dev) of
          None \<Rightarrow> (None, dev\<lparr>sd_modalias := []\<rparr>)
        | Some v \<Rightarrow>
            (if v = [] then (None, dev\<lparr>sd_modalias := []\<rparr>)
             else let dev = dev\<lparr>sd_modalias := v\<rparr> in (find (\<lambda>i. match_modalias i (sd_modalias dev)) table, dev))
      else (find (\<lambda>i. match_modalias i (sd_modalias dev)) table, dev))"

definition match_name :: "verbs_match_ent list \<Rightarrow> verbs_sysfs_dev \<Rightarrow> verbs_match_ent option" where
  "match_name table dev =
     (let name_ma = ''rdma_device:N'' @ sd_ibdev_name dev in
      if 100 \<le> length name_ma then None else find (\<lambda>i. match_modalias i name_ma) table)"

definition match_driver_id :: "verbs_match_ent list \<Rightarrow> verbs_sysfs_dev \<Rightarrow> verbs_match_ent option" where
  "match_driver_id table dev =
     (if sd_driver_id dev = RDMA_DRIVER_UNKNOWN then None
      else find (\<lambda>i. i = VERBS_DRIVER_ID (sd_driver_id dev)) table)"

definition match_device ::
  "(string \<Rightarrow> string option) \<Rightarrow> verbs_match_ops \<Rightarrow> verbs_sysfs_dev \<Rightarrow> bool \<times> verbs_sysfs_dev" where
  "match_device modalias_file ops dev =
     (let dev = (case vo_match_table ops of None \<Rightarrow> dev
        | Some table \<Rightarrow>
            (let dev = dev\<lparr>sd_match := match_driver_id table dev\<rparr>;
                 dev = (if sd_match dev = None then dev\<lparr>sd_match := match_name table dev\<rparr> else dev) in
             if sd_match dev = None
             then (let (m, dev) = match_modalias_device modalias_file table dev in dev\<lparr>sd_match := m\<rparr>)
             else dev));
        matched = (case vo_match_device ops of Some f \<Rightarrow> f dev | None \<Rightarrow> sd_match dev \<noteq> None) in
      (matched \<and> \<not> (sd_abi_ver dev < vo_match_min_abi_version ops \<or> sd_abi_ver dev > vo_match_max_abi_version ops),
       dev))"

subsection \<open>What a name pattern matches\<close>

definition plain_char :: "char \<Rightarrow> bool" where
  "plain_char c = (c \<noteq> CHR ''*'' \<and> c \<noteq> CHR ''?'' \<and> c \<noteq> CHR 0x5C \<and> c \<noteq> CHR 0x5B)"

lemma fnmatch_literal:
  "list_all plain_char p \<Longrightarrow> fnmatch (p @ ps) s \<longleftrightarrow> (\<exists>t. s = p @ t \<and> fnmatch ps t)"
proof (induction p arbitrary: s)
  case (Cons c p)
  then show ?case by (cases s) (auto simp: plain_char_def)
qed simp

lemma fnmatch_star: "fnmatch (CHR ''*'' # ps) s \<longleftrightarrow> (\<exists>u v. s = u @ v \<and> fnmatch ps v)"
proof (induction s)
  case (Cons c s)
  have "(\<exists>u v. c # s = u @ v \<and> fnmatch ps v) \<longleftrightarrow> fnmatch ps (c # s) \<or> (\<exists>u v. s = u @ v \<and> fnmatch ps v)"
    by (metis append_Cons append_Nil neq_Nil_conv list.inject)
  with Cons show ?case by simp
qed simp

lemma fnmatch_trailing_star: "fnmatch [CHR ''*''] s"
  by (simp add: fnmatch_star)

lemma name_pattern_matches:
  assumes "list_all plain_char pre"
  shows "match_modalias (VERBS_NAME_MATCH pre) v \<longleftrightarrow> (\<exists>u. v = ''rdma_device:'' @ u \<and> sublist (CHR ''N'' # pre) u)"
proof -
  have lit: "list_all plain_char ''rdma_device:''" "list_all plain_char (CHR ''N'' # pre)"
    using assms by (simp_all add: plain_char_def)
  have "match_modalias (VERBS_NAME_MATCH pre) v \<longleftrightarrow>
      (\<exists>t. v = ''rdma_device:'' @ t \<and> fnmatch (CHR ''*'' # (CHR ''N'' # pre) @ ''*'') t)"
    using fnmatch_literal [OF lit(1), of "CHR ''*'' # (CHR ''N'' # pre) @ ''*''" v]
    by (simp add: VERBS_NAME_MATCH_def)
  moreover have "fnmatch (CHR ''*'' # (CHR ''N'' # pre) @ ''*'') t \<longleftrightarrow> sublist (CHR ''N'' # pre) t" for t
    by (auto simp: fnmatch_star fnmatch_literal [OF lit(2), simplified] fnmatch_trailing_star sublist_def)
  ultimately show ?thesis by simp
qed

end
