(* ===== verification/Refcount.thy ===== *)
theory Refcount
  imports Main "HOL-Library.Multiset" "HOL-Library.Monad_Syntax"
begin

text \<open>
  The interface of a reference count: a state in which the references held on each object are a
  multiset of its addresses. Taking a reference adds one, dropping one removes it, and neither fails as
  long as it is held. The lemmas for loops over arrays of objects are proved once from these laws; the
  device reference counts of libibverbs provide them.
\<close>

text \<open>A loop over a list whose body may fail.\<close>

fun opt_fold :: "('x \<Rightarrow> 's \<Rightarrow> 's option) \<Rightarrow> 'x list \<Rightarrow> 's \<Rightarrow> 's option" where
  "opt_fold f [] s = Some s"
| "opt_fold f (x # xs) s = do { s \<leftarrow> f x s; opt_fold f xs s }"

locale refcounted =
  fixes inv :: "'s \<Rightarrow> 'a multiset \<Rightarrow> bool"
    and hold :: "'s \<Rightarrow> 'a \<Rightarrow> 's option"
    and put :: "'s \<Rightarrow> 'a \<Rightarrow> 's option"
    and frame :: "'s \<Rightarrow> 's \<Rightarrow> bool"
  assumes hold_held: "inv s H \<Longrightarrow> a \<in># H \<Longrightarrow> \<exists>s'. hold s a = Some s' \<and> inv s' (add_mset a H) \<and> frame s s'"
    and put_held: "inv s (add_mset a H) \<Longrightarrow> \<exists>s'. put s a = Some s' \<and> inv s' H \<and> frame s s'"
    and frame_refl: "frame s s"
    and frame_trans: "frame s s' \<Longrightarrow> frame s' s'' \<Longrightarrow> frame s s''"
begin

lemma hold_all_held:
  "inv s H \<Longrightarrow> set xs \<subseteq> set_mset H \<Longrightarrow>
    \<exists>s'. opt_fold (\<lambda>a s. hold s a) xs s = Some s' \<and> inv s' (mset xs + H) \<and> frame s s'"
proof (induction xs arbitrary: s H)
  case Nil
  then show ?case by (simp add: frame_refl)
next
  case (Cons a xs)
  obtain s1 where s1: "hold s a = Some s1" "inv s1 (add_mset a H)" "frame s s1"
    using hold_held [OF Cons.prems(1)] Cons.prems(2) by auto
  obtain s2 where "opt_fold (\<lambda>a s. hold s a) xs s1 = Some s2" "inv s2 (mset xs + add_mset a H)" "frame s1 s2"
    using Cons.IH [OF s1(2)] Cons.prems(2) by auto
  with s1 show ?case by (auto intro: frame_trans)
qed

lemma put_all_held:
  "inv s (mset xs + H) \<Longrightarrow> \<exists>s'. opt_fold (\<lambda>a s. put s a) xs s = Some s' \<and> inv s' H \<and> frame s s'"
proof (induction xs arbitrary: s)
  case Nil
  then show ?case by (simp add: frame_refl)
next
  case (Cons a xs)
  obtain s1 where s1: "put s a = Some s1" "inv s1 (mset xs + H)" "frame s s1"
    using put_held [of s a "mset xs + H"] Cons.prems by auto
  obtain s2 where "opt_fold (\<lambda>a s. put s a) xs s1 = Some s2" "inv s2 H" "frame s1 s2"
    using Cons.IH [OF s1(2)] by auto
  with s1 show ?case by (auto intro: frame_trans)
qed

end

end
