(* ===== verification/VerbsDevice.thy ===== *)
theory VerbsDevice
  imports VerbsOps VerbsMatch Refcount
begin

text \<open>
  The life of devices and contexts in a process that uses libibverbs: \<^verbatim>\<open>device.c\<close> and the device list
  of \<^verbatim>\<open>init.c\<close>. The process state holds the device and context structures by address, the arrays
  handed to the program, the open file descriptors and the number of heap blocks in use. Memory with a
  single owner (the sysfs device of a device, its operation table, the private structure of a context) is
  a field of its owner. An operation returns \<open>None\<close> when it touches a structure that is not allocated.

  Every decision taken outside this code (an allocation, the dynamic loader, a system call) is a function
  of the process clock \<open>p_next\<close>, which advances at each of them; it also serves as the address or the
  descriptor that a successful one yields.
\<close>

subsection \<open>Structures\<close>

record verbs_device =
  vd_ops :: "string option"
  vd_refcount :: int
  vd_sysfs :: "verbs_sysfs_dev option"
  vd_core_support :: u64
  vd_node_type :: ibv_node_type
  vd_transport_type :: ibv_transport_type
  vd_name :: string
  vd_dev_name :: string
  vd_dev_path :: string
  vd_ibdev_path :: string

text \<open>\<^verbatim>\<open>struct bluerdma_device\<close> starts with a \<^verbatim>\<open>struct verbs_device\<close>.\<close>

record bluerdma_device = verbs_device +
  bd_driver_data :: ptr
  bd_abi_version :: nat
  bd_ops :: "verbs_context_ops option"
  bd_dl_handle :: bool
  bd_driver_new :: ptr
  bd_driver_free :: ptr

record verbs_context =
  vc_members :: ctx_members
  vc_priv :: "verbs_ex_private option"
  vc_device :: addr
  vc_cmd_fd :: int
  vc_async_fd :: int
  vc_num_comp_vectors :: nat
  vc_abi_extended :: bool

definition zero_context :: verbs_context where
  "zero_context = \<lparr>vc_members = Map.empty, vc_priv = None, vc_device = 0, vc_cmd_fd = 0, vc_async_fd = 0,
     vc_num_comp_vectors = 0, vc_abi_extended = False\<rparr>"

text \<open>A protection domain, queue or memory region a provider allocates: its kind and its context.\<close>

datatype object_kind = Obj_pd | Obj_cq | Obj_qp | Obj_mr

record verbs_object =
  vobj_kind :: object_kind
  vobj_context :: addr

record proc =
  p_next :: nat
  p_devs :: "addr \<rightharpoonup> bluerdma_device"
  p_ctxs :: "addr \<rightharpoonup> verbs_context"
  p_objs :: "addr \<rightharpoonup> verbs_object"
  p_lists :: "addr \<rightharpoonup> addr list"
  p_device_list :: "addr list"
  p_fds :: "int set"
  p_live :: int
  p_insts :: "addr \<rightharpoonup> string"
  p_dl_refs :: int
  p_driver_list :: "string list"
  p_drivers_loaded :: bool
  p_initialized :: bool
  p_abi_ver :: int
  p_errno :: int

definition proc_start :: proc where
  "proc_start = \<lparr>p_next = 8, p_devs = Map.empty, p_ctxs = Map.empty, p_objs = Map.empty, p_lists = Map.empty,
     p_device_list = [], p_fds = {}, p_live = 0, p_insts = Map.empty, p_dl_refs = 0,
     p_driver_list = [], p_drivers_loaded = False, p_initialized = False, p_abi_ver = 0, p_errno = 0\<rparr>"

text \<open>The outcome of the get-context command: by \<^verbatim>\<open>write\<close>, by \<^verbatim>\<open>ioctl\<close>, or an error code.\<close>

datatype get_context_outcome =
  Get_context_write nat | Get_context_ioctl nat u64 | Get_context_error int

text \<open>
  The devices the kernel reports: by netlink, where any failure falls back to sysfs, or from the sysfs
  directory, whose scan fails with one of two error codes.
\<close>

datatype sysfs_scan = Scan_ok "verbs_sysfs_dev list" | Scan_ENOMEM | Scan_ENOSYS

record penv =
  e_calloc_ok :: "nat \<Rightarrow> bool"
  e_dlopen_ok :: "nat \<Rightarrow> bool"
  e_dlsym :: "string \<Rightarrow> addr option"
  e_driver_new_ok :: "nat \<Rightarrow> bool"
  e_open_cdev_ok :: "nat \<Rightarrow> bool"
  e_get_context :: "nat \<Rightarrow> get_context_outcome"
  e_ioctl_write_rc :: "nat \<Rightarrow> int"
  e_alloc_async_fd_rc :: "nat \<Rightarrow> int"
  e_ibverbs_init_rc :: "nat \<Rightarrow> int"
  e_find_sysfs_devs_nl :: "nat \<Rightarrow> verbs_sysfs_dev list option"
  e_find_sysfs_devs :: "nat \<Rightarrow> sysfs_scan"
  e_abi_version_file :: "nat \<Rightarrow> int option"
  e_modalias_file :: "string \<Rightarrow> string option"
  e_sysfs_path :: string
  e_loadable_drivers :: "string list"

text \<open>
  What libibverbs knows of a provider: the match members and the function pointers of its
  \<^verbatim>\<open>struct verbs_device_ops\<close>. A NULL function pointer is \<open>None\<close>.
\<close>

type_synonym uninit_fn = "proc \<Rightarrow> addr \<Rightarrow> proc option"

record provider =
  po_match :: verbs_match_ops
  po_alloc_device :: "penv \<Rightarrow> proc \<Rightarrow> verbs_sysfs_dev \<Rightarrow> (ptr \<times> proc) option"
  po_uninit_device :: "uninit_fn option"
  po_alloc_context :: "penv \<Rightarrow> proc \<Rightarrow> addr \<Rightarrow> int \<Rightarrow> (ptr \<times> proc) option"

subsection \<open>Allocation and descriptors\<close>

definition tick :: "proc \<Rightarrow> proc" where "tick p = p\<lparr>p_next := Suc (p_next p)\<rparr>"

definition calloc :: "penv \<Rightarrow> proc \<Rightarrow> ptr \<times> proc" where
  "calloc env p =
     (if e_calloc_ok env (p_next p) then (Some (p_next p), (tick p)\<lparr>p_live := p_live p + 1\<rparr>)
      else (None, tick p))"

definition free_block :: "proc \<Rightarrow> proc" where "free_block p = p\<lparr>p_live := p_live p - 1\<rparr>"

definition close_fd :: "proc \<Rightarrow> int \<Rightarrow> proc" where "close_fd p fd = p\<lparr>p_fds := p_fds p - {fd}\<rparr>"

text \<open>A descriptor the kernel hands out.\<close>

definition fresh_fd :: "proc \<Rightarrow> int \<times> proc" where
  "fresh_fd p = (int (p_next p), (tick p)\<lparr>p_fds := insert (int (p_next p)) (p_fds p)\<rparr>)"

definition upd_ctx :: "proc \<Rightarrow> addr \<Rightarrow> (verbs_context \<Rightarrow> verbs_context) \<Rightarrow> proc option" where
  "upd_ctx p c f = (case p_ctxs p c of None \<Rightarrow> None | Some x \<Rightarrow> Some (p\<lparr>p_ctxs := (p_ctxs p)(c \<mapsto> f x)\<rparr>))"

definition upd_dev :: "proc \<Rightarrow> addr \<Rightarrow> (bluerdma_device \<Rightarrow> bluerdma_device) \<Rightarrow> proc option" where
  "upd_dev p a f = (case p_devs p a of None \<Rightarrow> None | Some d \<Rightarrow> Some (p\<lparr>p_devs := (p_devs p)(a \<mapsto> f d)\<rparr>))"

subsection \<open>Reference counts (\<^verbatim>\<open>init.c\<close>)\<close>

definition ibverbs_device_hold :: "proc \<Rightarrow> addr \<Rightarrow> proc option" where
  "ibverbs_device_hold p dev = upd_dev p dev (\<lambda>d. d\<lparr>vd_refcount := vd_refcount d + 1\<rparr>)"

definition ibverbs_device_put :: "(string \<Rightarrow> uninit_fn option) \<Rightarrow> proc \<Rightarrow> addr \<Rightarrow> proc option" where
  "ibverbs_device_put un p dev = do {
     d \<leftarrow> p_devs p dev;
     p \<leftarrow> upd_dev p dev (\<lambda>d. d\<lparr>vd_refcount := vd_refcount d - 1\<rparr>);
     if vd_refcount d = 1 then do {
       let p = (if vd_sysfs d = None then p else free_block p);
       p \<leftarrow> upd_dev p dev (\<lambda>d. d\<lparr>vd_sysfs := None\<rparr>);
       name \<leftarrow> vd_ops d;
       (case un name of None \<Rightarrow> Some p | Some f \<Rightarrow> f p dev)
     } else Some p
   }"

subsection \<open>Contexts (\<^verbatim>\<open>device.c\<close>)\<close>

definition ENOTTY :: int where "ENOTTY = 25"

text \<open>Neither \<^verbatim>\<open>VERBS_IOCTL_ONLY\<close> nor \<^verbatim>\<open>VERBS_WRITE_ONLY\<close> is set in the default configuration.\<close>

definition has_ioctl_write :: "int \<Rightarrow> bool" where
  "has_ioctl_write rc = (if rc = EPROTONOSUPPORT then False else if rc = ENOTTY then False else True)"

definition ctx_set_ops :: "verbs_context_ops \<Rightarrow> verbs_context \<Rightarrow> verbs_context option" where
  "ctx_set_ops ops x = do {
     priv \<leftarrow> vc_priv x;
     let (priv, vis) = verbs_set_ops ops (priv, vc_members x);
     Some (x\<lparr>vc_priv := Some priv, vc_members := vis\<rparr>)
   }"

definition verbs_init_context ::
  "penv \<Rightarrow> proc \<Rightarrow> addr \<Rightarrow> addr \<Rightarrow> int \<Rightarrow> nat \<Rightarrow> (int \<times> proc) option" where
  "verbs_init_context env p c device cmd_fd driver_id = do {
     p \<leftarrow> ibverbs_device_hold p device;
     p \<leftarrow> upd_ctx p c (\<lambda>x. x\<lparr>vc_device := device, vc_cmd_fd := cmd_fd, vc_async_fd := -1,
             vc_abi_extended := True\<rparr>);
     (case calloc env p of
        (None, p) \<Rightarrow> Some (-1, (close_fd p cmd_fd)\<lparr>p_errno := ENOMEM\<rparr>)
      | (Some _, p) \<Rightarrow> do {
          x \<leftarrow> p_ctxs p c;
          x \<leftarrow> ctx_set_ops verbs_dummy_ops (x\<lparr>vc_priv := Some (zero_priv\<lparr>priv_driver_id := driver_id\<rparr>)\<rparr>);
          priv \<leftarrow> vc_priv x;
          let x = x\<lparr>vc_priv := Some (priv\<lparr>priv_use_ioctl_write := has_ioctl_write (e_ioctl_write_rc env (p_next p))\<rparr>)\<rparr>;
          Some (0, (tick p)\<lparr>p_ctxs := (p_ctxs p)(c \<mapsto> x)\<rparr>)
        })
   }"

definition verbs_init_and_alloc_context ::
  "penv \<Rightarrow> proc \<Rightarrow> addr \<Rightarrow> int \<Rightarrow> nat \<Rightarrow> (ptr \<times> proc) option" where
  "verbs_init_and_alloc_context env p device cmd_fd driver_id =
     (case calloc env p of
        (None, p) \<Rightarrow> Some (None, (close_fd p cmd_fd)\<lparr>p_errno := ENOMEM\<rparr>)
      | (Some c, p) \<Rightarrow> do {
          (ret, p) \<leftarrow> verbs_init_context env (p\<lparr>p_ctxs := (p_ctxs p)(c \<mapsto> zero_context)\<rparr>) c device cmd_fd driver_id;
          if ret \<noteq> 0 then Some (None, free_block (p\<lparr>p_ctxs := (p_ctxs p)(c := None)\<rparr>)) else Some (Some c, p)
        })"

definition verbs_uninit_context :: "(string \<Rightarrow> uninit_fn option) \<Rightarrow> proc \<Rightarrow> addr \<Rightarrow> proc option" where
  "verbs_uninit_context un p c = do {
     x \<leftarrow> p_ctxs p c;
     let p = (if vc_priv x = None then p else free_block p);
     p \<leftarrow> upd_ctx p c (\<lambda>x. x\<lparr>vc_priv := None\<rparr>);
     let p = (if vc_cmd_fd x \<noteq> -1 then close_fd p (vc_cmd_fd x) else p);
     let p = (if vc_async_fd x \<noteq> -1 then close_fd p (vc_async_fd x) else p);
     ibverbs_device_put un p (vc_device x)
   }"

definition set_lib_ops :: "ctx_members \<Rightarrow> ctx_members" where
  "set_lib_ops vis =
     (let vis = vis((Vctx, ''create_cq_ex'') \<mapsto> Fn_lib ''__lib_ibv_create_cq_ex'',
                    (Ctx, ''_compat_query_port'') \<mapsto> Fn_lib ''ibv_query_port'',
                    (Vctx, ''query_port'') \<mapsto> Fn_lib ''__lib_query_port'',
                    (Ctx, ''_compat_query_device'') \<mapsto> Fn_lib ''ibv_query_device'') in
      vis((Vctx, ''ABI_placeholder1'') := vis (Vctx, ''ibv_create_flow''),
          (Vctx, ''ABI_placeholder2'') := vis (Vctx, ''ibv_destroy_flow'')))"

text \<open>\<^verbatim>\<open>cmd_get_context\<close> and \<^verbatim>\<open>ibv_cmd_alloc_async_fd\<close> of \<^verbatim>\<open>cmd_device.c\<close>, around the kernel's answer.\<close>

definition ibv_cmd_get_context :: "penv \<Rightarrow> proc \<Rightarrow> addr \<Rightarrow> (int \<times> proc) option" where
  "ibv_cmd_get_context env p c =
     (case e_get_context env (p_next p) of
        Get_context_error ret \<Rightarrow> Some (ret, tick p)
      | Get_context_write ncv \<Rightarrow>
          (let (fd, p) = fresh_fd p in
           do { p \<leftarrow> upd_ctx p c (\<lambda>x. x\<lparr>vc_async_fd := fd, vc_num_comp_vectors := ncv\<rparr>); Some (0, p) })
      | Get_context_ioctl ncv core \<Rightarrow> do {
          x \<leftarrow> p_ctxs p c;
          p \<leftarrow> upd_ctx (tick p) c (\<lambda>x. x\<lparr>vc_num_comp_vectors := ncv\<rparr>);
          p \<leftarrow> upd_dev p (vc_device x) (\<lambda>d. d\<lparr>vd_core_support := core\<rparr>);
          Some (0, p)
        })"

definition ibv_cmd_alloc_async_fd :: "penv \<Rightarrow> proc \<Rightarrow> addr \<Rightarrow> (int \<times> proc) option" where
  "ibv_cmd_alloc_async_fd env p c =
     (let ret = e_alloc_async_fd_rc env (p_next p) in
      if ret \<noteq> 0 then Some (ret, tick p)
      else let (fd, p) = fresh_fd p in
           do { p \<leftarrow> upd_ctx p c (\<lambda>x. x\<lparr>vc_async_fd := fd\<rparr>); Some (0, p) })"

text \<open>
  \<^verbatim>\<open>free_context\<close> is called through the private operation table; \<open>fc\<close> gives the function a
  pointer names.
\<close>

type_synonym call_free_context = "fnptr \<Rightarrow> proc \<Rightarrow> addr \<Rightarrow> proc option"

definition ibv_close_device :: "call_free_context \<Rightarrow> proc \<Rightarrow> addr \<Rightarrow> (int \<times> proc) option" where
  "ibv_close_device fc p c = do {
     x \<leftarrow> p_ctxs p c;
     priv \<leftarrow> vc_priv x;
     f \<leftarrow> priv_ops priv ''free_context'';
     p \<leftarrow> fc f p c;
     Some (0, p)
   }"

definition verbs_open_device ::
  "penv \<Rightarrow> (string \<Rightarrow> provider) \<Rightarrow> call_free_context \<Rightarrow> proc \<Rightarrow> addr \<Rightarrow> (ptr \<times> proc) option" where
  "verbs_open_device env drv fc p dev = do {
     d \<leftarrow> p_devs p dev;
     if vd_sysfs d \<noteq> None \<and> \<not> e_open_cdev_ok env (p_next p) then Some (None, tick p)
     else do {
       let (cmd_fd, p) = (if vd_sysfs d \<noteq> None then fresh_fd p else (-1, p));
       name \<leftarrow> vd_ops d;
       (r, p) \<leftarrow> po_alloc_context (drv name) env p dev cmd_fd;
       (case r of None \<Rightarrow> Some (None, p)
        | Some c \<Rightarrow> do {
            p \<leftarrow> upd_ctx p c (\<lambda>x. x\<lparr>vc_members := set_lib_ops (vc_members x)\<rparr>);
            x \<leftarrow> p_ctxs p c;
            if vd_sysfs d \<noteq> None \<and> vc_async_fd x = -1 then do {
              (ret, p) \<leftarrow> ibv_cmd_alloc_async_fd env p c;
              if ret \<noteq> 0 then do { (_, p) \<leftarrow> ibv_close_device fc p c; Some (None, p) } else Some (Some c, p)
            } else Some (Some c, p)
          })
     }
   }"

definition ibv_open_device ::
  "penv \<Rightarrow> (string \<Rightarrow> provider) \<Rightarrow> call_free_context \<Rightarrow> proc \<Rightarrow> addr \<Rightarrow> (ptr \<times> proc) option" where
  "ibv_open_device env drv fc p dev = verbs_open_device env drv fc p dev"

subsection \<open>Trying the drivers (\<^verbatim>\<open>init.c\<close>)\<close>

definition verbs_register_driver :: "penv \<Rightarrow> proc \<Rightarrow> string \<Rightarrow> proc" where
  "verbs_register_driver env p name =
     (case calloc env p of (None, p) \<Rightarrow> p
      | (Some _, p) \<Rightarrow> p\<lparr>p_driver_list := p_driver_list p @ [name]\<rparr>)"

definition try_driver ::
  "penv \<Rightarrow> provider \<Rightarrow> proc \<Rightarrow> verbs_sysfs_dev \<Rightarrow> (ptr \<times> verbs_sysfs_dev \<times> proc) option" where
  "try_driver env po p sd =
     (let (ok, sd) = match_device (e_modalias_file env) (po_match po) sd in
      if \<not> ok then Some (None, sd, p)
      else do {
        (r, p) \<leftarrow> po_alloc_device po env p sd;
        (case r of None \<Rightarrow> Some (None, sd, p)
         | Some v \<Rightarrow> do {
             let dev_path = e_sysfs_path env @ ''/class/infiniband_verbs/'' @ sd_sysfs_name sd;
             p \<leftarrow> upd_dev p v (\<lambda>d. d\<lparr>vd_ops := Some (vo_name (po_match po)), vd_refcount := 1,
                    vd_node_type := sd_node_type sd, vd_transport_type := node_transport (sd_node_type sd),
                    vd_dev_name := sd_sysfs_name sd\<rparr>);
             if IBV_SYSFS_PATH_MAX \<le> length dev_path then do {
               un \<leftarrow> po_uninit_device po;
               p \<leftarrow> un p v;
               Some (None, sd, p)
             } else do {
               p \<leftarrow> upd_dev p v (\<lambda>d. d\<lparr>vd_dev_path := dev_path, vd_name := sd_ibdev_name sd,
                      vd_ibdev_path := sd_ibdev_path sd, vd_sysfs := Some sd\<rparr>);
               Some (Some v, sd, p)
             }
           })
      })"

text \<open>The two loops of \<^verbatim>\<open>try_drivers\<close>: the first skips the drivers whose table lacks the driver id.\<close>

fun try_driver_loop ::
  "penv \<Rightarrow> (string \<Rightarrow> provider) \<Rightarrow> bool \<Rightarrow> string list \<Rightarrow> proc \<Rightarrow> verbs_sysfs_dev \<Rightarrow> (ptr \<times> verbs_sysfs_dev \<times> proc) option" where
  "try_driver_loop env drv by_id [] p sd = Some (None, sd, p)"
| "try_driver_loop env drv by_id (name # names) p sd = do {
     skip \<leftarrow> (if by_id then do { table \<leftarrow> vo_match_table (po_match (drv name));
                               Some (match_driver_id table sd = None) }
             else Some False);
     if skip then try_driver_loop env drv by_id names p sd
     else do {
       (r, sd, p) \<leftarrow> try_driver env (drv name) p sd;
       (case r of Some v \<Rightarrow> Some (Some v, sd, p) | None \<Rightarrow> try_driver_loop env drv by_id names p sd)
     }
   }"

definition try_drivers ::
  "penv \<Rightarrow> (string \<Rightarrow> provider) \<Rightarrow> proc \<Rightarrow> verbs_sysfs_dev \<Rightarrow> (ptr \<times> verbs_sysfs_dev \<times> proc) option" where
  "try_drivers env drv p sd = do {
     (r, sd, p) \<leftarrow> (if sd_driver_id sd \<noteq> RDMA_DRIVER_UNKNOWN
                    then try_driver_loop env drv True (p_driver_list p) p sd else Some (None, sd, p));
     (case r of Some v \<Rightarrow> Some (Some v, sd, p)
      | None \<Rightarrow> try_driver_loop env drv False (p_driver_list p) p sd)
   }"

fun try_all_drivers ::
  "penv \<Rightarrow> (string \<Rightarrow> provider) \<Rightarrow> verbs_sysfs_dev list \<Rightarrow> nat \<Rightarrow> proc \<Rightarrow> (verbs_sysfs_dev list \<times> nat \<times> proc) option" where
  "try_all_drivers env drv [] num p = Some ([], num, p)"
| "try_all_drivers env drv (sd # sds) num p = do {
     (r, sd, p) \<leftarrow> try_drivers env drv p sd;
     (case r of
        Some v \<Rightarrow> try_all_drivers env drv sds (num + 1) (p\<lparr>p_device_list := v # p_device_list p\<rparr>)
      | None \<Rightarrow> do {
          (rest, num, p) \<leftarrow> try_all_drivers env drv sds num p;
          Some (sd # rest, num, p)
        })
   }"

subsection \<open>The device list (\<^verbatim>\<open>init.c\<close>, \<^verbatim>\<open>device.c\<close>)\<close>

definition IB_USER_VERBS_MIN_ABI_VERSION :: int where "IB_USER_VERBS_MIN_ABI_VERSION = 3"
definition IB_USER_VERBS_MAX_ABI_VERSION :: int where "IB_USER_VERBS_MAX_ABI_VERSION = 6"

definition check_abi_version :: "penv \<Rightarrow> proc \<Rightarrow> int \<times> proc" where
  "check_abi_version env p =
     (if p_abi_ver p \<noteq> 0 then (0, p)
      else case e_abi_version_file env (p_next p) of
             None \<Rightarrow> (ENOSYS, tick p)
           | Some v \<Rightarrow>
               (let p = (tick p)\<lparr>p_abi_ver := v\<rparr> in
                if v < IB_USER_VERBS_MIN_ABI_VERSION \<or> v > IB_USER_VERBS_MAX_ABI_VERSION
                then (ENOSYS, p) else (0, p)))"

text \<open>
  The loop that compares the devices known so far with the sysfs devices found: a device still present
  drops the new sysfs entry, any other leaves the list and loses its reference.
\<close>

fun sync_device_list ::
  "(string \<Rightarrow> uninit_fn option) \<Rightarrow> addr list \<Rightarrow> verbs_sysfs_dev list \<Rightarrow> nat \<Rightarrow> proc \<Rightarrow> (verbs_sysfs_dev list \<times> nat \<times> proc) option" where
  "sync_device_list un [] sds num p = Some (sds, num, p)"
| "sync_device_list un (v # vs) sds num p = do {
     d \<leftarrow> p_devs p v;
     s \<leftarrow> (if sds = [] then Some None
          else do { vs \<leftarrow> vd_sysfs d; Some (find (same_sysfs_dev vs) sds) });
     (case s of
        Some old \<Rightarrow> sync_device_list un vs (remove1 old sds) (num + 1) (free_block p)
      | None \<Rightarrow> do {
          p \<leftarrow> ibverbs_device_put un (p\<lparr>p_device_list := remove1 v (p_device_list p)\<rparr>) v;
          sync_device_list un vs sds num p
        })
   }"

definition load_drivers :: "penv \<Rightarrow> proc \<Rightarrow> proc" where
  "load_drivers env p = fold (\<lambda>name p. verbs_register_driver env p name) (e_loadable_drivers env) p"

definition uninit_of :: "(string \<Rightarrow> provider) \<Rightarrow> string \<Rightarrow> uninit_fn option" where
  "uninit_of drv name = po_uninit_device (drv name)"

definition find_devs :: "penv \<Rightarrow> proc \<Rightarrow> int \<times> verbs_sysfs_dev list \<times> proc" where
  "find_devs env p =
     (case e_find_sysfs_devs_nl env (p_next p) of
        Some sds \<Rightarrow> (0, sds, (tick p)\<lparr>p_live := p_live p + int (length sds)\<rparr>)
      | None \<Rightarrow>
          (case e_find_sysfs_devs env (p_next p) of
             Scan_ok sds \<Rightarrow> (0, sds, (tick p)\<lparr>p_live := p_live p + int (length sds)\<rparr>)
           | Scan_ENOMEM \<Rightarrow> (ENOMEM, [], tick p)
           | Scan_ENOSYS \<Rightarrow> (ENOSYS, [], tick p)))"

definition ibverbs_get_device_list :: "penv \<Rightarrow> (string \<Rightarrow> provider) \<Rightarrow> proc \<Rightarrow> (int \<times> proc) option" where
  "ibverbs_get_device_list env drv p =
     (let (ret, sds, p) = find_devs env p in
      if ret \<noteq> 0 then Some (- ret, p)
      else
        let (ret, p) = (if sds \<noteq> [] then check_abi_version env p else (0, p)) in
        if ret \<noteq> 0 then Some (- ret, p)
        else do {
          (sds, num, p) \<leftarrow> sync_device_list (uninit_of drv) (p_device_list p) sds 0 p;
          (sds, num, p) \<leftarrow> try_all_drivers env drv sds num p;
          (sds, num, p) \<leftarrow>
            (if sds = [] \<or> p_drivers_loaded p then Some (sds, num, p)
             else try_all_drivers env drv sds num ((load_drivers env p)\<lparr>p_drivers_loaded := True\<rparr>));
          Some (int num, p\<lparr>p_live := p_live p - int (length sds)\<rparr>)
        })"

text \<open>
  The array of a device list has one entry more than the devices counted; storing the listed devices
  beyond it, the terminating NULL included, is an invalid access.
\<close>

definition hold_all :: "addr list \<Rightarrow> proc \<Rightarrow> proc option" where
  "hold_all = opt_fold (\<lambda>v p. ibverbs_device_hold p v)"

definition ibv_get_device_list :: "penv \<Rightarrow> (string \<Rightarrow> provider) \<Rightarrow> proc \<Rightarrow> (ptr \<times> int \<times> proc) option" where
  "ibv_get_device_list env drv p =
     (let (ok, p) = (if p_initialized p then (True, p)
                     else if e_ibverbs_init_rc env (p_next p) \<noteq> 0 then (False, tick p)
                     else (True, (tick p)\<lparr>p_initialized := True\<rparr>)) in
      if \<not> ok then Some (None, 0, p)
      else do {
        (num, p) \<leftarrow> ibverbs_get_device_list env drv p;
        if num < 0 then Some (None, 0, p\<lparr>p_errno := - num\<rparr>)
        else (case calloc env p of
                (None, p) \<Rightarrow> Some (None, 0, p\<lparr>p_errno := ENOMEM\<rparr>)
              | (Some l, p) \<Rightarrow>
                  if num < int (length (p_device_list p)) then None
                  else do {
                  p \<leftarrow> hold_all (p_device_list p) p;
                  Some (Some l, num, p\<lparr>p_lists := (p_lists p)(l \<mapsto> p_device_list p)\<rparr>)
                })
      })"

definition put_all :: "(string \<Rightarrow> uninit_fn option) \<Rightarrow> addr list \<Rightarrow> proc \<Rightarrow> proc option" where
  "put_all un = opt_fold (\<lambda>v p. ibverbs_device_put un p v)"

definition ibv_free_device_list :: "(string \<Rightarrow> provider) \<Rightarrow> proc \<Rightarrow> addr \<Rightarrow> proc option" where
  "ibv_free_device_list drv p l = do {
     vs \<leftarrow> p_lists p l;
     p \<leftarrow> put_all (uninit_of drv) vs p;
     Some (free_block (p\<lparr>p_lists := (p_lists p)(l := None)\<rparr>))
   }"

end
