(* ===== verification/Provider.thy ===== *)
theory Provider
  imports VerbsDevice
begin

text \<open>
  The user-space provider, \<^verbatim>\<open>providers/bluerdma/bluerdma.c\<close>: it matches the kernel driver's devices by name,
  loads the Rust library \<^verbatim>\<open>libbluerdma_rust.so\<close>, and lays the library's exported verbs over its own
  stubs. The library is a parameter: which symbols it exports (\<open>e_dlsym\<close>), whether it can be loaded, and
  whether its constructor returns an instance. Its destructor ignores a NULL instance.
\<close>

subsection \<open>The match table\<close>

definition hca_table :: "verbs_match_ent list" where
  "hca_table = [VERBS_DRIVER_ID RDMA_DRIVER_UNKNOWN, VERBS_NAME_MATCH ''bluerdma'']"

subsection \<open>Stub verbs\<close>

text \<open>
  \<^verbatim>\<open>verbs_info\<close> and \<^verbatim>\<open>verbs_err\<close> read the name of the context's device whatever the log level is.
\<close>

definition verbs_log :: "proc \<Rightarrow> addr \<Rightarrow> unit option" where
  "verbs_log p c = do {
     x \<leftarrow> p_ctxs p c;
     d \<leftarrow> (if vc_abi_extended x then p_devs p (vc_device x) else None);
     Some ()
   }"

definition calloc_object :: "penv \<Rightarrow> proc \<Rightarrow> object_kind \<Rightarrow> addr \<Rightarrow> ptr \<times> proc" where
  "calloc_object env p k c =
     (case calloc env p of (None, p) \<Rightarrow> (None, p)
      | (Some a, p) \<Rightarrow> (Some a, p\<lparr>p_objs := (p_objs p)(a \<mapsto> \<lparr>vobj_kind = k, vobj_context = c\<rparr>)\<rparr>))"

definition object_log :: "proc \<Rightarrow> object_kind \<Rightarrow> addr \<Rightarrow> verbs_object option" where
  "object_log p k a = do {
     ob \<leftarrow> p_objs p a;
     if vobj_kind ob = k then do { verbs_log p (vobj_context ob); Some ob } else None
   }"

definition free_object :: "proc \<Rightarrow> object_kind \<Rightarrow> addr \<Rightarrow> (int \<times> proc) option" where
  "free_object p k a = do { object_log p k a; Some (0, free_block (p\<lparr>p_objs := (p_objs p)(a := None)\<rparr>)) }"

definition bluerdma_query_device :: "proc \<Rightarrow> addr \<Rightarrow> (int \<times> proc) option" where
  "bluerdma_query_device p context = do { verbs_log p context; Some (0, p) }"

definition bluerdma_query_port :: "proc \<Rightarrow> addr \<Rightarrow> u8 \<Rightarrow> (int \<times> proc) option" where
  "bluerdma_query_port p context port = do { verbs_log p context; Some (0, p) }"

definition bluerdma_alloc_pd :: "penv \<Rightarrow> proc \<Rightarrow> addr \<Rightarrow> (ptr \<times> proc) option" where
  "bluerdma_alloc_pd env p context = do { verbs_log p context; Some (calloc_object env p Obj_pd context) }"

definition bluerdma_dealloc_pd :: "proc \<Rightarrow> addr \<Rightarrow> (int \<times> proc) option" where
  "bluerdma_dealloc_pd p pd = free_object p Obj_pd pd"

definition bluerdma_create_cq :: "penv \<Rightarrow> proc \<Rightarrow> addr \<Rightarrow> int \<Rightarrow> ptr \<Rightarrow> int \<Rightarrow> (ptr \<times> proc) option" where
  "bluerdma_create_cq env p context cqe channel comp_vector = do {
     verbs_log p context; Some (calloc_object env p Obj_cq context) }"

definition bluerdma_destroy_cq :: "proc \<Rightarrow> addr \<Rightarrow> (int \<times> proc) option" where
  "bluerdma_destroy_cq p ibcq = free_object p Obj_cq ibcq"

definition bluerdma_create_qp :: "penv \<Rightarrow> proc \<Rightarrow> addr \<Rightarrow> (ptr \<times> proc) option" where
  "bluerdma_create_qp env p ibpd = do {
     pd \<leftarrow> object_log p Obj_pd ibpd; Some (calloc_object env p Obj_qp (vobj_context pd)) }"

definition bluerdma_query_qp :: "proc \<Rightarrow> addr \<Rightarrow> (int \<times> proc) option" where
  "bluerdma_query_qp p ibqp = do { object_log p Obj_qp ibqp; Some (0, p) }"

definition bluerdma_modify_qp :: "proc \<Rightarrow> addr \<Rightarrow> (int \<times> proc) option" where
  "bluerdma_modify_qp p ibqp = do { object_log p Obj_qp ibqp; Some (0, p) }"

definition bluerdma_destroy_qp :: "proc \<Rightarrow> addr \<Rightarrow> (int \<times> proc) option" where
  "bluerdma_destroy_qp p ibqp = free_object p Obj_qp ibqp"

definition bluerdma_reg_mr :: "penv \<Rightarrow> proc \<Rightarrow> addr \<Rightarrow> (ptr \<times> proc) option" where
  "bluerdma_reg_mr env p ibpd = do {
     pd \<leftarrow> object_log p Obj_pd ibpd; Some (calloc_object env p Obj_mr (vobj_context pd)) }"

definition bluerdma_dereg_mr :: "proc \<Rightarrow> addr \<Rightarrow> (int \<times> proc) option" where
  "bluerdma_dereg_mr p vmr = free_object p Obj_mr vmr"

definition bluerdma_poll_cq :: "proc \<Rightarrow> addr \<Rightarrow> (int \<times> proc) option" where
  "bluerdma_poll_cq p ibcq = do { object_log p Obj_cq ibcq; Some (0, p) }"

definition bluerdma_post_send :: "proc \<Rightarrow> addr \<Rightarrow> (int \<times> proc) option" where
  "bluerdma_post_send p ibqp = do { object_log p Obj_qp ibqp; Some (0, p) }"

definition bluerdma_post_recv :: "proc \<Rightarrow> addr \<Rightarrow> (int \<times> proc) option" where
  "bluerdma_post_recv p ibqp = do { object_log p Obj_qp ibqp; Some (0, p) }"

definition bluerdma_req_notify_cq :: "proc \<Rightarrow> addr \<Rightarrow> (int \<times> proc) option" where
  "bluerdma_req_notify_cq p ibcq = do { object_log p Obj_cq ibcq; Some (0, p) }"

subsection \<open>The operation tables\<close>

definition bluerdma_ctx_ops :: verbs_context_ops where
  "bluerdma_ctx_ops = map_of [
    (''query_device_ex'', Fn_bluerdma ''bluerdma_query_device''),
    (''query_port'', Fn_bluerdma ''bluerdma_query_port''),
    (''alloc_pd'', Fn_bluerdma ''bluerdma_alloc_pd''),
    (''dealloc_pd'', Fn_bluerdma ''bluerdma_dealloc_pd''),
    (''reg_mr'', Fn_bluerdma ''bluerdma_reg_mr''),
    (''dereg_mr'', Fn_bluerdma ''bluerdma_dereg_mr''),
    (''create_cq'', Fn_bluerdma ''bluerdma_create_cq''),
    (''poll_cq'', Fn_bluerdma ''bluerdma_poll_cq''),
    (''req_notify_cq'', Fn_bluerdma ''bluerdma_req_notify_cq''),
    (''destroy_cq'', Fn_bluerdma ''bluerdma_destroy_cq''),
    (''create_qp'', Fn_bluerdma ''bluerdma_create_qp''),
    (''query_qp'', Fn_bluerdma ''bluerdma_query_qp''),
    (''modify_qp'', Fn_bluerdma ''bluerdma_modify_qp''),
    (''destroy_qp'', Fn_bluerdma ''bluerdma_destroy_qp''),
    (''post_send'', Fn_bluerdma ''bluerdma_post_send''),
    (''post_recv'', Fn_bluerdma ''bluerdma_post_recv''),
    (''free_context'', Fn_bluerdma ''bluerdma_free_context'')]"

definition bluerdma_set_ops_body :: "string list" where
  "bluerdma_set_ops_body = [
    ''advise_mr'', ''alloc_dm'', ''alloc_mw'', ''alloc_null_mr'', ''alloc_parent_domain'',
    ''alloc_pd'', ''alloc_td'', ''async_event'', ''attach_counters_point_flow'',
    ''attach_mcast'', ''bind_mw'', ''close_xrcd'', ''cq_event'', ''create_ah'',
    ''create_counters'', ''create_cq'', ''create_cq_ex'', ''create_flow'',
    ''create_flow_action_esp'', ''create_qp'', ''create_qp_ex'', ''create_rwq_ind_table'',
    ''create_srq'', ''create_srq_ex'', ''create_wq'', ''dealloc_mw'', ''dealloc_pd'',
    ''dealloc_td'', ''dereg_mr'', ''destroy_ah'', ''destroy_counters'', ''destroy_cq'',
    ''destroy_flow'', ''destroy_flow_action'', ''destroy_qp'', ''destroy_rwq_ind_table'',
    ''destroy_srq'', ''destroy_wq'', ''detach_mcast'', ''free_dm'', ''get_srq_num'',
    ''import_dm'', ''import_mr'', ''import_pd'', ''modify_cq'', ''modify_flow_action_esp'',
    ''modify_qp'', ''modify_qp_rate_limit'', ''modify_srq'', ''modify_wq'', ''open_qp'',
    ''open_xrcd'', ''poll_cq'', ''post_recv'', ''post_send'', ''post_srq_ops'',
    ''post_srq_recv'', ''query_device_ex'', ''query_ece'', ''query_port'', ''query_qp'',
    ''query_qp_data_in_order'', ''query_rt_values'', ''query_srq'', ''read_counters'',
    ''reg_dm_mr'', ''reg_dmabuf_mr'', ''reg_mr'', ''req_notify_cq'', ''rereg_mr'', ''resize_cq'',
    ''set_ece'', ''unimport_dm'', ''unimport_mr'', ''unimport_pd'']"

definition bluerdma_set_ops :: "(string \<Rightarrow> addr option) \<Rightarrow> verbs_context_ops \<Rightarrow> verbs_context_ops" where
  "bluerdma_set_ops dlsym = fold (\<lambda>op ops.
     (case dlsym (''bluerdma_'' @ op) of None \<Rightarrow> ops | Some fn \<Rightarrow> ops(op \<mapsto> Fn_dl fn))) bluerdma_set_ops_body"

subsection \<open>Devices\<close>

definition zero_bdev :: bluerdma_device where
  "zero_bdev = \<lparr>vd_ops = None, vd_refcount = 0, vd_sysfs = None, vd_core_support = 0,
     vd_node_type = IBV_NODE_UNKNOWN, vd_transport_type = IBV_TRANSPORT_IB, vd_name = [], vd_dev_name = [],
     vd_dev_path = [], vd_ibdev_path = [], bd_driver_data = None, bd_abi_version = 0, bd_ops = None,
     bd_dl_handle = False, bd_driver_new = None, bd_driver_free = None\<rparr>"

text \<open>The exported constructor and destructor of the library.\<close>

definition driver_new :: "penv \<Rightarrow> proc \<Rightarrow> string \<Rightarrow> ptr \<times> proc" where
  "driver_new env p name =
     (if e_driver_new_ok env (p_next p)
      then (Some (p_next p), (tick p)\<lparr>p_insts := (p_insts p)(p_next p \<mapsto> name)\<rparr>) else (None, tick p))"

definition driver_free :: "proc \<Rightarrow> ptr \<Rightarrow> proc option" where
  "driver_free p inst =
     (case inst of None \<Rightarrow> Some p
      | Some i \<Rightarrow> if p_insts p i = None then None else Some (p\<lparr>p_insts := (p_insts p)(i := None)\<rparr>))"

definition bluerdma_device_alloc :: "penv \<Rightarrow> proc \<Rightarrow> verbs_sysfs_dev \<Rightarrow> (ptr \<times> proc) option" where
  "bluerdma_device_alloc env p sysfs_dev =
     (case calloc env p of
        (None, p) \<Rightarrow> Some (None, p)
      | (Some dev, p) \<Rightarrow>
          if \<not> e_dlopen_ok env (p_next p) then Some (None, free_block (tick p))
          else
            let p = (tick p)\<lparr>p_dl_refs := p_dl_refs p + 1\<rparr>;
                init_fn = e_dlsym env ''bluerdma_init'';
                new_fn = e_dlsym env ''bluerdma_new'';
                free_fn = e_dlsym env ''bluerdma_free'' in
            if new_fn = None \<or> free_fn = None \<or> init_fn = None
            then Some (None, free_block (p\<lparr>p_dl_refs := p_dl_refs p - 1\<rparr>))
            else (case calloc env p of
                (None, p) \<Rightarrow> do {
                  p \<leftarrow> driver_free p None;
                  Some (None, free_block (p\<lparr>p_dl_refs := p_dl_refs p - 1\<rparr>))
                }
              | (Some _, p) \<Rightarrow>
                  Some (Some dev, p\<lparr>p_devs := (p_devs p)(dev \<mapsto>
                     zero_bdev\<lparr>bd_abi_version := sd_abi_ver sysfs_dev, bd_dl_handle := True,
                       bd_driver_new := new_fn, bd_driver_free := free_fn,
                       bd_ops := Some (bluerdma_set_ops (e_dlsym env) Map.empty)\<rparr>)\<rparr>)))"

definition bluerdma_uninit_device :: uninit_fn where
  "bluerdma_uninit_device p dev = do {
     d \<leftarrow> p_devs p dev;
     if \<not> bd_dl_handle d then None
     else do {
       let p = (if bd_ops d = None then p else free_block p);
       free_fn \<leftarrow> bd_driver_free d;
       p \<leftarrow> driver_free p (bd_driver_data d);
       let p = p\<lparr>p_dl_refs := p_dl_refs p - 1\<rparr>;
       Some (free_block (p\<lparr>p_devs := (p_devs p)(dev := None)\<rparr>))
     }
   }"

definition bluerdma_uninit :: "string \<Rightarrow> uninit_fn option" where
  "bluerdma_uninit name = Some bluerdma_uninit_device"

subsection \<open>Contexts\<close>

definition free_context_block :: "proc \<Rightarrow> addr \<Rightarrow> proc" where
  "free_context_block p c = free_block (p\<lparr>p_ctxs := (p_ctxs p)(c := None)\<rparr>)"

definition bluerdma_alloc_context :: "penv \<Rightarrow> proc \<Rightarrow> addr \<Rightarrow> int \<Rightarrow> (ptr \<times> proc) option" where
  "bluerdma_alloc_context env p dev cmd_fd = do {
     (r, p) \<leftarrow> verbs_init_and_alloc_context env p dev cmd_fd RDMA_DRIVER_UNKNOWN;
     (case r of None \<Rightarrow> Some (None, p)
      | Some c \<Rightarrow> do {
          (ret, p) \<leftarrow> ibv_cmd_get_context env p c;
          if ret \<noteq> 0 then do {
            verbs_log p c;
            p \<leftarrow> verbs_uninit_context bluerdma_uninit p c;
            Some (None, free_context_block p c)
          } else do {
            verbs_log p c;
            x \<leftarrow> p_ctxs p c;
            x \<leftarrow> ctx_set_ops bluerdma_ctx_ops x;
            d \<leftarrow> p_devs p dev;
            ops \<leftarrow> bd_ops d;
            x \<leftarrow> ctx_set_ops ops x;
            new_fn \<leftarrow> bd_driver_new d;
            let (inst, p) = driver_new env (p\<lparr>p_ctxs := (p_ctxs p)(c \<mapsto> x)\<rparr>) (vd_dev_name d);
            p \<leftarrow> upd_dev p dev (\<lambda>d. d\<lparr>bd_driver_data := inst\<rparr>);
            Some (Some c, p)
          }
        })
   }"

definition bluerdma_free_context :: "proc \<Rightarrow> addr \<Rightarrow> proc option" where
  "bluerdma_free_context p c = do {
     verbs_log p c;
     p \<leftarrow> verbs_uninit_context bluerdma_uninit p c;
     Some (free_context_block p c)
   }"

text \<open>Which function the pointer in the \<^verbatim>\<open>free_context\<close> slot of a context names.\<close>

fun call_free_context :: call_free_context where
  "call_free_context (Fn_dummy f) p c = Some p"
| "call_free_context (Fn_bluerdma f) p c = (if f = ''bluerdma_free_context'' then bluerdma_free_context p c else None)"
| "call_free_context (Fn_lib f) p c = None"
| "call_free_context (Fn_dl f) p c = None"

definition bluerdma_dev_ops :: provider where
  "bluerdma_dev_ops = \<lparr>
     po_match = \<lparr>vo_name = ''bluerdma'', vo_match_min_abi_version = 1, vo_match_max_abi_version = 1,
                 vo_match_table = Some hca_table, vo_match_device = None\<rparr>,
     po_alloc_device = bluerdma_device_alloc,
     po_uninit_device = Some bluerdma_uninit_device,
     po_alloc_context = bluerdma_alloc_context\<rparr>"

definition bluerdma_drv :: "string \<Rightarrow> provider" where "bluerdma_drv name = bluerdma_dev_ops"

end
