(* ===== verification/ProviderOps.thy ===== *)
theory ProviderOps
  imports Provider
begin

text \<open>
  Which devices the bluerdma provider claims, and which functions the operations of an opened context
  are: those the Rust library exports, else the provider's stubs, else the dummies; the freeing of a
  context is never the library's.
\<close>

subsection \<open>Operations of a context\<close>

lemma ctx_set_ops_eq:
  "ctx_set_ops ops x = map_option (\<lambda>priv. x\<lparr>vc_priv := Some (fst (verbs_set_ops ops (priv, vc_members x))),
     vc_members := snd (verbs_set_ops ops (priv, vc_members x))\<rparr>) (vc_priv x)"
  by (cases "vc_priv x") (simp_all add: ctx_set_ops_def split_def Let_def)

lemma free_context_member: "''free_context'' \<in> set verbs_context_ops_members"
  by (simp add: verbs_context_ops_members_def)

lemma free_context_stub: "bluerdma_ctx_ops ''free_context'' = Some (Fn_bluerdma ''bluerdma_free_context'')"
  by (simp add: bluerdma_ctx_ops_def)

lemma bluerdma_set_ops_body_eq:
  "bluerdma_set_ops_body = filter (\<lambda>op. op \<noteq> ''free_context'') verbs_context_ops_members"
  by (simp add: bluerdma_set_ops_body_def verbs_context_ops_members_def)

lemma bluerdma_set_ops_eq:
  "bluerdma_set_ops dlsym ops = ops ++ (\<lambda>op. if op \<in> set verbs_context_ops_members \<and> op \<noteq> ''free_context''
     then map_option Fn_dl (dlsym (''bluerdma_'' @ op)) else None)"
proof -
  have "fold (\<lambda>op ops. (case dlsym (''bluerdma_'' @ op) of None \<Rightarrow> ops | Some fn \<Rightarrow> ops(op \<mapsto> Fn_dl fn))) ms ops =
      ops ++ (\<lambda>op. if op \<in> set ms then map_option Fn_dl (dlsym (''bluerdma_'' @ op)) else None)" for ms
    by (induction ms arbitrary: ops) (auto simp: fun_eq_iff map_add_def split: option.splits)
  then show ?thesis unfolding bluerdma_set_ops_def bluerdma_set_ops_body_eq by simp
qed

lemma free_context_not_loaded: "bluerdma_set_ops dlsym Map.empty ''free_context'' = None"
  by (simp add: bluerdma_set_ops_eq)

text \<open>The operation table of an opened context, for the symbols the library exports.\<close>

definition context_table :: "(string \<Rightarrow> addr option) \<Rightarrow> verbs_context_ops" where
  "context_table dlsym op =
     (if op \<notin> set verbs_context_ops_members then None
      else if op \<noteq> ''free_context'' \<and> dlsym (''bluerdma_'' @ op) \<noteq> None then map_option Fn_dl (dlsym (''bluerdma_'' @ op))
      else if bluerdma_ctx_ops op \<noteq> None then bluerdma_ctx_ops op
      else Some (Fn_dummy op))"

lemma context_table_eq:
  "verbs_dummy_ops ++ bluerdma_ctx_ops |` set verbs_context_ops_members ++
     bluerdma_set_ops dlsym Map.empty |` set verbs_context_ops_members = context_table dlsym"
  by (rule ext) (auto simp: context_table_def bluerdma_set_ops_eq verbs_dummy_ops_eq map_add_def restrict_map_def
      split: option.splits)

lemma context_table_free_context:
  "context_table dlsym ''free_context'' = Some (Fn_bluerdma ''bluerdma_free_context'')"
  using free_context_member by (simp add: context_table_def free_context_stub)

lemma dummy_table:
  "priv_ops (fst (verbs_set_ops verbs_dummy_ops (zero_priv\<lparr>priv_driver_id := i\<rparr>, vis))) = verbs_dummy_ops"
  by (rule ext) (simp add: verbs_set_ops_priv zero_priv_def verbs_dummy_ops_eq restrict_map_def map_add_def)

lemma ops_ready_ioctl: "ops_ready (priv\<lparr>priv_use_ioctl_write := b\<rparr>, vis) = ops_ready (priv, vis)"
  by (simp add: ops_ready_def)

lemma lib_ops_not_api:
  "api_member_op (Vctx, ''create_cq_ex'') = None" "api_member_op (Ctx, ''_compat_query_port'') = None"
  "api_member_op (Vctx, ''query_port'') = None" "api_member_op (Ctx, ''_compat_query_device'') = None"
  "api_member_op (Vctx, ''ABI_placeholder1'') = None" "api_member_op (Vctx, ''ABI_placeholder2'') = None"
  by (simp_all add: api_member_op_def set_ops_body_def)

lemma ops_ready_lib_ops: "ops_ready (priv, vis) \<Longrightarrow> ops_ready (priv, set_lib_ops vis)"
  unfolding ops_ready_def set_lib_ops_def Let_def
  by (auto simp: lib_ops_not_api)

subsection \<open>Which devices the provider claims\<close>

abbreviation bluerdma_named :: "string \<Rightarrow> bool" where
  "bluerdma_named u \<equiv> sublist ''Nbluerdma'' u"

lemma hca_table_find:
  "find (\<lambda>i. match_modalias i v) hca_table =
     (if \<exists>u. v = ''rdma_device:'' @ u \<and> bluerdma_named u then Some (VERBS_NAME_MATCH ''bluerdma'') else None)"
  using name_pattern_matches [of "''bluerdma''" v] by (simp add: hca_table_def plain_char_def)

lemma hca_table_no_driver_id: "match_driver_id hca_table dev = None"
  by (simp add: match_driver_id_def hca_table_def VERBS_NAME_MATCH_def)

text \<open>The modalias text a match consults: read from the device's file on first use.\<close>

definition modalias_of :: "(string \<Rightarrow> string option) \<Rightarrow> verbs_sysfs_dev \<Rightarrow> string option" where
  "modalias_of modalias_file dev =
     (if sd_flags dev AND VSYSFS_READ_MODALIAS = 0 then modalias_file (sd_ibdev_path dev) else Some (sd_modalias dev))"

lemma match_modalias_device_hca:
  "fst (match_modalias_device f hca_table dev) \<noteq> None \<longleftrightarrow>
     (\<exists>u. modalias_of f dev = Some (''rdma_device:'' @ u) \<and> bluerdma_named u)"
  by (auto simp: match_modalias_device_def modalias_of_def hca_table_find Let_def split: option.splits)

lemma match_modalias_device_abi: "sd_abi_ver (snd (match_modalias_device f table dev)) = sd_abi_ver dev"
  by (simp add: match_modalias_device_def Let_def split: option.splits)

text \<open>C10. The bluerdma provider claims a device exactly when the device speaks ABI version 1 and either its
  name or its modalias is that of a bluerdma device: the name follows an \<^verbatim>\<open>N\<close> or starts with
  \<^verbatim>\<open>bluerdma\<close>. The driver id the kernel reports plays no part, although the match table has an entry for it.
\<close>

theorem bluerdma_claims_iff:
  assumes "length (sd_ibdev_name dev) < IBV_SYSFS_NAME_MAX"
  shows "fst (match_device f (po_match bluerdma_dev_ops) dev) \<longleftrightarrow>
    sd_abi_ver dev = 1 \<and>
    (bluerdma_named (CHR ''N'' # sd_ibdev_name dev) \<or>
     (\<exists>u. modalias_of f dev = Some (''rdma_device:'' @ u) \<and> bluerdma_named u))"
proof -
  define dev1 where "dev1 = dev\<lparr>sd_match := None\<rparr>"
  have name: "match_name hca_table dev1 \<noteq> None \<longleftrightarrow> bluerdma_named (CHR ''N'' # sd_ibdev_name dev)"
    using assms by (simp add: match_name_def hca_table_find IBV_SYSFS_NAME_MAX_def dev1_def)
  have d1: "sd_match dev1 = None" "dev1\<lparr>sd_match := None\<rparr> = dev1" "sd_abi_ver dev1 = sd_abi_ver dev"
    "modalias_of f dev1 = modalias_of f dev"
    by (simp_all add: dev1_def modalias_of_def)
  obtain m dev2 where m: "match_modalias_device f hca_table dev1 = (m, dev2)" by fastforce
  have modalias: "m \<noteq> None \<longleftrightarrow> (\<exists>u. modalias_of f dev = Some (''rdma_device:'' @ u) \<and> bluerdma_named u)"
    using match_modalias_device_hca [of f dev1] m d1(4) by simp
  have abi: "sd_abi_ver dev2 = sd_abi_ver dev"
    using match_modalias_device_abi [of f hca_table dev1] m d1(3) by simp
  have "fst (match_device f (po_match bluerdma_dev_ops) dev) \<longleftrightarrow>
      sd_abi_ver dev = 1 \<and> (match_name hca_table dev1 \<noteq> None \<or> m \<noteq> None)"
    using m abi d1(1,3) by (cases "match_name hca_table dev1")
      (auto simp: match_device_def bluerdma_dev_ops_def hca_table_no_driver_id dev1_def [symmetric] d1(2) Let_def)
  with name modalias show ?thesis by simp
qed

definition demo_sysfs_dev :: verbs_sysfs_dev where
  "demo_sysfs_dev = \<lparr>sd_match = None, sd_flags = 0, sd_sysfs_name = ''uverbs0'', sd_sysfs_cdev = 59328,
     sd_ibdev_name = ''bluerdma0'', sd_ibdev_path = ''/sys/class/infiniband/bluerdma0'', sd_modalias = [],
     sd_node_guid = 0, sd_driver_id = 0, sd_node_type = IBV_NODE_RNIC, sd_ibdev_idx = 0, sd_num_ports = 1,
     sd_abi_ver = 1, sd_time_created = (0, 0)\<rparr>"

theorem bluerdma_claims_iff_witness:
  "length (sd_ibdev_name demo_sysfs_dev) < IBV_SYSFS_NAME_MAX \<and>
   fst (match_device Map.empty (po_match bluerdma_dev_ops) demo_sysfs_dev) \<and>
   \<not> fst (match_device Map.empty (po_match bluerdma_dev_ops) (demo_sysfs_dev\<lparr>sd_ibdev_name := ''mlx5_0''\<rparr>))"
  using bluerdma_claims_iff [of demo_sysfs_dev Map.empty] 
    bluerdma_claims_iff [of "demo_sysfs_dev\<lparr>sd_ibdev_name := ''mlx5_0''\<rparr>" Map.empty]
    sublist_length_le [of "''Nbluerdma''" "''Nmlx5_0''"]
  by (auto simp: IBV_SYSFS_NAME_MAX_def demo_sysfs_dev_def modalias_of_def VSYSFS_READ_MODALIAS_def)

end
