(* ===== verification/Lifecycle.thy ===== *)
theory Lifecycle
  imports ProviderOps
begin

text \<open>
  Why no sequence of list, open, close and free calls on bluerdma devices touches freed memory. The
  references a process holds on its devices (the library's own list, the arrays handed to the program and
  the open contexts) form a multiset; \<open>dev_inv\<close> states that each device's count is its multiplicity there
  and that a device is allocated exactly while it occurs in it. Holding and dropping a reference keep
  this, which is the interface \<open>refcounted\<close>; every routine of libibverbs and of the provider is then
  specified by its effect on the multiset.
\<close>

subsection \<open>The reference multiset\<close>

definition dev_ok :: "bluerdma_device \<Rightarrow> bool" where
  "dev_ok d \<longleftrightarrow> bd_dl_handle d \<and> bd_driver_new d \<noteq> None \<and> bd_driver_free d \<noteq> None \<and>
     vd_ops d \<noteq> None \<and> (\<exists>dlsym. bd_ops d = Some (bluerdma_set_ops dlsym Map.empty))"

definition insts_owned :: "proc \<Rightarrow> bool" where
  "insts_owned p \<longleftrightarrow>
     (\<forall>a d i. p_devs p a = Some d \<longrightarrow> bd_driver_data d = Some i \<longrightarrow> p_insts p i \<noteq> None) \<and>
     (\<forall>a d a' d' i. p_devs p a = Some d \<longrightarrow> p_devs p a' = Some d' \<longrightarrow>
        bd_driver_data d = Some i \<longrightarrow> bd_driver_data d' = Some i \<longrightarrow> a = a')"

definition refs :: "(addr \<rightharpoonup> bluerdma_device) \<Rightarrow> addr multiset \<Rightarrow> bool" where
  "refs devs H \<longleftrightarrow> dom devs = set_mset H \<and> (\<forall>a d. devs a = Some d \<longrightarrow> vd_refcount d = int (count H a))"

definition dev_inv :: "proc \<Rightarrow> addr multiset \<Rightarrow> bool" where
  "dev_inv p H \<longleftrightarrow> refs (p_devs p) H \<and> (\<forall>a d. p_devs p a = Some d \<longrightarrow> dev_ok d \<and> vd_sysfs d \<noteq> None) \<and>
     insts_owned p \<and> (\<forall>a. a \<in> dom (p_devs p) \<union> dom (p_insts p) \<longrightarrow> a < p_next p)"

text \<open>The devices that were allocated before and still are have the operation table they had.\<close>

definition ops_kept :: "proc \<Rightarrow> proc \<Rightarrow> bool" where
  "ops_kept p p' \<longleftrightarrow> (\<forall>a d'. p_devs p' a = Some d' \<longrightarrow> a < p_next p \<longrightarrow>
     (\<exists>d. p_devs p a = Some d \<and> bd_ops d = bd_ops d'))"

lemma ops_kept_same [simp]: "p_devs p' = p_devs p \<Longrightarrow> ops_kept p p'"
  by (simp add: ops_kept_def)

lemma ops_kept_upd [simp]:
  "p_devs p a = Some d \<Longrightarrow> p_devs p' = (p_devs p)(a \<mapsto> d') \<Longrightarrow> bd_ops d' = bd_ops d \<Longrightarrow> ops_kept p p'"
  by (simp add: ops_kept_def)

lemma ops_kept_gone [simp]: "p_devs p' = (p_devs p)(a := None) \<Longrightarrow> ops_kept p p'"
  by (simp add: ops_kept_def)

lemma ops_kept_new [simp]: "p_devs p' = (p_devs p)(a \<mapsto> d') \<Longrightarrow> p_next p \<le> a \<Longrightarrow> ops_kept p p'"
  by (simp add: ops_kept_def)

lemma ops_kept_trans [trans]:
  "ops_kept p p' \<Longrightarrow> ops_kept p' p'' \<Longrightarrow> p_next p \<le> p_next p' \<Longrightarrow> ops_kept p p''"
  unfolding ops_kept_def by (metis order_less_le_trans)

lemma ops_kept_from:
  "ops_kept q p' \<Longrightarrow> p_devs q = p_devs p \<Longrightarrow> p_next p \<le> p_next q \<Longrightarrow> ops_kept p p'"
  unfolding ops_kept_def by (metis order_less_le_trans)

lemma ops_kept_irrelevant [simp]:
  "ops_kept p (p'\<lparr>p_next := v0\<rparr>) = ops_kept p p'" "ops_kept p (p'\<lparr>p_insts := v1\<rparr>) = ops_kept p p'"
  "ops_kept p (p'\<lparr>p_ctxs := v2\<rparr>) = ops_kept p p'" "ops_kept p (p'\<lparr>p_objs := v3\<rparr>) = ops_kept p p'"
  "ops_kept p (p'\<lparr>p_lists := v4\<rparr>) = ops_kept p p'" "ops_kept p (p'\<lparr>p_device_list := v5\<rparr>) = ops_kept p p'"
  "ops_kept p (p'\<lparr>p_driver_list := v6\<rparr>) = ops_kept p p'" "ops_kept p (p'\<lparr>p_drivers_loaded := v7\<rparr>) = ops_kept p p'"
  "ops_kept p (p'\<lparr>p_initialized := v8\<rparr>) = ops_kept p p'" "ops_kept p (p'\<lparr>p_abi_ver := v9\<rparr>) = ops_kept p p'"
  "ops_kept p (p'\<lparr>p_fds := v10\<rparr>) = ops_kept p p'" "ops_kept p (p'\<lparr>p_errno := v11\<rparr>) = ops_kept p p'"
  "ops_kept p (p'\<lparr>p_live := v12\<rparr>) = ops_kept p p'" "ops_kept p (p'\<lparr>p_dl_refs := v13\<rparr>) = ops_kept p p'"
  "ops_kept (p\<lparr>p_insts := v1\<rparr>) p' = ops_kept p p'" "ops_kept (p\<lparr>p_ctxs := v2\<rparr>) p' = ops_kept p p'"
  "ops_kept (p\<lparr>p_objs := v3\<rparr>) p' = ops_kept p p'" "ops_kept (p\<lparr>p_lists := v4\<rparr>) p' = ops_kept p p'"
  "ops_kept (p\<lparr>p_device_list := v5\<rparr>) p' = ops_kept p p'" "ops_kept (p\<lparr>p_driver_list := v6\<rparr>) p' = ops_kept p p'"
  "ops_kept (p\<lparr>p_drivers_loaded := v7\<rparr>) p' = ops_kept p p'" "ops_kept (p\<lparr>p_initialized := v8\<rparr>) p' = ops_kept p p'"
  "ops_kept (p\<lparr>p_abi_ver := v9\<rparr>) p' = ops_kept p p'" "ops_kept (p\<lparr>p_fds := v10\<rparr>) p' = ops_kept p p'"
  "ops_kept (p\<lparr>p_errno := v11\<rparr>) p' = ops_kept p p'" "ops_kept (p\<lparr>p_live := v12\<rparr>) p' = ops_kept p p'"
  "ops_kept (p\<lparr>p_dl_refs := v13\<rparr>) p' = ops_kept p p'"
  by (simp_all add: ops_kept_def)

definition dev_frame :: "proc \<Rightarrow> proc \<Rightarrow> bool" where
  "dev_frame p p' \<longleftrightarrow> p_next p' = p_next p \<and> p_ctxs p' = p_ctxs p \<and> p_objs p' = p_objs p \<and> p_lists p' = p_lists p \<and>
     p_device_list p' = p_device_list p \<and> p_fds p' = p_fds p \<and> p_driver_list p' = p_driver_list p \<and>
     p_drivers_loaded p' = p_drivers_loaded p \<and> p_initialized p' = p_initialized p \<and>
     p_abi_ver p' = p_abi_ver p \<and> p_errno p' = p_errno p \<and> ops_kept p p'"

lemma refs_incr:
  "refs devs H \<Longrightarrow> devs a = Some d \<Longrightarrow> refs (devs(a \<mapsto> d\<lparr>vd_refcount := vd_refcount d + 1\<rparr>)) (add_mset a H)"
  unfolding refs_def by (auto simp: dom_def)

lemma refs_decr:
  assumes "refs devs (add_mset a H)" "devs a = Some d" "vd_refcount d \<noteq> 1"
  shows "refs (devs(a \<mapsto> d\<lparr>vd_refcount := vd_refcount d - 1\<rparr>)) H"
proof -
  have "count H a \<noteq> 0" using assms by (auto simp: refs_def)
  then have "a \<in># H" by (simp add: count_eq_zero_iff)
  with assms show ?thesis unfolding refs_def by (auto simp: dom_def)
qed

lemma refs_gone:
  assumes "refs devs (add_mset a H)" "devs a = Some d" "vd_refcount d = 1"
  shows "refs (devs(a := None)) H"
proof -
  have "count H a = 0" using assms by (auto simp: refs_def)
  then have "a \<notin># H" by (simp add: count_eq_zero_iff)
  with assms show ?thesis unfolding refs_def by (auto simp: dom_def)
qed

lemma dev_inv_live: "dev_inv p H \<Longrightarrow> a \<in># H \<longleftrightarrow> (\<exists>d. p_devs p a = Some d)"
  by (auto simp: dev_inv_def refs_def dom_def)

lemma dev_inv_ok: "dev_inv p H \<Longrightarrow> a \<in># H \<Longrightarrow> \<exists>d. p_devs p a = Some d \<and> dev_ok d \<and> vd_sysfs d \<noteq> None"
  unfolding dev_inv_live by (auto simp: dev_inv_def)

lemma dev_ok_upd [simp]:
  "dev_ok (d\<lparr>vd_refcount := n\<rparr>) = dev_ok d" "dev_ok (d\<lparr>vd_core_support := n'\<rparr>) = dev_ok d"
  "dev_ok (d\<lparr>bd_driver_data := i\<rparr>) = dev_ok d" "dev_ok (d\<lparr>vd_sysfs := s\<rparr>) = dev_ok d"
  by (simp_all add: dev_ok_def)

lemma hold_dev_inv:
  assumes "dev_inv p H" "a \<in># H"
  shows "\<exists>p'. ibverbs_device_hold p a = Some p' \<and> dev_inv p' (add_mset a H) \<and> dev_frame p p'"
proof -
  obtain d where d: "p_devs p a = Some d" using assms by (auto simp: dev_inv_live)
  have "refs ((p_devs p)(a \<mapsto> d\<lparr>vd_refcount := vd_refcount d + 1\<rparr>)) (add_mset a H)"
    using assms(1) d by (intro refs_incr) (auto simp: dev_inv_def)
  with assms(1) d show ?thesis
    by (auto simp: ibverbs_device_hold_def upd_dev_def dev_inv_def dev_frame_def insts_owned_def)
qed

definition free_inst :: "ptr \<Rightarrow> (addr \<rightharpoonup> string) \<Rightarrow> (addr \<rightharpoonup> string)" where
  "free_inst inst insts = (case inst of None \<Rightarrow> insts | Some i \<Rightarrow> insts(i := None))"

lemma put_last_reference:
  assumes "p_devs p a = Some d" "vd_refcount d = 1" "dev_ok d"
    and "\<And>i. bd_driver_data d = Some i \<Longrightarrow> p_insts p i \<noteq> None"
  shows "\<exists>p'. ibverbs_device_put bluerdma_uninit p a = Some p' \<and> p_devs p' = (p_devs p)(a := None) \<and>
    p_insts p' = free_inst (bd_driver_data d) (p_insts p) \<and> dev_frame p p'"
  using assms
  by (cases "bd_driver_data d") (auto simp: ibverbs_device_put_def upd_dev_def dev_frame_def dev_ok_def
      bluerdma_uninit_def bluerdma_uninit_device_def driver_free_def free_block_def free_inst_def)

lemma put_reference:
  assumes "p_devs p a = Some d" "vd_refcount d \<noteq> 1"
  shows "\<exists>p'. ibverbs_device_put bluerdma_uninit p a = Some p' \<and>
    p_devs p' = (p_devs p)(a \<mapsto> d\<lparr>vd_refcount := vd_refcount d - 1\<rparr>) \<and> p_insts p' = p_insts p \<and> dev_frame p p'"
  using assms by (simp add: ibverbs_device_put_def upd_dev_def dev_frame_def)

lemma insts_owned_gone:
  assumes "insts_owned p" "p_devs p a = Some d" "p_devs p' = (p_devs p)(a := None)"
    "p_insts p' = free_inst (bd_driver_data d) (p_insts p)"
  shows "insts_owned p'"
  using assms by (cases "bd_driver_data d") (auto simp: insts_owned_def free_inst_def)

lemma free_inst_dom: "free_inst inst insts b = Some y \<Longrightarrow> b \<in> dom insts"
  by (auto simp: free_inst_def split: option.splits if_splits)

lemma put_dev_inv:
  assumes inv: "dev_inv p (add_mset a H)"
  shows "\<exists>p'. ibverbs_device_put bluerdma_uninit p a = Some p' \<and> dev_inv p' H \<and> dev_frame p p'"
proof -
  obtain d where d: "p_devs p a = Some d" using dev_inv_live [OF inv, of a] by auto
  have ok: "dev_ok d" and refs: "refs (p_devs p) (add_mset a H)" and own: "insts_owned p"
    using inv d by (auto simp: dev_inv_def)
  show ?thesis
  proof (cases "vd_refcount d = 1")
    case False
    obtain p' where p': "ibverbs_device_put bluerdma_uninit p a = Some p'" "dev_frame p p'"
      "p_devs p' = (p_devs p)(a \<mapsto> d\<lparr>vd_refcount := vd_refcount d - 1\<rparr>)" "p_insts p' = p_insts p"
      using put_reference [OF d False] by auto
    have "dev_inv p' H"
      using inv d refs_decr [OF refs d False] p' by (auto simp: dev_inv_def dev_frame_def insts_owned_def)
    with p' show ?thesis by blast
  next
    case True
    obtain p' where p': "ibverbs_device_put bluerdma_uninit p a = Some p'" "dev_frame p p'"
      "p_devs p' = (p_devs p)(a := None)" "p_insts p' = free_inst (bd_driver_data d) (p_insts p)"
      using put_last_reference [OF d True ok] own d by (auto simp: insts_owned_def)
    have "dev_inv p' H"
      using inv refs_gone [OF refs d True] insts_owned_gone [OF own d p'(3,4)] p'
      by (simp add: dev_inv_def dev_frame_def) (blast dest: free_inst_dom)
    with p' show ?thesis by blast
  qed
qed

lemma dev_frame_refl: "dev_frame p p"
  by (simp add: dev_frame_def)

lemma dev_frame_trans: "dev_frame p p' \<Longrightarrow> dev_frame p' p'' \<Longrightarrow> dev_frame p p''"
  by (auto simp: dev_frame_def intro: ops_kept_trans)

interpretation dev_refs: refcounted dev_inv ibverbs_device_hold "ibverbs_device_put bluerdma_uninit" dev_frame
  by unfold_locales (fact hold_dev_inv put_dev_inv dev_frame_refl dev_frame_trans)+


subsection \<open>Contexts\<close>

text \<open>
  A context a program holds: its operations are those of \<open>context_table\<close> for the library it was opened
  with, and the members the program calls through agree with them.
\<close>

definition ctx_ok :: "verbs_context \<Rightarrow> bool" where
  "ctx_ok x \<longleftrightarrow> vc_abi_extended x \<and>
     (\<exists>priv dlsym. vc_priv x = Some priv \<and> priv_ops priv = context_table dlsym \<and> ops_ready (priv, vc_members x))"

text \<open>The operations of a context are those its device looked up in the library.\<close>

definition ctx_lib :: "proc \<Rightarrow> verbs_context \<Rightarrow> bool" where
  "ctx_lib p x \<longleftrightarrow> (\<exists>d dlsym priv. p_devs p (vc_device x) = Some d \<and>
     bd_ops d = Some (bluerdma_set_ops dlsym Map.empty) \<and> vc_priv x = Some priv \<and> priv_ops priv = context_table dlsym)"

lemma ctx_lib_kept:
  assumes "ctx_lib p x" "ops_kept p p'" "dev_inv p H" "dev_inv p' H'" "vc_device x \<in># H'"
    "vc_device x' = vc_device x" "vc_priv x' = vc_priv x"
  shows "ctx_lib p' x'"
proof -
  obtain d dlsym priv where d: "p_devs p (vc_device x) = Some d" "bd_ops d = Some (bluerdma_set_ops dlsym Map.empty)"
    "vc_priv x = Some priv" "priv_ops priv = context_table dlsym" using assms(1) by (auto simp: ctx_lib_def)
  have "vc_device x < p_next p" using assms(3) d(1) by (auto simp: dev_inv_def dom_def)
  moreover obtain d' where d': "p_devs p' (vc_device x) = Some d'" using assms(4,5) by (auto simp: dev_inv_live)
  ultimately have "bd_ops d' = bd_ops d" using assms(2) d(1) unfolding ops_kept_def by force
  with d d' assms(6,7) show ?thesis unfolding ctx_lib_def by metis
qed

definition lib_frame :: "proc \<Rightarrow> proc \<Rightarrow> bool" where
  "lib_frame p p' \<longleftrightarrow> p_next p \<le> p_next p' \<and> p_objs p' = p_objs p \<and> p_lists p' = p_lists p \<and>
     p_device_list p' = p_device_list p \<and> p_driver_list p' = p_driver_list p \<and>
     p_drivers_loaded p' = p_drivers_loaded p \<and> p_initialized p' = p_initialized p \<and> p_abi_ver p' = p_abi_ver p \<and> ops_kept p p'"

lemma lib_frame_trans: "lib_frame p p' \<Longrightarrow> lib_frame p' p'' \<Longrightarrow> lib_frame p p''"
  by (auto simp: lib_frame_def intro: ops_kept_trans)

lemma dev_frame_lib: "dev_frame p p' \<Longrightarrow> lib_frame p p'"
  by (simp add: dev_frame_def lib_frame_def)

lemma dev_inv_cong:
  "dev_inv p H \<Longrightarrow> p_devs p' = p_devs p \<Longrightarrow> p_insts p' = p_insts p \<Longrightarrow> p_next p \<le> p_next p' \<Longrightarrow> dev_inv p' H"
  by (simp add: dev_inv_def insts_owned_def) (meson order_less_le_trans)

text \<open>Allocation of the private structure of a context fails at the second block after time \<open>n\<close>.\<close>

definition priv_alloc_fails :: "penv \<Rightarrow> nat \<Rightarrow> bool" where
  "priv_alloc_fails env n \<longleftrightarrow> e_calloc_ok env n \<and> \<not> e_calloc_ok env (Suc n)"

lemma init_and_alloc_context_spec:
  assumes inv: "dev_inv p H" "dev \<in># H" and fresh: "p_ctxs p (p_next p) = None"
  shows "\<exists>r p'. verbs_init_and_alloc_context env p dev fd i = Some (r, p') \<and> lib_frame p p' \<and>
    (case r of
       None \<Rightarrow> p_ctxs p' = p_ctxs p \<and>
         dev_inv p' (if priv_alloc_fails env (p_next p) then add_mset dev H else H)
     | Some c \<Rightarrow> c = p_next p \<and> c < p_next p' \<and> \<not> priv_alloc_fails env (p_next p) \<and> dev_inv p' (add_mset dev H) \<and>
         (\<exists>x priv. p_ctxs p' = (p_ctxs p)(c \<mapsto> x) \<and> vc_device x = dev \<and> vc_priv x = Some priv \<and>
            vc_abi_extended x \<and> priv_ops priv = verbs_dummy_ops \<and> ops_ready (priv, vc_members x)))"
proof (cases "e_calloc_ok env (p_next p)")
  case False
  then show ?thesis
    using inv by (auto simp: verbs_init_and_alloc_context_def calloc_def tick_def close_fd_def lib_frame_def
        priv_alloc_fails_def intro: dev_inv_cong)
next
  case ok1: True
  obtain d where d: "p_devs p dev = Some d" using inv by (auto simp: dev_inv_live)
  define devs where "devs = (p_devs p)(dev \<mapsto> d\<lparr>vd_refcount := vd_refcount d + 1\<rparr>)"
  obtain ph where ph: "ibverbs_device_hold p dev = Some ph" "dev_inv ph (add_mset dev H)" "dev_frame p ph"
    using hold_dev_inv [OF inv] by auto
  have ph': "p_devs ph = devs" "p_insts ph = p_insts p" "p_next ph = p_next p"
    using ph(1) d by (auto simp: ibverbs_device_hold_def upd_dev_def devs_def)
  have kept: "ops_kept p q" if "p_devs q = devs" for q
    using d that by (auto simp: devs_def)
  have dinv: "dev_inv q (add_mset dev H)"
    if "p_devs q = devs" "p_insts q = p_insts p" "p_next p \<le> p_next q" for q
    using dev_inv_cong [OF ph(2)] that ph' by simp
  show ?thesis
  proof (cases "e_calloc_ok env (Suc (p_next p))")
    case False
    with ok1 d fresh show ?thesis
      by (auto simp: verbs_init_and_alloc_context_def verbs_init_context_def ibverbs_device_hold_def upd_dev_def
          upd_ctx_def calloc_def tick_def close_fd_def free_block_def lib_frame_def priv_alloc_fails_def
          devs_def [symmetric] kept fun_upd_idem intro!: dinv)
  next
    case True
    with ok1 d fresh show ?thesis
      by (auto simp: verbs_init_and_alloc_context_def verbs_init_context_def ibverbs_device_hold_def upd_dev_def
          upd_ctx_def calloc_def tick_def close_fd_def free_block_def lib_frame_def ctx_set_ops_eq zero_context_def
          priv_alloc_fails_def devs_def [symmetric] kept dummy_table ops_ready_ioctl ops_ready_dummy intro!: dinv)
  qed
qed


lemma upd_dev_core_support:
  assumes "dev_inv p H" "dev \<in># H"
  shows "\<exists>p'. upd_dev p dev (\<lambda>d. d\<lparr>vd_core_support := n\<rparr>) = Some p' \<and> dev_inv p' H \<and> dev_frame p p'"
proof -
  obtain d where d: "p_devs p dev = Some d" using assms by (auto simp: dev_inv_live)
  have "refs ((p_devs p)(dev \<mapsto> d\<lparr>vd_core_support := n\<rparr>)) H"
    using assms d by (auto simp: dev_inv_def refs_def)
  with assms d show ?thesis
    by (auto simp: upd_dev_def dev_inv_def dev_frame_def insts_owned_def)
qed

lemma cmd_get_context_spec:
  assumes inv: "dev_inv p H" and x: "p_ctxs p c = Some x" "vc_device x \<in># H"
  shows "\<exists>ret p' x'. ibv_cmd_get_context env p c = Some (ret, p') \<and> dev_inv p' H \<and> lib_frame p p' \<and>
    p_ctxs p' = (p_ctxs p)(c \<mapsto> x') \<and> vc_device x' = vc_device x \<and> vc_priv x' = vc_priv x \<and>
    vc_members x' = vc_members x \<and> vc_abi_extended x' = vc_abi_extended x \<and> vc_cmd_fd x' = vc_cmd_fd x"
proof (cases "e_get_context env (p_next p)")
  case (Get_context_ioctl ncv core)
  define q where "q = (tick p)\<lparr>p_ctxs := (p_ctxs p)(c \<mapsto> x\<lparr>vc_num_comp_vectors := ncv\<rparr>)\<rparr>"
  have "dev_inv q H" using inv by (rule dev_inv_cong) (simp_all add: q_def tick_def)
  then obtain p' where p': "upd_dev q (vc_device x) (\<lambda>d. d\<lparr>vd_core_support := core\<rparr>) = Some p'"
      "dev_inv p' H" "dev_frame q p'"
    using upd_dev_core_support [OF _ x(2)] by blast
  then have "ibv_cmd_get_context env p c = Some (0, p')"
    using Get_context_ioctl x by (simp add: ibv_cmd_get_context_def upd_ctx_def q_def tick_def)
  moreover have "ops_kept p p'"
    using p'(3) ops_kept_from [of q p' p] by (simp add: dev_frame_def q_def tick_def)
  ultimately show ?thesis using p' by (auto simp: dev_frame_def lib_frame_def q_def tick_def)
next
  case (Get_context_error ret)
  moreover have "p_ctxs p = (p_ctxs p)(c \<mapsto> x)" using x by (simp add: fun_upd_idem)
  ultimately show ?thesis
    using inv by (auto simp: ibv_cmd_get_context_def tick_def lib_frame_def intro: dev_inv_cong)
next
  case (Get_context_write ncv)
  with inv x show ?thesis
    by (auto simp: ibv_cmd_get_context_def upd_ctx_def fresh_fd_def tick_def lib_frame_def intro: dev_inv_cong)
qed

lemma uninit_context_spec:
  assumes inv: "dev_inv p (add_mset (vc_device x) H)" and x: "p_ctxs p c = Some x"
  shows "\<exists>p'. verbs_uninit_context bluerdma_uninit p c = Some p' \<and> dev_inv p' H \<and> lib_frame p p' \<and>
    p_ctxs p' = (p_ctxs p)(c \<mapsto> x\<lparr>vc_priv := None\<rparr>)"
proof -
  define q where "q = (let q = (if vc_priv x = None then p else free_block p)\<lparr>p_ctxs := (p_ctxs p)(c \<mapsto> x\<lparr>vc_priv := None\<rparr>)\<rparr>;
      q = (if vc_cmd_fd x \<noteq> -1 then close_fd q (vc_cmd_fd x) else q)
      in if vc_async_fd x \<noteq> -1 then close_fd q (vc_async_fd x) else q)"
  have q: "p_devs q = p_devs p" "p_insts q = p_insts p" "p_next q = p_next p" "lib_frame p q"
      "p_ctxs q = (p_ctxs p)(c \<mapsto> x\<lparr>vc_priv := None\<rparr>)"
    by (simp_all add: q_def free_block_def close_fd_def lib_frame_def Let_def)
  have "verbs_uninit_context bluerdma_uninit p c = ibverbs_device_put bluerdma_uninit q (vc_device x)"
    using x by (simp add: verbs_uninit_context_def upd_ctx_def q_def Let_def free_block_def)
  moreover have "dev_inv q (add_mset (vc_device x) H)"
    using inv by (rule dev_inv_cong) (simp_all add: q)
  ultimately show ?thesis
    using put_dev_inv [of q "vc_device x" H] q lib_frame_trans [OF q(4) dev_frame_lib] by (auto simp: dev_frame_def)
qed


lemma verbs_log_ok:
  "dev_inv p H \<Longrightarrow> p_ctxs p c = Some x \<Longrightarrow> vc_abi_extended x \<Longrightarrow> vc_device x \<in># H \<Longrightarrow> verbs_log p c = Some ()"
  by (auto simp: verbs_log_def dev_inv_live)

lemma driver_new_dev_inv:
  assumes inv: "dev_inv p H" "dev \<in># H" and q: "(inst, q) = driver_new env p name"
  shows "\<exists>p'. upd_dev q dev (\<lambda>d. d\<lparr>bd_driver_data := inst\<rparr>) = Some p' \<and> dev_inv p' H \<and> lib_frame p p' \<and> p_ctxs p' = p_ctxs p"
proof -
  obtain d where d: "p_devs p dev = Some d" using inv by (auto simp: dev_inv_live)
  have n: "p_insts p (p_next p) = None" using inv by (auto simp: dev_inv_def dom_def)
  have fresh: "bd_driver_data d' \<noteq> Some (p_next p)" if "p_devs p a = Some d'" for a d'
    using inv(1) that n unfolding dev_inv_def insts_owned_def by blast
  have "refs ((p_devs p)(dev \<mapsto> d\<lparr>bd_driver_data := i\<rparr>)) H" for i
    using inv d by (auto simp: dev_inv_def refs_def)
  with inv d q show ?thesis
    by (auto simp: driver_new_def upd_dev_def tick_def dev_inv_def insts_owned_def lib_frame_def less_Suc_eq fresh
        split: if_splits)
qed

lemma context_ops_installed:
  assumes "vc_priv x = Some priv" "priv_ops priv = verbs_dummy_ops" "ops_ready (priv, vc_members x)" "vc_abi_extended x"
  shows "\<exists>x1 x2. ctx_set_ops bluerdma_ctx_ops x = Some x1 \<and>
    ctx_set_ops (bluerdma_set_ops dlsym Map.empty) x1 = Some x2 \<and> vc_device x2 = vc_device x \<and> ctx_ok x2 \<and>
    (\<exists>priv. vc_priv x2 = Some priv \<and> priv_ops priv = context_table dlsym)"
proof -
  define st where "st = verbs_set_ops (bluerdma_set_ops dlsym Map.empty) (verbs_set_ops bluerdma_ctx_ops (priv, vc_members x))"
  have "ops_ready st" using assms(3) by (simp add: st_def ops_ready_set_ops)
  moreover have "priv_ops (fst st) = context_table dlsym"
    using assms(2) context_table_eq [of dlsym] by (simp add: st_def verbs_set_ops_priv)
  ultimately show ?thesis
    using assms(1,4) by (auto simp: ctx_set_ops_eq ctx_ok_def st_def)
qed

lemma alloc_context_spec:
  assumes inv: "dev_inv p H" "dev \<in># H" and fresh: "p_ctxs p (p_next p) = None"
  shows "\<exists>r p'. bluerdma_alloc_context env p dev fd = Some (r, p') \<and> lib_frame p p' \<and>
    (case r of
       None \<Rightarrow> p_ctxs p' = p_ctxs p \<and>
         dev_inv p' (if priv_alloc_fails env (p_next p) then add_mset dev H else H)
     | Some c \<Rightarrow> c = p_next p \<and> c < p_next p' \<and> \<not> priv_alloc_fails env (p_next p) \<and> dev_inv p' (add_mset dev H) \<and>
         (\<exists>x. p_ctxs p' = (p_ctxs p)(c \<mapsto> x) \<and> vc_device x = dev \<and> ctx_ok x \<and> ctx_lib p' x))"
proof -
  obtain r p1 where p1: "verbs_init_and_alloc_context env p dev fd RDMA_DRIVER_UNKNOWN = Some (r, p1)" "lib_frame p p1"
    "case r of
       None \<Rightarrow> p_ctxs p1 = p_ctxs p \<and> dev_inv p1 (if priv_alloc_fails env (p_next p) then add_mset dev H else H)
     | Some c \<Rightarrow> c = p_next p \<and> c < p_next p1 \<and> \<not> priv_alloc_fails env (p_next p) \<and> dev_inv p1 (add_mset dev H) \<and>
         (\<exists>x priv. p_ctxs p1 = (p_ctxs p)(c \<mapsto> x) \<and> vc_device x = dev \<and> vc_priv x = Some priv \<and>
            vc_abi_extended x \<and> priv_ops priv = verbs_dummy_ops \<and> ops_ready (priv, vc_members x))"
    using init_and_alloc_context_spec [OF inv fresh] by blast
  show ?thesis
  proof (cases r)
    case None
    with p1 show ?thesis by (simp add: bluerdma_alloc_context_def)
  next
    case (Some c)
    with p1 obtain x priv where c: "c = p_next p" "dev_inv p1 (add_mset dev H)" "p_ctxs p1 = (p_ctxs p)(c \<mapsto> x)"
      "vc_device x = dev" "vc_priv x = Some priv" "vc_abi_extended x" "\<not> priv_alloc_fails env (p_next p)"
      "c < p_next p1" "priv_ops priv = verbs_dummy_ops" "ops_ready (priv, vc_members x)" by auto
    then have "p_ctxs p1 c = Some x" "vc_device x \<in># add_mset dev H" by simp_all
    from cmd_get_context_spec [OF c(2) this, of env]
    obtain ret p2 x2 where p2: "ibv_cmd_get_context env p1 c = Some (ret, p2)" "dev_inv p2 (add_mset dev H)"
      "lib_frame p1 p2" "p_ctxs p2 = (p_ctxs p)(c \<mapsto> x2)" "vc_device x2 = dev" "vc_priv x2 = Some priv"
      "vc_abi_extended x2" "vc_members x2 = vc_members x" using c by auto
    have frame2: "lib_frame p p2" using p1(2) p2(3) by (rule lib_frame_trans)
    have log: "verbs_log p2 c = Some ()" using verbs_log_ok [OF p2(2), of c x2] p2 by simp
    show ?thesis
    proof (cases "ret = 0")
      case False
      obtain p3 where "verbs_uninit_context bluerdma_uninit p2 c = Some p3" "dev_inv p3 H" "lib_frame p2 p3"
        "p_ctxs p3 = (p_ctxs p)(c \<mapsto> x2\<lparr>vc_priv := None\<rparr>)"
        using uninit_context_spec [of p2 x2 H c] p2 by auto
      with False p1(1) p2(1) Some log c(1,7) fresh frame2 show ?thesis
        by (auto simp: bluerdma_alloc_context_def free_context_block_def free_block_def lib_frame_def fun_upd_idem
            intro: dev_inv_cong ops_kept_trans)
    next
      case True
      obtain d dlsym where d: "p_devs p2 dev = Some d" "bd_ops d = Some (bluerdma_set_ops dlsym Map.empty)" "bd_driver_new d \<noteq> None"
        using dev_inv_ok [OF p2(2), of dev] unfolding dev_ok_def by auto
      obtain x3 x4 priv4 where x4: "ctx_set_ops bluerdma_ctx_ops x2 = Some x3"
        "ctx_set_ops (bluerdma_set_ops dlsym Map.empty) x3 = Some x4" "vc_device x4 = dev" "ctx_ok x4"
        "vc_priv x4 = Some priv4" "priv_ops priv4 = context_table dlsym"
        using context_ops_installed [of x2 priv dlsym] p2(5-8) c(9,10) by auto
      define q where "q = p2\<lparr>p_ctxs := (p_ctxs p2)(c \<mapsto> x4)\<rparr>"
      obtain inst q1 where q1: "driver_new env q (vd_dev_name d) = (inst, q1)" by fastforce
      have inv_q: "dev_inv q (add_mset dev H)" using p2(2) by (rule dev_inv_cong) (simp_all add: q_def)
      then obtain p3 where p3: "upd_dev q1 dev (\<lambda>d. d\<lparr>bd_driver_data := inst\<rparr>) = Some p3" "dev_inv p3 (add_mset dev H)"
        "lib_frame q p3" "p_ctxs p3 = p_ctxs q"
        using driver_new_dev_inv [of q "add_mset dev H" dev inst q1 env "vd_dev_name d"] q1 by auto
      have "ctx_lib q x4" using d x4 by (auto simp: ctx_lib_def q_def)
      then have "ctx_lib p3 x4"
        using ctx_lib_kept [OF _ _ inv_q p3(2), of x4 x4] p3(3) x4(3) by (simp add: lib_frame_def)
      moreover have "bluerdma_alloc_context env p dev fd = Some (Some c, p3)"
        using True p1(1) p2(1,4) Some log d x4 q1 p3(1) by (auto simp: bluerdma_alloc_context_def q_def)
      moreover have "lib_frame p p3"
        using frame2 p3(3) by (auto simp: q_def lib_frame_def intro: ops_kept_trans ops_kept_from)
      ultimately show ?thesis using p3 x4 c(1,7,8) p2(3,4) by (auto simp: q_def lib_frame_def)
    qed
  qed
qed


lemma close_device_spec:
  assumes inv: "dev_inv p (add_mset (vc_device x) H)" and x: "p_ctxs p c = Some x" "ctx_ok x"
  shows "\<exists>p'. ibv_close_device call_free_context p c = Some (0, p') \<and> dev_inv p' H \<and> lib_frame p p' \<and>
    p_ctxs p' = (p_ctxs p)(c := None)"
proof -
  obtain p1 where p1: "verbs_uninit_context bluerdma_uninit p c = Some p1" "dev_inv p1 H" "lib_frame p p1"
    "p_ctxs p1 = (p_ctxs p)(c \<mapsto> x\<lparr>vc_priv := None\<rparr>)"
    using uninit_context_spec [OF inv x(1)] by auto
  have "verbs_log p c = Some ()" using verbs_log_ok [OF inv x(1)] x(2) by (simp add: ctx_ok_def)
  with p1 x have "ibv_close_device call_free_context p c = Some (0, free_context_block p1 c)"
    by (auto simp: ibv_close_device_def ctx_ok_def context_table_free_context bluerdma_free_context_def)
  with p1 show ?thesis
    by (auto simp: free_context_block_def free_block_def lib_frame_def intro: dev_inv_cong)
qed

definition open_leaks :: "penv \<Rightarrow> proc \<Rightarrow> bool" where
  "open_leaks env p \<longleftrightarrow> e_open_cdev_ok env (p_next p) \<and> priv_alloc_fails env (Suc (p_next p))"

lemma ctx_ok_async_fd [simp]: "ctx_ok (x\<lparr>vc_async_fd := fd\<rparr>) = ctx_ok x"
  by (simp add: ctx_ok_def)

lemma ctx_ok_lib_ops: "ctx_ok x \<Longrightarrow> ctx_ok (x\<lparr>vc_members := set_lib_ops (vc_members x)\<rparr>)"
  by (auto simp: ctx_ok_def intro: ops_ready_lib_ops)

lemma alloc_async_fd_spec:
  assumes "dev_inv p H" "p_ctxs p c = Some x" "ctx_ok x"
  shows "\<exists>ret p' x'. ibv_cmd_alloc_async_fd env p c = Some (ret, p') \<and> dev_inv p' H \<and> lib_frame p p' \<and>
    p_ctxs p' = (p_ctxs p)(c \<mapsto> x') \<and> vc_device x' = vc_device x \<and> ctx_ok x' \<and> vc_priv x' = vc_priv x"
proof (cases "e_alloc_async_fd_rc env (p_next p) = 0")
  case True
  with assms show ?thesis
    by (auto simp: ibv_cmd_alloc_async_fd_def upd_ctx_def fresh_fd_def tick_def lib_frame_def intro: dev_inv_cong)
next
  case False
  moreover have "p_ctxs p = (p_ctxs p)(c \<mapsto> x)" using assms(2) by (simp add: fun_upd_idem)
  ultimately show ?thesis
    using assms by (auto simp: ibv_cmd_alloc_async_fd_def tick_def lib_frame_def intro: dev_inv_cong)
qed

definition open_tail :: "penv \<Rightarrow> proc \<Rightarrow> addr \<Rightarrow> (ptr \<times> proc) option" where
  "open_tail env p c = do {
     p \<leftarrow> upd_ctx p c (\<lambda>x. x\<lparr>vc_members := set_lib_ops (vc_members x)\<rparr>);
     x \<leftarrow> p_ctxs p c;
     if vc_async_fd x = -1 then do {
       (ret, p) \<leftarrow> ibv_cmd_alloc_async_fd env p c;
       if ret \<noteq> 0 then do { (_, p) \<leftarrow> ibv_close_device call_free_context p c; Some (None, p) } else Some (Some c, p)
     } else Some (Some c, p)
   }"

lemma open_tail_spec:
  assumes inv: "dev_inv p (add_mset (vc_device x) H)" and x: "p_ctxs p c = Some x" "ctx_ok x"
  shows "\<exists>r p'. open_tail env p c = Some (r, p') \<and> lib_frame p p' \<and>
    (case r of
       None \<Rightarrow> p_ctxs p' = (p_ctxs p)(c := None) \<and> dev_inv p' H
     | Some c' \<Rightarrow> c' = c \<and> dev_inv p' (add_mset (vc_device x) H) \<and>
         (\<exists>x'. p_ctxs p' = (p_ctxs p)(c \<mapsto> x') \<and> vc_device x' = vc_device x \<and> ctx_ok x' \<and> vc_priv x' = vc_priv x))"
proof -
  define x1 where "x1 = x\<lparr>vc_members := set_lib_ops (vc_members x)\<rparr>"
  define p1 where "p1 = p\<lparr>p_ctxs := (p_ctxs p)(c \<mapsto> x1)\<rparr>"
  have p1: "upd_ctx p c (\<lambda>x. x\<lparr>vc_members := set_lib_ops (vc_members x)\<rparr>) = Some p1" "p_ctxs p1 c = Some x1"
    "ctx_ok x1" "lib_frame p p1" "vc_device x1 = vc_device x" "vc_priv x1 = vc_priv x"
    using x by (simp_all add: upd_ctx_def p1_def x1_def lib_frame_def ctx_ok_lib_ops)
  have inv1: "dev_inv p1 (add_mset (vc_device x) H)" using inv by (rule dev_inv_cong) (simp_all add: p1_def)
  obtain ret p2 x2 where p2: "ibv_cmd_alloc_async_fd env p1 c = Some (ret, p2)" "dev_inv p2 (add_mset (vc_device x) H)"
    "lib_frame p1 p2" "p_ctxs p2 = (p_ctxs p1)(c \<mapsto> x2)" "vc_device x2 = vc_device x" "ctx_ok x2"
    "vc_priv x2 = vc_priv x"
    using alloc_async_fd_spec [OF inv1 p1(2,3), of env] p1(5,6) by auto
  obtain p3 where p3: "ibv_close_device call_free_context p2 c = Some (0, p3)" "dev_inv p3 H" "lib_frame p2 p3"
    "p_ctxs p3 = (p_ctxs p2)(c := None)"
    using close_device_spec [of p2 x2 H c] p2 by auto
  show ?thesis
    using p1 p2 p3 inv1 by (cases "vc_async_fd x1 = -1"; cases "ret = 0")
      (auto simp: open_tail_def p1_def lib_frame_def intro: ops_kept_trans ops_kept_from)
qed

lemma open_device_spec:
  assumes inv: "dev_inv p H" "dev \<in># H" and fresh: "\<And>n. p_next p \<le> n \<Longrightarrow> p_ctxs p n = None"
  shows "\<exists>r p'. ibv_open_device env bluerdma_drv call_free_context p dev = Some (r, p') \<and> lib_frame p p' \<and>
    (case r of
       None \<Rightarrow> p_ctxs p' = p_ctxs p \<and> dev_inv p' (if open_leaks env p then add_mset dev H else H)
     | Some c \<Rightarrow> p_next p \<le> c \<and> c < p_next p' \<and> dev_inv p' (add_mset dev H) \<and>
         (\<exists>x. p_ctxs p' = (p_ctxs p)(c \<mapsto> x) \<and> vc_device x = dev \<and> ctx_ok x \<and> ctx_lib p' x))"
proof -
  obtain d where d: "p_devs p dev = Some d" "vd_sysfs d \<noteq> None" "vd_ops d \<noteq> None"
    using dev_inv_ok [OF inv] by (auto simp: dev_ok_def)
  show ?thesis
  proof (cases "e_open_cdev_ok env (p_next p)")
    case False
    with d inv show ?thesis
      by (auto simp: ibv_open_device_def verbs_open_device_def lib_frame_def tick_def open_leaks_def intro: dev_inv_cong)
  next
    case True
    define q where "q = snd (fresh_fd p)"
    define fd where "fd = fst (fresh_fd p)"
    have q: "p_next q = Suc (p_next p)" "p_ctxs q = p_ctxs p" "lib_frame p q"
      by (simp_all add: q_def fresh_fd_def tick_def lib_frame_def)
    have "dev_inv q H" using inv(1) by (rule dev_inv_cong) (simp_all add: q_def fresh_fd_def tick_def)
    then obtain r p1 where p1: "bluerdma_alloc_context env q dev fd = Some (r, p1)" "lib_frame q p1"
      "case r of
         None \<Rightarrow> p_ctxs p1 = p_ctxs q \<and> dev_inv p1 (if priv_alloc_fails env (p_next q) then add_mset dev H else H)
       | Some c \<Rightarrow> c = p_next q \<and> c < p_next p1 \<and> \<not> priv_alloc_fails env (p_next q) \<and> dev_inv p1 (add_mset dev H) \<and>
           (\<exists>x. p_ctxs p1 = (p_ctxs q)(c \<mapsto> x) \<and> vc_device x = dev \<and> ctx_ok x \<and> ctx_lib p1 x)"
      using alloc_context_spec [of q H dev env fd] inv(2) q fresh by auto
    have eq: "ibv_open_device env bluerdma_drv call_free_context p dev =
        (case r of None \<Rightarrow> Some (None, p1) | Some c \<Rightarrow> open_tail env p1 c)"
      using d True p1(1)
      by (auto simp: ibv_open_device_def verbs_open_device_def open_tail_def bluerdma_drv_def bluerdma_dev_ops_def
          q_def fd_def split_def split: option.splits)
    show ?thesis
    proof (cases r)
      case None
      with eq p1 q d show ?thesis by (auto simp: open_leaks_def True intro: lib_frame_trans)
    next
      case (Some c)
      then obtain x where x: "c = p_next q" "c < p_next p1" "\<not> open_leaks env p" "dev_inv p1 (add_mset dev H)"
        "p_ctxs p1 = (p_ctxs p)(c \<mapsto> x)" "vc_device x = dev" "ctx_ok x" "ctx_lib p1 x"
        using p1(3) q by (auto simp: open_leaks_def)
      have "p_ctxs p1 c = Some x" using x(5) by simp
      with x obtain r' p' where p': "open_tail env p1 c = Some (r', p')" "lib_frame p1 p'"
        "case r' of
           None \<Rightarrow> p_ctxs p' = (p_ctxs p1)(c := None) \<and> dev_inv p' H
         | Some c' \<Rightarrow> c' = c \<and> dev_inv p' (add_mset dev H) \<and>
             (\<exists>x'. p_ctxs p' = (p_ctxs p1)(c \<mapsto> x') \<and> vc_device x' = dev \<and> ctx_ok x' \<and> vc_priv x' = vc_priv x)"
        using open_tail_spec [of p1 x H c env] by blast
      have frame: "lib_frame p p'" "p_next p1 \<le> p_next p'"
        using lib_frame_trans [OF lib_frame_trans [OF q(3) p1(2)] p'(2)] p'(2) by (simp_all add: lib_frame_def)
      have old: "(p_ctxs p)(c := None) = p_ctxs p" using fresh [of c] x(1) q(1) by (simp add: fun_upd_idem)
      show ?thesis
      proof (cases r')
        case None
        with p' eq Some frame old x(3,5) show ?thesis by simp
      next
        case (Some c')
        then obtain x' where x': "c' = c" "dev_inv p' (add_mset dev H)" "p_ctxs p' = (p_ctxs p1)(c \<mapsto> x')"
          "vc_device x' = dev" "ctx_ok x'" "vc_priv x' = vc_priv x" using p'(3) by auto
        then have "ctx_lib p' x'"
          using ctx_lib_kept [OF x(8) _ x(4) x'(2), of x'] p'(2) x(6) by (simp add: lib_frame_def)
        with p'(1) Some x' eq \<open>r = Some c\<close> frame x(1,2,5) q(1) show ?thesis by auto
      qed
    qed
  qed
qed

end
