(* ===== verification/DeviceList.thy ===== *)
theory DeviceList
  imports Lifecycle
begin

text \<open>
  The effect of \<^verbatim>\<open>ibv_get_device_list\<close> and its parts (matching and allocating devices, dropping those that
  are gone, building the array) on the references held, continuing the specifications of contexts.
\<close>

subsection \<open>Trying the drivers\<close>

definition list_frame :: "proc \<Rightarrow> proc \<Rightarrow> bool" where
  "list_frame p p' \<longleftrightarrow> p_next p \<le> p_next p' \<and> p_ctxs p' = p_ctxs p \<and> p_objs p' = p_objs p \<and>
     p_lists p' = p_lists p \<and> p_fds p' = p_fds p \<and> ops_kept p p'"

lemma list_frame_trans: "list_frame p p' \<Longrightarrow> list_frame p' p'' \<Longrightarrow> list_frame p p''"
  by (auto simp: list_frame_def intro: ops_kept_trans)

definition new_device :: "bluerdma_device \<Rightarrow> bool" where
  "new_device d \<longleftrightarrow> bd_dl_handle d \<and> bd_driver_new d \<noteq> None \<and> bd_driver_free d \<noteq> None \<and> bd_driver_data d = None \<and>
     (\<exists>dlsym. bd_ops d = Some (bluerdma_set_ops dlsym Map.empty))"

lemma device_alloc_ops:
  assumes "bluerdma_device_alloc env p sd = Some (Some v, p')"
  shows "\<exists>d. p_devs p' v = Some d \<and> bd_ops d = Some (bluerdma_set_ops (e_dlsym env) Map.empty)"
  using assms by (auto simp: bluerdma_device_alloc_def Let_def bind_eq_Some_conv split: option.splits if_splits prod.splits)

lemma device_alloc_spec:
  "\<exists>r p'. bluerdma_device_alloc env p sd = Some (r, p') \<and> list_frame p p' \<and> p_insts p' = p_insts p \<and>
    p_device_list p' = p_device_list p \<and> p_driver_list p' = p_driver_list p \<and>
    (case r of None \<Rightarrow> p_devs p' = p_devs p
     | Some v \<Rightarrow> v = p_next p \<and> v < p_next p' \<and> (\<exists>d. p_devs p' = (p_devs p)(v \<mapsto> d) \<and> new_device d))"
  by (auto simp: bluerdma_device_alloc_def calloc_def tick_def free_block_def driver_free_def list_frame_def
      new_device_def zero_bdev_def Let_def split: option.splits)

lemma uninit_new_device:
  assumes "p_devs p v = Some d" "bd_dl_handle d" "bd_driver_free d \<noteq> None" "bd_driver_data d = None"
  shows "\<exists>p'. bluerdma_uninit_device p v = Some p' \<and> p_devs p' = (p_devs p)(v := None) \<and> p_insts p' = p_insts p \<and>
    list_frame p p' \<and> p_next p' = p_next p \<and> p_device_list p' = p_device_list p \<and> p_driver_list p' = p_driver_list p"
  using assms by (auto simp: bluerdma_uninit_device_def driver_free_def free_block_def list_frame_def)

lemma refs_new:
  "refs devs H \<Longrightarrow> devs v = None \<Longrightarrow> vd_refcount d = 1 \<Longrightarrow> refs (devs(v \<mapsto> d)) (add_mset v H)"
  unfolding refs_def by (auto simp: not_in_iff [symmetric])

lemma dev_inv_new:
  assumes inv: "dev_inv p H" and "p_devs p v = None" "p_devs p' = (p_devs p)(v \<mapsto> d)" "p_insts p' = p_insts p"
    "dev_ok d" "vd_refcount d = 1" "vd_sysfs d \<noteq> None" "bd_driver_data d = None" "p_next p \<le> p_next p'" "v < p_next p'"
  shows "dev_inv p' (add_mset v H)"
  using assms refs_new [of "p_devs p" H v d]
  by (auto simp: dev_inv_def insts_owned_def intro: order_less_le_trans)

lemma try_driver_spec:
  assumes inv: "dev_inv p H"
  shows "\<exists>r sd' p'. try_driver env bluerdma_dev_ops p sd = Some (r, sd', p') \<and> list_frame p p' \<and>
    p_device_list p' = p_device_list p \<and> p_driver_list p' = p_driver_list p \<and>
    (case r of None \<Rightarrow> dev_inv p' H | Some v \<Rightarrow> dev_inv p' (add_mset v H))"
proof -
  obtain ok sd' where m: "match_device (e_modalias_file env) (po_match bluerdma_dev_ops) sd = (ok, sd')"
    by fastforce
  obtain r p1 where p1: "bluerdma_device_alloc env p sd' = Some (r, p1)" "list_frame p p1" "p_insts p1 = p_insts p"
    "p_device_list p1 = p_device_list p" "p_driver_list p1 = p_driver_list p"
    "case r of None \<Rightarrow> p_devs p1 = p_devs p
     | Some v \<Rightarrow> v = p_next p \<and> v < p_next p1 \<and> (\<exists>d. p_devs p1 = (p_devs p)(v \<mapsto> d) \<and> new_device d)"
    using device_alloc_spec [of env p sd'] by blast
  have none: "p_devs p (p_next p) = None" using inv by (auto simp: dev_inv_def dom_def)
  have al: "po_alloc_device bluerdma_dev_ops = bluerdma_device_alloc" "po_uninit_device bluerdma_dev_ops = Some bluerdma_uninit_device"
    by (simp_all add: bluerdma_dev_ops_def)
  show ?thesis
  proof (cases "ok \<and> r \<noteq> None")
    case False
    with p1 m inv show ?thesis
      by (auto simp: try_driver_def al list_frame_def intro: dev_inv_cong)
  next
    case True
    then obtain v d where v: "r = Some v" "ok" "v = p_next p" "v < p_next p1" "p_devs p1 = (p_devs p)(v \<mapsto> d)" "new_device d"
      using p1(6) by auto
    define path where "path = e_sysfs_path env @ ''/class/infiniband_verbs/'' @ sd_sysfs_name sd'"
    define d1 where "d1 = d\<lparr>vd_ops := Some ''bluerdma'', vd_refcount := 1, vd_node_type := sd_node_type sd',
      vd_transport_type := node_transport (sd_node_type sd'), vd_dev_name := sd_sysfs_name sd'\<rparr>"
    define d2 where "d2 = d1\<lparr>vd_dev_path := path, vd_name := sd_ibdev_name sd', vd_ibdev_path := sd_ibdev_path sd',
      vd_sysfs := Some sd'\<rparr>"
    define q where "q = p1\<lparr>p_devs := (p_devs p)(v \<mapsto> d1)\<rparr>"
    have d12: "new_device d1" "dev_ok d2" "vd_refcount d2 = 1" "vd_sysfs d2 \<noteq> None" "bd_driver_data d2 = None"
      using v(6) by (auto simp: new_device_def dev_ok_def d1_def d2_def)
    have step: "try_driver env bluerdma_dev_ops p sd =
        (if IBV_SYSFS_PATH_MAX \<le> length path
         then do { q \<leftarrow> bluerdma_uninit_device q v; Some (None, sd', q) }
         else Some (Some v, sd', q\<lparr>p_devs := (p_devs p)(v \<mapsto> d2)\<rparr>))"
      using m v p1(1) by (simp add: try_driver_def al upd_dev_def q_def d1_def d2_def path_def Let_def)
        (simp add: bluerdma_dev_ops_def)
    obtain q' where "bluerdma_uninit_device q v = Some q'" "p_devs q' = (p_devs p)(v := None)" "p_insts q' = p_insts p"
      "list_frame q q'" "p_next q' = p_next q" "p_device_list q' = p_device_list p" "p_driver_list q' = p_driver_list p"
      using uninit_new_device [of q v d1] d12(1) p1(3-5) by (auto simp: new_device_def q_def)
    then show ?thesis
      using step p1(2-5) v(3,4) d12 none dev_inv_new [OF inv none]
      by (auto simp: q_def list_frame_def fun_upd_idem intro: dev_inv_cong [OF inv])
  qed
qed


definition same_lists :: "proc \<Rightarrow> proc \<Rightarrow> bool" where
  "same_lists p p' \<longleftrightarrow> list_frame p p' \<and> p_device_list p' = p_device_list p \<and> p_driver_list p' = p_driver_list p"

lemma same_lists_refl: "same_lists p p"
  by (simp add: same_lists_def list_frame_def)

lemma same_lists_trans: "same_lists p p' \<Longrightarrow> same_lists p' p'' \<Longrightarrow> same_lists p p''"
  by (auto simp: same_lists_def intro: list_frame_trans)

abbreviation tried :: "addr multiset \<Rightarrow> ptr \<Rightarrow> proc \<Rightarrow> bool" where
  "tried H r p \<equiv> (case r of None \<Rightarrow> dev_inv p H | Some v \<Rightarrow> dev_inv p (add_mset v H))"

lemma try_driver_loop_spec:
  "dev_inv p H \<Longrightarrow>
    \<exists>r sd' p'. try_driver_loop env bluerdma_drv by_id names p sd = Some (r, sd', p') \<and> same_lists p p' \<and> tried H r p'"
proof (induction names arbitrary: p sd)
  case Nil
  then show ?case by (simp add: same_lists_refl)
next
  case (Cons name names)
  obtain r sd1 p1 where p1: "try_driver env bluerdma_dev_ops p sd = Some (r, sd1, p1)" "same_lists p p1" "tried H r p1"
    using try_driver_spec [OF Cons.prems, of env sd] by (auto simp: same_lists_def)
  have table: "vo_match_table (po_match bluerdma_dev_ops) = Some hca_table" "bluerdma_drv name = bluerdma_dev_ops"
    by (simp_all add: bluerdma_drv_def bluerdma_dev_ops_def)
  have "\<exists>r sd' p'. try_driver_loop env bluerdma_drv by_id names p1 sd1 = Some (r, sd', p') \<and> same_lists p p' \<and> tried H r p'"
    if "r = None"
    using Cons.IH [of p1 sd1] p1 that by (auto intro: same_lists_trans)
  then show ?case
    using Cons.IH [OF Cons.prems, of sd] p1
    by (cases "by_id \<and> match_driver_id hca_table sd = None"; cases r)
      (auto simp: table)
qed

lemma try_drivers_spec:
  assumes "dev_inv p H"
  shows "\<exists>r sd' p'. try_drivers env bluerdma_drv p sd = Some (r, sd', p') \<and> same_lists p p' \<and> tried H r p'"
proof -
  obtain r sd1 p1 where p1: "try_driver_loop env bluerdma_drv True (p_driver_list p) p sd = Some (r, sd1, p1)"
      "same_lists p p1" "tried H r p1"
    using try_driver_loop_spec [OF assms] by blast
  obtain r2 sd2 p2 where p2: "try_driver_loop env bluerdma_drv False (p_driver_list p) p sd = Some (r2, sd2, p2)"
      "same_lists p p2" "tried H r2 p2"
    using try_driver_loop_spec [OF assms] by blast
  have "\<exists>r sd' p'. try_driver_loop env bluerdma_drv False (p_driver_list p1) p1 sd1 = Some (r, sd', p') \<and>
      same_lists p p' \<and> tried H r p'" if "r = None"
    using try_driver_loop_spec [of p1 H env False "p_driver_list p1" sd1] p1 that by (auto intro: same_lists_trans)
  with p1 p2 show ?thesis
    by (cases "sd_driver_id sd = RDMA_DRIVER_UNKNOWN"; cases r) (auto simp: try_drivers_def split: option.splits)
qed

lemma try_all_drivers_spec:
  "dev_inv p (mset (p_device_list p) + R) \<Longrightarrow>
    \<exists>rest num' p'. try_all_drivers env bluerdma_drv sds num p = Some (rest, num', p') \<and> list_frame p p' \<and>
      dev_inv p' (mset (p_device_list p') + R) \<and> num' + length (p_device_list p) = num + length (p_device_list p')"
proof (induction sds arbitrary: num p)
  case Nil
  then show ?case by (simp add: list_frame_def)
next
  case (Cons sd sds)
  obtain r sd1 p1 where p1: "try_drivers env bluerdma_drv p sd = Some (r, sd1, p1)" "same_lists p p1"
      "tried (mset (p_device_list p) + R) r p1"
    using try_drivers_spec [OF Cons.prems] by blast
  show ?case
  proof (cases r)
    case None
    with Cons.IH [of p1 num] p1 show ?thesis by (auto simp: same_lists_def intro: list_frame_trans)
  next
    case (Some v)
    define q where "q = p1\<lparr>p_device_list := v # p_device_list p1\<rparr>"
    have "dev_inv q (mset (p_device_list q) + R)"
      using p1 Some by (auto simp: q_def same_lists_def intro: dev_inv_cong)
    then obtain rest num' p' where "try_all_drivers env bluerdma_drv sds (num + 1) q = Some (rest, num', p')"
        "list_frame q p'" "dev_inv p' (mset (p_device_list p') + R)"
        "num' + length (p_device_list q) = num + 1 + length (p_device_list p')"
      using Cons.IH [of q "num + 1"] by blast
    with p1 Some show ?thesis
      by (auto simp: q_def same_lists_def list_frame_def intro: ops_kept_trans)
  qed
qed


subsection \<open>The device list\<close>

lemma uninit_of_bluerdma: "uninit_of bluerdma_drv = bluerdma_uninit"
  by (rule ext) (simp add: uninit_of_def bluerdma_drv_def bluerdma_dev_ops_def bluerdma_uninit_def)

lemma sync_device_list_spec:
  "dev_inv p (mset (p_device_list p) + R) \<Longrightarrow> mset vs \<subseteq># mset (p_device_list p) \<Longrightarrow>
    \<exists>sds' num' p'. sync_device_list bluerdma_uninit vs sds num p = Some (sds', num', p') \<and> list_frame p p' \<and>
      dev_inv p' (mset (p_device_list p') + R) \<and>
      num' + length (p_device_list p) = num + length vs + length (p_device_list p')"
proof (induction vs arbitrary: sds num p)
  case Nil
  then show ?case by (simp add: list_frame_def)
next
  case (Cons v vs)
  have v: "v \<in> set (p_device_list p)" "v \<in># mset (p_device_list p) + R"
    using mset_subset_eqD [OF Cons.prems(2), of v] by simp_all
  obtain d s where d: "p_devs p v = Some d" "vd_sysfs d = Some s"
    using dev_inv_ok [OF Cons.prems(1) v(2)] by auto
  define found where "found = (if sds = [] then None else find (same_sysfs_dev s) sds)"
  show ?case
  proof (cases found)
    case (Some old)
    have "dev_inv (free_block p) (mset (p_device_list (free_block p)) + R)"
      using Cons.prems(1) by (auto simp: free_block_def intro: dev_inv_cong)
    moreover have "mset vs \<subseteq># mset (p_device_list p)"
      using Cons.prems(2) by (metis mset.simps(2) mset_subset_eq_insertD subset_mset.less_imp_le)
    ultimately obtain sds' num' p' where "sync_device_list bluerdma_uninit vs (remove1 old sds) (num + 1) (free_block p) = Some (sds', num', p')"
      "list_frame (free_block p) p'" "dev_inv p' (mset (p_device_list p') + R)"
      "num' + length (p_device_list p) = num + 1 + length vs + length (p_device_list p')"
      using Cons.IH [of "free_block p" "remove1 old sds" "num + 1"]
      by (auto simp: free_block_def)
    with d Some show ?thesis
      by (auto simp: found_def list_frame_def free_block_def split: if_splits)
  next
    case None
    define q where "q = p\<lparr>p_device_list := remove1 v (p_device_list p)\<rparr>"
    have "dev_inv q (add_mset v (mset (p_device_list q) + R))"
      using Cons.prems(1) v(1) by (auto simp: q_def intro: dev_inv_cong)
    then obtain p1 where p1: "ibverbs_device_put bluerdma_uninit q v = Some p1" "dev_inv p1 (mset (p_device_list q) + R)" "dev_frame q p1"
      using put_dev_inv by blast
    have dl: "p_device_list p1 = remove1 v (p_device_list p)" "p_device_list q = remove1 v (p_device_list p)"
      using p1(3) by (simp_all add: dev_frame_def q_def)
    have sub: "mset vs \<subseteq># mset (p_device_list p1)" "dev_inv p1 (mset (p_device_list p1) + R)"
      "Suc (length (p_device_list p1)) = length (p_device_list p)"
      using Cons.prems(2) p1(2) length_pos_if_in_set [OF v(1)] v(1)
      unfolding dl by (simp_all add: length_remove1 insert_subset_eq_iff)
    obtain sds' num' p' where "sync_device_list bluerdma_uninit vs sds num p1 = Some (sds', num', p')"
      "list_frame p1 p'" "dev_inv p' (mset (p_device_list p') + R)"
      "num' + length (p_device_list p1) = num + length vs + length (p_device_list p')"
      using Cons.IH [OF sub(2,1), of sds num] by blast
    with d None p1 sub(3) show ?thesis
      by (auto simp: found_def list_frame_def dev_frame_def q_def intro: ops_kept_trans split: if_splits)
  qed
qed


definition quiet :: "proc \<Rightarrow> proc \<Rightarrow> bool" where
  "quiet p p' \<longleftrightarrow> list_frame p p' \<and> p_devs p' = p_devs p \<and> p_insts p' = p_insts p \<and> p_device_list p' = p_device_list p"

lemma quiet_dev_inv:
  "quiet p p' \<Longrightarrow> dev_inv p (mset (p_device_list p) + R) \<Longrightarrow> dev_inv p' (mset (p_device_list p') + R)"
  by (auto simp: quiet_def list_frame_def intro: dev_inv_cong)

lemma quiet_trans: "quiet p p' \<Longrightarrow> quiet p' p'' \<Longrightarrow> quiet p p''"
  by (auto simp: quiet_def intro: list_frame_trans)

lemma load_drivers_quiet: "quiet p (load_drivers env p)"
proof -
  have "quiet p (fold (\<lambda>name p. verbs_register_driver env p name) names p)" for names
  proof (induction names arbitrary: p)
    case (Cons name names)
    have "quiet p (verbs_register_driver env p name)"
      by (simp add: verbs_register_driver_def calloc_def tick_def quiet_def list_frame_def)
    with Cons show ?case by (auto intro: quiet_trans)
  qed (simp add: quiet_def list_frame_def)
  then show ?thesis by (simp add: load_drivers_def)
qed

lemma find_devs_quiet: "find_devs env p = (ret, sds, p') \<Longrightarrow> quiet p p' \<and> 0 \<le> ret"
  by (auto simp: find_devs_def tick_def quiet_def list_frame_def split: option.splits sysfs_scan.splits)

lemma check_abi_version_quiet: "check_abi_version env p = (ret, p') \<Longrightarrow> quiet p p' \<and> 0 \<le> ret"
  by (auto simp: check_abi_version_def tick_def quiet_def list_frame_def Let_def split: option.splits if_splits)

lemma match_devices_spec:
  assumes inv: "dev_inv p (mset (p_device_list p) + R)"
  shows "\<exists>num p'. do {
      (sds, num, p) \<leftarrow> sync_device_list bluerdma_uninit (p_device_list p) sds 0 p;
      (sds, num, p) \<leftarrow> try_all_drivers env bluerdma_drv sds num p;
      (sds, num, p) \<leftarrow>
        (if sds = [] \<or> p_drivers_loaded p then Some (sds, num, p)
         else try_all_drivers env bluerdma_drv sds num ((load_drivers env p)\<lparr>p_drivers_loaded := True\<rparr>));
      Some (int num, p\<lparr>p_live := p_live p - int (length sds)\<rparr>)
    } = Some (num, p') \<and> list_frame p p' \<and> dev_inv p' (mset (p_device_list p') + R) \<and>
      num = int (length (p_device_list p'))"
proof -
  obtain sds1 n1 p1 where p1: "sync_device_list bluerdma_uninit (p_device_list p) sds 0 p = Some (sds1, n1, p1)"
    "list_frame p p1" "dev_inv p1 (mset (p_device_list p1) + R)" "n1 = length (p_device_list p1)"
    using sync_device_list_spec [OF inv, of "p_device_list p" sds 0] by auto
  obtain sds2 n2 p2 where p2: "try_all_drivers env bluerdma_drv sds1 n1 p1 = Some (sds2, n2, p2)"
    "list_frame p1 p2" "dev_inv p2 (mset (p_device_list p2) + R)" "n2 = length (p_device_list p2)"
    using try_all_drivers_spec [OF p1(3), of env sds1 n1] p1(4) by auto
  define q where "q = (load_drivers env p2)\<lparr>p_drivers_loaded := True\<rparr>"
  have q: "quiet p2 q" using load_drivers_quiet [of p2 env] by (simp add: q_def quiet_def list_frame_def)
  obtain sds3 n3 p3 where p3: "try_all_drivers env bluerdma_drv sds2 n2 q = Some (sds3, n3, p3)"
    "list_frame q p3" "dev_inv p3 (mset (p_device_list p3) + R)" "n3 = length (p_device_list p3)"
    using try_all_drivers_spec [OF quiet_dev_inv [OF q p2(3)], of env sds2 n2] p2(4) q by (auto simp: quiet_def)
  have fr: "list_frame p p2" "list_frame p p3"
    using p1(2) p2(2) p3(2) q by (auto simp: quiet_def intro: list_frame_trans)
  have "dev_inv (x\<lparr>p_live := n\<rparr>) (mset (p_device_list x) + R)" if "dev_inv x (mset (p_device_list x) + R)" for x n
    using that by (rule dev_inv_cong) simp_all
  with p1 p2 p3 fr show ?thesis
    by (cases "sds2 = [] \<or> p_drivers_loaded p2") (auto simp: q_def list_frame_def)
qed

lemma ibverbs_get_device_list_spec:
  assumes inv: "dev_inv p (mset (p_device_list p) + R)"
  shows "\<exists>num p'. ibverbs_get_device_list env bluerdma_drv p = Some (num, p') \<and> list_frame p p' \<and>
    dev_inv p' (mset (p_device_list p') + R) \<and> (num < 0 \<or> num = int (length (p_device_list p')))"
proof -
  obtain ret sds p1 where p1: "find_devs env p = (ret, sds, p1)" by (metis prod_cases3)
  obtain ret2 p2 where p2: "(if sds \<noteq> [] then check_abi_version env p1 else (0, p1)) = (ret2, p2)" by fastforce
  have q1: "quiet p p1" "0 \<le> ret" using find_devs_quiet [OF p1] by auto
  have q2: "quiet p p2" "0 \<le> ret2"
    using q1 p2 check_abi_version_quiet [of env p1] by (auto intro: quiet_trans split: if_splits)
  note inv1 = quiet_dev_inv [OF q1(1) inv] and inv2 = quiet_dev_inv [OF q2(1) inv]
  show ?thesis
  proof (cases "ret = 0 \<and> ret2 = 0")
    case True
    obtain num p' where "ibverbs_get_device_list env bluerdma_drv p = Some (num, p')" "list_frame p2 p'"
      "dev_inv p' (mset (p_device_list p') + R)" "num = int (length (p_device_list p'))"
      using match_devices_spec [OF inv2, of sds env] True p1 p2
      by (auto simp: ibverbs_get_device_list_def uninit_of_bluerdma)
    with q2 show ?thesis by (auto simp: quiet_def intro: list_frame_trans)
  next
    case False
    with p1 p2 inv1 inv2 q1 q2 show ?thesis
      by (cases "ret = 0") (auto simp: ibverbs_get_device_list_def quiet_def)
  qed
qed


definition list_tail :: "penv \<Rightarrow> proc \<Rightarrow> (ptr \<times> int \<times> proc) option" where
  "list_tail env p = do {
     (num, p) \<leftarrow> ibverbs_get_device_list env bluerdma_drv p;
     if num < 0 then Some (None, 0, p\<lparr>p_errno := - num\<rparr>)
     else (case calloc env p of
             (None, p) \<Rightarrow> Some (None, 0, p\<lparr>p_errno := ENOMEM\<rparr>)
           | (Some l, p) \<Rightarrow>
               if num < int (length (p_device_list p)) then None
               else do {
                 p \<leftarrow> hold_all (p_device_list p) p;
                 Some (Some l, num, p\<lparr>p_lists := (p_lists p)(l \<mapsto> p_device_list p)\<rparr>)
               })
   }"

definition listed :: "addr multiset \<Rightarrow> proc \<Rightarrow> ptr \<Rightarrow> int \<Rightarrow> proc \<Rightarrow> bool" where
  "listed R p r num p' \<longleftrightarrow> p_next p \<le> p_next p' \<and> p_ctxs p' = p_ctxs p \<and> ops_kept p p' \<and>
    (case r of
       None \<Rightarrow> p_lists p' = p_lists p \<and> dev_inv p' (mset (p_device_list p') + R)
     | Some l \<Rightarrow> p_next p \<le> l \<and> l < p_next p' \<and> p_lists p' = (p_lists p)(l \<mapsto> p_device_list p') \<and>
         num = int (length (p_device_list p')) \<and>
         dev_inv p' (mset (p_device_list p') + (mset (p_device_list p') + R)))"

lemma list_tail_spec:
  assumes inv: "dev_inv p (mset (p_device_list p) + R)"
  shows "\<exists>r num p'. list_tail env p = Some (r, num, p') \<and> listed R p r num p'"
proof -
  obtain num p1 where p1: "ibverbs_get_device_list env bluerdma_drv p = Some (num, p1)" "list_frame p p1"
      "dev_inv p1 (mset (p_device_list p1) + R)" "num < 0 \<or> num = int (length (p_device_list p1))"
    using ibverbs_get_device_list_spec [OF inv] by blast
  have inv1: "dev_inv x (mset (p_device_list p1) + R)"
    if "p_devs x = p_devs p1" "p_insts x = p_insts p1" "p_next p1 \<le> p_next x" for x
    using p1(3) that by (rule dev_inv_cong)
  define q where "q = (tick p1)\<lparr>p_live := p_live p1 + 1\<rparr>"
  have q: "p_device_list q = p_device_list p1" "p_next q = Suc (p_next p1)" "p_lists q = p_lists p1" "p_ctxs q = p_ctxs p1"
    by (simp_all add: q_def tick_def)
  have "dev_inv q (mset (p_device_list q) + R)" unfolding q(1) by (rule inv1) (simp_all add: q_def tick_def)
  then obtain p2 where p2: "hold_all (p_device_list q) q = Some p2" "dev_frame q p2"
      "dev_inv p2 (mset (p_device_list q) + (mset (p_device_list q) + R))"
    using dev_refs.hold_all_held [of q "mset (p_device_list q) + R" "p_device_list q"] unfolding hold_all_def by auto
  define p3 where "p3 = p2\<lparr>p_lists := (p_lists p2)(p_next p1 \<mapsto> p_device_list p2)\<rparr>"
  have p3: "p_device_list p3 = p_device_list p1" "p_next p3 = Suc (p_next p1)" "p_ctxs p3 = p_ctxs p1"
      "p_lists p3 = (p_lists p1)(p_next p1 \<mapsto> p_device_list p1)"
      "dev_inv p3 (mset (p_device_list p1) + (mset (p_device_list p1) + R))"
    using p2 q by (auto simp: p3_def dev_frame_def intro: dev_inv_cong)
  show ?thesis
  proof (cases "num < 0 \<or> \<not> e_calloc_ok env (p_next p1)")
    case True
    with p1 show ?thesis
      by (cases "num < 0") (auto simp: listed_def list_tail_def calloc_def tick_def list_frame_def intro: inv1)
  next
    case False
    then have "list_tail env p = Some (Some (p_next p1), num, p3)"
      using p1(1,4) p2(1) q by (simp add: list_tail_def calloc_def q_def [symmetric] p3_def)
    moreover have "ops_kept p p3"
      using ops_kept_trans [of p q p2] p1(2) p2(2) by (simp add: list_frame_def dev_frame_def p3_def q_def tick_def)
    ultimately show ?thesis using False p1 p3 by (auto simp: listed_def list_frame_def)
  qed
qed

lemma ibv_get_device_list_spec:
  assumes inv: "dev_inv p (mset (p_device_list p) + R)"
  shows "\<exists>r num p'. ibv_get_device_list env bluerdma_drv p = Some (r, num, p') \<and> listed R p r num p'"
proof -
  define ok where "ok = (p_initialized p \<or> e_ibverbs_init_rc env (p_next p) = 0)"
  define q where "q = (if p_initialized p then p
    else if e_ibverbs_init_rc env (p_next p) = 0 then (tick p)\<lparr>p_initialized := True\<rparr> else tick p)"
  have q: "quiet p q" by (simp add: q_def quiet_def list_frame_def tick_def)
  have eq: "ibv_get_device_list env bluerdma_drv p = (if \<not> ok then Some (None, 0, q) else list_tail env q)"
    by (auto simp: ibv_get_device_list_def list_tail_def ok_def q_def)
  have inv': "dev_inv q (mset (p_device_list q) + R)" using q inv by (rule quiet_dev_inv)
  have widen: "listed R q r num p' \<Longrightarrow> listed R p r num p'" for r num p'
    using q by (auto simp: listed_def quiet_def list_frame_def intro: ops_kept_from split: option.splits)
  have "listed R p None 0 q" using q inv' by (simp add: listed_def quiet_def list_frame_def)
  with list_tail_spec [OF inv', of env] show ?thesis
    unfolding eq by (cases ok) (auto intro: widen)
qed

end
