(* ===== verification/VerbsClient.thy ===== *)
theory VerbsClient
  imports DeviceList
begin

text \<open>
  The device interface of libibverbs as a program sees it, with the bluerdma provider behind it: every
  history of \<^verbatim>\<open>ibv_get_device_list\<close>, \<^verbatim>\<open>ibv_free_device_list\<close>, \<^verbatim>\<open>ibv_open_device\<close> and \<^verbatim>\<open>ibv_close_device\<close> calls, with
  arbitrary outcomes of the allocations, system calls and the library loading in between, and with devices
  that come and go. The invariant ties the reference count of each device to the references held on it.
\<close>

subsection \<open>The references a program and the library hold\<close>

definition lists_refs :: "(addr \<rightharpoonup> addr list) \<Rightarrow> addr multiset" where
  "lists_refs m = (\<Sum>l\<in>dom m. mset (the (m l)))"

definition ctx_refs :: "(addr \<rightharpoonup> verbs_context) \<Rightarrow> addr multiset" where
  "ctx_refs m = image_mset (\<lambda>c. vc_device (the (m c))) (mset_set (dom m))"

definition holders :: "proc \<Rightarrow> addr multiset" where
  "holders p = mset (p_device_list p) + (lists_refs (p_lists p) + ctx_refs (p_ctxs p))"

lemma lists_refs_new:
  "finite (dom m) \<Longrightarrow> m l = None \<Longrightarrow> lists_refs (m(l \<mapsto> vs)) = mset vs + lists_refs m"
  by (auto simp: lists_refs_def domIff intro!: arg_cong2 [where f = "(+)"] sum.cong)

lemma lists_refs_drop:
  assumes "finite (dom m)" "m l = Some vs"
  shows "lists_refs m = mset vs + lists_refs (m(l := None))"
proof -
  have "m = (m(l := None))(l \<mapsto> vs)" using assms(2) by (simp add: fun_upd_idem)
  moreover have "lists_refs ((m(l := None))(l \<mapsto> vs)) = mset vs + lists_refs (m(l := None))"
    using assms(1) by (intro lists_refs_new) simp_all
  ultimately show ?thesis by simp
qed

lemma ctx_refs_new:
  assumes "finite (dom m)" "m c = None"
  shows "ctx_refs (m(c \<mapsto> x)) = add_mset (vc_device x) (ctx_refs m)"
proof -
  have "image_mset (\<lambda>b. vc_device (the ((m(c \<mapsto> x)) b))) (mset_set (dom m)) =
      image_mset (\<lambda>b. vc_device (the (m b))) (mset_set (dom m))"
    using assms by (intro image_mset_cong) (auto simp: domIff)
  with assms show ?thesis by (simp add: ctx_refs_def domIff)
qed

lemma ctx_refs_drop:
  assumes "finite (dom m)" "m c = Some x"
  shows "ctx_refs m = add_mset (vc_device x) (ctx_refs (m(c := None)))"
proof -
  have "m = (m(c := None))(c \<mapsto> x)" using assms(2) by (simp add: fun_upd_idem)
  moreover have "ctx_refs ((m(c := None))(c \<mapsto> x)) = add_mset (vc_device x) (ctx_refs (m(c := None)))"
    using assms(1) by (intro ctx_refs_new) simp_all
  ultimately show ?thesis by simp
qed

lemma lists_refs_mem:
  assumes "finite (dom m)" "m l = Some vs" "v \<in> set vs"
  shows "v \<in># lists_refs m"
  using assms lists_refs_drop [OF assms(1,2)] by simp

definition lib_inv :: "proc \<Rightarrow> addr multiset \<Rightarrow> bool" where
  "lib_inv p L \<longleftrightarrow> finite (dom (p_lists p)) \<and> finite (dom (p_ctxs p)) \<and>
     (\<forall>n. p_next p \<le> n \<longrightarrow> p_lists p n = None \<and> p_ctxs p n = None) \<and>
     (\<forall>c x. p_ctxs p c = Some x \<longrightarrow> ctx_ok x \<and> ctx_lib p x) \<and> dev_inv p (holders p + L)"

lemma holders_ctx: "finite (dom (p_ctxs p)) \<Longrightarrow> p_ctxs p c = Some x \<Longrightarrow> vc_device x \<in># holders p"
  using ctx_refs_drop [of "p_ctxs p" c x] by (simp add: holders_def)

lemma ctx_libs_kept:
  assumes "lib_inv p L" "ops_kept p p'" "dev_inv p' (holders p' + L')" "p_ctxs p' \<subseteq>\<^sub>m p_ctxs p" "p_ctxs p' c = Some x"
  shows "ctx_lib p' x"
proof -
  have "finite (dom (p_ctxs p'))" "p_ctxs p c = Some x"
    using assms(1,4,5) by (auto simp: lib_inv_def map_le_def dom_def intro: rev_finite_subset)
  with assms holders_ctx [of p' c x] show ?thesis
    using ctx_lib_kept [of p x p' "holders p + L" "holders p' + L'" x] by (simp add: lib_inv_def)
qed

text \<open>
  The calls a program may make, each with what the environment decided during it: a list at any time, the
  freeing of an array it was given, opening a device of such an array, closing an open context. The second
  argument collects the devices of the failed opens in which the private structure of the context could
  not be allocated.
\<close>

inductive lib_reach :: "proc \<Rightarrow> addr multiset \<Rightarrow> bool" where
  start: "lib_reach proc_start {#}"
| get_list: "lib_reach p L \<Longrightarrow> ibv_get_device_list env bluerdma_drv p = Some (r, num, p') \<Longrightarrow> lib_reach p' L"
| free_list: "lib_reach p L \<Longrightarrow> ibv_free_device_list bluerdma_drv p l = Some p' \<Longrightarrow> lib_reach p' L"
| open_dev: "lib_reach p L \<Longrightarrow> p_lists p l = Some devs \<Longrightarrow> dev \<in> set devs \<Longrightarrow>
    ibv_open_device env bluerdma_drv call_free_context p dev = Some (r, p') \<Longrightarrow>
    lib_reach p' (if r = None \<and> open_leaks env p then add_mset dev L else L)"
| close_dev: "lib_reach p L \<Longrightarrow> ibv_close_device call_free_context p c = Some (ret, p') \<Longrightarrow> lib_reach p' L"

lemma lib_inv_start: "lib_inv proc_start {#}"
  by (simp add: lib_inv_def proc_start_def holders_def lists_refs_def ctx_refs_def dev_inv_def refs_def insts_owned_def)

lemma get_list_inv:
  assumes inv: "lib_inv p L"
  shows "\<exists>r num p'. ibv_get_device_list env bluerdma_drv p = Some (r, num, p') \<and> lib_inv p' L \<and>
    (\<forall>l. r = Some l \<longrightarrow> p_lists p' l = Some (p_device_list p') \<and> num = int (length (p_device_list p')))"
proof -
  define R where "R = lists_refs (p_lists p) + ctx_refs (p_ctxs p) + L"
  have "dev_inv p (mset (p_device_list p) + R)"
    using inv by (simp add: lib_inv_def holders_def R_def add.assoc)
  then obtain r num p' where p': "ibv_get_device_list env bluerdma_drv p = Some (r, num, p')" "listed R p r num p'"
    using ibv_get_device_list_spec by blast
  have "lib_inv p' L \<and> (\<forall>l. r = Some l \<longrightarrow> p_lists p' l = Some (p_device_list p') \<and> num = int (length (p_device_list p')))"
  proof (cases r)
    case None
    with inv p'(2) have "dev_inv p' (holders p' + L)" by (simp add: listed_def lib_inv_def holders_def R_def add_ac)
    with inv None p'(2) ctx_libs_kept [OF inv _ this] show ?thesis by (auto simp: listed_def lib_inv_def)
  next
    case (Some l)
    with p'(2) have l: "p_lists p l = None" using inv by (auto simp: listed_def lib_inv_def)
    have "dev_inv p' (holders p' + L)"
      using inv Some p'(2) lists_refs_new [of "p_lists p" l "p_device_list p'"] l
      by (simp add: listed_def lib_inv_def holders_def R_def add_ac)
    with inv Some p'(2) ctx_libs_kept [OF inv _ this] show ?thesis by (auto simp: listed_def lib_inv_def)
  qed
  with p'(1) show ?thesis by blast
qed

lemma free_list_inv:
  assumes inv: "lib_inv p L" and l: "p_lists p l = Some vs"
  shows "\<exists>p'. ibv_free_device_list bluerdma_drv p l = Some p' \<and> lib_inv p' L"
proof -
  define R where "R = mset (p_device_list p) + (lists_refs ((p_lists p)(l := None)) + ctx_refs (p_ctxs p)) + L"
  have "dev_inv p (mset vs + R)"
    using inv l lists_refs_drop [of "p_lists p" l vs] by (simp add: lib_inv_def holders_def R_def add_ac)
  then obtain p1 where p1: "put_all bluerdma_uninit vs p = Some p1" "dev_inv p1 R" "dev_frame p p1"
    using dev_refs.put_all_held unfolding put_all_def by blast
  define p2 where "p2 = free_block (p1\<lparr>p_lists := (p_lists p1)(l := None)\<rparr>)"
  have "dev_inv p2 R" using p1(2) by (rule dev_inv_cong) (simp_all add: p2_def free_block_def)
  then have "dev_inv p2 (holders p2 + L)"
    using p1(3) by (simp add: p2_def free_block_def dev_frame_def holders_def R_def)
  with ctx_libs_kept [OF inv _ this] have "lib_inv p2 L"
    using inv p1(3) by (auto simp: lib_inv_def p2_def free_block_def dev_frame_def)
  moreover have "ibv_free_device_list bluerdma_drv p l = Some p2"
    using l p1(1) by (simp add: ibv_free_device_list_def uninit_of_bluerdma p2_def)
  ultimately show ?thesis by blast
qed

lemma open_inv:
  assumes inv: "lib_inv p L" and l: "p_lists p l = Some vs" "dev \<in> set vs"
  shows "\<exists>r p'. ibv_open_device env bluerdma_drv call_free_context p dev = Some (r, p') \<and>
    lib_inv p' (if r = None \<and> open_leaks env p then add_mset dev L else L)"
proof -
  have dinv: "dev_inv p (holders p + L)" and fin: "finite (dom (p_ctxs p))"
    using inv by (simp_all add: lib_inv_def)
  have dev: "dev \<in># holders p + L"
    using lists_refs_mem [of "p_lists p" l vs dev] l inv by (simp add: lib_inv_def holders_def)
  have fresh: "p_ctxs p n = None" if "p_next p \<le> n" for n using inv that by (simp add: lib_inv_def)
  obtain r p' where p': "ibv_open_device env bluerdma_drv call_free_context p dev = Some (r, p')" "lib_frame p p'"
    "case r of
       None \<Rightarrow> p_ctxs p' = p_ctxs p \<and> dev_inv p' (if open_leaks env p then add_mset dev (holders p + L) else holders p + L)
     | Some c \<Rightarrow> p_next p \<le> c \<and> c < p_next p' \<and> dev_inv p' (add_mset dev (holders p + L)) \<and>
         (\<exists>x. p_ctxs p' = (p_ctxs p)(c \<mapsto> x) \<and> vc_device x = dev \<and> ctx_ok x \<and> ctx_lib p' x)"
    using open_device_spec [OF dinv dev fresh] by blast
  have "lib_inv p' (if r = None \<and> open_leaks env p then add_mset dev L else L)"
  proof (cases r)
    case None
    with p'(2,3) have "dev_inv p' (holders p' + (if open_leaks env p then add_mset dev L else L))"
      by (auto simp: holders_def lib_frame_def split: if_splits)
    with None inv p'(2,3) ctx_libs_kept [OF inv _ this] show ?thesis by (auto simp: lib_inv_def lib_frame_def)
  next
    case (Some c)
    with p'(3) obtain x where x: "p_next p \<le> c" "c < p_next p'" "dev_inv p' (add_mset dev (holders p + L))"
      "p_ctxs p' = (p_ctxs p)(c \<mapsto> x)" "vc_device x = dev" "ctx_ok x" "ctx_lib p' x" by auto
    have h: "holders p' = add_mset dev (holders p)"
      using x(4,5) p'(2) ctx_refs_new [OF fin fresh [OF x(1)]] by (simp add: holders_def lib_frame_def)
    have "ctx_lib p' y" if "p_ctxs p b = Some y" for b y
      using that inv x(3) h holders_ctx [OF fin that] p'(2)
        ctx_lib_kept [of p y p' "holders p + L" "add_mset dev (holders p + L)" y] by (auto simp: lib_inv_def lib_frame_def)
    with inv p'(2) x Some h show ?thesis by (auto simp: lib_inv_def lib_frame_def)
  qed
  with p'(1) show ?thesis by blast
qed

lemma close_inv:
  assumes inv: "lib_inv p L" and c: "p_ctxs p c = Some x"
  shows "\<exists>p'. ibv_close_device call_free_context p c = Some (0, p') \<and> lib_inv p' L \<and> p_ctxs p' = (p_ctxs p)(c := None)"
proof -
  define H where "H = mset (p_device_list p) + (lists_refs (p_lists p) + ctx_refs ((p_ctxs p)(c := None))) + L"
  have "dev_inv p (add_mset (vc_device x) H)"
    using inv c ctx_refs_drop [of "p_ctxs p" c x] by (simp add: lib_inv_def holders_def H_def)
  then obtain p' where p': "ibv_close_device call_free_context p c = Some (0, p')" "dev_inv p' H" "lib_frame p p'"
    "p_ctxs p' = (p_ctxs p)(c := None)"
    using close_device_spec [of p x H c] c inv by (auto simp: lib_inv_def)
  then have "dev_inv p' (holders p' + L)" by (simp add: holders_def H_def lib_frame_def)
  with ctx_libs_kept [OF inv _ this] p' have "lib_inv p' L"
    using inv by (auto simp: lib_inv_def lib_frame_def map_le_def split: if_splits)
  with p' show ?thesis by blast
qed

lemma lib_reach_inv: "lib_reach p L \<Longrightarrow> lib_inv p L"
proof (induction rule: lib_reach.induct)
  case start
  show ?case by (rule lib_inv_start)
next
  case (get_list p L env r num p')
  then show ?case using get_list_inv [of p L env] by auto
next
  case (free_list p L l p')
  then obtain vs where "p_lists p l = Some vs" by (auto simp: ibv_free_device_list_def bind_eq_Some_conv)
  with free_list show ?case using free_list_inv by fastforce
next
  case (open_dev p L l devs dev env r p')
  then show ?case using open_inv [of p L l devs dev env] by auto
next
  case (close_dev p L c ret p')
  then obtain x where "p_ctxs p c = Some x" by (auto simp: ibv_close_device_def bind_eq_Some_conv)
  with close_dev show ?case using close_inv by fastforce
qed

subsection \<open>A process with one device\<close>

definition demo_env :: penv where
  "demo_env = \<lparr>e_calloc_ok = (\<lambda>n. True), e_dlopen_ok = (\<lambda>n. True), e_dlsym = (\<lambda>s. Some 1),
     e_driver_new_ok = (\<lambda>n. True), e_open_cdev_ok = (\<lambda>n. True),
     e_get_context = (\<lambda>n. Get_context_ioctl 1 0), e_ioctl_write_rc = (\<lambda>n. ENOSPC), e_alloc_async_fd_rc = (\<lambda>n. 0),
     e_ibverbs_init_rc = (\<lambda>n. 0), e_find_sysfs_devs_nl = (\<lambda>n. Some [demo_sysfs_dev]),
     e_find_sysfs_devs = (\<lambda>n. Scan_ENOSYS), e_abi_version_file = (\<lambda>n. Some 6),
     e_modalias_file = (\<lambda>s. None), e_sysfs_path = ''/sys'', e_loadable_drivers = [''bluerdma'']\<rparr>"

definition demo_proc :: proc where
  "demo_proc = snd (snd (the (ibv_get_device_list demo_env bluerdma_drv proc_start)))"

lemmas demo_list_defs =
  ibv_get_device_list_def demo_env_def proc_start_def tick_def ibverbs_get_device_list_def find_devs_def
  check_abi_version_def IB_USER_VERBS_MIN_ABI_VERSION_def IB_USER_VERBS_MAX_ABI_VERSION_def try_drivers_def
  load_drivers_def verbs_register_driver_def calloc_def Let_def demo_sysfs_dev_def RDMA_DRIVER_UNKNOWN_def
  try_driver_def bluerdma_drv_def bluerdma_dev_ops_def match_device_def hca_table_def match_driver_id_def
  match_name_def VERBS_NAME_MATCH_def bluerdma_device_alloc_def upd_dev_def IBV_SYSFS_PATH_MAX_def hold_all_def
  ibverbs_device_hold_def

lemma demo_proc_list: "ibv_get_device_list demo_env bluerdma_drv proc_start = Some (Some 15, 1, demo_proc)"
  by (simp add: demo_proc_def demo_list_defs)

lemma demo_proc_state:
  "p_lists demo_proc = [15 \<mapsto> [12]]" "p_device_list demo_proc = [12]" "p_ctxs demo_proc = Map.empty" "p_next demo_proc = 16"
  by (simp_all add: demo_proc_def demo_list_defs)

lemma demo_proc_dev:
  "\<exists>d. p_devs demo_proc = [12 \<mapsto> d] \<and> vd_refcount d = 2 \<and> vd_sysfs d \<noteq> None \<and> vd_ops d = Some ''bluerdma'' \<and>
     bd_driver_new d \<noteq> None \<and> bd_ops d \<noteq> None"
  by (simp add: demo_proc_def demo_list_defs)

lemma demo_proc_reach: "lib_reach demo_proc {#}"
  by (rule lib_reach.get_list [OF lib_reach.start demo_proc_list])

lemma demo_open: "\<exists>p. ibv_open_device demo_env bluerdma_drv call_free_context demo_proc 12 = Some (Some 17, p)"
proof -
  obtain d where d: "p_devs demo_proc = [12 \<mapsto> d]" "vd_sysfs d \<noteq> None" "vd_ops d = Some ''bluerdma''"
    "bd_driver_new d \<noteq> None" "bd_ops d \<noteq> None" using demo_proc_dev by auto
  then show ?thesis
    by (auto simp: ibv_open_device_def verbs_open_device_def fresh_fd_def demo_proc_state demo_env_def tick_def
        bluerdma_drv_def bluerdma_dev_ops_def bluerdma_alloc_context_def verbs_init_and_alloc_context_def calloc_def
        verbs_init_context_def ibverbs_device_hold_def upd_dev_def upd_ctx_def ctx_set_ops_eq ibv_cmd_get_context_def
        verbs_log_def driver_new_def ibv_cmd_alloc_async_fd_def)
qed

lemma dev_inv_refcounts:
  assumes "dev_inv p H"
  shows "map_option vd_refcount (p_devs p a) = (if a \<in># H then Some (int (count H a)) else None)"
proof (cases "p_devs p a")
  case None
  then have "a \<notin># H" using dev_inv_live [OF assms, of a] by simp
  with None show ?thesis by simp
next
  case (Some d)
  then have "a \<in># H" "vd_refcount d = int (count H a)"
    using dev_inv_live [OF assms, of a] assms by (auto simp: dev_inv_def refs_def)
  with Some show ?thesis by simp
qed

lemma demo_open_ctx:
  assumes "ibv_open_device demo_env bluerdma_drv call_free_context demo_proc 12 = Some (Some 17, p)"
  shows "\<exists>x. p_ctxs p 17 = Some x"
proof -
  have "dev_inv demo_proc (holders demo_proc)" using lib_reach_inv [OF demo_proc_reach] by (simp add: lib_inv_def)
  moreover have "12 \<in># holders demo_proc" by (simp add: holders_def demo_proc_state)
  ultimately show ?thesis
    using open_device_spec [of demo_proc "holders demo_proc" 12 demo_env] assms by (auto simp: demo_proc_state)
qed

subsection \<open>Properties\<close>

text \<open>C6. Whatever calls a program has made, and whatever the allocator, the kernel and the loader answered,
  the next list, free, open or close call returns without touching freed memory: the array built for the
  program holds every listed device, an array it was given can be freed, each of its devices opened, and
  every open context closed.
\<close>

theorem device_calls_never_fault:
  assumes "lib_reach p L"
  shows "ibv_get_device_list env bluerdma_drv p \<noteq> None \<and>
    (p_lists p l = Some vs \<longrightarrow> ibv_free_device_list bluerdma_drv p l \<noteq> None \<and>
       (dev \<in> set vs \<longrightarrow> ibv_open_device env bluerdma_drv call_free_context p dev \<noteq> None)) \<and>
    (p_ctxs p c = Some x \<longrightarrow> ibv_close_device call_free_context p c \<noteq> None)"
proof -
  have inv: "lib_inv p L" using assms by (rule lib_reach_inv)
  show ?thesis
    using get_list_inv [OF inv] free_list_inv [OF inv, of l] open_inv [OF inv, of l] close_inv [OF inv, of c] by fastforce
qed

theorem device_calls_never_fault_witness:
  "lib_reach demo_proc {#} \<and> ibv_get_device_list demo_env bluerdma_drv demo_proc \<noteq> None \<and>
   ibv_free_device_list bluerdma_drv demo_proc 15 \<noteq> None \<and>
   ibv_open_device demo_env bluerdma_drv call_free_context demo_proc 12 \<noteq> None"
  using device_calls_never_fault [OF demo_proc_reach, of demo_env 15 "[12]" 12] demo_proc_reach
  by (simp add: demo_proc_state)

text \<open>C7. The reference count of a device is exact: it is the number of references held on it by the library's
  list, the arrays handed out and the open contexts, plus one for each open that failed because the
  private structure of its context could not be allocated; and a device structure is allocated exactly
  while that number is positive.
\<close>

theorem device_refcount_exact:
  assumes "lib_reach p L"
  shows "dom (p_devs p) = set_mset (holders p + L) \<and>
    (p_devs p a = Some d \<longrightarrow> vd_refcount d = int (count (holders p) a) + int (count L a))"
  using lib_reach_inv [OF assms] by (auto simp: lib_inv_def dev_inv_def refs_def)

theorem device_refcount_exact_witness:
  "lib_reach demo_proc {#} \<and> dom (p_devs demo_proc) = {12} \<and> (\<exists>d. p_devs demo_proc 12 = Some d \<and> vd_refcount d = 2)"
proof -
  have h: "holders demo_proc = {#12, 12#}" by (simp add: holders_def demo_proc_state lists_refs_def ctx_refs_def)
  obtain d where "p_devs demo_proc 12 = Some d" using demo_proc_dev by auto
  with device_refcount_exact [OF demo_proc_reach, of 12 d] demo_proc_reach h show ?thesis by simp
qed

text \<open>
  A successful \<^verbatim>\<open>ibv_get_device_list\<close> reports as many devices as the array it returns has, the
  array is the library's device list, and each entry is an allocated device.
\<close>

theorem device_list_array_exact:
  assumes "lib_reach p L" "ibv_get_device_list env bluerdma_drv p = Some (Some l, num, p')"
  shows "p_lists p' l = Some (p_device_list p') \<and> num = int (length (p_device_list p')) \<and>
    set (p_device_list p') \<subseteq> dom (p_devs p')"
proof -
  have "lib_inv p' L" "p_lists p' l = Some (p_device_list p')" "num = int (length (p_device_list p'))"
    using get_list_inv [OF lib_reach_inv [OF assms(1)], of env] assms(2) by auto
  then show ?thesis by (auto simp: lib_inv_def dev_inv_def refs_def holders_def)
qed

text \<open>C9. Closing a context undoes opening it: the same contexts are open as before, the same devices are
  allocated, and every reference count is what it was.
\<close>

theorem open_close_restores:
  assumes "lib_reach p L" "p_lists p l = Some vs" "dev \<in> set vs"
    and "ibv_open_device env bluerdma_drv call_free_context p dev = Some (Some c, p1)"
    and "ibv_close_device call_free_context p1 c = Some (ret, p2)"
  shows "ret = 0 \<and> p_ctxs p2 = p_ctxs p \<and>
    map_option vd_refcount \<circ> p_devs p2 = map_option vd_refcount \<circ> p_devs p"
proof -
  have inv: "lib_inv p L" using assms(1) by (rule lib_reach_inv)
  have r: "dev_inv p (holders p + L)" "dev \<in># holders p + L" "\<And>n. p_next p \<le> n \<Longrightarrow> p_ctxs p n = None"
    using inv lists_refs_mem [of "p_lists p" l vs dev] assms(2,3) by (auto simp: lib_inv_def holders_def)
  obtain x where p1: "lib_frame p p1" "p_next p \<le> c" "p_ctxs p1 = (p_ctxs p)(c \<mapsto> x)" "ctx_ok x" "vc_device x = dev"
    "dev_inv p1 (add_mset dev (holders p + L))"
    using open_device_spec [OF r, of env] assms(4) by auto
  then have p2: "ret = 0" "dev_inv p2 (holders p + L)" "p_ctxs p2 = p_ctxs p"
    using close_device_spec [of p1 x "holders p + L" c] assms(5) r(3) [of c] by (auto simp: fun_upd_idem)
  have "map_option vd_refcount (p_devs p2 a) = map_option vd_refcount (p_devs p a)" for a
    using dev_inv_refcounts [OF r(1)] dev_inv_refcounts [OF p2(2)] by simp
  with p2 show ?thesis by (auto simp: fun_eq_iff)
qed

theorem open_close_restores_witness:
  "\<exists>p1 p2. ibv_open_device demo_env bluerdma_drv call_free_context demo_proc 12 = Some (Some 17, p1) \<and>
     ibv_close_device call_free_context p1 17 = Some (0, p2) \<and> p_ctxs p2 = Map.empty \<and>
     map_option vd_refcount (p_devs p2 12) = Some 2"
proof -
  obtain p1 where p1: "ibv_open_device demo_env bluerdma_drv call_free_context demo_proc 12 = Some (Some 17, p1)"
    using demo_open by auto
  have "\<exists>x. p_ctxs p1 17 = Some x" by (rule demo_open_ctx [OF p1])
  moreover have "lib_inv p1 {#}"
    using open_inv [OF lib_reach_inv [OF demo_proc_reach], of 15 "[12]" 12 demo_env] p1 by (simp add: demo_proc_state)
  ultimately obtain p2 where p2: "ibv_close_device call_free_context p1 17 = Some (0, p2)" using close_inv by blast
  have "p_lists demo_proc 15 = Some [12]" "12 \<in> set [12]" by (simp_all add: demo_proc_state)
  from open_close_restores [OF demo_proc_reach this p1 p2] have "p_ctxs p2 = Map.empty"
    "(map_option vd_refcount \<circ> p_devs p2) 12 = (map_option vd_refcount \<circ> p_devs demo_proc) 12"
    by (simp_all add: demo_proc_state)
  with p1 p2 demo_proc_dev show ?thesis by auto
qed

text \<open>C8. Allocating a device looks its operations up in the library just loaded. In every open context of a
  program, at any later time, each of the 76 operations is the function the library exports under its name
  if the table of the context's device has one, else the provider's stub, else the dummy; the members the
  program calls through hold the same functions, and \<^verbatim>\<open>free_context\<close> is always the provider's own, whatever
  the library exports.
\<close>

theorem open_context_operations:
  assumes "lib_reach p L" "p_ctxs p c = Some x"
  shows "(\<exists>d dlsym priv. p_devs p (vc_device x) = Some d \<and> bd_ops d = Some (bluerdma_set_ops dlsym Map.empty) \<and>
      vc_priv x = Some priv \<and> priv_ops priv = context_table dlsym \<and> ops_ready (priv, vc_members x) \<and>
      priv_ops priv ''free_context'' = Some (Fn_bluerdma ''bluerdma_free_context'')) \<and>
    (bluerdma_device_alloc env q sd = Some (Some v, q') \<longrightarrow>
      (\<exists>d. p_devs q' v = Some d \<and> bd_ops d = Some (bluerdma_set_ops (e_dlsym env) Map.empty)))"
proof -
  have x: "ctx_ok x" "ctx_lib p x" using lib_reach_inv [OF assms(1)] assms(2) by (auto simp: lib_inv_def)
  then obtain priv where "vc_priv x = Some priv" "ops_ready (priv, vc_members x)" by (auto simp: ctx_ok_def)
  with x(2) show ?thesis using context_table_free_context device_alloc_ops by (auto simp: ctx_lib_def)
qed

theorem open_context_operations_witness:
  "\<exists>p x priv. lib_reach p {#} \<and> p_ctxs p 17 = Some x \<and> vc_priv x = Some priv \<and>
     priv_ops priv ''free_context'' = Some (Fn_bluerdma ''bluerdma_free_context'')"
proof -
  obtain p where p: "ibv_open_device demo_env bluerdma_drv call_free_context demo_proc 12 = Some (Some 17, p)"
    using demo_open by auto
  have r: "lib_reach p {#}"
    using lib_reach.open_dev [OF demo_proc_reach _ _ p, of 15 "[12]"] by (simp add: demo_proc_state)
  obtain x where x: "p_ctxs p 17 = Some x" using demo_open_ctx [OF p] by auto
  from open_context_operations [OF r x] r x show ?thesis by blast
qed

end
