(* ===== verification/IntervalSet.thy ===== *)
theory IntervalSet
  imports Prelude
begin

text \<open>
  The interval sets of \<^verbatim>\<open>util/interval_set.c\<close>: an ordered list of ranges of 64-bit addresses from which
  aligned blocks are allocated. The arithmetic is that of \<^verbatim>\<open>uint64_t\<close>, so a range that ends at the
  top of the address space, and the one that covers all of it, wrap around. The list is the set of
  addresses its ranges contain; inserting and allocating are union and difference on that set.
\<close>

subsection \<open>Definitions\<close>

record iset_range =
  r_start :: u64
  r_length :: u64

type_synonym iset = "iset_range list"

text \<open>Whether an allocation succeeds is a parameter of the operations that make one.\<close>

definition iset_create :: "bool \<Rightarrow> iset option" where
  "iset_create calloc_ok = (if calloc_ok then Some [] else None)"

text \<open>Destroying a set frees its ranges one by one and then the set itself.\<close>

definition iset_destroy :: "iset \<Rightarrow> nat" where
  "iset_destroy iset = fold (\<lambda>_ freed. Suc freed) iset 0 + 1"

definition range_overlap :: "u64 \<Rightarrow> u64 \<Rightarrow> u64 \<Rightarrow> u64 \<Rightarrow> bool" where
  "range_overlap s1 len1 s2 len2 =
     (if (s1 < s2 \<and> s1 + len1 - 1 < s2) \<or> (s1 > s2 \<and> s1 > s2 + len2 - 1) then False else True)"

definition create_range :: "bool \<Rightarrow> u64 \<Rightarrow> u64 \<Rightarrow> iset_range option" where
  "create_range calloc_ok start len =
     (if calloc_ok then Some \<lparr>r_start = start, r_length = len\<rparr> else None)"

text \<open>
  A position in the list is the ranges before it and the ranges from it on: \<open>prev\<close> is the last of the
  former, the current range the first of the latter.
\<close>

definition check_do_combine :: "iset \<Rightarrow> iset \<Rightarrow> u64 \<Rightarrow> u64 \<Rightarrow> bool \<times> iset" where
  "check_do_combine before after start len =
     (let combined2prev = (before \<noteq> [] \<and> r_start (last before) + r_length (last before) = start);
          before = (if combined2prev
                    then butlast before @ [(last before)\<lparr>r_length := r_length (last before) + len\<rparr>] else before) in
      case after of
        [] \<Rightarrow> (combined2prev, before)
      | n # rest \<Rightarrow>
          if start + len = r_start n then
            if combined2prev
            then (True, butlast before @ [(last before)\<lparr>r_length := r_length (last before) + r_length n\<rparr>] @ rest)
            else (True, before @ n\<lparr>r_start := start, r_length := r_length n + len\<rparr> # rest)
          else (combined2prev, before @ after))"

text \<open>The loop of \<^verbatim>\<open>iset_insert_range\<close>: \<open>None\<close> when a range overlaps.\<close>

fun insert_position :: "iset \<Rightarrow> iset \<Rightarrow> u64 \<Rightarrow> u64 \<Rightarrow> (iset \<times> iset) option" where
  "insert_position before [] start len = Some (before, [])"
| "insert_position before (r # rs) start len =
     (if range_overlap (r_start r) (r_length r) start len then None
      else if r_start r > start then Some (before, r # rs)
      else insert_position (before @ [r]) rs start len)"

definition iset_insert_range :: "bool \<Rightarrow> iset \<Rightarrow> u64 \<Rightarrow> u64 \<Rightarrow> int \<times> iset" where
  "iset_insert_range calloc_ok iset start len =
     (if len = 0 \<or> start + len - 1 < start then (EINVAL, iset)
      else case insert_position [] iset start len of
             None \<Rightarrow> (EINVAL, iset)
           | Some (before, after) \<Rightarrow>
               (let (combined, iset') = check_do_combine before after start len in
                if combined then (0, iset')
                else case create_range calloc_ok start len of
                       None \<Rightarrow> (ENOMEM, iset)
                     | Some rnew \<Rightarrow> (0, before @ rnew # after)))"

definition power_of_two :: "u64 \<Rightarrow> bool" where
  "power_of_two x = (x \<noteq> 0 \<and> x AND (x - 1) = 0)"

definition align :: "u64 \<Rightarrow> u64 \<Rightarrow> u64" where
  "align val al = (val + al - 1) AND NOT (al - 1)"

text \<open>The loop of \<^verbatim>\<open>iset_alloc_range\<close>: the first range the aligned block fits in.\<close>

fun alloc_position :: "iset \<Rightarrow> iset \<Rightarrow> u64 \<Rightarrow> u64 \<Rightarrow> (iset \<times> iset_range \<times> iset) option" where
  "alloc_position before [] len alignment = None"
| "alloc_position before (r # rs) len alignment =
     (let astart = align (r_start r) alignment in
      if astart + len - 1 \<ge> astart \<and> astart + len - 1 \<le> r_start r + r_length r - 1
      then Some (before, r, rs) else alloc_position (before @ [r]) rs len alignment)"

definition iset_alloc_range :: "bool \<Rightarrow> iset \<Rightarrow> u64 \<Rightarrow> u64 \<Rightarrow> int \<times> u64 option \<times> iset" where
  "iset_alloc_range calloc_ok iset len alignment =
     (if \<not> power_of_two alignment then (EINVAL, None, iset)
      else case alloc_position [] iset len alignment of
             None \<Rightarrow> (ENOSPC, None, iset)
           | Some (before, r, after) \<Rightarrow>
               (let astart = align (r_start r) alignment in
                if r_start r = astart then
                  if r_length r = len then (0, Some astart, before @ after)
                  else (0, Some astart, before @
                          r\<lparr>r_start := r_start r + len, r_length := r_length r - len\<rparr> # after)
                else
                  let rend = r_start r + r_length r in
                  if astart + len \<noteq> rend then
                    case create_range calloc_ok (astart + len) (rend - astart - len) of
                      None \<Rightarrow> (ENOMEM, None, iset)
                    | Some rnew \<Rightarrow> (0, Some astart, before @ r\<lparr>r_length := astart - r_start r\<rparr> # rnew # after)
                  else (0, Some astart, before @ r\<lparr>r_length := astart - r_start r\<rparr> # after)))"

subsection \<open>The set a list of ranges stands for\<close>

text \<open>The first and the last address of a range, as numbers.\<close>

definition lo :: "iset_range \<Rightarrow> nat" where "lo r = unat (r_start r)"
definition hi :: "iset_range \<Rightarrow> nat" where "hi r = unat (r_start r + r_length r - 1)"

definition iset_set :: "iset \<Rightarrow> nat set" where
  "iset_set rs = (\<Union>r\<in>set rs. {lo r..hi r})"

text \<open>The invariant: ranges are not empty, in ascending order, and no two of them touch.\<close>

definition iset_ok :: "iset \<Rightarrow> bool" where
  "iset_ok rs \<longleftrightarrow> (\<forall>r\<in>set rs. lo r \<le> hi r) \<and> sorted_wrt (\<lambda>a b. hi a + 1 < lo b) rs"

lemma iset_set_simps [simp]:
  "iset_set [] = {}" "iset_set (r # rs) = {lo r..hi r} \<union> iset_set rs" "iset_set (rs @ rs') = iset_set rs \<union> iset_set rs'"
  by (auto simp: iset_set_def)

lemma iset_ok_Cons [simp]:
  "iset_ok (r # rs) \<longleftrightarrow> lo r \<le> hi r \<and> (\<forall>b\<in>set rs. hi r + 1 < lo b) \<and> iset_ok rs"
  by (auto simp: iset_ok_def)

lemma iset_ok_append [simp]:
  "iset_ok (rs @ rs') \<longleftrightarrow> iset_ok rs \<and> iset_ok rs' \<and> (\<forall>a\<in>set rs. \<forall>b\<in>set rs'. hi a + 1 < lo b)"
  by (auto simp: iset_ok_def sorted_wrt_append)

lemma iset_ok_Nil [simp]: "iset_ok []"
  by (simp add: iset_ok_def)

lemma iset_ok_range: "iset_ok rs \<Longrightarrow> r \<in> set rs \<Longrightarrow> lo r \<le> hi r"
  by (simp add: iset_ok_def)

subsection \<open>Inserting\<close>

lemma hi_inside: "lo r \<le> hi r \<Longrightarrow> hi r = lo r + unat (r_length r - 1)"
  by (metis add_diff_eq hi_def lo_def unat_plus_simple word_le_nat_alt)

lemma range_overlap_iff:
  assumes "lo r \<le> hi r" "s \<le> s + l - 1"
  shows "range_overlap (r_start r) (r_length r) s l \<longleftrightarrow> lo r \<le> unat (s + l - 1) \<and> unat s \<le> hi r"
  using assms by (auto simp: range_overlap_def lo_def hi_def word_less_nat_alt word_le_nat_alt)

lemma insert_position_spec:
  assumes "s \<le> s + l - 1" "iset_ok (before @ rs)" "\<forall>b\<in>set before. hi b < unat s"
  shows "case insert_position before rs s l of
           None \<Rightarrow> \<exists>r\<in>set rs. lo r \<le> unat (s + l - 1) \<and> unat s \<le> hi r
         | Some (b, a) \<Rightarrow> b @ a = before @ rs \<and> (\<forall>r\<in>set b. hi r < unat s) \<and> (\<forall>r\<in>set a. unat (s + l - 1) < lo r)"
  using assms(2,3)
proof (induction rs arbitrary: before)
  case (Cons r rs)
  have r: "lo r \<le> hi r" and rest: "\<And>b. b \<in> set rs \<Longrightarrow> hi r + 1 < lo b"
    using Cons.prems(1) by auto
  show ?case
  proof (cases "range_overlap (r_start r) (r_length r) s l")
    case False
    then have apart: "unat (s + l - 1) < lo r \<or> hi r < unat s"
      using range_overlap_iff [OF r assms(1)] by auto
    show ?thesis
    proof (cases "s < r_start r")
      case True
      then have "unat (s + l - 1) < lo r"
        using apart r by (auto simp: lo_def word_less_nat_alt)
      then show ?thesis using True False r rest Cons.prems by fastforce
    next
      case below: False
      then have "hi r < unat s"
        using apart assms(1) by (auto simp: lo_def word_less_nat_alt word_le_nat_alt)
      then show ?thesis using below False Cons.IH [of "before @ [r]"] Cons.prems
        by (auto split: option.splits)
    qed
  qed (use range_overlap_iff [OF r assms(1)] in auto)
qed simp

lemma touches_prev: "hi p < unat s \<Longrightarrow> r_start p + r_length p = s \<longleftrightarrow> hi p + 1 = unat s"
  using unat_succ [of "r_start p + r_length p - 1"] unat_below [of s]
  by (auto simp: hi_def simp flip: word_unat_eq_iff)

lemma touches_next: "unat (s + l - 1) < lo n \<Longrightarrow> s + l = r_start n \<longleftrightarrow> unat (s + l - 1) + 1 = lo n"
  using unat_succ [of "s + l - 1"] unat_below [of "r_start n"]
  by (auto simp: lo_def simp flip: word_unat_eq_iff)

lemma lo_hi_simps [simp]:
  "lo \<lparr>r_start = s, r_length = l\<rparr> = unat s"
  "hi \<lparr>r_start = s, r_length = l\<rparr> = unat (s + l - 1)"
  "lo (r\<lparr>r_length := l\<rparr>) = lo r"
  "lo (r\<lparr>r_start := s\<rparr>) = unat s"
  by (simp_all add: lo_def hi_def)

lemma hi_joined:
  "r_start p + r_length p = s \<Longrightarrow> hi (p\<lparr>r_length := r_length p + l\<rparr>) = unat (s + l - 1)"
  "r_start p + r_length p = s \<Longrightarrow> s + l = r_start n \<Longrightarrow> hi (p\<lparr>r_length := r_length p + l + r_length n\<rparr>) = hi n"
  "s + l = r_start n \<Longrightarrow> hi (n\<lparr>r_start := s, r_length := r_length n + l\<rparr>) = hi n"
  by (auto simp: hi_def algebra_simps dest!: sym [of _ "r_start n"])

lemma atLeastAtMost_join: "(a :: nat) \<le> b \<Longrightarrow> b + 1 = c \<Longrightarrow> c \<le> d \<Longrightarrow> {a..b} \<union> {c..d} = {a..d}"
  by auto

lemma combine_both:
  assumes "iset_ok (b @ p # n # a)" "s \<le> s + l - 1" "hi p < unat s" "unat (s + l - 1) < lo n"
    and "r_start p + r_length p = s" "s + l = r_start n"
  shows "iset_ok (b @ p\<lparr>r_length := r_length p + l + r_length n\<rparr> # a) \<and>
         iset_set (b @ p\<lparr>r_length := r_length p + l + r_length n\<rparr> # a) =
         iset_set (b @ p # n # a) \<union> {unat s..unat (s + l - 1)}"
proof -
  have "hi p + 1 = unat s" "unat (s + l - 1) + 1 = lo n" "unat s \<le> unat (s + l - 1)"
    using touches_prev [OF assms(3)] touches_next [OF assms(4)] assms(2,5,6) by (simp_all add: word_le_nat_alt)
  moreover from this have "{lo p..hi p} \<union> {lo n..hi n} \<union> {unat s..unat (s + l - 1)} = {lo p..hi n}"
    using assms(1) by auto
  ultimately show ?thesis
    using assms(1) by (auto simp: hi_joined(2) [OF assms(5,6)])
qed

lemma combine_prev:
  assumes "iset_ok (b @ p # a)" "s \<le> s + l - 1" "hi p < unat s" "\<forall>r\<in>set a. unat (s + l - 1) + 1 < lo r"
    and "r_start p + r_length p = s"
  shows "iset_ok (b @ p\<lparr>r_length := r_length p + l\<rparr> # a) \<and>
         iset_set (b @ p\<lparr>r_length := r_length p + l\<rparr> # a) = iset_set (b @ p # a) \<union> {unat s..unat (s + l - 1)}"
proof -
  have "hi p + 1 = unat s" "unat s \<le> unat (s + l - 1)"
    using touches_prev [OF assms(3)] assms(2,5) by (simp_all add: word_le_nat_alt)
  moreover from this have "{lo p..hi p} \<union> {unat s..unat (s + l - 1)} = {lo p..unat (s + l - 1)}"
    using assms(1) by auto
  ultimately show ?thesis
    using assms(1,4) by (auto simp: hi_joined(1) [OF assms(5)])
qed

lemma combine_next:
  assumes "iset_ok (b @ n # a)" "s \<le> s + l - 1" "\<forall>r\<in>set b. hi r + 1 < unat s" "unat (s + l - 1) < lo n"
    and "s + l = r_start n"
  shows "iset_ok (b @ n\<lparr>r_start := s, r_length := r_length n + l\<rparr> # a) \<and>
         iset_set (b @ n\<lparr>r_start := s, r_length := r_length n + l\<rparr> # a) =
         iset_set (b @ n # a) \<union> {unat s..unat (s + l - 1)}"
proof -
  have "unat (s + l - 1) + 1 = lo n" "unat s \<le> unat (s + l - 1)"
    using touches_next [OF assms(4)] assms(2,5) by (simp_all add: word_le_nat_alt)
  moreover from this have "{lo n..hi n} \<union> {unat s..unat (s + l - 1)} = {unat s..hi n}"
    using assms(1) by auto
  ultimately show ?thesis
    using assms(1,3) by (auto simp: hi_joined(3) [OF assms(5)])
qed

lemma check_do_combine_spec:
  assumes "iset_ok (b @ a)" "s \<le> s + l - 1" "\<forall>r\<in>set b. hi r < unat s" "\<forall>r\<in>set a. unat (s + l - 1) < lo r"
    and "check_do_combine b a s l = (c, rs)"
  shows "if c then iset_ok rs \<and> iset_set rs = iset_set (b @ a) \<union> {unat s..unat (s + l - 1)}
         else (\<forall>r\<in>set b. hi r + 1 < unat s) \<and> (\<forall>r\<in>set a. unat (s + l - 1) + 1 < lo r)"
proof -
  have prev: "\<forall>r\<in>set b. hi r + 1 < unat s" if "b = [] \<or> r_start (last b) + r_length (last b) \<noteq> s"
  proof (cases b rule: rev_cases)
    case (snoc bs p)
    then have "hi p + 1 < unat s" using that assms(3) touches_prev [of p s] by fastforce
    then show ?thesis using snoc assms(1) iset_ok_range [OF assms(1), of p] by auto
  qed simp
  have nxt: "\<forall>r\<in>set a. unat (s + l - 1) + 1 < lo r" if "a = [] \<or> s + l \<noteq> r_start (hd a)"
  proof (cases a)
    case (Cons n as)
    then have "unat (s + l - 1) + 1 < lo n" using that assms(4) touches_next [of s l n] by fastforce
    then show ?thesis using Cons assms(1) by auto
  qed simp
  show ?thesis
  proof (cases "b \<noteq> [] \<and> r_start (last b) + r_length (last b) = s")
    case True
    then obtain bs p where b: "b = bs @ [p]" and p: "r_start p + r_length p = s"
      by (metis append_butlast_last_id)
    show ?thesis
    proof (cases "a \<noteq> [] \<and> s + l = r_start (hd a)")
      case nx: True
      then obtain n as where "a = n # as" "s + l = r_start n" by (cases a) auto
      then show ?thesis using combine_both [of bs p n as s l] assms p by (auto simp: b check_do_combine_def Let_def)
    next
      case nx: False
      then show ?thesis using combine_prev [of bs p a s l] nxt assms p
        by (auto simp: b check_do_combine_def Let_def split: list.splits)
    qed
  next
    case False
    show ?thesis
    proof (cases "a \<noteq> [] \<and> s + l = r_start (hd a)")
      case nx: True
      then obtain n as where "a = n # as" "s + l = r_start n" by (cases a) auto
      then show ?thesis using combine_next [of b n as s l] prev False assms by (auto simp: check_do_combine_def Let_def)
    next
      case nx: False
      then show ?thesis using prev nxt False assms(5) by (auto simp: check_do_combine_def Let_def split: list.splits)
    qed
  qed
qed

text \<open>A block given by its start and length is the interval of its addresses when it does not wrap.\<close>

lemma block_last:
  "(l :: u64) \<noteq> 0 \<Longrightarrow> s \<le> s + l - 1 \<longleftrightarrow> unat s + unat l \<le> 2 ^ 64"
  "(l :: u64) \<noteq> 0 \<Longrightarrow> s \<le> s + l - 1 \<Longrightarrow> unat (s + l - 1) = unat s + unat l - 1"
proof -
  assume l: "l \<noteq> 0"
  then have u: "unat (l - 1) = unat l - 1" "0 < unat l"
    using unat_minus_one [of l] by (simp_all add: unat_gt_0)
  have "s \<le> s + (l - 1) \<longleftrightarrow> unat s + unat (l - 1) < 2 ^ 64"
    by (simp add: no_olen_add_nat)
  then show "s \<le> s + l - 1 \<longleftrightarrow> unat s + unat l \<le> 2 ^ 64"
    using u by (auto simp: add_diff_eq)
  show "unat (s + l - 1) = unat s + unat l - 1" if "s \<le> s + l - 1"
    using that u unat_plus_simple [of s "l - 1"] by (simp add: add_diff_eq)
qed

definition block :: "u64 \<Rightarrow> u64 \<Rightarrow> nat set" where
  "block s l = {unat s..<unat s + unat l}"

lemma block_eq: "(l :: u64) \<noteq> 0 \<Longrightarrow> s \<le> s + l - 1 \<Longrightarrow> block s l = {unat s..unat (s + l - 1)}"
  using unat_gt_0 [of l] by (auto simp: block_def block_last(2))

lemma iset_insert_range_valid:
  assumes "l \<noteq> 0" "s \<le> s + l - 1"
  shows "iset_insert_range calloc_ok rs s l =
     (case insert_position [] rs s l of
             None \<Rightarrow> (EINVAL, rs)
           | Some (before, after) \<Rightarrow>
               (let (combined, iset') = check_do_combine before after s l in
                if combined then (0, iset')
                else case create_range calloc_ok s l of
                       None \<Rightarrow> (ENOMEM, rs)
                     | Some rnew \<Rightarrow> (0, before @ rnew # after)))"
  using assms(1) assms(2) [THEN leD] by (simp add: iset_insert_range_def)

lemma iset_insert_range_spec:
  assumes ok: "iset_ok rs" and l: "l \<noteq> 0" "s \<le> s + l - 1" and ret: "iset_insert_range calloc_ok rs s l = (ret, rs')"
  shows "if block s l \<inter> iset_set rs \<noteq> {} then ret = EINVAL \<and> rs' = rs
         else ret = 0 \<and> iset_ok rs' \<and> iset_set rs' = iset_set rs \<union> block s l \<or>
              \<not> calloc_ok \<and> ret = ENOMEM \<and> rs' = rs"
proof (cases "insert_position [] rs s l")
  case None
  then obtain r where "r \<in> set rs" "lo r \<le> unat (s + l - 1)" "unat s \<le> hi r"
    using insert_position_spec [of s l "[]" rs] ok l by auto
  moreover have "lo r \<le> hi r" "unat s \<le> unat (s + l - 1)"
    using iset_ok_range [OF ok] calculation(1) l by (auto simp: word_le_nat_alt)
  ultimately have "max (lo r) (unat s) \<in> block s l \<inter> iset_set rs"
    by (auto simp: block_eq [OF l] iset_set_def intro!: bexI [of _ r])
  then show ?thesis using None ret l by (auto simp: iset_insert_range_valid [OF l])
next
  case (Some ba)
  obtain b a where ba: "ba = (b, a)" by (cases ba)
  have pos: "rs = b @ a" "\<forall>r\<in>set b. hi r < unat s" "\<forall>r\<in>set a. unat (s + l - 1) < lo r"
    using insert_position_spec [of s l "[]" rs] ok l Some by (auto simp: ba)
  obtain c rs1 where comb: "check_do_combine b a s l = (c, rs1)" by fastforce
  have disj: "block s l \<inter> iset_set rs = {}"
    using pos by (fastforce simp: block_eq [OF l] iset_set_def)
  note spec = check_do_combine_spec [OF _ l(2) pos(2,3) comb] ok
  show ?thesis
  proof (cases c)
    case True
    then show ?thesis using spec ret l disj Some
      by (auto simp: iset_insert_range_valid [OF l] ba comb pos(1) block_eq)
  next
    case False
    then have "iset_ok (b @ \<lparr>r_start = s, r_length = l\<rparr> # a)"
      using spec l by (auto simp: pos(1) word_le_nat_alt)
    then show ?thesis using False ret l disj Some
      by (auto simp: iset_insert_range_valid [OF l] ba comb pos(1) block_eq create_range_def split: if_splits)
  qed
qed

subsection \<open>Allocating\<close>

lemma power_of_two_iff: "power_of_two x \<longleftrightarrow> (\<exists>k. unat x = 2 ^ k)"
proof
  assume "power_of_two x"
  then have "unat x \<noteq> 0" "unat (x AND (x - 1)) = 0" by (auto simp: power_of_two_def unat_eq_0)
  then show "\<exists>k. unat x = 2 ^ k"
    using nat_and_pred [of "unat x"] unat_minus_one [of x] by (auto simp: unsigned_and_eq unat_eq_0)
next
  assume "\<exists>k. unat x = 2 ^ k"
  then obtain k where k: "unat x = 2 ^ k" by auto
  then have nz: "x \<noteq> 0" by auto
  have "unat (x AND (x - 1)) = 2 ^ k AND mask k"
    using k nz by (simp add: unsigned_and_eq unat_minus_one mask_eq_exp_minus_1)
  also have "\<dots> = 0" by (simp flip: take_bit_eq_mask)
  finally show "power_of_two x" using nz by (simp add: power_of_two_def unat_eq_0)
qed

lemma unat_align:
  assumes "unat al = 2 ^ k" "unat v + unat al \<le> 2 ^ 64"
  shows "unat (align v al) = (unat v + 2 ^ k - 1) div 2 ^ k * 2 ^ k"
proof -
  have nz: "al \<noteq> 0" using assms(1) by auto
  have "al = of_nat (unat al)" by simp
  then have al: "al - 1 = mask k" by (simp only: assms(1)) (simp add: mask_eq_exp_minus_1)
  have "unat (v + al - 1) = unat v + 2 ^ k - 1"
    using block_last [OF nz, of v] assms by simp
  then show ?thesis by (simp add: align_def al unat_and_not_mask)
qed

lemma align_least:
  assumes "unat al = 2 ^ k" "unat v + unat al \<le> 2 ^ 64"
  shows "unat v \<le> unat (align v al)" "unat al dvd unat (align v al)"
    "unat v \<le> x \<Longrightarrow> unat al dvd x \<Longrightarrow> unat (align v al) \<le> x"
proof -
  let ?n = "unat v + 2 ^ k - 1"
  have A: "unat (align v al) = ?n - ?n mod 2 ^ k"
    using unat_align [OF assms] by (simp add: minus_mod_eq_div_mult)
  have "?n mod 2 ^ k < 2 ^ k" by simp
  then show "unat v \<le> unat (align v al)" unfolding A by linarith
  show "unat al dvd unat (align v al)" by (simp add: unat_align [OF assms] assms(1))
  assume "unat v \<le> x" "unat al dvd x"
  then obtain q where "x = 2 ^ k * q" "unat v \<le> 2 ^ k * q" using assms(1) by auto
  moreover have "?n < 2 ^ k + 2 ^ k * q"
    using calculation(2) zero_less_power [of "2 :: nat" k] by linarith
  then have "?n < Suc q * 2 ^ k" by (simp add: mult.commute)
  then have "?n div 2 ^ k \<le> q"
    by (metis less_Suc_eq_le less_mult_imp_div_less)
  ultimately show "unat (align v al) \<le> x" by (simp add: unat_align [OF assms] mult.commute)
qed

definition fits :: "u64 \<Rightarrow> u64 \<Rightarrow> iset_range \<Rightarrow> bool" where
  "fits l al r = (align (r_start r) al \<le> align (r_start r) al + l - 1 \<and>
                  align (r_start r) al + l - 1 \<le> r_start r + r_length r - 1)"

lemma alloc_position_spec:
  "case alloc_position before rs l al of
     None \<Rightarrow> \<forall>r\<in>set rs. \<not> fits l al r
   | Some (b, r, a) \<Rightarrow> \<exists>c. b = before @ c \<and> rs = c @ r # a \<and> fits l al r \<and> (\<forall>x\<in>set c. \<not> fits l al x)"
proof (induction rs arbitrary: before)
  case (Cons r rs)
  show ?case
  proof (cases "fits l al r")
    case False
    then have "alloc_position before (r # rs) l al = alloc_position (before @ [r]) rs l al"
      by (auto simp: fits_def Let_def)
    moreover have "\<exists>d. before @ r # c = before @ d \<and> r # c @ r' # a = d @ r' # a \<and> fits l al r' \<and> (\<forall>x\<in>set d. \<not> fits l al x)"
      if "fits l al r'" "\<forall>x\<in>set c. \<not> fits l al x" for c r' a
      using that False by (auto intro!: exI [of _ "r # c"])
    ultimately show ?thesis using Cons.IH [of "before @ [r]"] False by (auto split: option.splits)
  qed (auto simp: fits_def Let_def)
qed simp

lemma interval_in_one:
  "iset_ok rs \<Longrightarrow> a \<le> b \<Longrightarrow> {a..b} \<subseteq> iset_set rs \<Longrightarrow> \<exists>r\<in>set rs. lo r \<le> a \<and> b \<le> hi r"
proof (induction rs)
  case (Cons r rs)
  have later: "hi r + 1 < x" if "x \<in> iset_set rs" for x
    using that Cons.prems(1) by (force simp: iset_set_def)
  show ?case
  proof (cases "a \<le> hi r")
    case True
    then have "lo r \<le> a" using Cons.prems later [of a] by fastforce
    moreover have "b \<le> hi r"
    proof (rule ccontr)
      assume "\<not> b \<le> hi r"
      then have "hi r + 1 \<in> {a..b}" using True by simp
      then have "hi r + 1 \<in> iset_set rs" using Cons.prems(3) by auto
      then show False using later [of "hi r + 1"] by simp
    qed
    ultimately show ?thesis by auto
  next
    case False
    then have "{a..b} \<subseteq> iset_set rs" using Cons.prems(3) by fastforce
    then show ?thesis using Cons.IH Cons.prems by auto
  qed
qed auto

lemma replace_range:
  assumes "iset_ok (b @ r # a)" "iset_ok mid" "iset_set mid = {lo r..hi r} - B" "B \<subseteq> {lo r..hi r}"
    "\<forall>m\<in>set mid. lo r \<le> lo m \<and> hi m \<le> hi r"
  shows "iset_ok (b @ mid @ a) \<and> iset_set (b @ mid @ a) = iset_set (b @ r # a) - B"
proof -
  have "iset_set b \<inter> {lo r..hi r} = {}" "iset_set a \<inter> {lo r..hi r} = {}"
    using assms(1) by (fastforce simp: iset_set_def)+
  then have "iset_set (b @ mid @ a) = iset_set (b @ r # a) - B" using assms(3,4) by auto
  moreover have "hi m + 1 < lo x" if "m \<in> set mid" "x \<in> set a" for m x
    using bspec [OF assms(5) that(1)] assms(1) that(2) by force
  moreover have "hi x + 1 < lo m" if "m \<in> set mid" "x \<in> set b" for m x
    using bspec [OF assms(5) that(1)] assms(1) that(2) by force
  ultimately show ?thesis using assms(1,2) by (simp add: ball_Un)
qed

text \<open>The ranges that replace the one a block is cut out of, and the address after the block.\<close>

lemma interval_minus:
  "a \<le> e \<Longrightarrow> {a..h :: nat} - {a..e} = {e + 1..h}"
  "p + 1 = a \<Longrightarrow> {l..h :: nat} - {a..h} = {l..p} \<inter> {..h}"
  "p + 1 = a \<Longrightarrow> a \<le> e \<Longrightarrow> l < a \<Longrightarrow> e < h \<Longrightarrow> {l..h :: nat} - {a..e} = {l..p} \<union> {e + 1..h}"
  by auto

lemma hi_cut:
  "hi (r\<lparr>r_start := r_start r + l, r_length := r_length r - l\<rparr>) = hi r"
  "hi (r\<lparr>r_length := s - r_start r\<rparr>) = unat (s - 1)"
  "hi \<lparr>r_start = s + l, r_length = r_start r + r_length r - s - l\<rparr> = hi r"
  by (simp_all add: hi_def algebra_simps)

lemma cut_block:
  assumes r: "lo r \<le> hi r" and s: "lo r \<le> unat s" "s \<le> s + l - 1" "unat (s + l - 1) \<le> hi r"
    and ok: "iset_ok (b @ r # a)" and l: "l \<noteq> 0"
    and mid: "mid = (if r_start r = s then
                       if r_length r = l then [] else [r\<lparr>r_start := r_start r + l, r_length := r_length r - l\<rparr>]
                     else r\<lparr>r_length := s - r_start r\<rparr> #
                       (if s + l \<noteq> r_start r + r_length r
                        then [\<lparr>r_start = s + l, r_length = r_start r + r_length r - s - l\<rparr>] else []))"
  shows "iset_ok (b @ mid @ a) \<and> iset_set (b @ mid @ a) = iset_set (b @ r # a) - block s l"
proof (rule replace_range [OF ok])
  have same: "s + l = r_start r + r_length r \<longleftrightarrow> unat (s + l - 1) = hi r"
    by (auto simp: hi_def word_unat_eq_iff [symmetric])
  have after: "unat (s + l) = unat (s + l - 1) + 1" if "unat (s + l - 1) \<noteq> hi r"
    using unat_succ [of "s + l - 1"] that s(3) unat_below [of "r_start r + r_length r - 1"] by (simp add: hi_def)
  have before: "unat (s - 1) = unat s - 1" "lo r < unat s" if "r_start r \<noteq> s"
    using that s(1) unat_minus_one [of s] by (auto simp: lo_def word_unat_eq_iff)
  have bl: "block s l = {unat s..unat (s + l - 1)}" "unat s \<le> unat (s + l - 1)"
    using l s(2) by (simp_all add: block_eq word_le_nat_alt)
  show "block s l \<subseteq> {lo r..hi r}" using bl s by auto
  consider (del) "r_start r = s" "r_length r = l" | (front) "r_start r = s" "r_length r \<noteq> l"
    | (rear) "r_start r \<noteq> s" "s + l = r_start r + r_length r" | (split) "r_start r \<noteq> s" "s + l \<noteq> r_start r + r_length r"
    by blast
  then have "iset_ok mid \<and> iset_set mid = {lo r..hi r} - block s l \<and> (\<forall>m\<in>set mid. lo r \<le> lo m \<and> hi m \<le> hi r)"
  proof cases
    case del
    then show ?thesis using bl by (auto simp: mid lo_def hi_def)
  next
    case front
    then have E: "unat (s + l) = unat (s + l - 1) + 1" "unat (s + l - 1) < hi r"
      using same after s(3) by auto
    define r' where "r' = r\<lparr>r_start := r_start r + l, r_length := r_length r - l\<rparr>"
    have "lo r' = unat (s + l - 1) + 1" "lo r = unat s" "hi r' = hi r"
      using front(1) E hi_cut(1) [where r = r and l = l] by (simp_all add: r'_def lo_def)
    moreover have "mid = [r']" using front by (simp add: mid r'_def)
    ultimately show ?thesis using bl E interval_minus(1) [OF bl(2), of "hi r"] by simp
  next
    case rear
    define p where "p = r\<lparr>r_length := s - r_start r\<rparr>"
    have "lo p = lo r" "hi p + 1 = unat s" "lo r < unat s" "unat (s + l - 1) = hi r"
      using hi_cut(2) [where r = r and s = s] before [OF rear(1)] rear(2) by (simp_all add: p_def hi_def)
    moreover have "mid = [p]" using rear by (simp add: mid p_def)
    ultimately show ?thesis using bl interval_minus(2) [of "hi p" "unat s" "lo r" "hi r"] by (simp add: min_def)
  next
    case split
    then have E: "unat (s + l) = unat (s + l - 1) + 1" "unat (s + l - 1) < hi r"
      using same after s(3) by auto
    define p n where "p = r\<lparr>r_length := s - r_start r\<rparr>"
      and "n = \<lparr>r_start = s + l, r_length = r_start r + r_length r - s - l\<rparr>"
    have "lo p = lo r" "hi p + 1 = unat s" "lo n = unat (s + l - 1) + 1" "hi n = hi r" "lo r < unat s"
      using hi_cut(2) [where r = r and s = s] hi_cut(3) [where r = r and s = s and l = l] before [OF split(1)] E by (simp_all add: p_def n_def)
    moreover have "mid = [p, n]" using split by (simp add: mid p_def n_def)
    ultimately show ?thesis using bl E interval_minus(3) [of "hi p" "unat s" "unat (s + l - 1)" "lo r" "hi r"] by simp
  qed
  then show "iset_ok mid" "iset_set mid = {lo r..hi r} - block s l" "\<forall>m\<in>set mid. lo r \<le> lo m \<and> hi m \<le> hi r"
    by auto
qed

lemma fits_iff:
  assumes r: "lo r \<le> hi r" and l: "l \<noteq> 0" and al: "unat al = 2 ^ k" "lo r + unat al \<le> 2 ^ 64"
  shows "fits l al r \<longleftrightarrow> (\<exists>s. unat al dvd unat s \<and> unat s + unat l \<le> 2 ^ 64 \<and> block s l \<subseteq> {lo r..hi r})"
    "unat al dvd unat s \<Longrightarrow> unat s + unat l \<le> 2 ^ 64 \<Longrightarrow> block s l \<subseteq> {lo r..hi r} \<Longrightarrow>
     unat (align (r_start r) al) \<le> unat s"
proof -
  let ?A = "align (r_start r) al"
  have al': "unat (r_start r) + unat al \<le> 2 ^ 64" using al(2) by (simp add: lo_def)
  note A = align_least [OF al(1) al', folded lo_def]
  have pos: "0 < unat l" using l by (simp add: unat_gt_0)
  have in_r: "lo r \<le> unat s \<and> unat s + unat l \<le> hi r + 1" if "block s l \<subseteq> {lo r..hi r}" for s
  proof -
    have "unat s \<in> block s l" "unat s + unat l - 1 \<in> block s l" using pos by (auto simp: block_def)
    then show ?thesis using that pos by fastforce
  qed
  show least: "unat ?A \<le> unat s" if "unat al dvd unat s" "block s l \<subseteq> {lo r..hi r}" for s
    using A(3) that in_r by blast
  show "fits l al r \<longleftrightarrow> (\<exists>s. unat al dvd unat s \<and> unat s + unat l \<le> 2 ^ 64 \<and> block s l \<subseteq> {lo r..hi r})"
  proof
    assume "fits l al r"
    then have "?A \<le> ?A + l - 1" "unat (?A + l - 1) \<le> hi r"
      by (auto simp: fits_def hi_def word_le_nat_alt)
    then show "\<exists>s. unat al dvd unat s \<and> unat s + unat l \<le> 2 ^ 64 \<and> block s l \<subseteq> {lo r..hi r}"
      using A(1,2) block_last(1) [OF l, of ?A] by (intro exI [of _ ?A]) (auto simp: block_eq [OF l])
  next
    assume "\<exists>s. unat al dvd unat s \<and> unat s + unat l \<le> 2 ^ 64 \<and> block s l \<subseteq> {lo r..hi r}"
    then obtain s where "unat al dvd unat s" "block s l \<subseteq> {lo r..hi r}" by blast
    then have "unat ?A + unat l \<le> hi r + 1" using least [of s] in_r [of s] by linarith
    moreover from this have "?A \<le> ?A + l - 1"
      using block_last(1) [OF l, of ?A] unat_below [of "r_start r + r_length r - 1"] by (simp add: hi_def)
    ultimately show "fits l al r"
      using block_last(2) [OF l, of ?A] by (simp add: fits_def hi_def word_le_nat_alt)
  qed
qed

text \<open>The free blocks an allocation can choose from.\<close>

definition candidate :: "iset \<Rightarrow> u64 \<Rightarrow> u64 \<Rightarrow> u64 \<Rightarrow> bool" where
  "candidate rs l al s \<longleftrightarrow> unat al dvd unat s \<and> unat s + unat l \<le> 2 ^ 64 \<and> block s l \<subseteq> iset_set rs"

lemma candidate_in_range:
  assumes "iset_ok rs" "l \<noteq> 0" "candidate rs l al s"
  shows "\<exists>r\<in>set rs. block s l \<subseteq> {lo r..hi r}"
proof -
  have "block s l = {unat s..unat s + unat l - 1}" "unat s \<le> unat s + unat l - 1"
    using unat_gt_0 [of l] assms(2) by (auto simp: block_def)
  then show ?thesis
    using interval_in_one [OF assms(1), of "unat s" "unat s + unat l - 1"] assms(3) by (auto simp: candidate_def)
qed

lemma candidate_fits:
  assumes "iset_ok rs" "l \<noteq> 0" "unat al = 2 ^ k" "\<forall>r\<in>set rs. lo r + unat al \<le> 2 ^ 64" "candidate rs l al s"
  shows "\<exists>r\<in>set rs. block s l \<subseteq> {lo r..hi r} \<and> fits l al r"
proof -
  obtain r where r: "r \<in> set rs" "block s l \<subseteq> {lo r..hi r}" using candidate_in_range assms(1,2,5) by blast
  then have "fits l al r"
    using fits_iff(1) [OF iset_ok_range [OF assms(1) r(1)] assms(2,3)] assms(4,5) by (auto simp: candidate_def)
  then show ?thesis using r by blast
qed

lemma alloc_position_cases:
  assumes "iset_ok rs" "l \<noteq> 0" "unat al = 2 ^ k" "\<forall>r\<in>set rs. lo r + unat al \<le> 2 ^ 64"
  shows "case alloc_position [] rs l al of
           None \<Rightarrow> \<forall>s. \<not> candidate rs l al s
         | Some (b, r, a) \<Rightarrow> rs = b @ r # a \<and> lo r \<le> unat (align (r_start r) al) \<and>
             align (r_start r) al \<le> align (r_start r) al + l - 1 \<and>
             unat (align (r_start r) al + l - 1) \<le> hi r \<and>
             candidate rs l al (align (r_start r) al) \<and>
             (\<forall>s. candidate rs l al s \<longrightarrow> unat (align (r_start r) al) \<le> unat s)"
proof (cases "alloc_position [] rs l al")
  case None
  then show ?thesis
    using alloc_position_spec [where before = "[]" and rs = rs and l = l and al = al] candidate_fits [OF assms]
    by fastforce
next
  case (Some bra)
  obtain b r a where bra: "bra = (b, r, a)" by (cases bra)
  let ?A = "align (r_start r) al"
  have rs: "rs = b @ r # a" and fit: "fits l al r" and first: "\<forall>x\<in>set b. \<not> fits l al x"
    using alloc_position_spec [where before = "[]" and rs = rs and l = l and al = al] Some by (auto simp: bra)
  have r: "lo r \<le> hi r" "lo r + unat al \<le> 2 ^ 64" using assms(1,4) rs by auto
  have lo: "lo r \<le> unat ?A" "unat al dvd unat ?A" using align_least [OF assms(3)] r(2) by (auto simp: lo_def)
  have hi: "?A \<le> ?A + l - 1" "unat (?A + l - 1) \<le> hi r" using fit by (auto simp: fits_def hi_def word_le_nat_alt)
  have cand: "candidate rs l al ?A"
    using lo hi block_last(1) [OF assms(2), of ?A] by (auto simp: candidate_def block_eq [OF assms(2)] rs)
  have "unat ?A \<le> unat s" if s: "candidate rs l al s" for s
  proof -
    obtain x where x: "x \<in> set rs" "block s l \<subseteq> {lo x..hi x}" and "fits l al x"
      using candidate_fits [OF assms s] by auto
    then consider "x = r" | "x \<in> set a" using x(1) first rs by auto
    then show ?thesis
    proof cases
      case 1
      then show ?thesis using fits_iff(2) [OF r(1) assms(2,3) r(2)] s x(2) by (auto simp: candidate_def)
    next
      case 2
      have "unat s \<in> block s l" using assms(2) unat_gt_0 [of l] by (auto simp: block_def)
      then show ?thesis using 2 x(2) assms(1) rs hi by (fastforce simp: word_le_nat_alt)
    qed
  qed
  then show ?thesis using Some rs lo hi cand by (simp add: bra)
qed

subsection \<open>Properties\<close>

text \<open>C12. Inserting a range is union on the addresses: \<^verbatim>\<open>iset_insert_range\<close> keeps the ranges ordered, non-empty and
  apart; it answers EINVAL exactly for an empty block, a block that passes the end of the 64-bit space
  and a block that meets the set; on success the set gained exactly the block, and on every error the
  list is untouched. The only other error is ENOMEM, when the allocation of a new range fails.
\<close>

theorem iset_insert_range_refines:
  assumes "iset_ok rs" "iset_insert_range calloc_ok rs s l = (ret, rs')"
  shows "iset_ok rs' \<and>
         (ret = EINVAL \<longleftrightarrow> l = 0 \<or> unat s + unat l > 2 ^ 64 \<or> block s l \<inter> iset_set rs \<noteq> {}) \<and>
         (ret = 0 \<longrightarrow> iset_set rs' = iset_set rs \<union> block s l) \<and> (ret \<noteq> 0 \<longrightarrow> rs' = rs) \<and>
         (ret \<noteq> 0 \<longrightarrow> ret \<noteq> EINVAL \<longrightarrow> ret = ENOMEM \<and> \<not> calloc_ok)"
proof (cases "l = 0 \<or> s + l - 1 < s")
  case True
  then have "l = 0 \<or> unat s + unat l > 2 ^ 64" using block_last(1) [of l s] by (auto simp flip: not_less)
  then show ?thesis using True assms by (auto simp: iset_insert_range_def)
next
  case False
  then have "l \<noteq> 0" "s \<le> s + l - 1" "unat s + unat l \<le> 2 ^ 64"
    using block_last(1) [of l s] by (auto simp: not_less)
  then show ?thesis using iset_insert_range_spec [OF assms(1) _ _ assms(2)] assms(1) by (auto split: if_splits)
qed
definition demo_iset :: iset where
  "demo_iset = [\<lparr>r_start = 0x1000, r_length = 0x1000\<rparr>, \<lparr>r_start = 0x3000, r_length = 0x800\<rparr>]"

lemma demo_iset_ok: "iset_ok demo_iset"
  by (simp add: demo_iset_def)

theorem iset_insert_range_refines_witness:
  "iset_insert_range False demo_iset 0x2000 0x1000 = (0, [\<lparr>r_start = 0x1000, r_length = 0x2800\<rparr>]) \<and>
   iset_set [\<lparr>r_start = 0x1000, r_length = 0x2800\<rparr>] = iset_set demo_iset \<union> block 0x2000 0x1000"
proof -
  have r: "iset_insert_range False demo_iset 0x2000 0x1000 = (0, [\<lparr>r_start = 0x1000, r_length = 0x2800\<rparr>])"
    by code_simp
  show ?thesis using iset_insert_range_refines [OF demo_iset_ok r] r by simp
qed

lemma iset_alloc_range_cases:
  assumes "iset_ok rs" "l \<noteq> 0" "power_of_two al" "\<forall>r\<in>set rs. lo r + unat al \<le> 2 ^ 64"
  obtains (full) "iset_alloc_range calloc_ok rs l al = (ENOSPC, None, rs)" "\<forall>s. \<not> candidate rs l al s"
  | (nomem) s where "iset_alloc_range calloc_ok rs l al = (ENOMEM, None, rs)" "candidate rs l al s" "\<not> calloc_ok"
  | (finished) s rs' where "iset_alloc_range calloc_ok rs l al = (0, Some s, rs')" "candidate rs l al s"
      "\<forall>s'. candidate rs l al s' \<longrightarrow> s \<le> s'" "iset_ok rs'" "iset_set rs' = iset_set rs - block s l"
proof -
  obtain k where k: "unat al = 2 ^ k" using assms(3) power_of_two_iff by auto
  note pos = alloc_position_cases [OF assms(1,2) k assms(4)]
  show thesis
  proof (cases "alloc_position [] rs l al")
    case None
    then show thesis using pos assms(3) by (intro full) (auto simp: iset_alloc_range_def)
  next
    case (Some bra)
    obtain b r a where bra: "bra = (b, r, a)" by (cases bra)
    let ?s = "align (r_start r) al"
    define mid where "mid = (if r_start r = ?s then
                       if r_length r = l then [] else [r\<lparr>r_start := r_start r + l, r_length := r_length r - l\<rparr>]
                     else r\<lparr>r_length := ?s - r_start r\<rparr> #
                       (if ?s + l \<noteq> r_start r + r_length r
                        then [\<lparr>r_start = ?s + l, r_length = r_start r + r_length r - ?s - l\<rparr>] else []))"
    have f: "rs = b @ r # a" "lo r \<le> unat ?s" "?s \<le> ?s + l - 1" "unat (?s + l - 1) \<le> hi r" "candidate rs l al ?s"
      "\<forall>s. candidate rs l al s \<longrightarrow> ?s \<le> s"
      using pos by (auto simp: Some bra word_le_nat_alt)
    have "iset_ok (b @ mid @ a) \<and> iset_set (b @ mid @ a) = iset_set (b @ r # a) - block ?s l"
      using cut_block [of r ?s l b a mid] assms(1,2) f mid_def by auto
    moreover have "iset_alloc_range calloc_ok rs l al = (0, Some ?s, b @ mid @ a) \<or>
                   iset_alloc_range calloc_ok rs l al = (ENOMEM, None, rs) \<and> \<not> calloc_ok"
      by (auto simp: iset_alloc_range_def assms(3) Some bra mid_def Let_def create_range_def)
    ultimately show thesis using f nomem [of ?s] finished [of ?s "b @ mid @ a"] by auto
  qed
qed

text \<open>C11. Allocating is difference on the addresses: for a nonzero length and a power-of-two alignment, and as long as
  no range starts so high that rounding its start up to the alignment leaves the 64-bit space, \<^verbatim>\<open>iset_alloc_range\<close>
  answers ENOSPC exactly when the set holds no aligned block of the length asked for. Otherwise it hands out the
  lowest such block and removes exactly its addresses, or answers ENOMEM where the node of a split range cannot be
  allocated. It keeps the ranges ordered, non-empty and apart, and an error leaves the list untouched.
\<close>

theorem iset_alloc_range_refines:
  assumes "iset_ok rs" "l \<noteq> 0" "power_of_two al" "\<forall>r\<in>set rs. lo r + unat al \<le> 2 ^ 64"
    and "iset_alloc_range calloc_ok rs l al = (ret, start, rs')"
  shows "iset_ok rs' \<and> (ret = ENOSPC \<longleftrightarrow> (\<forall>s. \<not> candidate rs l al s)) \<and>
         (case start of
            None \<Rightarrow> rs' = rs \<and> (ret = ENOSPC \<or> ret = ENOMEM \<and> \<not> calloc_ok)
          | Some s \<Rightarrow> ret = 0 \<and> candidate rs l al s \<and> (\<forall>s'. candidate rs l al s' \<longrightarrow> s \<le> s') \<and>
                      iset_set rs' = iset_set rs - block s l)"
  by (rule iset_alloc_range_cases [OF assms(1-4), of calloc_ok]) (use assms(1,5) in auto)

theorem iset_alloc_range_refines_witness:
  "iset_alloc_range True demo_iset 0x400 0x200 =
     (0, Some 0x1000, [\<lparr>r_start = 0x1400, r_length = 0xC00\<rparr>, \<lparr>r_start = 0x3000, r_length = 0x800\<rparr>]) \<and>
   candidate demo_iset 0x400 0x200 0x1000"
proof -
  have r: "iset_alloc_range True demo_iset 0x400 0x200 =
     (0, Some 0x1000, [\<lparr>r_start = 0x1400, r_length = 0xC00\<rparr>, \<lparr>r_start = 0x3000, r_length = 0x800\<rparr>])"
    by code_simp
  have "power_of_two 0x200" "\<forall>r\<in>set demo_iset. lo r + unat (0x200 :: u64) \<le> 2 ^ 64"
    by (code_simp, simp add: demo_iset_def)
  then show ?thesis using iset_alloc_range_refines [OF demo_iset_ok _ _ _ r] r by simp
qed

lemma one_range_each:
  "iset_ok rs \<Longrightarrow> a \<in> set rs \<Longrightarrow> b \<in> set rs \<Longrightarrow> n \<in> {lo a..hi a} \<Longrightarrow> n \<in> {lo b..hi b} \<Longrightarrow> a = b"
  by (induction rs) (auto dest: bspec)

lemma range_determined: "lo a = lo b \<Longrightarrow> hi a = hi b \<Longrightarrow> a = (b :: iset_range)"
  by (cases a; cases b) (simp add: lo_def hi_def word_unat_eq_iff [symmetric])

lemma ranges_subset:
  assumes "iset_ok rs" "iset_ok rs'" "iset_set rs = iset_set rs'"
  shows "set rs \<subseteq> set rs'"
proof
  fix r assume r: "r \<in> set rs"
  have le: "lo r \<le> hi r" using iset_ok_range [OF assms(1) r] .
  have "{lo r..hi r} \<subseteq> iset_set rs'" using r assms(3) by (auto simp: iset_set_def)
  then obtain r' where r': "r' \<in> set rs'" "lo r' \<le> lo r" "hi r \<le> hi r'"
    using interval_in_one [OF assms(2) le] by auto
  have "{lo r'..hi r'} \<subseteq> iset_set rs" using r' assms(3) by (auto simp: iset_set_def)
  then obtain q where q: "q \<in> set rs" "lo q \<le> lo r'" "hi r' \<le> hi q"
    using interval_in_one [OF assms(1) iset_ok_range [OF assms(2) r'(1)]] by auto
  then have "q = r" using one_range_each [OF assms(1) q(1) r, of "lo r"] r' le by auto
  then show "r \<in> set rs'" using q r' range_determined [of r r'] by auto
qed

text \<open>The list is a canonical form of its set.\<close>

lemma iset_canonical:
  assumes "iset_ok rs" "iset_ok rs'" "iset_set rs = iset_set rs'"
  shows "rs = rs'"
proof -
  have same: "set rs = set rs'" using ranges_subset assms by blast
  have "sorted (map lo x) \<and> distinct (map lo x)" if "iset_ok x" for x
    using that by (induction x) (fastforce simp: iset_ok_range)+
  then have "map lo rs = map lo rs'"
    using assms same by (intro sorted_distinct_set_unique) auto
  moreover have "inj_on lo (set rs)"
    using one_range_each [OF assms(1)] iset_ok_range [OF assms(1)] by (fastforce simp: inj_on_def)
  ultimately show ?thesis by (auto intro: map_inj_on simp: same)
qed

text \<open>
  Freeing what was allocated restores the set to the letter: inserting the block an allocation returned
  gives back the very list of ranges the allocation started from, all splits and cut ranges joined again.
\<close>

theorem iset_alloc_then_insert:
  assumes "iset_ok rs" "l \<noteq> 0" "power_of_two al" "\<forall>r\<in>set rs. lo r + unat al \<le> 2 ^ 64"
    and "iset_alloc_range calloc_ok rs l al = (ret, Some s, rs')"
  shows "iset_insert_range True rs' s l = (0, rs)"
proof (rule iset_alloc_range_cases [OF assms(1-4), of calloc_ok])
  fix s1 rs1
  assume *: "iset_alloc_range calloc_ok rs l al = (0, Some s1, rs1)" "candidate rs l al s1" "iset_ok rs1"
    "iset_set rs1 = iset_set rs - block s1 l"
  then have eq: "s1 = s" "rs1 = rs'" using assms(5) by simp_all
  have l: "s \<le> s + l - 1" using * block_last(1) [OF assms(2)] by (simp add: candidate_def eq)
  obtain ret2 rs2 where r2: "iset_insert_range True rs' s l = (ret2, rs2)" by fastforce
  then have "ret2 = 0" "iset_ok rs2" "iset_set rs2 = iset_set rs"
    using iset_insert_range_spec [OF _ assms(2) l r2] * by (auto simp: eq candidate_def)
  then show ?thesis using iset_canonical [OF _ assms(1)] r2 by simp
qed (use assms(5) in simp_all)

lemma mod_once: "m \<le> n \<Longrightarrow> n < 2 * m \<Longrightarrow> n mod m = n - (m :: nat)"
  by (simp add: le_mod_geq)

lemma unat_align_wraps:
  assumes "unat al = 2 ^ k" "2 ^ 64 < unat v + unat al"
  shows "align v al = 0"
proof -
  have nz: "al \<noteq> 0" using assms(1) by auto
  have "al = of_nat (unat al)" by simp
  then have al: "al - 1 = mask k" by (simp only: assms(1)) (simp add: mask_eq_exp_minus_1)
  have u: "unat (al - 1) = 2 ^ k - 1" using assms(1) nz by (simp add: unat_minus_one)
  have "unat (v + (al - 1)) = (unat v + unat (al - 1)) mod 2 ^ 64" by (simp add: unat_word_ariths)
  also have "\<dots> = unat v + unat (al - 1) - 2 ^ 64"
    using assms unat_below [of v] unat_below [of "al - 1"] u zero_less_power [of "2 :: nat" k]
    by (intro mod_once) linarith+
  finally have "unat (v + al - 1) < 2 ^ k"
    using assms u unat_below [of v] by (simp add: add_diff_eq)
  then have "unat (align v al) = 0" by (simp add: align_def al unat_and_not_mask)
  then show ?thesis by (simp add: unat_eq_0)
qed

text \<open>
  The wrap-around check of \<^verbatim>\<open>iset_alloc_range\<close> misses the rounding: when a range starts less than one alignment
  below the end of the 64-bit space, its aligned start wraps to 0, passes the check, and the call succeeds with
  address 0, which the set does not contain. From then on the set claims every address above the block.
\<close>

theorem iset_alloc_range_wraps:
  assumes "lo r \<le> hi r" "l \<noteq> 0" "power_of_two al" "2 ^ 64 < lo r + unat al" "unat l \<le> lo r"
  shows "\<exists>rs'. iset_alloc_range True [r] l al = (0, Some 0, rs') \<and> iset_set rs' = {unat l..<2 ^ 64}"
proof -
  obtain k where k: "unat al = 2 ^ k" using assms(3) power_of_two_iff by auto
  have z: "align (r_start r) al = 0"
    using unat_align_wraps [OF k] assms(4) by (simp add: lo_def)
  have pos: "0 < unat l" "unat (l - 1) = unat l - 1" using assms(2) unat_minus_one [of l] by (simp_all add: unat_gt_0)
  then have "r_start r \<noteq> 0" using assms(5) by (auto simp: lo_def)
  have "l - 1 \<le> r_start r + r_length r - 1"
    using assms(1,5) pos by (simp add: word_le_nat_alt lo_def hi_def)
  moreover have "l \<noteq> r_start r + r_length r"
    using assms(1,5) pos by (auto simp: hi_def)
  ultimately have "iset_alloc_range True [r] l al =
      (0, Some 0, [r\<lparr>r_length := 0 - r_start r\<rparr>, \<lparr>r_start = 0 + l, r_length = r_start r + r_length r - 0 - l\<rparr>])"
    using assms(3) z \<open>r_start r \<noteq> 0\<close> by (simp add: iset_alloc_range_def Let_def create_range_def)
  moreover have "hi (r\<lparr>r_length := 0 - r_start r\<rparr>) = 2 ^ 64 - 1"
    using hi_cut(2) [where r = r and s = 0] by (simp add: unsigned_minus_1_eq_mask mask_eq_exp_minus_1)
  moreover have "hi \<lparr>r_start = 0 + l, r_length = r_start r + r_length r - 0 - l\<rparr> = hi r"
    by (rule hi_cut(3))
  moreover have "{lo r..2 ^ 64 - 1} \<union> {unat l..hi r} = {unat l..<2 ^ 64}"
    using assms(1,5) unat_below [of "r_start r + r_length r - 1"] by (auto simp: hi_def)
  ultimately show ?thesis by simp
qed

end
