(* ===== verification/Bitmap.thy ===== *)
theory Bitmap
  imports Prelude
begin

text \<open>
  The bitmaps of \<^verbatim>\<open>util/bitmap.h\<close> and \<^verbatim>\<open>util/bitmap.c\<close>: arrays of 64-bit words in which single bits and
  regions are set, cleared and searched a word at a time. An operation is \<open>None\<close> when it would index past
  the array or when an assertion fails. Bit numbers are natural numbers: those of an array in memory are
  far below the width of \<^verbatim>\<open>unsigned long\<close>.
\<close>

subsection \<open>Definitions\<close>

type_synonym bmp = "u64 list"

abbreviation BITS_PER_LONG :: nat where "BITS_PER_LONG \<equiv> 64"

definition BITS_TO_LONGS :: "nat \<Rightarrow> nat" where
  "BITS_TO_LONGS nr = (nr + BITS_PER_LONG - 1) div BITS_PER_LONG"

definition bmp_get :: "bmp \<Rightarrow> nat \<Rightarrow> u64 option" where
  "bmp_get bmp i = (if i < length bmp then Some (bmp ! i) else None)"

definition bmp_put :: "bmp \<Rightarrow> nat \<Rightarrow> u64 \<Rightarrow> bmp option" where
  "bmp_put bmp i w = (if i < length bmp then Some (bmp[i := w]) else None)"

definition ffsl :: "u64 \<Rightarrow> nat" where
  "ffsl w = (case find (bit w) [0..<64] of None \<Rightarrow> 0 | Some i \<Rightarrow> i + 1)"

definition BMP_FIRST_WORD_MASK :: "nat \<Rightarrow> u64" where
  "BMP_FIRST_WORD_MASK start = push_bit (start mod BITS_PER_LONG) (NOT 0)"

definition BMP_LAST_WORD_MASK :: "nat \<Rightarrow> u64" where
  "BMP_LAST_WORD_MASK end' = (if end' mod BITS_PER_LONG = 0 then NOT 0 else NOT (BMP_FIRST_WORD_MASK end'))"

text \<open>The header's operations.\<close>

definition bitmap_fill :: "bmp \<Rightarrow> nat \<Rightarrow> bmp option" where
  "bitmap_fill bmp nbits = (let n = BITS_TO_LONGS nbits in
     if n \<le> length bmp then Some (replicate n (NOT 0) @ drop n bmp) else None)"

definition bitmap_zero :: "bmp \<Rightarrow> nat \<Rightarrow> bmp option" where
  "bitmap_zero bmp nbits = (let n = BITS_TO_LONGS nbits in
     if n \<le> length bmp then Some (replicate n 0 @ drop n bmp) else None)"

function empty_loop :: "bmp \<Rightarrow> nat \<Rightarrow> nat \<Rightarrow> bool option" where
  "empty_loop bmp i n = (if i < n then do {
       w \<leftarrow> bmp_get bmp i;
       if w \<noteq> 0 then Some False else empty_loop bmp (i + 1) n }
     else Some True)"
  by pat_completeness auto

termination
  by (relation "measure (\<lambda>(bmp, i, n). n - i)") auto

definition bitmap_empty :: "bmp \<Rightarrow> nat \<Rightarrow> bool option" where
  "bitmap_empty bmp nbits = (if nbits = 0 then None else do {
     zero \<leftarrow> empty_loop bmp 0 (BITS_TO_LONGS nbits - 1);
     if \<not> zero then Some False else do {
       w \<leftarrow> bmp_get bmp (BITS_TO_LONGS nbits - 1);
       let msk = (if nbits mod BITS_PER_LONG \<noteq> 0 then push_bit (nbits mod BITS_PER_LONG) 1 - 1 else NOT 0);
       Some (w AND msk = 0) } })"

function full_loop :: "bmp \<Rightarrow> nat \<Rightarrow> nat \<Rightarrow> bool option" where
  "full_loop bmp i n = (if i < n then do {
       w \<leftarrow> bmp_get bmp i;
       if w \<noteq> -1 then Some False else full_loop bmp (i + 1) n }
     else Some True)"
  by pat_completeness auto

termination
  by (relation "measure (\<lambda>(bmp, i, n). n - i)") auto

definition bitmap_full :: "bmp \<Rightarrow> nat \<Rightarrow> bool option" where
  "bitmap_full bmp nbits = (if nbits = 0 then None else do {
     ones \<leftarrow> full_loop bmp 0 (BITS_TO_LONGS nbits - 1);
     if \<not> ones then Some False else do {
       w \<leftarrow> bmp_get bmp (BITS_TO_LONGS nbits - 1);
       let msk = (if nbits mod BITS_PER_LONG \<noteq> 0 then push_bit (nbits mod BITS_PER_LONG) 1 - 1 else NOT 0);
       Some ((w AND msk) XOR msk = 0) } })"

definition bitmap_set_bit :: "bmp \<Rightarrow> nat \<Rightarrow> bmp option" where
  "bitmap_set_bit bmp idx = do {
     w \<leftarrow> bmp_get bmp (idx div BITS_PER_LONG);
     bmp_put bmp (idx div BITS_PER_LONG) (w OR push_bit (idx mod BITS_PER_LONG) 1) }"

definition bitmap_clear_bit :: "bmp \<Rightarrow> nat \<Rightarrow> bmp option" where
  "bitmap_clear_bit bmp idx = do {
     w \<leftarrow> bmp_get bmp (idx div BITS_PER_LONG);
     bmp_put bmp (idx div BITS_PER_LONG) (w AND NOT (push_bit (idx mod BITS_PER_LONG) 1)) }"

definition bitmap_test_bit :: "bmp \<Rightarrow> nat \<Rightarrow> bool option" where
  "bitmap_test_bit bmp idx = do {
     w \<leftarrow> bmp_get bmp (idx div BITS_PER_LONG);
     Some (w AND push_bit (idx mod BITS_PER_LONG) 1 \<noteq> 0) }"

text \<open>Whether the allocation succeeds is a parameter; the inner option is the returned pointer.\<close>

definition bitmap_alloc0 :: "bool \<Rightarrow> nat \<Rightarrow> bmp option" where
  "bitmap_alloc0 calloc_ok size' = (if calloc_ok then Some (replicate (BITS_TO_LONGS size') 0) else None)"

definition bitmap_alloc1 :: "bool \<Rightarrow> nat \<Rightarrow> bmp option option" where
  "bitmap_alloc1 calloc_ok size' = (case bitmap_alloc0 calloc_ok size' of
     None \<Rightarrow> Some None
   | Some bmp \<Rightarrow> map_option Some (bitmap_fill bmp size'))"

text \<open>The search for a set bit. The loop ends since each round moves \<open>start\<close> to the next word.\<close>

function find_loop :: "bmp \<Rightarrow> nat \<Rightarrow> nat \<Rightarrow> nat \<Rightarrow> nat \<Rightarrow> nat option" where
  "find_loop bmp curr_idx curr_offset start end' =
     (if start < end' then do {
        w \<leftarrow> bmp_get bmp curr_idx;
        let b = ffsl (drop_bit curr_offset w);
        if b \<noteq> 0 then Some (min end' (start + b - 1))
        else find_loop bmp (curr_idx + 1) 0 (start + (BITS_PER_LONG - curr_offset)) end' }
      else Some end')"
  by pat_completeness auto

termination
  by (relation "measures [\<lambda>(bmp, i, off, s, e). e - s, \<lambda>(bmp, i, off, s, e). off]") auto

declare find_loop.simps [simp del] empty_loop.simps [simp del] full_loop.simps [simp del]

definition bitmap_find_first_bit :: "bmp \<Rightarrow> nat \<Rightarrow> nat \<Rightarrow> nat option" where
  "bitmap_find_first_bit bmp start end' =
     (if start \<le> end' then find_loop bmp (start div BITS_PER_LONG) (start mod BITS_PER_LONG) start end' else None)"

function store_loop :: "u64 \<Rightarrow> bmp \<Rightarrow> nat \<Rightarrow> nat \<Rightarrow> bmp option" where
  "store_loop w bmp curr_idx last_idx =
     (if curr_idx < last_idx then do { bmp \<leftarrow> bmp_put bmp curr_idx w; store_loop w bmp (curr_idx + 1) last_idx }
      else Some bmp)"
  by pat_completeness auto

termination
  by (relation "measure (\<lambda>(w, bmp, i, n). n - i)") auto

declare store_loop.simps [simp del]

definition bitmap_zero_region :: "bmp \<Rightarrow> nat \<Rightarrow> nat \<Rightarrow> bmp option" where
  "bitmap_zero_region bmp start end' =
     (if \<not> start \<le> end' then None else if start \<ge> end' then Some bmp
      else let curr_idx = start div BITS_PER_LONG; last_idx = (end' - 1) div BITS_PER_LONG;
               start_mask = BMP_FIRST_WORD_MASK start; last_mask = BMP_LAST_WORD_MASK end' in
      if curr_idx = last_idx then do {
        w \<leftarrow> bmp_get bmp curr_idx;
        bmp_put bmp curr_idx (w AND NOT (start_mask AND last_mask)) }
      else do {
        w \<leftarrow> bmp_get bmp curr_idx;
        bmp \<leftarrow> bmp_put bmp curr_idx (w AND NOT start_mask);
        bmp \<leftarrow> store_loop 0 bmp (curr_idx + 1) last_idx;
        w \<leftarrow> bmp_get bmp last_idx;
        bmp_put bmp last_idx (w AND NOT last_mask) })"

definition bitmap_fill_region :: "bmp \<Rightarrow> nat \<Rightarrow> nat \<Rightarrow> bmp option" where
  "bitmap_fill_region bmp start end' =
     (if \<not> start \<le> end' then None else if start \<ge> end' then Some bmp
      else let curr_idx = start div BITS_PER_LONG; last_idx = (end' - 1) div BITS_PER_LONG;
               start_mask = BMP_FIRST_WORD_MASK start; last_mask = BMP_LAST_WORD_MASK end' in
      if curr_idx = last_idx then do {
        w \<leftarrow> bmp_get bmp curr_idx;
        bmp_put bmp curr_idx (w OR (start_mask AND last_mask)) }
      else do {
        w \<leftarrow> bmp_get bmp curr_idx;
        bmp \<leftarrow> bmp_put bmp curr_idx (w OR start_mask);
        bmp \<leftarrow> store_loop (NOT 0) bmp (curr_idx + 1) last_idx;
        w \<leftarrow> bmp_get bmp last_idx;
        bmp_put bmp last_idx (w OR last_mask) })"

definition bitmap_is_free_region :: "bmp \<Rightarrow> nat \<Rightarrow> nat \<Rightarrow> bool option" where
  "bitmap_is_free_region bmp start region_size =
     (let curr_idx = start div BITS_PER_LONG; start_mask = BMP_FIRST_WORD_MASK start;
          last_idx = (start + region_size - 1) div BITS_PER_LONG;
          last_mask = BMP_LAST_WORD_MASK (start + region_size) in
      if curr_idx = last_idx then do {
        w \<leftarrow> bmp_get bmp curr_idx;
        Some (w AND start_mask AND last_mask = 0) }
      else do {
        w \<leftarrow> bmp_get bmp curr_idx;
        if w AND start_mask \<noteq> 0 then Some False else do {
          zero \<leftarrow> empty_loop bmp (curr_idx + 1) last_idx;
          if \<not> zero then Some False else do {
            w \<leftarrow> bmp_get bmp last_idx;
            Some (w AND last_mask = 0) } } })"

function free_region_loop :: "bmp \<Rightarrow> nat \<Rightarrow> nat \<Rightarrow> nat \<Rightarrow> nat option" where
  "free_region_loop bmp nbits region_size start =
     (if start + region_size \<le> nbits then do {
        taken \<leftarrow> bitmap_test_bit bmp start;
        if taken then free_region_loop bmp nbits region_size (start + 1) else do {
          free \<leftarrow> bitmap_is_free_region bmp start region_size;
          if free then Some start else free_region_loop bmp nbits region_size (start + 1) } }
      else Some nbits)"
  by pat_completeness auto

termination
  by (relation "measure (\<lambda>(bmp, n, r, s). n + 1 - s)") auto

declare free_region_loop.simps [simp del]

definition bitmap_find_free_region :: "bmp \<Rightarrow> nat \<Rightarrow> nat \<Rightarrow> nat option" where
  "bitmap_find_free_region bmp nbits region_size =
     (if region_size = 0 then Some 0 else free_region_loop bmp nbits region_size 0)"

subsection \<open>Bits\<close>

definition bit_at :: "bmp \<Rightarrow> nat \<Rightarrow> bool" where
  "bit_at bmp i = bit (bmp ! (i div 64)) (i mod 64)"

lemma bit_first_mask: "bit (BMP_FIRST_WORD_MASK s) n \<longleftrightarrow> s mod 64 \<le> n \<and> n < 64"
  by (auto simp: BMP_FIRST_WORD_MASK_def bit_simps)

lemma bit_last_mask: "bit (BMP_LAST_WORD_MASK e) n \<longleftrightarrow> (e mod 64 = 0 \<or> n < e mod 64) \<and> n < 64"
  by (auto simp: BMP_LAST_WORD_MASK_def bit_first_mask bit_simps)

lemma bit_below_64: "bit (w :: u64) n \<Longrightarrow> n < 64"
  using bit_imp_le_length [of w n] by simp

lemmas mask_bits = bit_first_mask bit_last_mask

text \<open>The masks of the first and last word select the region's bits there.\<close>

lemma in_first_word: "i div 64 = s div 64 \<Longrightarrow> s mod 64 \<le> i mod 64 \<longleftrightarrow> s \<le> (i :: nat)"
  using mult_div_mod_eq [of 64 i] mult_div_mod_eq [of 64 s] by linarith

lemma in_last_word:
  assumes "0 < e" "i div 64 = (e - 1) div 64"
  shows "(e mod 64 = 0 \<or> i mod 64 < e mod 64) \<longleftrightarrow> i < (e :: nat)"
proof (cases "e mod 64 = 0")
  case True
  then have "(e - 1) div 64 = e div 64 - 1" "0 < e div 64" using assms(1) by (auto elim!: dvdE simp: mod_eq_0_iff_dvd)
  then show ?thesis using True assms(2) mult_div_mod_eq [of 64 i] mult_div_mod_eq [of 64 e] mod_less_divisor [of 64 i]
    by linarith
next
  case False
  then have "(e - 1) div 64 = e div 64" by (metis One_nat_def Suc_pred assms(1) div_Suc)
  then show ?thesis using False assms(2) mult_div_mod_eq [of 64 i] mult_div_mod_eq [of 64 e] by linarith
qed

lemma word_order: "i div 64 < s div 64 \<Longrightarrow> i < (s :: nat)"
  using div_le_mono [of s i 64] by linarith

lemma word_bound: "i < 64 * n \<longleftrightarrow> i div 64 < (n :: nat)"
  by (simp add: div_less_iff_less_mult mult.commute)

lemma store_loop_spec:
  "l \<le> length bmp \<Longrightarrow> \<exists>bmp'. store_loop w bmp c l = Some bmp' \<and> length bmp' = length bmp \<and>
     (\<forall>j<length bmp. bmp' ! j = (if c \<le> j \<and> j < l then w else bmp ! j))"
proof (induction w bmp c l rule: store_loop.induct)
  case (1 w bmp c l)
  show ?case
  proof (cases "c < l")
    case True
    then have "bmp_put bmp c w = Some (bmp[c := w])" using 1(2) by (simp add: bmp_put_def)
    moreover obtain bmp' where "store_loop w (bmp[c := w]) (c + 1) l = Some bmp'" "length bmp' = length bmp"
      "\<forall>j<length bmp. bmp' ! j = (if c + 1 \<le> j \<and> j < l then w else bmp[c := w] ! j)"
      using 1(1) [OF True calculation] 1(2) by auto
    ultimately show ?thesis using True 1(2) by (auto simp: store_loop.simps [of w bmp c l] nth_list_update)
  next
    case False
    then show ?thesis by (auto simp: store_loop.simps [of w bmp c l])
  qed
qed

text \<open>Updating a region word by word, for the two ways of changing a word.\<close>

definition region_apply :: "(u64 \<Rightarrow> u64 \<Rightarrow> u64) \<Rightarrow> u64 \<Rightarrow> bmp \<Rightarrow> nat \<Rightarrow> nat \<Rightarrow> bmp option" where
  "region_apply f v bmp start e =
     (let c = start div BITS_PER_LONG; l = (e - 1) div BITS_PER_LONG;
          start_mask = BMP_FIRST_WORD_MASK start; last_mask = BMP_LAST_WORD_MASK e in
      if c = l then do { w \<leftarrow> bmp_get bmp c; bmp_put bmp c (f w (start_mask AND last_mask)) }
      else do {
        w \<leftarrow> bmp_get bmp c;
        bmp \<leftarrow> bmp_put bmp c (f w start_mask);
        bmp \<leftarrow> store_loop v bmp (c + 1) l;
        w \<leftarrow> bmp_get bmp l;
        bmp_put bmp l (f w last_mask) })"

lemma region_apply_spec:
  assumes f: "\<And>w m n. n < 64 \<Longrightarrow> bit (f w m) n = (if bit m n then b else bit w n)" and v: "\<And>n. n < 64 \<Longrightarrow> bit v n = b"
    and se: "s < e" "e \<le> 64 * length bmp"
  shows "\<exists>bmp'. region_apply f v bmp s e = Some bmp' \<and> length bmp' = length bmp \<and>
           (\<forall>i<64 * length bmp. bit_at bmp' i = (if s \<le> i \<and> i < e then b else bit_at bmp i))"
proof -
  let ?c = "s div 64" let ?l = "(e - 1) div 64"
  have cl: "?c \<le> ?l" using se(1) by (intro div_le_mono) simp
  have len: "?l < length bmp" using se by (simp flip: word_bound)
  show ?thesis
  proof (cases "?c = ?l")
    case True
    let ?m = "BMP_FIRST_WORD_MASK s AND BMP_LAST_WORD_MASK e"
    have "bit ?m (i mod 64) \<longleftrightarrow> s \<le> i \<and> i < e" if "i div 64 = ?c" for i
      using in_first_word [of i s] in_last_word [of e i] that True se(1) by (simp add: bit_and_iff mask_bits)
    moreover have "\<not> (s \<le> i \<and> i < e)" if "i div 64 \<noteq> ?c" for i
      using that True word_order [of i s] word_order [of "e - 1" i] by linarith
    moreover have "region_apply f v bmp s e = Some (bmp[?c := f (bmp ! ?c) ?m])"
      using True len by (simp add: region_apply_def Let_def bmp_get_def bmp_put_def)
    ultimately show ?thesis
      using len True by (auto simp: bit_at_def word_bound nth_list_update f)
  next
    case False
    then have lt: "?c < ?l" using cl by simp
    let ?b1 = "bmp[?c := f (bmp ! ?c) (BMP_FIRST_WORD_MASK s)]"
    obtain b2 where b2: "store_loop v ?b1 (?c + 1) ?l = Some b2" "length b2 = length bmp"
      "\<forall>j<length bmp. b2 ! j = (if ?c + 1 \<le> j \<and> j < ?l then v else ?b1 ! j)"
      using store_loop_spec [of ?l ?b1 v "?c + 1"] len by auto
    have "region_apply f v bmp s e = Some (b2[?l := f (bmp ! ?l) (BMP_LAST_WORD_MASK e)])"
      using lt len b2 by (simp add: region_apply_def Let_def bmp_get_def bmp_put_def)
    moreover have "bit_at (b2[?l := f (bmp ! ?l) (BMP_LAST_WORD_MASK e)]) i =
        (if s \<le> i \<and> i < e then b else bit_at bmp i)" if i: "i div 64 < length bmp" for i
    proof -
      have before_e: "i < e" if "i div 64 < ?l" using word_order [OF that] by linarith
      consider "i div 64 < ?c" | "i div 64 = ?c" | "?c < i div 64" "i div 64 < ?l" | "i div 64 = ?l" | "?l < i div 64"
        by linarith
      then show ?thesis
      proof cases
        case 1
        then show ?thesis using word_order [of i s] i b2 lt by (simp add: bit_at_def)
      next
        case 2
        then show ?thesis using in_first_word [of i s] before_e i b2 lt
          by (simp add: bit_at_def f mask_bits)
      next
        case 3
        then show ?thesis using word_order [of s i] before_e i b2
          by (simp add: bit_at_def v)
      next
        case 4
        then show ?thesis using in_last_word [of e i] word_order [of s i] i b2 lt se
          by (simp add: bit_at_def f mask_bits)
      next
        case 5
        then have "\<not> i < e" using word_order [of "e - 1" i] by linarith
        then show ?thesis using 5 i b2 lt by (simp add: bit_at_def)
      qed
    qed
    ultimately show ?thesis using b2(2) by (auto simp: word_bound)
  qed
qed

lemma fill_region_apply: "s < e \<Longrightarrow> bitmap_fill_region bmp s e = region_apply (OR) (NOT 0) bmp s e"
  by (simp add: bitmap_fill_region_def region_apply_def Let_def)

lemma zero_region_apply: "s < e \<Longrightarrow> bitmap_zero_region bmp s e = region_apply (\<lambda>w m. w AND NOT m) 0 bmp s e"
  by (simp add: bitmap_zero_region_def region_apply_def Let_def)

lemma ffsl_spec:
  "ffsl w = 0 \<longleftrightarrow> w = 0" "ffsl w \<noteq> 0 \<Longrightarrow> bit w (ffsl w - 1) \<and> (\<forall>i<ffsl w - 1. \<not> bit w i)"
proof -
  have "ffsl w = 0 \<longleftrightarrow> find (bit w) [0..<64] = None" by (simp add: ffsl_def split: option.splits)
  then show "ffsl w = 0 \<longleftrightarrow> w = 0" using bit_below_64 [of w] by (auto simp: find_None_iff bit_eq_iff [of w 0])
  assume "ffsl w \<noteq> 0"
  then obtain i where "find (bit w) [0..<64] = Some i" "ffsl w = i + 1"
    by (auto simp: ffsl_def split: option.splits)
  then show "bit w (ffsl w - 1) \<and> (\<forall>i<ffsl w - 1. \<not> bit w i)"
    by (auto simp: find_Some_iff)
qed

lemma find_loop_spec:
  assumes "e \<le> 64 * length bmp" "s \<le> e" "s < e \<Longrightarrow> c = s div 64 \<and> n = s mod 64"
  shows "\<exists>k. find_loop bmp c n s e = Some k \<and> s \<le> k \<and> k \<le> e \<and> (\<forall>i. s \<le> i \<and> i < k \<longrightarrow> \<not> bit_at bmp i) \<and> (k < e \<longrightarrow> bit_at bmp k)"
  using assms
proof (induction bmp c n s e rule: find_loop.induct)
  case (1 bmp c n s e)
  show ?case
  proof (cases "s < e")
    case False
    then have "find_loop bmp c n s e = Some e" by (simp add: find_loop.simps [of bmp c n s e])
    then show ?thesis using 1(3) False by auto
  next
    case True
    then have c: "c = s div 64" "n = s mod 64" "n < 64" "s = 64 * c + n" using 1(4) by auto
    have len: "c < length bmp" using c(1) True 1(2) by (simp flip: word_bound)
    then have w: "bmp_get bmp c = Some (bmp ! c)" by (simp add: bmp_get_def)
    let ?b = "ffsl (drop_bit n (bmp ! c))"
    have at: "bit_at bmp (s + j) = bit (drop_bit n (bmp ! c)) j" if "n + j < 64" for j
      using that by (simp add: bit_at_def bit_drop_bit_eq c(4) add.assoc)
    show ?thesis
    proof (cases "?b = 0")
      case False
      then have b: "bit (drop_bit n (bmp ! c)) (?b - 1)" "\<forall>i<?b - 1. \<not> bit (drop_bit n (bmp ! c)) i"
        using ffsl_spec(2) by auto
      then have lt: "n + (?b - 1) < 64" using bit_below_64 by (auto simp: bit_drop_bit_eq)
      have "find_loop bmp c n s e = Some (min e (s + (?b - 1)))"
        using True w False by (simp add: find_loop.simps [of bmp c n s e] Let_def)
      moreover have "bit_at bmp (s + (?b - 1))" using at lt b(1) by simp
      moreover have "\<not> bit_at bmp i" if "s \<le> i" "i < s + (?b - 1)" for i
        using at [of "i - s"] lt b(2) that by auto
      ultimately show ?thesis using True by (auto simp: min_def)
    next
      case z: True
      have step: "find_loop bmp c n s e = find_loop bmp (c + 1) 0 (s + (64 - n)) e"
        using True w z by (simp add: find_loop.simps [of bmp c n s e] Let_def)
      have clear: "\<not> bit_at bmp i" if "s \<le> i" "i < s + (64 - n)" for i
        using at [of "i - s"] that c(3) z ffsl_spec(1) by auto
      show ?thesis
      proof (cases "s + (64 - n) \<le> e")
        case le: True
        have "s + (64 - n) = 64 * (c + 1)" using c(3) by (simp add: c(4))
        then obtain k where "find_loop bmp (c + 1) 0 (s + (64 - n)) e = Some k" "s + (64 - n) \<le> k" "k \<le> e"
          "\<forall>i. s + (64 - n) \<le> i \<and> i < k \<longrightarrow> \<not> bit_at bmp i" "k < e \<longrightarrow> bit_at bmp k"
          using 1(1) [OF True w refl _ 1(2) le] z by auto
        moreover from this have "\<forall>i. s \<le> i \<and> i < k \<longrightarrow> \<not> bit_at bmp i" using clear by (meson not_less)
        ultimately show ?thesis by (auto simp: step)
      next
        case False
        then have "find_loop bmp (c + 1) 0 (s + (64 - n)) e = Some e"
          by (subst find_loop.simps) simp
        then show ?thesis using clear True False by (auto simp: step)
      qed
    qed
  qed
qed

lemma and_zero_iff: "(w :: u64) AND m = 0 \<longleftrightarrow> (\<forall>n<64. bit m n \<longrightarrow> \<not> bit w n)"
  using bit_below_64 by (auto simp: bit_eq_iff [of "w AND m" 0] bit_and_iff)

lemma word_zero_iff: "(w :: u64) = 0 \<longleftrightarrow> (\<forall>n<64. \<not> bit w n)"
  using bit_below_64 [of w] by (auto simp: bit_eq_iff [of w 0])

lemma word_ones_iff: "(w :: u64) = -1 \<longleftrightarrow> (\<forall>n<64. bit w n)"
  using bit_below_64 [of w] by (auto simp: bit_eq_iff [of w "-1"] bit_simps)

lemma empty_loop_spec:
  "n \<le> length bmp \<Longrightarrow> empty_loop bmp i n = Some (\<forall>j. i \<le> j \<and> j < n \<longrightarrow> bmp ! j = 0)"
proof (induction bmp i n rule: empty_loop.induct)
  case (1 bmp i n)
  show ?case
  proof (cases "i < n")
    case True
    then have w: "bmp_get bmp i = Some (bmp ! i)" using 1(2) by (simp add: bmp_get_def)
    have split: "(\<forall>j. i \<le> j \<and> j < n \<longrightarrow> bmp ! j = 0) \<longleftrightarrow> bmp ! i = 0 \<and> (\<forall>j. i + 1 \<le> j \<and> j < n \<longrightarrow> bmp ! j = 0)"
      using True by (metis Suc_eq_plus1 less_eq_Suc_le nat_less_le order_refl)
    show ?thesis using 1(1) [OF True w _ 1(2)] True w
      by (auto simp: empty_loop.simps [of bmp i n] split)
  qed (auto simp: empty_loop.simps [of bmp i n])
qed

lemma full_loop_spec:
  "n \<le> length bmp \<Longrightarrow> full_loop bmp i n = Some (\<forall>j. i \<le> j \<and> j < n \<longrightarrow> bmp ! j = -1)"
proof (induction bmp i n rule: full_loop.induct)
  case (1 bmp i n)
  show ?case
  proof (cases "i < n")
    case True
    then have w: "bmp_get bmp i = Some (bmp ! i)" using 1(2) by (simp add: bmp_get_def)
    have split: "(\<forall>j. i \<le> j \<and> j < n \<longrightarrow> bmp ! j = -1) \<longleftrightarrow> bmp ! i = -1 \<and> (\<forall>j. i + 1 \<le> j \<and> j < n \<longrightarrow> bmp ! j = -1)"
      using True by (metis Suc_eq_plus1 less_eq_Suc_le nat_less_le order_refl)
    show ?thesis using 1(1) [OF True w _ 1(2)] True w
      by (auto simp: full_loop.simps [of bmp i n] split)
  qed (auto simp: full_loop.simps [of bmp i n])
qed

text \<open>A statement on the bits of a region, word by word: \<open>m\<close> masks the region's bits in word \<open>j\<close>.\<close>

definition word_all :: "(bool \<Rightarrow> bool) \<Rightarrow> bmp \<Rightarrow> nat \<Rightarrow> nat \<Rightarrow> nat \<Rightarrow> bool" where
  "word_all B bmp s e j \<longleftrightarrow> (\<forall>i. i div 64 = j \<and> s \<le> i \<and> i < e \<longrightarrow> B (bit_at bmp i))"

lemma word_all_mask:
  assumes "\<And>i. i div 64 = j \<Longrightarrow> bit (m :: u64) (i mod 64) \<longleftrightarrow> s \<le> i \<and> i < e"
  shows "word_all B bmp s e j \<longleftrightarrow> (\<forall>n<64. bit m n \<longrightarrow> B (bit (bmp ! j) n))"
proof safe
  fix n :: nat assume *: "word_all B bmp s e j" "n < 64" "bit m n"
  then have "s \<le> 64 * j + n" "64 * j + n < e" using assms [of "64 * j + n"] by simp_all
  then show "B (bit (bmp ! j) n)" using * by (auto simp: word_all_def bit_at_def dest: spec [of _ "64 * j + n"])
next
  assume *: "\<forall>n<64. bit m n \<longrightarrow> B (bit (bmp ! j) n)"
  show "word_all B bmp s e j"
    unfolding word_all_def using assms *[rule_format, of "i mod 64" for i] by (auto simp: bit_at_def)
qed

lemma region_by_words:
  assumes "s < e"
  shows "(\<forall>i. s \<le> i \<and> i < e \<longrightarrow> B (bit_at bmp i)) \<longleftrightarrow>
         (\<forall>j. s div 64 \<le> j \<and> j \<le> (e - 1) div 64 \<longrightarrow> word_all B bmp s e j)"
proof -
  have "s div 64 \<le> i div 64 \<and> i div 64 \<le> (e - 1) div 64" if "s \<le> i" "i < e" for i
    using that by (auto intro: div_le_mono)
  then show ?thesis by (auto simp: word_all_def)
qed

lemma word_all_last:
  assumes "s < e" "s div 64 < (e - 1) div 64"
  shows "word_all B bmp s e ((e - 1) div 64) \<longleftrightarrow> (\<forall>n<64. bit (BMP_LAST_WORD_MASK e) n \<longrightarrow> B (bit (bmp ! ((e - 1) div 64)) n))"
proof (rule word_all_mask)
  fix i assume i: "i div 64 = (e - 1) div 64"
  then show "bit (BMP_LAST_WORD_MASK e) (i mod 64) \<longleftrightarrow> s \<le> i \<and> i < e"
    using in_last_word [of e i] word_order [of s i] assms by (simp add: mask_bits)
qed

lemma word_all_first:
  assumes "s div 64 < (e - 1) div 64"
  shows "word_all B bmp s e (s div 64) \<longleftrightarrow> (\<forall>n<64. bit (BMP_FIRST_WORD_MASK s) n \<longrightarrow> B (bit (bmp ! (s div 64)) n))"
proof (rule word_all_mask)
  fix i assume i: "i div 64 = s div 64"
  then have "i < e" using word_order [of i "e - 1"] assms by linarith
  then show "bit (BMP_FIRST_WORD_MASK s) (i mod 64) \<longleftrightarrow> s \<le> i \<and> i < e"
    using in_first_word [of i s] i by (simp add: mask_bits)
qed

lemma word_all_inner:
  assumes "s div 64 < j" "j < (e - 1) div 64"
  shows "word_all B bmp s e j \<longleftrightarrow> (\<forall>n<64. B (bit (bmp ! j) n))"
proof -
  have "s \<le> i \<and> i < e" if "i div 64 = j" for i
    using word_order [of s i] word_order [of i "e - 1"] assms that by linarith
  then have "word_all B bmp s e j \<longleftrightarrow> (\<forall>n<64. bit (-1 :: u64) n \<longrightarrow> B (bit (bmp ! j) n))"
    by (intro word_all_mask) (simp add: bit_simps)
  then show ?thesis by (simp add: bit_simps)
qed

lemma word_all_single:
  assumes "s < e" "s div 64 = (e - 1) div 64"
  shows "word_all B bmp s e (s div 64) \<longleftrightarrow>
         (\<forall>n<64. bit (BMP_FIRST_WORD_MASK s AND BMP_LAST_WORD_MASK e) n \<longrightarrow> B (bit (bmp ! (s div 64)) n))"
proof (rule word_all_mask)
  fix i assume "i div 64 = s div 64"
  then show "bit (BMP_FIRST_WORD_MASK s AND BMP_LAST_WORD_MASK e) (i mod 64) \<longleftrightarrow> s \<le> i \<and> i < e"
    using in_first_word [of i s] in_last_word [of e i] assms by (simp add: bit_and_iff mask_bits)
qed

lemma region_single:
  assumes "s < e" "s div 64 = (e - 1) div 64"
  shows "(\<forall>i. s \<le> i \<and> i < e \<longrightarrow> B (bit_at bmp i)) \<longleftrightarrow>
         (\<forall>n<64. bit (BMP_FIRST_WORD_MASK s AND BMP_LAST_WORD_MASK e) n \<longrightarrow> B (bit (bmp ! (s div 64)) n))"
proof -
  have "(\<forall>i. s \<le> i \<and> i < e \<longrightarrow> B (bit_at bmp i)) \<longleftrightarrow> word_all B bmp s e (s div 64)"
    unfolding region_by_words [OF assms(1)] assms(2) by auto
  then show ?thesis using word_all_single [OF assms] by simp
qed

lemma region_multi:
  assumes "s < e" "s div 64 < (e - 1) div 64"
  shows "(\<forall>i. s \<le> i \<and> i < e \<longrightarrow> B (bit_at bmp i)) \<longleftrightarrow>
         (\<forall>n<64. bit (BMP_FIRST_WORD_MASK s) n \<longrightarrow> B (bit (bmp ! (s div 64)) n)) \<and>
         (\<forall>j. s div 64 + 1 \<le> j \<and> j < (e - 1) div 64 \<longrightarrow> (\<forall>n<64. B (bit (bmp ! j) n))) \<and>
         (\<forall>n<64. bit (BMP_LAST_WORD_MASK e) n \<longrightarrow> B (bit (bmp ! ((e - 1) div 64)) n))"
proof -
  have "(\<forall>i. s \<le> i \<and> i < e \<longrightarrow> B (bit_at bmp i)) \<longleftrightarrow> word_all B bmp s e (s div 64) \<and>
      (\<forall>j. s div 64 + 1 \<le> j \<and> j < (e - 1) div 64 \<longrightarrow> word_all B bmp s e j) \<and> word_all B bmp s e ((e - 1) div 64)"
    unfolding region_by_words [OF assms(1)] using assms(2)
    by (metis add.commute less_eq_Suc_le nat_less_le order_refl plus_1_eq_Suc)
  then show ?thesis
    using word_all_first [OF assms(2)] word_all_last [OF assms] word_all_inner [of s _ e] by simp
qed

lemma bitmap_is_free_region_spec:
  assumes "0 < rs" "s + rs \<le> 64 * length bmp"
  shows "bitmap_is_free_region bmp s rs = Some (\<forall>i. s \<le> i \<and> i < s + rs \<longrightarrow> \<not> bit_at bmp i)"
proof -
  let ?e = "s + rs" let ?c = "s div 64" let ?l = "(?e - 1) div 64"
  have se: "s < ?e" using assms(1) by simp
  have len: "?l < length bmp" using assms by (simp flip: word_bound)
  have cl: "?c \<le> ?l" using assms(1) by (intro div_le_mono) simp
  show ?thesis
  proof (cases "?c = ?l")
    case True
    then show ?thesis using len
      by (simp add: region_single [OF se True, of Not] bitmap_is_free_region_def Let_def bmp_get_def and.assoc and_zero_iff)
  next
    case False
    then have lt: "?c < ?l" using cl by simp
    have "empty_loop bmp (?c + 1) ?l = Some (\<forall>j. ?c + 1 \<le> j \<and> j < ?l \<longrightarrow> (\<forall>n<64. \<not> bit (bmp ! j) n))"
      using empty_loop_spec [of ?l bmp "?c + 1"] len by (simp add: word_zero_iff)
    then show ?thesis using len lt unfolding region_multi [OF se lt, of Not]
      by (auto simp: bitmap_is_free_region_def Let_def bmp_get_def and_zero_iff)
  qed
qed

lemma bits_to_longs_last: "0 < n \<Longrightarrow> BITS_TO_LONGS n - 1 = (n - 1) div 64"
  by (simp add: BITS_TO_LONGS_def)

lemma last_word_mask_alt:
  "(if n mod 64 \<noteq> 0 then push_bit (n mod 64) 1 - 1 else NOT 0) = BMP_LAST_WORD_MASK n"
proof (rule bit_word_eqI)
  fix k assume "k < LENGTH(64)"
  have "push_bit (n mod 64) 1 - 1 = (mask (n mod 64) :: u64)"
    by (simp add: mask_eq_exp_minus_1 push_bit_eq_mult)
  then show "bit (if n mod 64 \<noteq> 0 then push_bit (n mod 64) 1 - 1 else NOT 0 :: u64) k = bit (BMP_LAST_WORD_MASK n) k"
    using \<open>k < LENGTH(64)\<close> by (auto simp: bit_last_mask bit_simps)
qed

lemma region_from_0:
  assumes "0 < e"
  shows "(\<forall>i<e. B (bit_at bmp i)) \<longleftrightarrow>
         (\<forall>j<(e - 1) div 64. \<forall>n<64. B (bit (bmp ! j) n)) \<and>
         (\<forall>n<64. bit (BMP_LAST_WORD_MASK e) n \<longrightarrow> B (bit (bmp ! ((e - 1) div 64)) n))"
proof (cases "(e - 1) div 64 = 0")
  case True
  then show ?thesis using region_single [of 0 e B bmp] assms by (simp add: bit_and_iff bit_first_mask)
next
  case False
  then have "(\<forall>j<(e - 1) div 64. \<forall>n<64. B (bit (bmp ! j) n)) \<longleftrightarrow>
      (\<forall>n<64. B (bit (bmp ! 0) n)) \<and> (\<forall>j. 1 \<le> j \<and> j < (e - 1) div 64 \<longrightarrow> (\<forall>n<64. B (bit (bmp ! j) n)))"
    by (metis One_nat_def gr0I less_eq_Suc_le not_less_zero)
  then show ?thesis using region_multi [of 0 e B bmp] False assms by (simp add: bit_first_mask)
qed

lemma bitmap_empty_spec:
  assumes "0 < n" "n \<le> 64 * length bmp"
  shows "bitmap_empty bmp n = Some (\<forall>i<n. \<not> bit_at bmp i)"
proof -
  have len: "(n - 1) div 64 < length bmp" using assms by (simp flip: word_bound)
  have "empty_loop bmp 0 ((n - 1) div 64) = Some (\<forall>j<(n - 1) div 64. \<forall>k<64. \<not> bit (bmp ! j) k)"
    using empty_loop_spec [of "(n - 1) div 64" bmp 0] len by (simp add: word_zero_iff)
  then show ?thesis using len assms(1) 
    unfolding region_from_0 [OF assms(1), of Not] bitmap_empty_def last_word_mask_alt bits_to_longs_last [OF assms(1)]
    by (auto simp: bmp_get_def and_zero_iff Let_def)
qed

lemma bitmap_full_spec:
  assumes "0 < n" "n \<le> 64 * length bmp"
  shows "bitmap_full bmp n = Some (\<forall>i<n. bit_at bmp i)"
proof -
  have len: "(n - 1) div 64 < length bmp" using assms by (simp flip: word_bound)
  have "full_loop bmp 0 ((n - 1) div 64) = Some (\<forall>j<(n - 1) div 64. \<forall>k<64. bit (bmp ! j) k)"
    using full_loop_spec [of "(n - 1) div 64" bmp 0] len by (simp add: word_ones_iff)
  moreover have "((w :: u64) AND m) XOR m = 0 \<longleftrightarrow> (\<forall>k<64. bit m k \<longrightarrow> bit w k)" for w m
    by (auto simp: word_zero_iff bit_simps)
  ultimately show ?thesis using len assms(1) 
    unfolding region_from_0 [OF assms(1), of id, unfolded id_apply] bitmap_full_def last_word_mask_alt
      bits_to_longs_last [OF assms(1)]
    by (auto simp: bmp_get_def Let_def)
qed

lemma bitmap_bits:
  assumes "i < 64 * length bmp"
  shows "bitmap_test_bit bmp i = Some (bit_at bmp i)"
    "\<exists>bmp'. bitmap_set_bit bmp i = Some bmp' \<and> length bmp' = length bmp \<and>
       (\<forall>j<64 * length bmp. bit_at bmp' j = (j = i \<or> bit_at bmp j))"
    "\<exists>bmp'. bitmap_clear_bit bmp i = Some bmp' \<and> length bmp' = length bmp \<and>
       (\<forall>j<64 * length bmp. bit_at bmp' j = (j \<noteq> i \<and> bit_at bmp j))"
proof -
  have len: "i div 64 < length bmp" using assms by (simp add: word_bound)
  have one: "bit (2 ^ (i mod 64) :: u64) n \<longleftrightarrow> n = i mod 64" for n
    by (auto simp: bit_simps)
  have same: "j = i \<longleftrightarrow> j div 64 = i div 64 \<and> j mod 64 = i mod 64" for j
    by (metis mult_div_mod_eq)
  show "bitmap_test_bit bmp i = Some (bit_at bmp i)"
    using len mod_less_divisor [of 64 i] by (auto simp: bitmap_test_bit_def bmp_get_def and_zero_iff one bit_at_def)
  show "\<exists>bmp'. bitmap_set_bit bmp i = Some bmp' \<and> length bmp' = length bmp \<and>
       (\<forall>j<64 * length bmp. bit_at bmp' j = (j = i \<or> bit_at bmp j))"
    using len by (auto simp: bitmap_set_bit_def bmp_get_def bmp_put_def bit_at_def nth_list_update bit_or_iff one same)
  show "\<exists>bmp'. bitmap_clear_bit bmp i = Some bmp' \<and> length bmp' = length bmp \<and>
       (\<forall>j<64 * length bmp. bit_at bmp' j = (j \<noteq> i \<and> bit_at bmp j))"
    using len by (auto simp: bitmap_clear_bit_def bmp_get_def bmp_put_def bit_at_def nth_list_update bit_and_iff bit_not_iff one same)
qed

definition region_free :: "bmp \<Rightarrow> nat \<Rightarrow> nat \<Rightarrow> bool" where
  "region_free bmp s rs \<longleftrightarrow> (\<forall>i. s \<le> i \<and> i < s + rs \<longrightarrow> \<not> bit_at bmp i)"

lemma free_region_loop_spec:
  assumes "n \<le> 64 * length bmp" "0 < rs"
  shows "\<exists>k. free_region_loop bmp n rs s = Some k \<and>
           (k = n \<and> (\<forall>t. s \<le> t \<and> t + rs \<le> n \<longrightarrow> \<not> region_free bmp t rs) \<or>
            s \<le> k \<and> k + rs \<le> n \<and> region_free bmp k rs \<and> (\<forall>t. s \<le> t \<and> t < k \<longrightarrow> \<not> region_free bmp t rs))"
  using assms
proof (induction bmp n rs s rule: free_region_loop.induct)
  case (1 bmp n rs s)
  show ?case
  proof (cases "s + rs \<le> n")
    case True
    have t: "bitmap_test_bit bmp s = Some (bit_at bmp s)" using True 1(3,4) by (intro bitmap_bits(1)) simp
    have f: "bitmap_is_free_region bmp s rs = Some (region_free bmp s rs)"
      using bitmap_is_free_region_spec [of rs s bmp] True 1(3,4) by (simp add: region_free_def)
    have bit: "bit_at bmp s \<Longrightarrow> \<not> region_free bmp s rs" using 1(4) by (auto simp: region_free_def)
    show ?thesis
    proof (cases "region_free bmp s rs")
      case free: True
      then show ?thesis using True t f bit by (subst free_region_loop.simps) auto
    next
      case False
      have step: "free_region_loop bmp n rs s = free_region_loop bmp n rs (s + 1)"
        using True t f False by (subst free_region_loop.simps) simp
      have ext: "(\<forall>t. s \<le> t \<and> P t \<longrightarrow> \<not> region_free bmp t rs)" if "\<forall>t. s + 1 \<le> t \<and> P t \<longrightarrow> \<not> region_free bmp t rs" for P
        using that False by (metis Suc_eq_plus1 not_less_eq_eq order_antisym_conv)
      have "\<exists>k. free_region_loop bmp n rs (s + 1) = Some k \<and>
           (k = n \<and> (\<forall>t. s + 1 \<le> t \<and> t + rs \<le> n \<longrightarrow> \<not> region_free bmp t rs) \<or>
            s + 1 \<le> k \<and> k + rs \<le> n \<and> region_free bmp k rs \<and> (\<forall>t. s + 1 \<le> t \<and> t < k \<longrightarrow> \<not> region_free bmp t rs))"
        by (cases "bit_at bmp s") (use 1(1) [OF True t _ 1(3,4)] 1(2) [OF True t _ f _ 1(3,4)] False in auto)
      then obtain k where k: "free_region_loop bmp n rs (s + 1) = Some k"
           "k = n \<and> (\<forall>t. s + 1 \<le> t \<and> t + rs \<le> n \<longrightarrow> \<not> region_free bmp t rs) \<or>
            s + 1 \<le> k \<and> k + rs \<le> n \<and> region_free bmp k rs \<and> (\<forall>t. s + 1 \<le> t \<and> t < k \<longrightarrow> \<not> region_free bmp t rs)"
        by blast
      show ?thesis unfolding step k(1) using k(2)
        by (elim disjE conjE) (use ext [of "\<lambda>t. t + rs \<le> n"] ext [of "\<lambda>t. t < k"] in \<open>blast intro: add_leD1\<close>)+
    qed
  next
    case False
    then show ?thesis by (subst free_region_loop.simps) auto
  qed
qed
lemma bmp_eqI:
  assumes "length a = length b" "\<And>i. i < 64 * length b \<Longrightarrow> bit_at a i = bit_at b i"
  shows "a = b"
proof (rule nth_equalityI [OF assms(1)])
  fix j assume j: "j < length a"
  show "a ! j = b ! j"
  proof (rule bit_word_eqI)
    fix n assume "n < LENGTH(64)"
    then show "bit (a ! j) n = bit (b ! j) n"
      using assms(2) [of "64 * j + n"] j assms(1) by (simp add: bit_at_def word_bound)
  qed
qed

lemma fill_region_spec:
  assumes "s < e" "e \<le> 64 * length bmp"
  shows "\<exists>bmp'. bitmap_fill_region bmp s e = Some bmp' \<and> length bmp' = length bmp \<and>
      (\<forall>i<64 * length bmp. bit_at bmp' i = (if s \<le> i \<and> i < e then True else bit_at bmp i))"
  unfolding fill_region_apply [OF assms(1)] by (rule region_apply_spec) (auto simp: bit_simps assms)

lemma zero_region_spec:
  assumes "s < e" "e \<le> 64 * length bmp"
  shows "\<exists>bmp'. bitmap_zero_region bmp s e = Some bmp' \<and> length bmp' = length bmp \<and>
      (\<forall>i<64 * length bmp. bit_at bmp' i = (if s \<le> i \<and> i < e then False else bit_at bmp i))"
  unfolding zero_region_apply [OF assms(1)] by (rule region_apply_spec) (auto simp: bit_simps assms)

subsection \<open>Properties\<close>

text \<open>C13. Filling and clearing a region are exact: for a region inside the array, \<^verbatim>\<open>bitmap_fill_region\<close> and
  \<^verbatim>\<open>bitmap_zero_region\<close> stay inside the array and change the bits of the region and no other bit, however the
  region lies across the words.
\<close>

theorem bitmap_regions_exact:
  assumes "s \<le> e" "e \<le> 64 * length bmp"
  shows "\<exists>bmp1 bmp0. bitmap_fill_region bmp s e = Some bmp1 \<and> bitmap_zero_region bmp s e = Some bmp0 \<and>
           length bmp1 = length bmp \<and> length bmp0 = length bmp \<and>
           (\<forall>i. i < 64 * length bmp \<longrightarrow> bit_at bmp1 i = (s \<le> i \<and> i < e \<or> bit_at bmp i) \<and>
                bit_at bmp0 i = (bit_at bmp i \<and> \<not> (s \<le> i \<and> i < e)))"
proof (cases "s < e")
  case True
  then show ?thesis using fill_region_spec zero_region_spec assms(2) by fastforce
next
  case False
  then show ?thesis using assms(1) by (auto simp: bitmap_fill_region_def bitmap_zero_region_def)
qed

theorem bitmap_regions_exact_witness:
  "bitmap_fill_region [0, 0, 0] 60 130 = Some [0xF000000000000000, 0xFFFFFFFFFFFFFFFF, 3] \<and>
   bit_at [0xF000000000000000, 0xFFFFFFFFFFFFFFFF, 3] 129"
proof -
  have r: "bitmap_fill_region [0, 0, 0] 60 130 = Some [0xF000000000000000, 0xFFFFFFFFFFFFFFFF, 3]" by code_simp
  show ?thesis using bitmap_regions_exact [of 60 130 "[0, 0, 0]"] r by auto
qed

text \<open>
  The search for a set bit is exact: \<^verbatim>\<open>bitmap_find_first_bit\<close> returns, without leaving the array, the lowest
  set bit of the range it is given, or the end of the range when no bit of it is set.
\<close>

theorem bitmap_find_first_bit_exact:
  assumes "s \<le> e" "e \<le> 64 * length bmp"
  shows "\<exists>k. bitmap_find_first_bit bmp s e = Some k \<and> s \<le> k \<and> k \<le> e \<and>
           (\<forall>i. s \<le> i \<and> i < k \<longrightarrow> \<not> bit_at bmp i) \<and> (k < e \<longrightarrow> bit_at bmp k)"
  using find_loop_spec [of e bmp s "s div 64" "s mod 64"] assms by (simp add: bitmap_find_first_bit_def)

text \<open>C14. The search for a free region is a first fit: for a bitmap that holds \<open>n\<close> bits, \<^verbatim>\<open>bitmap_find_free_region\<close> returns
  the lowest start of a run of clear bits of the size asked for that ends by bit \<open>n\<close>, and \<open>n\<close> when there is no such
  run; a region of size 0 is found at 0.
\<close>

theorem bitmap_find_free_region_first_fit:
  assumes "n \<le> 64 * length bmp"
  shows "\<exists>k. bitmap_find_free_region bmp n rs = Some k \<and>
           (if rs = 0 then k = 0
            else k = n \<and> (\<forall>t. t + rs \<le> n \<longrightarrow> \<not> region_free bmp t rs) \<or>
                 k + rs \<le> n \<and> region_free bmp k rs \<and> (\<forall>t<k. \<not> region_free bmp t rs))"
  using free_region_loop_spec [of n bmp rs 0] assms by (auto simp: bitmap_find_free_region_def)

theorem bitmap_find_free_region_first_fit_witness:
  "bitmap_find_free_region [0x35, 0xF0] 100 5 = Some 6 \<and>
   region_free [0x35, 0xF0] 6 5"
proof -
  have r: "bitmap_find_free_region [0x35, 0xF0] 100 5 = Some 6" by code_simp
  show ?thesis using bitmap_find_free_region_first_fit [of 100 "[0x35, 0xF0]" 5] r by simp
qed

text \<open>
  Claiming a free region and releasing it is the identity: filling the region a successful search returned sets
  bits that were all clear, and clearing it again gives back the very same array.
\<close>

theorem bitmap_claim_release:
  assumes "n \<le> 64 * length bmp" "0 < rs" "bitmap_find_free_region bmp n rs = Some k" "k \<noteq> n"
  shows "\<exists>bmp1. bitmap_fill_region bmp k (k + rs) = Some bmp1 \<and> bitmap_zero_region bmp1 k (k + rs) = Some bmp \<and>
           (\<forall>t. t < k + rs \<and> k < t + rs \<longrightarrow> \<not> region_free bmp1 t rs)"
proof -
  have k: "k + rs \<le> n" "region_free bmp k rs"
    using free_region_loop_spec [OF assms(1,2), of 0] assms(2,3,4) by (auto simp: bitmap_find_free_region_def)
  obtain bmp1 where b1: "bitmap_fill_region bmp k (k + rs) = Some bmp1" "length bmp1 = length bmp"
    "\<forall>i<64 * length bmp. bit_at bmp1 i = (if k \<le> i \<and> i < k + rs then True else bit_at bmp i)"
    using fill_region_spec [of k "k + rs" bmp] k(1) assms(1,2) by auto
  obtain bmp0 where b0: "bitmap_zero_region bmp1 k (k + rs) = Some bmp0" "length bmp0 = length bmp"
    "\<forall>i<64 * length bmp. bit_at bmp0 i = (if k \<le> i \<and> i < k + rs then False else bit_at bmp1 i)"
    using zero_region_spec [of k "k + rs" bmp1] k(1) assms(1,2) b1(2) by auto
  have "bmp0 = bmp" using b0 b1(3) k(2) by (intro bmp_eqI) (auto simp: region_free_def)
  moreover have "\<not> region_free bmp1 t rs" if "t < k + rs" "k < t + rs" for t
  proof -
    have "bit_at bmp1 (max t k)" using b1(3) that k(1) assms(1,2) by auto
    then show ?thesis using that assms(2) by (auto simp: region_free_def intro!: exI [of _ "max t k"])
  qed
  ultimately show ?thesis using b1(1) b0(1) by auto
qed

text \<open>
  The routines of the header and of the C file agree: \<^verbatim>\<open>bitmap_empty\<close> is true exactly when \<^verbatim>\<open>bitmap_find_first_bit\<close>
  finds nothing and when a free region of all the bits is found at 0; \<^verbatim>\<open>bitmap_full\<close> is true exactly when every
  \<^verbatim>\<open>bitmap_test_bit\<close> is; a fresh bitmap of \<^verbatim>\<open>bitmap_alloc0\<close> is empty and one of \<^verbatim>\<open>bitmap_alloc1\<close> is full.
\<close>

theorem bitmap_queries_agree:
  assumes "0 < n" "n \<le> 64 * length bmp"
  shows "bitmap_empty bmp n = Some (bitmap_find_first_bit bmp 0 n = Some n) \<and>
         bitmap_empty bmp n = Some (bitmap_find_free_region bmp n n = Some 0) \<and>
         bitmap_full bmp n = Some (\<forall>i. i < n \<longrightarrow> bitmap_test_bit bmp i = Some True) \<and>
         (\<exists>b0 b1. bitmap_alloc0 True n = Some b0 \<and> bitmap_empty b0 n = Some True \<and>
                  bitmap_alloc1 True n = Some (Some b1) \<and> bitmap_full b1 n = Some True)"
proof (intro conjI)
  obtain k where k: "find_loop bmp 0 0 0 n = Some k" "k \<le> n" "\<forall>i<k. \<not> bit_at bmp i" "k < n \<longrightarrow> bit_at bmp k"
    using find_loop_spec [of n bmp 0 0 0] assms by auto
  then show "bitmap_empty bmp n = Some (bitmap_find_first_bit bmp 0 n = Some n)"
    using assms by (auto simp: bitmap_empty_spec bitmap_find_first_bit_def le_less)
  have "bitmap_find_free_region bmp n n = Some 0 \<longleftrightarrow> region_free bmp 0 n"
    using free_region_loop_spec [OF assms(2,1), of 0] assms(1) by (auto simp: bitmap_find_free_region_def)
  then show "bitmap_empty bmp n = Some (bitmap_find_free_region bmp n n = Some 0)"
    using assms by (simp add: bitmap_empty_spec region_free_def)
  show "bitmap_full bmp n = Some (\<forall>i. i < n \<longrightarrow> bitmap_test_bit bmp i = Some True)"
    using assms by (auto simp: bitmap_full_spec bitmap_bits(1))
  have le: "n \<le> 64 * BITS_TO_LONGS n" by (simp add: BITS_TO_LONGS_def) 
  have "bit_at (replicate (BITS_TO_LONGS n) w) i = bit w (i mod 64)" if "i < n" for w i
    using that le by (simp add: bit_at_def word_bound [symmetric])
  then show "\<exists>b0 b1. bitmap_alloc0 True n = Some b0 \<and> bitmap_empty b0 n = Some True \<and>
                  bitmap_alloc1 True n = Some (Some b1) \<and> bitmap_full b1 n = Some True"
    using assms(1) le by (auto simp: bitmap_alloc0_def bitmap_alloc1_def bitmap_fill_def bitmap_empty_spec bitmap_full_spec bit_simps Let_def)
qed

end
