(* ===== verification/Indexer.thy ===== *)
theory Indexer
  imports Prelude
begin

text \<open>
  The indexer and the index map of \<^verbatim>\<open>librdmacm/indexer.c\<close>: tables in two levels that turn pointers into
  small integers and back. The indexer chooses the index and threads its free entries into a list through
  the entries themselves; the index map stores at the index it is given. \<open>None\<close> is an access through a
  NULL block, past the arrays, or to the member of a union entry that was not the one stored.
\<close>

subsection \<open>Definitions\<close>

datatype idx_entry = Item ptr | Next nat

abbreviation IDX_INDEX_BITS :: nat where "IDX_INDEX_BITS \<equiv> 16"
abbreviation IDX_ENTRY_BITS :: nat where "IDX_ENTRY_BITS \<equiv> 10"

definition IDX_ENTRY_SIZE :: nat where "IDX_ENTRY_SIZE = push_bit IDX_ENTRY_BITS 1"
definition IDX_ARRAY_SIZE :: nat where "IDX_ARRAY_SIZE = push_bit (IDX_INDEX_BITS - IDX_ENTRY_BITS) 1"
definition IDX_MAX_INDEX :: nat where "IDX_MAX_INDEX = push_bit IDX_INDEX_BITS 1 - 1"

text \<open>The blocks are NULL from \<open>idx_size\<close> on; the free list ends with 0, the reserved index.\<close>

record indexer =
  idx_array :: "nat \<rightharpoonup> idx_entry list"
  free_list :: nat
  idx_size :: nat

definition idx_array_index :: "nat \<Rightarrow> nat" where
  "idx_array_index index = drop_bit IDX_ENTRY_BITS index"

definition idx_entry_index :: "nat \<Rightarrow> nat" where
  "idx_entry_index index = index AND (IDX_ENTRY_SIZE - 1)"

definition entry_at :: "indexer \<Rightarrow> nat \<Rightarrow> idx_entry option" where
  "entry_at idx index = do {
     block \<leftarrow> idx_array idx (idx_array_index index);
     (if idx_entry_index index < length block then Some (block ! idx_entry_index index) else None) }"

definition put_entry :: "indexer \<Rightarrow> nat \<Rightarrow> idx_entry \<Rightarrow> indexer option" where
  "put_entry idx index e = do {
     block \<leftarrow> idx_array idx (idx_array_index index);
     (if idx_entry_index index < length block
      then Some (idx\<lparr>idx_array := (idx_array idx)(idx_array_index index \<mapsto> block[idx_entry_index index := e])\<rparr>)
      else None) }"

fun entry_item :: "idx_entry \<Rightarrow> ptr option" where
  "entry_item (Item p) = Some p" | "entry_item (Next n) = None"

fun entry_next :: "idx_entry \<Rightarrow> nat option" where
  "entry_next (Item p) = None" | "entry_next (Next n) = Some n"

definition idx_at :: "indexer \<Rightarrow> nat \<Rightarrow> ptr option" where
  "idx_at idx index = do { e \<leftarrow> entry_at idx index; entry_item e }"

text \<open>
  Growing adds a block whose entries are chained in ascending order before the old free list. The result
  is the first free index, or -1 with errno ENOMEM.
\<close>

definition idx_grow :: "bool \<Rightarrow> indexer \<Rightarrow> int \<times> indexer" where
  "idx_grow calloc_ok idx =
     (if idx_size idx \<ge> IDX_ARRAY_SIZE then (-1, idx)
      else if \<not> calloc_ok then (-1, idx\<lparr>idx_array := (idx_array idx)(idx_size idx := None)\<rparr>)
      else let start_index = push_bit IDX_ENTRY_BITS (idx_size idx);
               entry = map (\<lambda>i. Next (start_index + i + 1)) [0..<IDX_ENTRY_SIZE - 1] @ [Next (free_list idx)];
               first = (if start_index = 0 then start_index + 1 else start_index) in
        (int first, idx\<lparr>idx_array := (idx_array idx)(idx_size idx \<mapsto> entry),
                        free_list := first, idx_size := idx_size idx + 1\<rparr>))"

definition idx_insert :: "bool \<Rightarrow> indexer \<Rightarrow> ptr \<Rightarrow> (int \<times> indexer) option" where
  "idx_insert calloc_ok idx item =
     (let (index, idx) = (if free_list idx = 0 then idx_grow calloc_ok idx else (int (free_list idx), idx)) in
      if index \<le> 0 then Some (index, idx)
      else do {
        e \<leftarrow> entry_at idx (nat index);
        n \<leftarrow> entry_next e;
        idx \<leftarrow> put_entry (idx\<lparr>free_list := n\<rparr>) (nat index) (Item item);
        Some (index, idx) })"

definition idx_remove :: "indexer \<Rightarrow> nat \<Rightarrow> (ptr \<times> indexer) option" where
  "idx_remove idx index = do {
     item \<leftarrow> idx_at idx index;
     idx \<leftarrow> put_entry idx index (Next (free_list idx));
     Some (item, idx\<lparr>free_list := index\<rparr>) }"

definition idx_replace :: "indexer \<Rightarrow> nat \<Rightarrow> ptr \<Rightarrow> indexer option" where
  "idx_replace idx index item = put_entry idx index (Item item)"

text \<open>The index map.\<close>

type_synonym index_map = "nat \<rightharpoonup> ptr list"

definition idm_at :: "index_map \<Rightarrow> nat \<Rightarrow> ptr option" where
  "idm_at idm index = do {
     entry \<leftarrow> idm (idx_array_index index);
     (if idx_entry_index index < length entry then Some (entry ! idx_entry_index index) else None) }"

definition idm_lookup :: "index_map \<Rightarrow> nat \<Rightarrow> ptr option" where
  "idm_lookup idm index =
     (if index \<le> IDX_MAX_INDEX \<and> idm (idx_array_index index) \<noteq> None then idm_at idm index else Some None)"

definition idm_grow :: "bool \<Rightarrow> index_map \<Rightarrow> nat \<Rightarrow> int \<times> index_map" where
  "idm_grow calloc_ok idm index =
     (if calloc_ok then (int index, idm(idx_array_index index \<mapsto> replicate IDX_ENTRY_SIZE None))
      else (-1, idm(idx_array_index index := None)))"

definition idm_put :: "index_map \<Rightarrow> nat \<Rightarrow> ptr \<Rightarrow> index_map option" where
  "idm_put idm index item = do {
     entry \<leftarrow> idm (idx_array_index index);
     (if idx_entry_index index < length entry
      then Some (idm(idx_array_index index \<mapsto> entry[idx_entry_index index := item])) else None) }"

definition idm_set :: "bool \<Rightarrow> index_map \<Rightarrow> nat \<Rightarrow> ptr \<Rightarrow> (int \<times> index_map) option" where
  "idm_set calloc_ok idm index item =
     (if index > IDX_MAX_INDEX then Some (-1, idm)
      else let (ret, idm) = (if idm (idx_array_index index) = None then idm_grow calloc_ok idm index else (0, idm)) in
        if ret < 0 then Some (-1, idm)
        else do { idm \<leftarrow> idm_put idm index item; Some (int index, idm) })"

definition idm_clear :: "index_map \<Rightarrow> nat \<Rightarrow> (ptr \<times> index_map) option" where
  "idm_clear idm index = do {
     item \<leftarrow> idm_at idm index;
     idm \<leftarrow> idm_put idm index None;
     Some (item, idm) }"

subsection \<open>Indices\<close>

lemma idx_consts [simp]: "IDX_ENTRY_SIZE = 1024" "IDX_ARRAY_SIZE = 64" "IDX_MAX_INDEX = 65535"
  by (simp_all add: IDX_ENTRY_SIZE_def IDX_ARRAY_SIZE_def IDX_MAX_INDEX_def)

lemma idx_array_index_div: "idx_array_index i = i div 1024"
  by (simp add: idx_array_index_def drop_bit_eq_div)

lemma idx_entry_index_mod: "idx_entry_index i = i mod 1024"
proof -
  have "i AND 1023 = take_bit 10 i" by (simp add: take_bit_eq_mask mask_eq_exp_minus_1)
  then show ?thesis by (simp add: idx_entry_index_def take_bit_eq_mod)
qed

lemmas idx_split = idx_array_index_div idx_entry_index_mod

lemma index_same: "i div 1024 = j div 1024 \<Longrightarrow> i mod 1024 = j mod 1024 \<Longrightarrow> i = (j :: nat)"
  by (metis mult_div_mod_eq)

lemma entry_at_put:
  assumes "entry_at idx i \<noteq> None"
  shows "\<exists>idx'. put_entry idx i e = Some idx' \<and> free_list idx' = free_list idx \<and> idx_size idx' = idx_size idx \<and>
           (\<forall>j. entry_at idx' j = (if j = i then Some e else entry_at idx j)) \<and>
           (\<forall>k. map_option length (idx_array idx' k) = map_option length (idx_array idx k))"
proof -
  obtain b where b: "idx_array idx (i div 1024) = Some b" "i mod 1024 < length b"
    using assms by (auto simp: entry_at_def idx_split split: if_splits bind_splits)
  then show ?thesis
    using index_same [of _ i] by (auto simp: put_entry_def entry_at_def idx_split nth_list_update split: bind_splits)
qed

subsection \<open>The free list and the stored items\<close>

fun free_chain :: "(nat \<Rightarrow> idx_entry option) \<Rightarrow> nat \<Rightarrow> nat list \<Rightarrow> bool" where
  "free_chain en n [] \<longleftrightarrow> n = 0"
| "free_chain en n (i # fl) \<longleftrightarrow> n = i \<and> i \<noteq> 0 \<and> (case en i of Some (Next k) \<Rightarrow> free_chain en k fl | _ \<Rightarrow> False)"

definition idx_map :: "indexer \<Rightarrow> nat \<rightharpoonup> ptr" where
  "idx_map idx i = (if i = 0 then None else case entry_at idx i of Some (Item p) \<Rightarrow> Some p | _ \<Rightarrow> None)"

text \<open>The invariant: the blocks in use are complete and the free list threads exactly the free entries.\<close>

definition idx_ok :: "indexer \<Rightarrow> nat list \<Rightarrow> bool" where
  "idx_ok idx fl \<longleftrightarrow> idx_size idx \<le> 64 \<and>
     (\<forall>k. map_option length (idx_array idx k) = (if k < idx_size idx then Some 1024 else None)) \<and>
     free_chain (entry_at idx) (free_list idx) fl \<and> distinct fl \<and>
     (\<forall>i. i \<in> set fl \<longleftrightarrow> 0 < i \<and> (\<exists>n. entry_at idx i = Some (Next n)))"

lemma free_chain_cong:
  "(\<And>i. i \<in> set fl \<Longrightarrow> en i = en' i) \<Longrightarrow> free_chain en n fl = free_chain en' n fl"
  by (induction fl arbitrary: n) (auto split: option.splits idx_entry.splits)

lemma entry_at_defined: "idx_ok idx fl \<Longrightarrow> entry_at idx i \<noteq> None \<longleftrightarrow> i < 1024 * idx_size idx"
proof -
  assume "idx_ok idx fl"
  then have "map_option length (idx_array idx (i div 1024)) = (if i div 1024 < idx_size idx then Some 1024 else None)"
    by (simp add: idx_ok_def)
  then show ?thesis
    by (auto simp: entry_at_def idx_split div_less_iff_less_mult mult.commute split: bind_splits if_splits)
qed

lemma idx_ok_cases:
  assumes "idx_ok idx fl" "0 < i" "i < 1024 * idx_size idx"
  obtains (free) n where "i \<in> set fl" "entry_at idx i = Some (Next n)" "idx_map idx i = None"
  | (used) p where "i \<notin> set fl" "entry_at idx i = Some (Item p)" "idx_map idx i = Some p"
proof -
  obtain e where e: "entry_at idx i = Some e" using entry_at_defined [OF assms(1)] assms(3) by auto
  have "i \<in> set fl \<longleftrightarrow> (\<exists>n. entry_at idx i = Some (Next n))" using assms(1,2) by (simp add: idx_ok_def)
  then show thesis using e assms(2) free used by (cases e) (auto simp: idx_map_def)
qed

lemma entry_at_free_list [simp]: "entry_at (idx\<lparr>free_list := n\<rparr>) = entry_at idx"
  by (auto simp: entry_at_def)

lemma idx_map_put:
  assumes "\<forall>j. entry_at idx' j = (if j = i then Some e else entry_at idx j)" "0 < i"
  shows "idx_map idx' = (idx_map idx)(i := (case e of Item p \<Rightarrow> Some p | Next n \<Rightarrow> None))"
  using assms by (auto simp: idx_map_def fun_eq_iff split: idx_entry.splits)

lemma take_free:
  assumes ok: "idx_ok idx (i # fl)"
  obtains n idx' where "free_list idx = i" "0 < i" "entry_at idx i = Some (Next n)"
    "put_entry (idx\<lparr>free_list := n\<rparr>) i (Item p) = Some idx'" "idx_ok idx' fl" "idx_map idx' = (idx_map idx)(i \<mapsto> p)"
proof -
  obtain n where n: "free_list idx = i" "0 < i" "entry_at idx i = Some (Next n)" "free_chain (entry_at idx) n fl"
    using ok by (auto simp: idx_ok_def split: option.splits idx_entry.splits)
  obtain idx' where idx': "put_entry (idx\<lparr>free_list := n\<rparr>) i (Item p) = Some idx'" "free_list idx' = n"
    "idx_size idx' = idx_size idx" "\<forall>j. entry_at idx' j = (if j = i then Some (Item p) else entry_at idx j)"
    "\<forall>k. map_option length (idx_array idx' k) = map_option length (idx_array idx k)"
    using entry_at_put [of "idx\<lparr>free_list := n\<rparr>" i "Item p"] n(3) by auto
  have "free_chain (entry_at idx') n fl = free_chain (entry_at idx) n fl"
    by (rule free_chain_cong) (use idx'(4) ok in \<open>auto simp: idx_ok_def\<close>)
  moreover have "j \<in> set fl \<longleftrightarrow> 0 < j \<and> (\<exists>n. entry_at idx' j = Some (Next n))" for j
    using ok idx'(4) by (auto simp: idx_ok_def)
  ultimately have "idx_ok idx' fl" using ok idx' n(4) by (simp add: idx_ok_def)
  moreover have "idx_map idx' = (idx_map idx)(i \<mapsto> p)"
    using idx_map_put [OF idx'(4) n(2)] by simp
  ultimately show thesis using that n idx'(1) by blast
qed

lemma chain_upt:
  "a < b \<Longrightarrow> 0 < a \<Longrightarrow> (\<And>i. a \<le> i \<Longrightarrow> i < b \<Longrightarrow> en i = Some (Next (if i + 1 = b then 0 else i + 1))) \<Longrightarrow>
   free_chain en a [a..<b]"
proof (induction "b - a" arbitrary: a)
  case (Suc d)
  have up: "[a..<b] = a # [a + 1..<b]" using Suc.prems(1) by (simp add: upt_conv_Cons)
  show ?case
  proof (cases "a + 1 = b")
    case True
    then show ?thesis using Suc.prems by (simp add: up)
  next
    case False
    then have "free_chain en (a + 1) [a + 1..<b]" using Suc by (intro Suc.hyps(1)) auto
    then show ?thesis using Suc.prems False by (simp add: up)
  qed
qed simp

lemma idx_grow_spec:
  assumes ok: "idx_ok idx []" and room: "idx_size idx < 64"
  obtains f idx' where "idx_grow True idx = (int f, idx')" "f = max 1 (1024 * idx_size idx)"
    "idx_ok idx' [f..<1024 * (idx_size idx + 1)]" "idx_map idx' = idx_map idx"
proof -
  let ?s = "1024 * idx_size idx" let ?f = "max 1 ?s"
  let ?b = "map (\<lambda>i. Next (?s + i + 1)) [0..<1023] @ [Next 0]"
  define idx' where "idx' = idx\<lparr>idx_array := (idx_array idx)(idx_size idx \<mapsto> ?b), free_list := ?f, idx_size := idx_size idx + 1\<rparr>"
  have fl0: "free_list idx = 0" using ok by (simp add: idx_ok_def)
  have old: "map_option length (idx_array idx k) = (if k < idx_size idx then Some 1024 else None)" for k
    using ok by (simp add: idx_ok_def)
  have grow: "idx_grow True idx = (int ?f, idx')"
    using room fl0 by (auto simp: idx_grow_def idx'_def Let_def push_bit_eq_mult mult.commute max_def)
  have new: "entry_at idx' i = (if i div 1024 = idx_size idx
      then Some (Next (if i + 1 = ?s + 1024 then 0 else i + 1)) else entry_at idx i)" for i
  proof (cases "i div 1024 = idx_size idx")
    case True
    then have "i = ?s + i mod 1024" by (metis mult_div_mod_eq)
    moreover have "i mod 1024 < 1024" by simp
    ultimately show ?thesis using True by (auto simp: idx'_def entry_at_def idx_split nth_append)
  qed (simp add: idx'_def entry_at_def idx_split)
  have none: "entry_at idx i = None" if "idx_size idx \<le> i div 1024" for i
    using old [of "i div 1024"] that by (simp add: entry_at_def idx_split)
  have div: "i div 1024 = idx_size idx \<longleftrightarrow> ?s \<le> i \<and> i < ?s + 1024" for i
    using mult_div_mod_eq [of 1024 i] mod_less_divisor [of 1024 i] by (auto intro!: div_nat_eqI)
  have ge: "idx_size idx \<le> i div 1024 \<longleftrightarrow> ?s \<le> i" for i
    by (simp add: less_eq_div_iff_mult_less_eq mult.commute)
  have "free_chain (entry_at idx') ?f [?f..<?s + 1024]"
    by (rule chain_upt) (auto simp: new div)
  moreover have "i \<in> set [?f..<?s + 1024] \<longleftrightarrow> 0 < i \<and> (\<exists>n. entry_at idx' i = Some (Next n))" for i
  proof -
    have "\<not> (0 < i \<and> (\<exists>n. entry_at idx i = Some (Next n)))" using ok by (simp add: idx_ok_def)
    then show ?thesis using new [of i] div [of i] by auto
  qed
  moreover have "map_option length (idx_array idx' k) = (if k < idx_size idx' then Some 1024 else None)" for k
    using old [of k] by (auto simp: idx'_def)
  moreover have "free_list idx' = ?f" "idx_size idx' = idx_size idx + 1" by (simp_all add: idx'_def)
  moreover have "1024 * (idx_size idx + 1) = ?s + 1024" by simp
  ultimately have "idx_ok idx' [?f..<1024 * (idx_size idx + 1)]"
    using room unfolding idx_ok_def by (metis Suc_eq_plus1 distinct_upt less_eq_Suc_le)
  moreover have "idx_map idx' = idx_map idx"
    using new none ge div by (auto simp: idx_map_def fun_eq_iff)
  ultimately show thesis using that grow by blast
qed

lemma idx_insert_take:
  assumes ok: "idx_ok idx (i # fl)"
  obtains idx' where "idx_insert calloc_ok idx p = Some (int i, idx')" "idx_ok idx' fl" "idx_map idx' = (idx_map idx)(i \<mapsto> p)"
proof (rule take_free [OF ok, of p])
  fix n idx'
  assume "free_list idx = i" "0 < i" "entry_at idx i = Some (Next n)" "idx_ok idx' fl" "idx_map idx' = (idx_map idx)(i \<mapsto> p)"
    "put_entry (idx\<lparr>free_list := n\<rparr>) i (Item p) = Some idx'"
  then show thesis by (intro that [of idx']) (simp_all add: idx_insert_def)
qed

lemma idx_free_index:
  assumes "idx_ok idx fl" "i \<in> set fl"
  shows "0 < i \<and> i < 65536 \<and> idx_map idx i = None"
proof -
  have "0 < i" "\<exists>n. entry_at idx i = Some (Next n)" "idx_size idx \<le> 64" using assms by (auto simp: idx_ok_def)
  then show ?thesis using entry_at_defined [OF assms(1), of i] by (auto simp: idx_map_def)
qed

lemma idx_insert_spec:
  assumes ok: "idx_ok idx fl"
  obtains (failed) "idx_insert calloc_ok idx p = Some (-1, idx)" "fl = []" "\<not> calloc_ok \<or> idx_size idx = 64"
  | (stored) i idx' fl' where "idx_insert calloc_ok idx p = Some (int i, idx')" "idx_ok idx' fl'" "0 < i" "i < 65536"
      "idx_map idx i = None" "idx_map idx' = (idx_map idx)(i \<mapsto> p)" "fl \<noteq> [] \<longrightarrow> i = hd fl"
proof (cases fl)
  case Nil
  have fl0: "free_list idx = 0" and sz: "idx_size idx \<le> 64"
    and "map_option length (idx_array idx (idx_size idx)) = None"
    using ok Nil by (auto simp: idx_ok_def)
  then have none: "idx_array idx (idx_size idx) = None" by simp
  show thesis
  proof (cases "calloc_ok \<and> idx_size idx < 64")
    case True
    then have room: "idx_size idx < 64" by simp
    obtain f idx1 where g: "idx_grow True idx = (int f, idx1)" "f = max 1 (1024 * idx_size idx)"
      "idx_ok idx1 [f..<1024 * (idx_size idx + 1)]" "idx_map idx1 = idx_map idx"
      by (rule idx_grow_spec [OF ok [unfolded Nil] room])
    have up: "[f..<1024 * (idx_size idx + 1)] = f # [f + 1..<1024 * (idx_size idx + 1)]"
      using upt_conv_Cons [of f "1024 * (idx_size idx + 1)"] g(2) by (simp only: Suc_eq_plus1) simp
    obtain idx' where i: "idx_insert True idx1 p = Some (int f, idx')" "idx_ok idx' [f + 1..<1024 * (idx_size idx + 1)]"
      "idx_map idx' = (idx_map idx1)(f \<mapsto> p)"
      by (rule idx_insert_take [OF g(3) [unfolded up], of True p])
    have "idx_insert calloc_ok idx p = idx_insert True idx1 p"
      using True fl0 g(1,2) g(3) unfolding up by (simp add: idx_insert_def idx_ok_def)
    then show thesis using stored [of f idx'] i g Nil idx_free_index [OF g(3), of f] unfolding up by auto
  next
    case False
    then show thesis using failed Nil fl0 sz none by (auto simp: idx_insert_def idx_grow_def fun_upd_idem)
  qed
next
  case (Cons i js)
  obtain idx' where "idx_insert calloc_ok idx p = Some (int i, idx')" "idx_ok idx' js" "idx_map idx' = (idx_map idx)(i \<mapsto> p)"
    by (rule idx_insert_take [OF ok [unfolded Cons], of calloc_ok p])
  then show thesis using stored idx_free_index [OF ok, of i] Cons by auto
qed

lemma idx_at_map: "idx_map idx i = Some p \<Longrightarrow> idx_at idx i = Some p"
  by (auto simp: idx_map_def idx_at_def split: if_splits option.splits idx_entry.splits)

lemma idx_map_entry: "idx_map idx i = Some p \<Longrightarrow> 0 < i \<and> entry_at idx i = Some (Item p)"
  by (auto simp: idx_map_def split: if_splits option.splits idx_entry.splits)

lemma idx_remove_spec:
  assumes ok: "idx_ok idx fl" and i: "idx_map idx i = Some p"
  obtains idx' where "idx_remove idx i = Some (p, idx')" "idx_ok idx' (i # fl)" "idx_map idx' = (idx_map idx)(i := None)"
proof -
  have e: "0 < i" "entry_at idx i = Some (Item p)" using idx_map_entry [OF i] by auto
  obtain idx1 where idx1: "put_entry idx i (Next (free_list idx)) = Some idx1" "free_list idx1 = free_list idx"
    "idx_size idx1 = idx_size idx" "\<forall>j. entry_at idx1 j = (if j = i then Some (Next (free_list idx)) else entry_at idx j)"
    "\<forall>k. map_option length (idx_array idx1 k) = map_option length (idx_array idx k)"
    using entry_at_put [of idx i "Next (free_list idx)"] e(2) by auto
  have fresh: "i \<notin> set fl" using ok e by (simp add: idx_ok_def)
  have "free_chain (entry_at idx1) (free_list idx) fl = free_chain (entry_at idx) (free_list idx) fl"
    by (rule free_chain_cong) (use idx1(4) fresh in auto)
  then have "idx_ok (idx1\<lparr>free_list := i\<rparr>) (i # fl)"
    using ok idx1 e fresh by (auto simp: idx_ok_def)
  moreover have "idx_map (idx1\<lparr>free_list := i\<rparr>) = (idx_map idx)(i := None)"
    using idx_map_put [of "idx1\<lparr>free_list := i\<rparr>" i _ idx] idx1(4) e(1) by simp
  ultimately show thesis
    using that idx_at_map [OF i] idx1(1) by (simp add: idx_remove_def)
qed

lemma idx_replace_spec:
  assumes ok: "idx_ok idx fl" and i: "idx_map idx i = Some p"
  obtains idx' where "idx_replace idx i q = Some idx'" "idx_ok idx' fl" "idx_map idx' = (idx_map idx)(i \<mapsto> q)"
proof -
  have e: "0 < i" "entry_at idx i = Some (Item p)" using idx_map_entry [OF i] by auto
  obtain idx1 where idx1: "put_entry idx i (Item q) = Some idx1" "free_list idx1 = free_list idx"
    "idx_size idx1 = idx_size idx" "\<forall>j. entry_at idx1 j = (if j = i then Some (Item q) else entry_at idx j)"
    "\<forall>k. map_option length (idx_array idx1 k) = map_option length (idx_array idx k)"
    using entry_at_put [of idx i "Item q"] e(2) by auto
  have fresh: "i \<notin> set fl" using ok e by (simp add: idx_ok_def)
  have "free_chain (entry_at idx1) (free_list idx) fl = free_chain (entry_at idx) (free_list idx) fl"
    by (rule free_chain_cong) (use idx1(4) fresh in auto)
  then have "idx_ok idx1 fl" using ok idx1 e fresh by (auto simp: idx_ok_def)
  then show thesis using that idx1 idx_map_put [OF idx1(4) e(1)] by (simp add: idx_replace_def)
qed
subsection \<open>The states a client can reach\<close>

definition zero_indexer :: indexer where
  "zero_indexer = \<lparr>idx_array = Map.empty, free_list = 0, idx_size = 0\<rparr>"

text \<open>
  A client starts from the zeroed structure, inserts whatever the allocator does, and removes and replaces at
  indices it was given and did not remove. The map is the client's own book of them.
\<close>

inductive idx_reach :: "indexer \<Rightarrow> (nat \<rightharpoonup> ptr) \<Rightarrow> bool" where
  init: "idx_reach zero_indexer Map.empty"
| insert: "idx_reach idx m \<Longrightarrow> idx_insert calloc_ok idx p = Some (r, idx') \<Longrightarrow>
     idx_reach idx' (if 0 < r then m(nat r \<mapsto> p) else m)"
| remove: "idx_reach idx m \<Longrightarrow> m i = Some p \<Longrightarrow> idx_remove idx i = Some (q, idx') \<Longrightarrow> idx_reach idx' (m(i := None))"
| replace: "idx_reach idx m \<Longrightarrow> m i = Some p \<Longrightarrow> idx_replace idx i q = Some idx' \<Longrightarrow> idx_reach idx' (m(i \<mapsto> q))"

lemma idx_reach_inv: "idx_reach idx m \<Longrightarrow> \<exists>fl. idx_ok idx fl \<and> idx_map idx = m"
proof (induction rule: idx_reach.induct)
  case init
  have "idx_ok zero_indexer [] \<and> idx_map zero_indexer = Map.empty"
    by (auto simp: idx_ok_def idx_map_def zero_indexer_def entry_at_def fun_eq_iff)
  then show ?case by blast
next
  case (insert idx m calloc_ok p r idx')
  then obtain fl where fl: "idx_ok idx fl" "idx_map idx = m" by auto
  show ?case by (rule idx_insert_spec [OF fl(1), of calloc_ok p]) (use insert.hyps(2) fl in auto)
next
  case (remove idx m i p q idx')
  then obtain fl where fl: "idx_ok idx fl" "idx_map idx = m" by auto
  show ?case by (rule idx_remove_spec [OF fl(1), of i p]) (use remove.hyps(2,3) fl in auto)
next
  case (replace idx m i p q idx')
  then obtain fl where fl: "idx_ok idx fl" "idx_map idx = m" by auto
  show ?case by (rule idx_replace_spec [OF fl(1), of i p q]) (use replace.hyps(2,3) fl in auto)
qed

lemma idx_map_bound: "idx_ok idx fl \<Longrightarrow> idx_map idx i = Some p \<Longrightarrow> 0 < i \<and> i < 65536"
  using idx_map_entry [of idx i p] entry_at_defined [of idx fl i] by (auto simp: idx_ok_def)

lemma idx_full:
  assumes "idx_ok idx []" "idx_size idx = 64"
  shows "dom (idx_map idx) = {1..65535}"
proof -
  have "idx_map idx i \<noteq> None" if "0 < i" "i < 65536" for i
    using that assms(2) by (cases rule: idx_ok_cases [OF assms(1) that(1)]) auto
  then show ?thesis using idx_map_bound [OF assms(1)] by (auto simp: dom_def Suc_le_eq less_Suc_eq_le [symmetric])
qed

text \<open>C15. Indices and items stay paired: in every state a client reaches, each index it holds still gives the item it
  stored there, and inserting never faults. It returns a new index between 1 and 65535 that nobody holds, under
  which the item is found, or -1, and then the state is unchanged and either the allocation failed or all 65535
  indices are in use.
\<close>

theorem idx_calls_exact:
  assumes "idx_reach idx m"
  shows "(\<forall>i p. m i = Some p \<longrightarrow> idx_at idx i = Some p) \<and>
         (\<exists>r idx'. idx_insert calloc_ok idx q = Some (r, idx') \<and>
            (r = -1 \<and> idx' = idx \<and> (calloc_ok \<longrightarrow> dom m = {1..65535}) \<or>
             1 \<le> r \<and> r \<le> 65535 \<and> m (nat r) = None \<and> idx_at idx' (nat r) = Some q))"
proof -
  obtain fl where fl: "idx_ok idx fl" "idx_map idx = m" using idx_reach_inv [OF assms] by auto
  have "\<exists>r idx'. idx_insert calloc_ok idx q = Some (r, idx') \<and>
            (r = -1 \<and> idx' = idx \<and> (calloc_ok \<longrightarrow> dom m = {1..65535}) \<or>
             1 \<le> r \<and> r \<le> 65535 \<and> m (nat r) = None \<and> idx_at idx' (nat r) = Some q)"
    by (rule idx_insert_spec [OF fl(1), of calloc_ok q]) (use fl idx_full idx_at_map in auto)
  then show ?thesis using fl(2) idx_at_map by blast
qed

theorem idx_calls_exact_witness:
  "\<exists>r idx'. idx_insert True zero_indexer (Some 8) = Some (r, idx') \<and> 1 \<le> r \<and> idx_at idx' (nat r) = Some (Some 8)"
  using idx_calls_exact [OF idx_reach.init, of True "Some 8"] by auto

text \<open>C16. A removed index is the next one handed out: removing an index the client holds returns the item stored there,
  and the insertion that follows succeeds with the same index, even when no memory can be allocated.
\<close>

theorem idx_remove_reuses:
  assumes "idx_reach idx m" "m i = Some p"
  shows "\<exists>idx1 idx2. idx_remove idx i = Some (p, idx1) \<and> idx_insert calloc_ok idx1 q = Some (int i, idx2)"
proof -
  obtain fl where fl: "idx_ok idx fl" "idx_map idx i = Some p" using idx_reach_inv [OF assms(1)] assms(2) by auto
  obtain idx1 where r: "idx_remove idx i = Some (p, idx1)" "idx_ok idx1 (i # fl)" by (rule idx_remove_spec [OF fl])
  then show ?thesis using idx_insert_take [OF r(2), of calloc_ok q] by blast
qed

theorem idx_remove_reuses_witness:
  "\<exists>i idx idx1 idx2. idx_insert True zero_indexer (Some 8) = Some (int i, idx) \<and>
     idx_remove idx i = Some (Some 8, idx1) \<and> idx_insert False idx1 (Some 16) = Some (int i, idx2)"
proof -
  obtain fl where fl: "idx_ok zero_indexer fl" using idx_reach_inv [OF idx_reach.init] by auto
  obtain i idx where s: "idx_insert True zero_indexer (Some 8) = Some (int i, idx)" "0 < i"
    by (rule idx_insert_spec [OF fl, of True "Some 8"]) (auto simp: zero_indexer_def)
  then have "idx_reach idx [i \<mapsto> Some 8]" using idx_reach.insert [OF idx_reach.init s(1)] by simp
  then show ?thesis using idx_remove_reuses [of idx "[i \<mapsto> Some 8]" i "Some 8" False "Some 16"] s(1) by auto
qed

subsection \<open>The index map as a table\<close>

definition idm_ok :: "index_map \<Rightarrow> bool" where
  "idm_ok idm \<longleftrightarrow> (\<forall>k b. idm k = Some b \<longrightarrow> length b = 1024)"

lemma idm_lookup_eq:
  assumes "idm_ok idm"
  shows "idm_lookup idm i = Some (if i \<le> 65535 then case idm (i div 1024) of Some b \<Rightarrow> b ! (i mod 1024) | None \<Rightarrow> None else None)"
proof (cases "idm (i div 1024)")
  case (Some b)
  then have "length b = 1024" using assms by (auto simp: idm_ok_def)
  then show ?thesis using Some by (simp add: idm_lookup_def idm_at_def idx_split)
qed (simp add: idm_lookup_def idx_split)

lemma idm_put_eq:
  assumes "idm_ok idm" "idm (i div 1024) = Some b"
  shows "idm_put idm i p = Some (idm(i div 1024 \<mapsto> b[i mod 1024 := p]))"
  using assms by (simp add: idm_put_def idx_split idm_ok_def)

lemma idm_set_eq:
  assumes "idm_ok idm" "i \<le> 65535"
  shows "idm_set calloc_ok idm i p =
    Some (case idm (i div 1024) of
            Some b \<Rightarrow> (int i, idm(i div 1024 \<mapsto> b[i mod 1024 := p]))
          | None \<Rightarrow> if calloc_ok then (int i, idm(i div 1024 \<mapsto> (replicate 1024 None)[i mod 1024 := p])) else (-1, idm))"
proof (cases "idm (i div 1024)")
  case None
  have "idm_ok (idm(i div 1024 \<mapsto> replicate 1024 None))" using assms(1) by (auto simp: idm_ok_def)
  from idm_put_eq [OF this, of i "replicate 1024 None" p] show ?thesis
    using None assms(2) by (simp add: idm_set_def idm_grow_def idx_split fun_upd_idem)
next
  case (Some b)
  then show ?thesis using idm_put_eq [OF assms(1) Some, of p] assms(2) by (simp add: idm_set_def idx_split)
qed

definition idm_block :: "index_map \<Rightarrow> nat \<Rightarrow> ptr list" where
  "idm_block idm k = (case idm k of Some b \<Rightarrow> b | None \<Rightarrow> replicate 1024 None)"

lemma idm_block_length [simp]: "idm_ok idm \<Longrightarrow> length (idm_block idm k) = 1024"
  by (auto simp: idm_block_def idm_ok_def split: option.splits)

lemma idm_lookup_block:
  "idm_ok idm \<Longrightarrow> idm_lookup idm i = Some (if i \<le> 65535 then idm_block idm (i div 1024) ! (i mod 1024) else None)"
  by (auto simp: idm_lookup_eq idm_block_def split: option.splits)

lemma idm_clear_eq:
  assumes "idm_ok idm"
  shows "idm_clear idm i = (case idm (i div 1024) of Some b \<Rightarrow> Some (b ! (i mod 1024), idm(i div 1024 \<mapsto> b[i mod 1024 := None])) | None \<Rightarrow> None)"
proof (cases "idm (i div 1024)")
  case (Some b)
  then have "length b = 1024" using assms by (auto simp: idm_ok_def)
  then show ?thesis using Some idm_put_eq [OF assms Some] by (simp add: idm_clear_def idm_at_def idx_split)
qed (simp add: idm_clear_def idm_at_def idx_split)

lemma idm_upd:
  assumes "idm_ok idm"
  shows "idm_ok (idm(i div 1024 \<mapsto> (idm_block idm (i div 1024))[i mod 1024 := p]))"
    "idm_block (idm(i div 1024 \<mapsto> (idm_block idm (i div 1024))[i mod 1024 := p])) (j div 1024) ! (j mod 1024) =
     (if j = i then p else idm_block idm (j div 1024) ! (j mod 1024))"
proof -
  show "idm_ok (idm(i div 1024 \<mapsto> (idm_block idm (i div 1024))[i mod 1024 := p]))"
    using assms idm_block_length [OF assms] by (auto simp: idm_ok_def)
  have "i mod 1024 < length (idm_block idm (i div 1024))" using assms by simp
  then show "idm_block (idm(i div 1024 \<mapsto> (idm_block idm (i div 1024))[i mod 1024 := p])) (j div 1024) ! (j mod 1024) =
     (if j = i then p else idm_block idm (j div 1024) ! (j mod 1024))"
    using index_same [of i j] by (auto simp: idm_block_def nth_list_update)
qed

text \<open>
  The calls a client makes on a map, each with the answer of the allocator: a store of a pointer, NULL included,
  which is refused with -1, and a clear. Beside the map of the items goes the set of the blocks allocated so far.
\<close>

inductive idm_reach :: "index_map \<Rightarrow> (nat \<rightharpoonup> addr) \<Rightarrow> nat set \<Rightarrow> bool" where
  idm_start: "idm_reach Map.empty Map.empty {}"
| idm_stored: "idm_reach idm m A \<Longrightarrow> idm_set calloc_ok idm i p = Some (r, idm') \<Longrightarrow> r \<noteq> -1 \<Longrightarrow>
    idm_reach idm' (m(i := p)) (insert (idx_array_index i) A)"
| idm_refused: "idm_reach idm m A \<Longrightarrow> idm_set calloc_ok idm i p = Some (-1, idm') \<Longrightarrow> idm_reach idm' m A"
| idm_cleared: "idm_reach idm m A \<Longrightarrow> idm_clear idm i = Some (p, idm') \<Longrightarrow> idm_reach idm' (m(i := None)) A"

definition idm_holds :: "index_map \<Rightarrow> (nat \<rightharpoonup> addr) \<Rightarrow> nat set \<Rightarrow> bool" where
  "idm_holds idm m A \<longleftrightarrow> idm_ok idm \<and> dom idm = A \<and> A \<subseteq> {..63} \<and>
     (\<forall>j. idm_lookup idm j = Some (m j))"

lemma idm_set_cases:
  assumes "idm_ok idm"
  shows "idm_set calloc_ok idm i p =
    Some (if i \<le> 65535 \<and> (calloc_ok \<or> i div 1024 \<in> dom idm)
          then (int i, idm(i div 1024 \<mapsto> (idm_block idm (i div 1024))[i mod 1024 := p])) else (-1, idm))"
  using idm_set_eq [OF assms, of i calloc_ok p]
  by (cases "i \<le> 65535") (auto simp: idm_block_def idm_set_def split: option.splits)

lemma idm_holds_item:
  "idm_holds idm m A \<Longrightarrow> m j = (if j \<le> 65535 then idm_block idm (j div 1024) ! (j mod 1024) else None)"
  using idm_lookup_block [of idm j] by (auto simp: idm_holds_def)

lemma idm_clear_cases:
  assumes "idm_holds idm m A"
  shows "idm_clear idm i =
    (if i div 1024 \<in> A then Some (m i, idm(i div 1024 \<mapsto> (idm_block idm (i div 1024))[i mod 1024 := None])) else None)"
proof -
  have ok: "idm_ok idm" "dom idm = A" "A \<subseteq> {..63}" using assms by (simp_all add: idm_holds_def)
  have "i \<le> 65535" if "i div 1024 \<in> A" using ok(3) that by (auto dest: subsetD)
  with ok show ?thesis
    using idm_clear_eq [OF ok(1), of i] by (auto simp: idm_holds_item [OF assms] idm_block_def dom_def split: option.splits)
qed

lemma idm_holds_upd:
  assumes "idm_holds idm m A" "i \<le> 65535"
  shows "idm_holds (idm(i div 1024 \<mapsto> (idm_block idm (i div 1024))[i mod 1024 := p])) (m(i := p)) (insert (i div 1024) A)"
proof -
  have ok: "idm_ok idm" "dom idm = A" "A \<subseteq> {..63}"
    using assms(1) by (simp_all add: idm_holds_def)
  have "i div 1024 \<le> 63" using assms(2) by (simp add: div_le_mono)
  then show ?thesis
    using idm_upd(1) [OF ok(1), of i p] idm_upd(2) [OF ok(1), of i p] ok assms(2)
    by (auto simp: idm_holds_def idm_lookup_block ok(1) idm_holds_item [OF assms(1)])
qed

lemma idm_reach_holds: "idm_reach idm m A \<Longrightarrow> idm_holds idm m A"
proof (induction rule: idm_reach.induct)
  case idm_start
  then show ?case by (auto simp: idm_holds_def idm_ok_def idm_lookup_def)
next
  case (idm_stored idm m A calloc_ok i p r idm')
  then show ?case
    using idm_holds_upd [OF idm_stored.IH, of i p] idm_set_cases [of idm calloc_ok i p]
    by (auto simp: idm_holds_def idx_split split: if_splits)
next
  case (idm_refused idm m A calloc_ok i p idm')
  then show ?case using idm_set_cases [of idm calloc_ok i p] by (auto simp: idm_holds_def split: if_splits)
next
  case (idm_cleared idm m A i p idm')
  then have c: "i div 1024 \<in> A" "idm' = idm(i div 1024 \<mapsto> (idm_block idm (i div 1024))[i mod 1024 := None])"
    using idm_clear_cases [OF idm_cleared.IH, of i] by (auto split: if_splits)
  then have "i div 1024 \<le> 63" using idm_cleared.IH by (auto simp: idm_holds_def)
  then have "i \<le> 65535" by simp
  from idm_holds_upd [OF idm_cleared.IH this, of None] show ?case unfolding c(2) insert_absorb [OF c(1)] .
qed

text \<open>C17. The index map is a map: after any history of stores, some refused because an allocation failed or the index
  was too large, and of clears, a lookup at any index gives the item stored last there, and NULL when none was stored
  or it was cleared since. The next store returns the index, or -1 with the map unchanged exactly when the index is
  above 65535 or its block of 1024 entries is missing and cannot be allocated. The next clear returns the item at the index
  if its block was ever allocated, and reads through a null pointer otherwise.
\<close>

theorem index_map_refines_map:
  assumes "idm_reach idm m A"
  shows "idm_lookup idm j = Some (m j) \<and>
    (\<exists>r idm'. idm_set calloc_ok idm i p = Some (r, idm') \<and>
       (if i \<le> IDX_MAX_INDEX \<and> (calloc_ok \<or> idx_array_index i \<in> A)
        then r = int i \<and> idm_lookup idm' i = Some p else r = -1 \<and> idm' = idm)) \<and>
    (case idm_clear idm i of
       None \<Rightarrow> idx_array_index i \<notin> A
     | Some (q, idm') \<Rightarrow> idx_array_index i \<in> A \<and> q = m i \<and> idm_lookup idm' i = Some None)"
proof -
  note h = idm_reach_holds [OF assms]
  then have ok: "idm_ok idm" "dom idm = A" "A \<subseteq> {..63}" "idm_lookup idm j = Some (m j)" by (simp_all add: idm_holds_def)
  have le: "i \<le> 65535" if "i div 1024 \<in> A" using ok(3) that by (auto dest: subsetD)
  have "idm_lookup (idm(i div 1024 \<mapsto> (idm_block idm (i div 1024))[i mod 1024 := p])) i = Some p" if "i \<le> 65535" for p
    using idm_holds_upd [OF h that, of p] by (simp add: idm_holds_def)
  then show ?thesis
    using ok(4) le unfolding idm_clear_cases [OF h] idm_set_cases [OF ok(1)] ok(2)
    by (auto simp: idx_split)
qed

theorem index_map_refines_map_witness:
  "\<exists>idm idm' idm''. idm_set True Map.empty 70 (Some 8) = Some (70, idm) \<and> idm_set False idm 5000 (Some 16) = Some (-1, idm') \<and>
     idm_clear idm' 70 = Some (Some 8, idm'') \<and> idm_lookup idm'' 70 = Some None \<and> idm_clear idm' 5000 = None"
proof -
  obtain idm where 1: "idm_set True Map.empty 70 (Some 8) = Some (70, idm)"
    using index_map_refines_map [OF idm_start, of 0 True 70 "Some 8"] by (auto simp: IDX_MAX_INDEX_def)
  then have r1: "idm_reach idm [70 \<mapsto> 8] {idx_array_index 70}" using idm_stored [OF idm_start 1] by simp
  have b: "idx_array_index 5000 \<noteq> idx_array_index 70" by (simp add: idx_split)
  obtain idm' where 2: "idm_set False idm 5000 (Some 16) = Some (-1, idm')"
    using index_map_refines_map [OF r1, of 0 False 5000 "Some 16"] b by auto
  note r2 = idm_refused [OF r1 2]
  show ?thesis
    using index_map_refines_map [OF r2, of 0 True 70 None] index_map_refines_map [OF r2, of 0 True 5000 None] 1 2 b
    by (auto split: option.splits)
qed

end
