(* ===== verification/LinkedList.thy ===== *)
theory LinkedList
  imports Prelude
begin

text \<open>
  The intrusive doubly linked lists of \<^verbatim>\<open>ccan/list.h\<close> and of \<^verbatim>\<open>librdmacm/indexer.h\<close>, on an explicit heap of nodes.
  A list is a ring of nodes through its head. The operations are sequences of reads and writes of single
  fields, in the order of the code; \<open>None\<close> is an access to an address that holds no node.
\<close>

subsection \<open>Definitions\<close>

record list_node =
  n_next :: addr
  n_prev :: addr

type_synonym heap = "addr \<rightharpoonup> list_node"

definition get_next :: "heap \<Rightarrow> addr \<Rightarrow> addr option" where "get_next h a = map_option n_next (h a)"
definition get_prev :: "heap \<Rightarrow> addr \<Rightarrow> addr option" where "get_prev h a = map_option n_prev (h a)"

definition set_next :: "heap \<Rightarrow> addr \<Rightarrow> addr \<Rightarrow> heap option" where
  "set_next h a v = do { n \<leftarrow> h a; Some (h(a \<mapsto> n\<lparr>n_next := v\<rparr>)) }"

definition set_prev :: "heap \<Rightarrow> addr \<Rightarrow> addr \<Rightarrow> heap option" where
  "set_prev h a v = do { n \<leftarrow> h a; Some (h(a \<mapsto> n\<lparr>n_prev := v\<rparr>)) }"

text \<open>The head of a list is a node; its address names the list.\<close>

definition list_head_init :: "heap \<Rightarrow> addr \<Rightarrow> heap option" where
  "list_head_init h l = do { h \<leftarrow> set_prev h l l; set_next h l l }"

definition list_node_init :: "heap \<Rightarrow> addr \<Rightarrow> heap option" where
  "list_node_init h n = do { h \<leftarrow> set_prev h n n; set_next h n n }"

definition list_add_after :: "heap \<Rightarrow> addr \<Rightarrow> addr \<Rightarrow> heap option" where
  "list_add_after h p n = do {
     s \<leftarrow> get_next h p;
     h \<leftarrow> set_next h n s;
     h \<leftarrow> set_prev h n p;
     s \<leftarrow> get_next h p;
     h \<leftarrow> set_prev h s n;
     set_next h p n }"

definition list_add :: "heap \<Rightarrow> addr \<Rightarrow> addr \<Rightarrow> heap option" where
  "list_add h l n = list_add_after h l n"

definition list_add_before :: "heap \<Rightarrow> addr \<Rightarrow> addr \<Rightarrow> heap option" where
  "list_add_before h p n = do {
     h \<leftarrow> set_next h n p;
     s \<leftarrow> get_prev h p;
     h \<leftarrow> set_prev h n s;
     s \<leftarrow> get_prev h p;
     h \<leftarrow> set_next h s n;
     set_prev h p n }"

definition list_add_tail :: "heap \<Rightarrow> addr \<Rightarrow> addr \<Rightarrow> heap option" where
  "list_add_tail h l n = list_add_before h l n"

definition list_empty :: "heap \<Rightarrow> addr \<Rightarrow> bool option" where
  "list_empty h l = do { n \<leftarrow> get_next h l; Some (n = l) }"

definition list_del :: "heap \<Rightarrow> addr \<Rightarrow> heap option" where
  "list_del h n = do {
     s \<leftarrow> get_next h n;
     p \<leftarrow> get_prev h n;
     h \<leftarrow> set_prev h s p;
     p \<leftarrow> get_prev h n;
     s \<leftarrow> get_next h n;
     set_next h p s }"

definition list_del_init :: "heap \<Rightarrow> addr \<Rightarrow> heap option" where
  "list_del_init h n = do { h \<leftarrow> list_del h n; list_node_init h n }"

text \<open>A failed assertion is \<open>None\<close>.\<close>

definition list_del_from :: "heap \<Rightarrow> addr \<Rightarrow> addr \<Rightarrow> heap option" where
  "list_del_from h l n = do { e \<leftarrow> list_empty h l; (if e then None else list_del h n) }"

definition list_swap :: "heap \<Rightarrow> addr \<Rightarrow> addr \<Rightarrow> heap option" where
  "list_swap h old n = do {
     node \<leftarrow> h old;
     h \<leftarrow> (if h n = None then None else Some (h(n \<mapsto> node)));
     s \<leftarrow> get_next h n;
     h \<leftarrow> set_prev h s n;
     p \<leftarrow> get_prev h n;
     set_next h p n }"

text \<open>Entries are named by their node: the offset of the node in its structure is a constant of the type.\<close>

definition list_top :: "heap \<Rightarrow> addr \<Rightarrow> ptr option" where
  "list_top h l = do { e \<leftarrow> list_empty h l; (if e then Some None else map_option Some (get_next h l)) }"

definition list_tail :: "heap \<Rightarrow> addr \<Rightarrow> ptr option" where
  "list_tail h l = do { e \<leftarrow> list_empty h l; (if e then Some None else map_option Some (get_prev h l)) }"

definition list_pop :: "heap \<Rightarrow> addr \<Rightarrow> (ptr \<times> heap) option" where
  "list_pop h l = do {
     e \<leftarrow> list_empty h l;
     if e then Some (None, h) else do {
       n \<leftarrow> get_next h l;
       h \<leftarrow> list_del h n;
       Some (Some n, h) } }"

definition list_append_list :: "heap \<Rightarrow> addr \<Rightarrow> addr \<Rightarrow> heap option" where
  "list_append_list h to from = do {
     from_tail \<leftarrow> get_prev h from;
     to_tail \<leftarrow> get_prev h to;
     h \<leftarrow> set_prev h to from_tail;
     h \<leftarrow> set_next h from_tail to;
     h \<leftarrow> set_next h to_tail from;
     h \<leftarrow> set_prev h from to_tail;
     h \<leftarrow> list_del h from;
     list_head_init h from }"

definition list_prepend_list :: "heap \<Rightarrow> addr \<Rightarrow> addr \<Rightarrow> heap option" where
  "list_prepend_list h to from = do {
     from_tail \<leftarrow> get_prev h from;
     to_head \<leftarrow> get_next h to;
     h \<leftarrow> set_next h to from;
     h \<leftarrow> set_prev h from to;
     h \<leftarrow> set_prev h to_head from_tail;
     h \<leftarrow> set_next h from_tail to_head;
     h \<leftarrow> list_del h from;
     list_head_init h from }"

text \<open>The traversals; the result is the sequence of entries the body of the loop sees.\<close>

partial_function (option) for_each_from :: "(addr \<Rightarrow> addr option) \<Rightarrow> addr \<Rightarrow> addr \<Rightarrow> addr list option" where
  "for_each_from dir l i = (if i = l then Some [] else do {
     j \<leftarrow> dir i;
     is \<leftarrow> for_each_from dir l j;
     Some (i # is) })"

definition list_for_each :: "heap \<Rightarrow> addr \<Rightarrow> addr list option" where
  "list_for_each h l = do { i \<leftarrow> get_next h l; for_each_from (get_next h) l i }"

definition list_for_each_rev :: "heap \<Rightarrow> addr \<Rightarrow> addr list option" where
  "list_for_each_rev h l = do { i \<leftarrow> get_prev h l; for_each_from (get_prev h) l i }"

text \<open>The consistency check of \<^verbatim>\<open>ccan/list.c\<close>, called without an abort message: whether the list is consistent.\<close>

partial_function (option) check_from :: "heap \<Rightarrow> addr \<Rightarrow> addr \<Rightarrow> addr \<Rightarrow> bool option" where
  "check_from h node p n = (if n \<noteq> node then do {
       b \<leftarrow> get_prev h n;
       if b \<noteq> p then Some False else do { s \<leftarrow> get_next h n; check_from h node n s } }
     else do { b \<leftarrow> get_prev h node; Some (b = p) })"

definition list_check_node :: "heap \<Rightarrow> addr \<Rightarrow> bool option" where
  "list_check_node h node = do { n \<leftarrow> get_next h node; check_from h node node n }"

definition list_check :: "heap \<Rightarrow> addr \<Rightarrow> bool option" where
  "list_check h l = list_check_node h l"

text \<open>The list of \<^verbatim>\<open>librdmacm/indexer.h\<close>.\<close>

definition dlist_init :: "heap \<Rightarrow> addr \<Rightarrow> heap option" where
  "dlist_init h l = do { h \<leftarrow> set_next h l l; set_prev h l l }"

definition dlist_empty :: "heap \<Rightarrow> addr \<Rightarrow> bool option" where
  "dlist_empty h l = do { n \<leftarrow> get_next h l; Some (n = l) }"

definition dlist_insert_after :: "heap \<Rightarrow> addr \<Rightarrow> addr \<Rightarrow> heap option" where
  "dlist_insert_after h item l = do {
     s \<leftarrow> get_next h l;
     h \<leftarrow> set_next h item s;
     h \<leftarrow> set_prev h item l;
     s \<leftarrow> get_next h l;
     h \<leftarrow> set_prev h s item;
     set_next h l item }"

definition dlist_insert_before :: "heap \<Rightarrow> addr \<Rightarrow> addr \<Rightarrow> heap option" where
  "dlist_insert_before h item l = do { p \<leftarrow> get_prev h l; dlist_insert_after h item p }"

definition dlist_remove :: "heap \<Rightarrow> addr \<Rightarrow> heap option" where
  "dlist_remove h item = do {
     p \<leftarrow> get_prev h item;
     s \<leftarrow> get_next h item;
     h \<leftarrow> set_next h p s;
     s \<leftarrow> get_next h item;
     p \<leftarrow> get_prev h item;
     set_prev h s p }"

subsection \<open>Rings\<close>

text \<open>Two nodes are linked when each points at the other; a list is a closed chain of links.\<close>

definition link :: "heap \<Rightarrow> addr \<Rightarrow> addr \<Rightarrow> bool" where
  "link h a b \<longleftrightarrow> get_next h a = Some b \<and> get_prev h b = Some a"

fun chain :: "heap \<Rightarrow> addr list \<Rightarrow> bool" where
  "chain h (a # b # xs) \<longleftrightarrow> link h a b \<and> chain h (b # xs)"
| "chain h _ \<longleftrightarrow> True"

definition is_list :: "heap \<Rightarrow> addr \<Rightarrow> addr list \<Rightarrow> bool" where
  "is_list h l xs \<longleftrightarrow> distinct (l # xs) \<and> chain h (l # xs @ [l])"

lemma chain_append: "chain h (xs @ y # ys) \<longleftrightarrow> chain h (xs @ [y]) \<and> chain h (y # ys)"
proof (induction xs)
  case (Cons x xs)
  then show ?case by (cases xs) auto
qed (cases ys, auto)

lemma chain_frame:
  "(\<And>a. a \<in> set (butlast xs) \<Longrightarrow> get_next h' a = get_next h a) \<Longrightarrow>
   (\<And>a. a \<in> set (tl xs) \<Longrightarrow> get_prev h' a = get_prev h a) \<Longrightarrow> chain h xs \<Longrightarrow> chain h' xs"
  by (induction h xs rule: chain.induct) (auto simp: link_def split: if_splits)

subsection \<open>Reads after writes\<close>

definition upd_next :: "heap \<Rightarrow> addr \<Rightarrow> addr \<Rightarrow> heap" where
  "upd_next h a v = h(a := map_option (\<lambda>n. n\<lparr>n_next := v\<rparr>) (h a))"

definition upd_prev :: "heap \<Rightarrow> addr \<Rightarrow> addr \<Rightarrow> heap" where
  "upd_prev h a v = h(a := map_option (\<lambda>n. n\<lparr>n_prev := v\<rparr>) (h a))"

named_theorems fields

lemma set_fields [fields]:
  "a \<in> dom h \<Longrightarrow> set_next h a v = Some (upd_next h a v)"
  "a \<in> dom h \<Longrightarrow> set_prev h a v = Some (upd_prev h a v)"
  by (auto simp: set_next_def set_prev_def upd_next_def upd_prev_def)

lemma get_fields [fields]:
  "get_next (upd_next h a v) = (get_next h)(a := if a \<in> dom h then Some v else None)"
  "get_prev (upd_prev h a v) = (get_prev h)(a := if a \<in> dom h then Some v else None)"
  "get_next (upd_prev h a v) = get_next h"
  "get_prev (upd_next h a v) = get_prev h"
  "dom (upd_next h a v) = dom h" "dom (upd_prev h a v) = dom h"
  by (auto simp: get_next_def get_prev_def upd_next_def upd_prev_def fun_eq_iff map_option_case split: option.splits if_splits)

lemma in_dom_get: "get_next h a = Some x \<Longrightarrow> a \<in> dom h" "get_prev h a = Some x \<Longrightarrow> a \<in> dom h"
  by (auto simp: get_next_def get_prev_def)

lemma upd_other [fields]: "b \<noteq> a \<Longrightarrow> upd_next h a v b = h b" "b \<noteq> a \<Longrightarrow> upd_prev h a v b = h b"
  by (simp_all add: upd_next_def upd_prev_def)

text \<open>The neighbours of a position of a list, between \<open>us\<close> and \<open>vs\<close>.\<close>

definition before :: "addr \<Rightarrow> addr list \<Rightarrow> addr" where "before l us = last (l # us)"
definition behind :: "addr \<Rightarrow> addr list \<Rightarrow> addr" where "behind l vs = hd (vs @ [l])"

lemma ring_spelled:
  "l # us @ vs @ [l] = butlast (l # us) @ before l us # behind l vs # tl (vs @ [l])"
  "butlast (l # us) @ [before l us] = l # us"
  "behind l vs # tl (vs @ [l]) = vs @ [l]"
  by (cases vs; cases us rule: rev_cases; simp add: before_def behind_def)+

lemma chain_ring:
  "chain h (l # us @ vs @ [l]) \<longleftrightarrow> chain h (l # us) \<and> link h (before l us) (behind l vs) \<and> chain h (vs @ [l])"
  unfolding ring_spelled(1) chain_append [of h "butlast (l # us)"] ring_spelled(2)
  by (cases vs) (simp_all add: behind_def)

lemma neighbours:
  "before l us \<in> set (l # us)" "behind l vs \<in> set (l # vs)"
  by (simp_all add: before_def, cases vs, auto simp: behind_def)

lemma ring_insert:
  assumes ls: "is_list h l (us @ vs)" and n: "n \<notin> set (l # us @ vs)"
    and nx: "get_next h' = (get_next h)(n := Some (behind l vs), before l us := Some n)"
    and pv: "get_prev h' = (get_prev h)(n := Some (before l us), behind l vs := Some n)"
  shows "is_list h' l (us @ n # vs)"
proof -
  have parts: "chain h (l # us)" "link h (before l us) (behind l vs)" "chain h (vs @ [l])"
    using ls chain_ring [of h l us vs] by (simp_all add: is_list_def)
  have d: "distinct (l # us @ vs)" using ls by (simp add: is_list_def)
  have nb: "before l us \<noteq> n" "behind l vs \<noteq> n" using n neighbours(1) [of l us] neighbours(2) [of l vs] by auto
  have "chain h' (l # us)"
  proof (rule chain_frame [OF _ _ parts(1)])
    fix a assume "a \<in> set (butlast (l # us))"
    then show "get_next h' a = get_next h a" using d n
      by (cases us rule: rev_cases) (auto simp: nx before_def)
  next
    fix a assume "a \<in> set (tl (l # us))"
    then show "get_prev h' a = get_prev h a" using d n by (cases vs) (auto simp: pv behind_def)
  qed
  moreover have "chain h' (vs @ [l])"
  proof (rule chain_frame [OF _ _ parts(3)])
    fix a assume "a \<in> set (butlast (vs @ [l]))"
    then show "get_next h' a = get_next h a" using d n neighbours(1) [of l us] by (auto simp: nx)
  next
    fix a assume "a \<in> set (tl (vs @ [l]))"
    then show "get_prev h' a = get_prev h a" using d n by (cases vs) (auto simp: pv behind_def)
  qed
  moreover have "link h' (before l us) n" "link h' n (behind l vs)"
    using nb by (auto simp: link_def nx pv)
  ultimately have "chain h' (l # us @ (n # vs) @ [l])"
    unfolding chain_ring [of h' l us "n # vs"] by (cases vs) (auto simp: behind_def)
  then show ?thesis using d n by (auto simp: is_list_def)
qed

lemma ring_delete:
  assumes ls: "is_list h l (us @ n # vs)"
    and nx: "get_next h' = (get_next h)(before l us := Some (behind l vs))"
    and pv: "get_prev h' = (get_prev h)(behind l vs := Some (before l us))"
  shows "is_list h' l (us @ vs)"
proof -
  have parts: "chain h (l # us)" "chain h (vs @ [l])"
    using ls chain_ring [of h l us "n # vs"] by (auto simp: is_list_def) (cases vs, auto)
  have d: "distinct (l # us @ vs)" using ls by (auto simp: is_list_def)
  have "chain h' (l # us)"
  proof (rule chain_frame [OF _ _ parts(1)])
    fix a assume "a \<in> set (butlast (l # us))"
    then show "get_next h' a = get_next h a" using d by (cases us rule: rev_cases) (auto simp: nx before_def)
  next
    fix a assume "a \<in> set (tl (l # us))"
    then show "get_prev h' a = get_prev h a" using d by (cases vs) (auto simp: pv behind_def)
  qed
  moreover have "chain h' (vs @ [l])"
  proof (rule chain_frame [OF _ _ parts(2)])
    fix a assume "a \<in> set (butlast (vs @ [l]))"
    then show "get_next h' a = get_next h a" using d neighbours(1) [of l us] by (auto simp: nx)
  next
    fix a assume "a \<in> set (tl (vs @ [l]))"
    then show "get_prev h' a = get_prev h a" using d by (cases vs) (auto simp: pv behind_def)
  qed
  moreover have "link h' (before l us) (behind l vs)" by (simp add: link_def nx pv)
  ultimately show ?thesis using d chain_ring [of h' l us vs] by (simp add: is_list_def)
qed

lemma member_links:
  assumes "is_list h l (us @ n # vs)"
  shows "link h (before l us) n" "link h n (behind l vs)"
proof -
  show "link h (before l us) n" using assms chain_ring [of h l us "n # vs"] by (simp add: is_list_def behind_def)
  have "before l (us @ [n]) = n" by (simp add: before_def)
  then show "link h n (behind l vs)" using assms chain_ring [of h l "us @ [n]" vs] by (simp add: is_list_def)
qed

lemma position_link: "is_list h l (us @ vs) \<Longrightarrow> link h (before l us) (behind l vs)"
  using chain_ring [of h l us vs] by (simp add: is_list_def)

text \<open>What an insertion and a deletion leave behind, whichever way the code orders its writes.\<close>

definition inserted :: "heap \<Rightarrow> addr \<Rightarrow> addr \<Rightarrow> addr \<Rightarrow> heap \<Rightarrow> bool" where
  "inserted h p n s h' \<longleftrightarrow> get_next h' = (get_next h)(n := Some s, p := Some n) \<and>
     get_prev h' = (get_prev h)(n := Some p, s := Some n) \<and> (\<forall>a. a \<notin> {p, n, s} \<longrightarrow> h' a = h a) \<and> dom h' = dom h"

definition deleted :: "heap \<Rightarrow> addr \<Rightarrow> addr \<Rightarrow> heap \<Rightarrow> bool" where
  "deleted h p s h' \<longleftrightarrow> get_next h' = (get_next h)(p := Some s) \<and> get_prev h' = (get_prev h)(s := Some p) \<and>
     (\<forall>a. a \<notin> {p, s} \<longrightarrow> h' a = h a) \<and> dom h' = dom h"

text \<open>Changing \<open>h\<close> outside the nodes \<open>A\<close> leaves every list of other nodes alone.\<close>

definition only_touches :: "addr set \<Rightarrow> heap \<Rightarrow> heap \<Rightarrow> bool" where
  "only_touches A h h' \<longleftrightarrow> (\<forall>a. a \<notin> A \<longrightarrow> h' a = h a) \<and> dom h' = dom h"

lemma inserted_list:
  assumes "is_list h l (us @ vs)" "n \<notin> set (l # us @ vs)" "inserted h (before l us) n (behind l vs) h'"
  shows "is_list h' l (us @ n # vs) \<and> only_touches (set (n # l # us @ vs)) h h'"
proof -
  have "{before l us, n, behind l vs} \<subseteq> set (n # l # us @ vs)"
    using neighbours(1) [of l us] neighbours(2) [of l vs] by auto
  then have "only_touches (set (n # l # us @ vs)) h h'"
    using assms(3) unfolding inserted_def only_touches_def by blast
  then show ?thesis using ring_insert [OF assms(1,2)] assms(3) by (simp add: inserted_def)
qed

lemma deleted_list:
  assumes "is_list h l (us @ n # vs)" "deleted h (before l us) (behind l vs) h'"
  shows "is_list h' l (us @ vs) \<and> only_touches (set (l # us @ vs)) h h'"
proof -
  have "{before l us, behind l vs} \<subseteq> set (l # us @ vs)"
    using neighbours(1) [of l us] neighbours(2) [of l vs] by auto
  then have "only_touches (set (l # us @ vs)) h h'"
    using assms(2) unfolding deleted_def only_touches_def by blast
  then show ?thesis using ring_delete [OF assms(1)] assms(2) by (simp add: deleted_def)
qed

lemma insert_code:
  assumes lk: "link h p s" and n: "n \<in> dom h" "n \<noteq> p" "n \<noteq> s"
  shows "\<exists>h'. list_add_after h p n = Some h' \<and> inserted h p n s h'"
    "\<exists>h'. list_add_before h s n = Some h' \<and> inserted h p n s h'"
    "\<exists>h'. dlist_insert_after h n p = Some h' \<and> inserted h p n s h'"
    "\<exists>h'. dlist_insert_before h n s = Some h' \<and> inserted h p n s h'"
proof -
  have lk: "get_next h p = Some s" "get_prev h s = Some p" using lk by (simp_all add: link_def)
  then have dm: "p \<in> dom h" "s \<in> dom h" using in_dom_get by blast+
  let ?h = "upd_next (upd_prev (upd_prev (upd_next h n s) n p) s n) p n"
  let ?g = "upd_prev (upd_next (upd_prev (upd_next h n s) n p) p n) s n"
  have ins: "inserted h p n s ?h" "inserted h p n s ?g"
    using dm n by (simp_all add: inserted_def fields domIff)
  have "list_add_after h p n = Some ?h" "list_add_before h s n = Some ?g" "dlist_insert_after h n p = Some ?h"
    using lk dm n by (simp_all add: list_add_after_def list_add_before_def dlist_insert_after_def fields)
  then show "\<exists>h'. list_add_after h p n = Some h' \<and> inserted h p n s h'"
    "\<exists>h'. list_add_before h s n = Some h' \<and> inserted h p n s h'"
    "\<exists>h'. dlist_insert_after h n p = Some h' \<and> inserted h p n s h'"
    "\<exists>h'. dlist_insert_before h n s = Some h' \<and> inserted h p n s h'"
    using ins lk(2) by (simp_all add: dlist_insert_before_def)
qed

lemma delete_code:
  assumes lk: "link h p n" "link h n s" and ne: "n \<noteq> p" "n \<noteq> s"
  shows "\<exists>h'. list_del h n = Some h' \<and> deleted h p s h'" "\<exists>h'. dlist_remove h n = Some h' \<and> deleted h p s h'"
proof -
  have lk: "get_next h n = Some s" "get_prev h n = Some p" "get_next h p = Some n" "get_prev h s = Some n"
    using lk by (simp_all add: link_def)
  then have dm: "p \<in> dom h" "s \<in> dom h" using in_dom_get by blast+
  have del: "deleted h p s (upd_next (upd_prev h s p) p s)" "deleted h p s (upd_prev (upd_next h p s) s p)"
    using dm ne by (simp_all add: deleted_def fields domIff)
  have "list_del h n = Some (upd_next (upd_prev h s p) p s)" "dlist_remove h n = Some (upd_prev (upd_next h p s) s p)"
    using lk dm ne by (simp_all add: list_del_def dlist_remove_def fields)
  then show "\<exists>h'. list_del h n = Some h' \<and> deleted h p s h'" "\<exists>h'. dlist_remove h n = Some h' \<and> deleted h p s h'"
    using del by simp_all
qed
subsection \<open>Lists among other nodes\<close>

lemma is_list_frame:
  assumes "is_list h l xs" "\<And>a. a \<in> set (l # xs) \<Longrightarrow> h' a = h a"
  shows "is_list h' l xs"
proof -
  have "chain h' (l # xs @ [l])"
    by (rule chain_frame [where h = h]) (use assms in \<open>auto simp: is_list_def get_next_def get_prev_def butlast_append\<close>)
  then show ?thesis using assms(1) by (simp add: is_list_def)
qed

lemma is_list_other:
  "is_list h l xs \<Longrightarrow> only_touches A h h' \<Longrightarrow> A \<inter> set (l # xs) = {} \<Longrightarrow> is_list h' l xs"
  using is_list_frame [of h l xs h'] by (fastforce simp: only_touches_def)

lemma is_list_dom: "is_list h l xs \<Longrightarrow> set (l # xs) \<subseteq> dom h"
proof -
  have "chain h ys \<Longrightarrow> set (butlast ys) \<subseteq> dom h" for ys
    by (induction ys rule: chain.induct) (auto simp: link_def in_dom_get split: if_splits)
  from this [of "l # xs @ [l]"] show "is_list h l xs \<Longrightarrow> set (l # xs) \<subseteq> dom h"
    by (auto simp: is_list_def butlast_append)
qed

subsection \<open>The interface of a linked list\<close>

datatype list_op = Add_head addr | Add_tail addr | Del addr

fun list_spec :: "addr list \<Rightarrow> list_op list \<Rightarrow> addr list" where
  "list_spec xs [] = xs"
| "list_spec xs (Add_head n # ops) = list_spec (n # xs) ops"
| "list_spec xs (Add_tail n # ops) = list_spec (xs @ [n]) ops"
| "list_spec xs (Del n # ops) = list_spec (remove1 n xs) ops"

text \<open>A client adds nodes that are not in the list and deletes nodes that are.\<close>

fun list_legal :: "addr set \<Rightarrow> addr list \<Rightarrow> list_op list \<Rightarrow> bool" where
  "list_legal D xs [] \<longleftrightarrow> True"
| "list_legal D xs (Add_head n # ops) \<longleftrightarrow> n \<in> D \<and> n \<notin> set xs \<and> list_legal D (n # xs) ops"
| "list_legal D xs (Add_tail n # ops) \<longleftrightarrow> n \<in> D \<and> n \<notin> set xs \<and> list_legal D (xs @ [n]) ops"
| "list_legal D xs (Del n # ops) \<longleftrightarrow> n \<in> set xs \<and> list_legal D (remove1 n xs) ops"

fun list_run :: "(heap \<Rightarrow> addr \<Rightarrow> addr \<Rightarrow> heap option) \<Rightarrow> (heap \<Rightarrow> addr \<Rightarrow> addr \<Rightarrow> heap option) \<Rightarrow>
    (heap \<Rightarrow> addr \<Rightarrow> heap option) \<Rightarrow> heap \<Rightarrow> addr \<Rightarrow> list_op list \<Rightarrow> heap option" where
  "list_run ah at dl h l [] = Some h"
| "list_run ah at dl h l (Add_head n # ops) = do { h \<leftarrow> ah h l n; list_run ah at dl h l ops }"
| "list_run ah at dl h l (Add_tail n # ops) = do { h \<leftarrow> at h l n; list_run ah at dl h l ops }"
| "list_run ah at dl h l (Del n # ops) = do { h \<leftarrow> dl h n; list_run ah at dl h l ops }"

locale linked_list =
  fixes init :: "heap \<Rightarrow> addr \<Rightarrow> heap option"
    and add_head :: "heap \<Rightarrow> addr \<Rightarrow> addr \<Rightarrow> heap option"
    and add_tail :: "heap \<Rightarrow> addr \<Rightarrow> addr \<Rightarrow> heap option"
    and del :: "heap \<Rightarrow> addr \<Rightarrow> heap option"
    and empty :: "heap \<Rightarrow> addr \<Rightarrow> bool option"
  assumes init_list: "l \<in> dom h \<Longrightarrow> \<exists>h'. init h l = Some h' \<and> is_list h' l [] \<and> only_touches {l} h h'"
    and add_head_list: "is_list h l xs \<Longrightarrow> n \<notin> set (l # xs) \<Longrightarrow> n \<in> dom h \<Longrightarrow>
          \<exists>h'. add_head h l n = Some h' \<and> is_list h' l (n # xs) \<and> only_touches (set (n # l # xs)) h h'"
    and add_tail_list: "is_list h l xs \<Longrightarrow> n \<notin> set (l # xs) \<Longrightarrow> n \<in> dom h \<Longrightarrow>
          \<exists>h'. add_tail h l n = Some h' \<and> is_list h' l (xs @ [n]) \<and> only_touches (set (n # l # xs)) h h'"
    and del_list: "is_list h l xs \<Longrightarrow> n \<in> set xs \<Longrightarrow>
          \<exists>h'. del h n = Some h' \<and> is_list h' l (remove1 n xs) \<and> only_touches (set (l # xs) - {n}) h h'"
    and empty_list: "is_list h l xs \<Longrightarrow> empty h l = Some (xs = [])"
begin

lemma run_refines:
  "is_list h l xs \<Longrightarrow> list_legal (dom h - {l}) xs ops \<Longrightarrow>
   \<exists>h'. list_run add_head add_tail del h l ops = Some h' \<and> is_list h' l (list_spec xs ops)"
proof (induction ops arbitrary: h xs)
  case (Cons op ops)
  have "\<exists>h1 ys. list_run add_head add_tail del h l [op] = Some h1 \<and> is_list h1 l ys \<and> dom h1 = dom h \<and>
      list_spec xs (op # ops) = list_spec ys ops \<and> list_legal (dom h - {l}) ys ops"
  proof (cases op)
    case (Add_head n)
    then show ?thesis using add_head_list [OF Cons.prems(1), of n] Cons.prems(2) by (auto simp: only_touches_def)
  next
    case (Add_tail n)
    then show ?thesis using add_tail_list [OF Cons.prems(1), of n] Cons.prems(2) by (auto simp: only_touches_def)
  next
    case (Del n)
    then show ?thesis using del_list [OF Cons.prems(1), of n] Cons.prems(2) by (auto simp: only_touches_def)
  qed
  then obtain h1 ys where "list_run add_head add_tail del h l [op] = Some h1" "is_list h1 l ys" "dom h1 = dom h"
      "list_spec xs (op # ops) = list_spec ys ops" "list_legal (dom h - {l}) ys ops" by blast
  moreover have "list_run add_head add_tail del h l (op # ops) = list_run add_head add_tail del h1 l ops"
    using calculation(1) by (cases op) (auto split: bind_splits)
  ultimately show ?case using Cons.IH [of h1 ys] by simp
qed simp

lemma move_node:
  assumes "is_list h l xs" "is_list h k ys" "set (l # xs) \<inter> set (k # ys) = {}" "n \<in> set xs"
  shows "\<exists>h'. do { h \<leftarrow> del h n; add_tail h k n } = Some h' \<and> is_list h' l (remove1 n xs) \<and> is_list h' k (ys @ [n])"
proof -
  obtain h1 where h1: "del h n = Some h1" "is_list h1 l (remove1 n xs)" "only_touches (set (l # xs) - {n}) h h1"
    using del_list [OF assms(1,4)] by blast
  have k1: "is_list h1 k ys" using is_list_other [OF assms(2) h1(3)] assms(3) by blast
  have "n \<in> dom h1" using is_list_dom [OF assms(1)] assms(4) h1(3) by (auto simp: only_touches_def)
  then obtain h2 where h2: "add_tail h1 k n = Some h2" "is_list h2 k (ys @ [n])" "only_touches (set (n # k # ys)) h1 h2"
    using add_tail_list [OF k1, of n] assms(3,4) by auto
  have "set (n # k # ys) \<inter> set (l # remove1 n xs) = {}"
    using assms by (auto simp: is_list_def set_remove1_eq dest: notin_set_remove1)
  then have "is_list h2 l (remove1 n xs)" by (rule is_list_other [OF h1(2) h2(3)])
  then show ?thesis using h1(1) h2 by auto
qed

end

lemma init_code:
  "l \<in> dom h \<Longrightarrow> \<exists>h'. list_head_init h l = Some h' \<and> is_list h' l [] \<and> only_touches {l} h h'"
  "l \<in> dom h \<Longrightarrow> \<exists>h'. dlist_init h l = Some h' \<and> is_list h' l [] \<and> only_touches {l} h h'"
  by (auto simp: list_head_init_def dlist_init_def fields is_list_def link_def only_touches_def domIff)

lemma is_list_insert_ends:
  assumes "is_list h l xs" "n \<notin> set (l # xs)"
  shows "inserted h l n (behind l xs) h' \<Longrightarrow> is_list h' l (n # xs) \<and> only_touches (set (n # l # xs)) h h'"
    "inserted h (before l xs) n l h' \<Longrightarrow> is_list h' l (xs @ [n]) \<and> only_touches (set (n # l # xs)) h h'"
  using inserted_list [of h l "[]" xs n h'] inserted_list [of h l xs "[]" n h'] assms
  by (simp_all add: before_def behind_def)

lemma list_ends:
  "is_list h l xs \<Longrightarrow> link h l (behind l xs)" "is_list h l xs \<Longrightarrow> link h (before l xs) l"
  using position_link [of h l "[]" xs] position_link [of h l xs "[]"] by (simp_all add: before_def behind_def)

lemma split_member:
  assumes "is_list h l xs" "n \<in> set xs"
  obtains us vs where "xs = us @ n # vs" "remove1 n xs = us @ vs" "before l us \<noteq> n" "behind l vs \<noteq> n"
    "link h (before l us) n" "link h n (behind l vs)"
proof -
  obtain us vs where xs: "xs = us @ n # vs" using assms(2) by (auto simp: in_set_conv_decomp)
  have "n \<notin> set us" "n \<notin> set vs" "n \<noteq> l" using assms(1) xs by (auto simp: is_list_def)
  moreover from this have "before l us \<noteq> n" "behind l vs \<noteq> n"
    using neighbours(1) [of l us] neighbours(2) [of l vs] by auto
  ultimately show thesis using that [OF xs] member_links [of h l us n vs] assms(1) xs by (simp add: remove1_append)
qed

lemma del_list_code:
  assumes "is_list h l xs" "n \<in> set xs"
  shows "\<exists>h'. list_del h n = Some h' \<and> is_list h' l (remove1 n xs) \<and> only_touches (set (l # xs) - {n}) h h'"
    "\<exists>h'. dlist_remove h n = Some h' \<and> is_list h' l (remove1 n xs) \<and> only_touches (set (l # xs) - {n}) h h'"
proof -
  obtain us vs where xs: "xs = us @ n # vs" "remove1 n xs = us @ vs" "before l us \<noteq> n" "behind l vs \<noteq> n"
    "link h (before l us) n" "link h n (behind l vs)" by (rule split_member [OF assms])
  have "set (l # us @ vs) = set (l # xs) - {n}" using assms(1) xs(1) by (auto simp: is_list_def)
  then have "deleted h (before l us) (behind l vs) h' \<Longrightarrow>
      is_list h' l (remove1 n xs) \<and> only_touches (set (l # xs) - {n}) h h'" for h'
    using deleted_list [of h l us n vs h'] assms(1) xs(1,2) by simp
  then show "\<exists>h'. list_del h n = Some h' \<and> is_list h' l (remove1 n xs) \<and> only_touches (set (l # xs) - {n}) h h'"
    "\<exists>h'. dlist_remove h n = Some h' \<and> is_list h' l (remove1 n xs) \<and> only_touches (set (l # xs) - {n}) h h'"
    using delete_code [OF xs(5,6)] xs(3,4) by metis+
qed
interpretation ccan_list: linked_list list_head_init list_add list_add_tail list_del list_empty
proof
  fix h l xs n
  show "l \<in> dom h \<Longrightarrow> \<exists>h'. list_head_init h l = Some h' \<and> is_list h' l [] \<and> only_touches {l} h h'"
    by (rule init_code)
  assume ls: "is_list h l xs"
  show "list_empty h l = Some (xs = [])"
    using list_ends(1) [OF ls] ls by (cases xs) (auto simp: list_empty_def link_def behind_def is_list_def)
  show "n \<in> set xs \<Longrightarrow> \<exists>h'. list_del h n = Some h' \<and> is_list h' l (remove1 n xs) \<and> only_touches (set (l # xs) - {n}) h h'"
    by (rule del_list_code [OF ls])
  assume n: "n \<notin> set (l # xs)" "n \<in> dom h"
  then have "n \<noteq> l" "n \<noteq> behind l xs" "n \<noteq> before l xs" using neighbours(1) [of l xs] neighbours(2) [of l xs] by auto
  then show "\<exists>h'. list_add h l n = Some h' \<and> is_list h' l (n # xs) \<and> only_touches (set (n # l # xs)) h h'"
    "\<exists>h'. list_add_tail h l n = Some h' \<and> is_list h' l (xs @ [n]) \<and> only_touches (set (n # l # xs)) h h'"
    using insert_code(1) [OF list_ends(1) [OF ls] n(2)] insert_code(2) [OF list_ends(2) [OF ls] n(2)]
      is_list_insert_ends [OF ls n(1)] by (auto simp: list_add_def list_add_tail_def)
qed

interpretation rdmacm_list: linked_list dlist_init "\<lambda>h l n. dlist_insert_after h n l" "\<lambda>h l n. dlist_insert_before h n l"
  dlist_remove dlist_empty
proof
  fix h l xs n
  show "l \<in> dom h \<Longrightarrow> \<exists>h'. dlist_init h l = Some h' \<and> is_list h' l [] \<and> only_touches {l} h h'"
    by (rule init_code)
  assume ls: "is_list h l xs"
  show "dlist_empty h l = Some (xs = [])"
    using list_ends(1) [OF ls] ls by (cases xs) (auto simp: dlist_empty_def link_def behind_def is_list_def)
  show "n \<in> set xs \<Longrightarrow> \<exists>h'. dlist_remove h n = Some h' \<and> is_list h' l (remove1 n xs) \<and> only_touches (set (l # xs) - {n}) h h'"
    by (rule del_list_code [OF ls])
  assume n: "n \<notin> set (l # xs)" "n \<in> dom h"
  then have "n \<noteq> l" "n \<noteq> behind l xs" "n \<noteq> before l xs" using neighbours(1) [of l xs] neighbours(2) [of l xs] by auto
  then show "\<exists>h'. dlist_insert_after h n l = Some h' \<and> is_list h' l (n # xs) \<and> only_touches (set (n # l # xs)) h h'"
    "\<exists>h'. dlist_insert_before h n l = Some h' \<and> is_list h' l (xs @ [n]) \<and> only_touches (set (n # l # xs)) h h'"
    using insert_code(3) [OF list_ends(1) [OF ls] n(2)] insert_code(4) [OF list_ends(2) [OF ls] n(2)]
      is_list_insert_ends [OF ls n(1)] by auto
qed

subsection \<open>Traversals\<close>

fun steps :: "(addr \<Rightarrow> addr option) \<Rightarrow> addr list \<Rightarrow> bool" where
  "steps dir (a # b # xs) \<longleftrightarrow> dir a = Some b \<and> steps dir (b # xs)"
| "steps dir _ \<longleftrightarrow> True"

lemma steps_snoc: "steps dir (xs @ [a, b]) \<longleftrightarrow> steps dir (xs @ [a]) \<and> dir a = Some b"
proof (induction xs)
  case (Cons x xs)
  then show ?case by (cases xs) auto
qed simp

lemma steps_chain: "chain h xs \<Longrightarrow> steps (get_next h) xs" "chain h xs \<Longrightarrow> steps (get_prev h) (rev xs)"
proof -
  show "chain h xs \<Longrightarrow> steps (get_next h) xs" by (induction h xs rule: chain.induct) (auto simp: link_def)
  show "chain h xs \<Longrightarrow> steps (get_prev h) (rev xs)"
    by (induction h xs rule: chain.induct) (auto simp: link_def steps_snoc)
qed

lemma for_each_from_steps:
  "steps dir (xs @ [l]) \<Longrightarrow> l \<notin> set xs \<Longrightarrow> for_each_from dir l (hd (xs @ [l])) = Some xs"
proof (induction xs)
  case (Cons x xs)
  then show ?case by (cases xs) (subst for_each_from.simps, auto simp: for_each_from.simps)+
qed (simp add: for_each_from.simps)

lemma list_for_each_code:
  assumes "is_list h l xs"
  shows "list_for_each h l = Some xs" "list_for_each_rev h l = Some (rev xs)"
proof -
  have ch: "chain h (l # xs @ [l])" and l: "l \<notin> set xs" using assms by (auto simp: is_list_def)
  have "steps (get_next h) (xs @ [l])" using steps_chain(1) [OF ch] by (cases xs) auto
  then show "list_for_each h l = Some xs"
    using for_each_from_steps [of "get_next h" xs l] l list_ends(1) [OF assms] by (simp add: list_for_each_def link_def behind_def)
  have "steps (get_prev h) (rev xs @ [l])" using steps_chain(2) [OF ch] by (cases xs rule: rev_cases) auto
  then show "list_for_each_rev h l = Some (rev xs)"
    using for_each_from_steps [of "get_prev h" "rev xs" l] l list_ends(2) [OF assms]
    by (cases xs rule: rev_cases) (simp_all add: list_for_each_rev_def link_def before_def)
qed

subsection \<open>The consistency check\<close>

lemma chain_snoc: "chain h (l # ws @ [n]) \<longleftrightarrow> chain h (l # ws) \<and> link h (before l ws) n"
proof (cases ws rule: rev_cases)
  case (snoc us x)
  then show ?thesis using chain_append [of h "l # us" x "[n]"] by (simp add: before_def)
qed (simp add: before_def)

lemma prefix_pred:
  assumes "chain h (l # ws)" "distinct (l # ws)" "n \<in> set ws"
  shows "get_prev h n \<noteq> Some (before l ws)"
proof -
  obtain as bs where ws: "ws = as @ n # bs" using assms(3) by (auto simp: in_set_conv_decomp)
  have "chain h (l # as @ [n])" using assms(1) chain_append [of h "l # as" n bs] ws by simp
  then have "link h (before l as) n"
    by (simp add: chain_snoc)
  moreover have "before l as \<noteq> before l ws"
    using assms(2) neighbours(1) [of l as] ws by (cases bs rule: rev_cases) (auto simp: before_def split: if_splits)
  ultimately show ?thesis by (auto simp: link_def)
qed

lemma list_extension:
  assumes "get_next h (before l ws) = Some n" "n \<noteq> l"
  shows "(\<exists>zs. is_list h l (ws @ zs)) \<longleftrightarrow> (\<exists>zs. is_list h l ((ws @ [n]) @ zs))"
proof
  assume "\<exists>zs. is_list h l (ws @ zs)"
  then obtain zs where zs: "is_list h l (ws @ zs)" by blast
  then have "behind l zs = n" using position_link [OF zs] assms(1) by (simp add: link_def)
  then show "\<exists>zs. is_list h l ((ws @ [n]) @ zs)" using zs assms(2) by (cases zs) (auto simp: behind_def)
qed auto

lemma check_from_exact:
  assumes "finite (dom h)" "\<And>a n. h a = Some n \<Longrightarrow> n_next n \<in> dom h"
    and "chain h (l # ws)" "distinct (l # ws)" "get_next h (before l ws) = Some n"
  shows "\<exists>b. check_from h l (before l ws) n = Some b \<and> (b \<longleftrightarrow> (\<exists>zs. is_list h l (ws @ zs)))"
  using assms(3-5)
proof (induction "card (dom h - set (l # ws))" arbitrary: ws n rule: less_induct)
  case less
  have closed: "get_next h a = Some b \<Longrightarrow> b \<in> dom h" for a b using assms(2) by (auto simp: get_next_def)
  have nd: "n \<in> dom h" by (rule closed [OF less.prems(3)])
  then obtain b s where b: "get_prev h n = Some b" and s: "get_next h n = Some s"
    by (auto simp: get_prev_def get_next_def)
  have first: "behind l zs = n \<and> b = before l ws" if "is_list h l (ws @ zs)" for zs
    using position_link [OF that] less.prems(3) b by (auto simp: link_def)
  show ?case
  proof (cases "n = l")
    case True
    have "zs = []" if "is_list h l (ws @ zs)" for zs
      using first [OF that] that True by (cases zs) (auto simp: behind_def is_list_def)
    then have "(\<exists>zs. is_list h l (ws @ zs)) \<longleftrightarrow> is_list h l ws"
      using append_Nil2 [of ws] by (metis (no_types))
    moreover have "is_list h l ws \<longleftrightarrow> b = before l ws"
      using less.prems b True by (auto simp: is_list_def chain_snoc link_def)
    moreover have "check_from h l (before l ws) n = Some (b = before l ws)"
      using True b by (subst check_from.simps) simp
    ultimately show ?thesis by simp
  next
    case ne: False
    show ?thesis
    proof (cases "b = before l ws")
      case False
      then have "check_from h l (before l ws) n = Some False"
        using ne b by (subst check_from.simps) simp
      then show ?thesis using first False by blast
    next
      case True
      then have new: "n \<notin> set (l # ws)" using prefix_pred [OF less.prems(1,2), of n] b ne by auto
      have bn: "before l (ws @ [n]) = n" by (simp add: before_def)
      have "card (dom h - set (l # ws @ [n])) < card (dom h - set (l # ws))"
        by (rule psubset_card_mono) (use assms(1) nd new in auto)
      moreover have "chain h (l # ws @ [n])" using less.prems(1,3) b True by (simp add: chain_snoc link_def)
      moreover have "distinct (l # ws @ [n])" using less.prems(2) new by auto
      moreover have "get_next h (before l (ws @ [n])) = Some s" using s bn by simp
      ultimately obtain c where c: "check_from h l (before l (ws @ [n])) s = Some c"
        "c \<longleftrightarrow> (\<exists>zs. is_list h l ((ws @ [n]) @ zs))" using less.hyps [of "ws @ [n]" s] by blast
      have "check_from h l (before l ws) n = check_from h l n s"
        using ne True b s by (subst check_from.simps) simp
      moreover have "(\<exists>zs. is_list h l (ws @ zs)) \<longleftrightarrow> (\<exists>zs. is_list h l ((ws @ [n]) @ zs))"
        by (rule list_extension [OF less.prems(3) ne])
      ultimately show ?thesis using c bn by simp
    qed
  qed
qed

subsection \<open>Moving whole lists\<close>

lemma open_chain_frame:
  assumes "chain h (l # us)" "distinct (l # us)"
    and "\<And>a. a \<in> set (l # us) \<Longrightarrow> a \<noteq> before l us \<Longrightarrow> get_next h' a = get_next h a"
    and "\<And>a. a \<in> set us \<Longrightarrow> get_prev h' a = get_prev h a"
  shows "chain h' (l # us)"
proof (rule chain_frame [OF _ _ assms(1)])
  fix a assume a: "a \<in> set (butlast (l # us))"
  then have "a \<noteq> before l us" using assms(2) by (cases us rule: rev_cases) (auto simp: before_def)
  then show "get_next h' a = get_next h a" using assms(3) in_set_butlastD [OF a] by blast
qed (use assms(4) in simp)

lemma list_open: "is_list h l xs \<Longrightarrow> chain h (l # xs)" "is_list h l xs \<Longrightarrow> distinct (l # xs)"
  using chain_ring [of h l xs "[]"] by (simp_all add: is_list_def)

lemma sew_append:
  assumes xs: "is_list h to xs" and ys: "is_list h from ys" and dj: "set (to # xs) \<inter> set (from # ys) = {}"
    and nx: "get_next h' = (get_next h)(before from ys := Some to, before to xs := Some from)"
    and pv: "get_prev h' = (get_prev h)(to := Some (before from ys), from := Some (before to xs))"
  shows "is_list h' to (xs @ from # ys)"
proof -
  note dx = list_open(2) [OF xs] and dy = list_open(2) [OF ys]
  have nb: "before to xs \<in> set (to # xs)" "before from ys \<in> set (from # ys)" by (rule neighbours)+
  then have ne: "before to xs \<notin> set (from # ys)" "before from ys \<notin> set (to # xs)" using dj by blast+
  have "chain h' (to # xs)"
    by (rule open_chain_frame [OF list_open(1) [OF xs] dx]) (use dx dj ne in \<open>auto simp: nx pv\<close>)
  moreover have "chain h' (from # ys)"
    by (rule open_chain_frame [OF list_open(1) [OF ys] dy]) (use dy dj ne in \<open>auto simp: nx pv\<close>)
  moreover have "link h' (before to xs) from" "link h' (before from ys) to"
    using nb ne dj by (auto simp: link_def nx pv)
  ultimately have "chain h' (to # xs @ (from # ys) @ [to])"
    unfolding chain_ring by (simp add: behind_def) (simp add: chain_snoc)
  then show ?thesis using dx dy dj by (auto simp: is_list_def)
qed

lemma sew_prepend:
  assumes xs: "is_list h to xs" and ys: "is_list h from ys" and dj: "set (to # xs) \<inter> set (from # ys) = {}"
    and nx: "get_next h' = (get_next h)(to := Some from, before from ys := Some (behind to xs))"
    and pv: "get_prev h' = (get_prev h)(from := Some to, behind to xs := Some (before from ys))"
  shows "is_list h' to (from # ys @ xs)"
proof -
  note dx = list_open(2) [OF xs] and dy = list_open(2) [OF ys]
  have nb: "behind to xs \<in> set (to # xs)" "before from ys \<in> set (from # ys)" by (rule neighbours)+
  then have ne: "behind to xs \<notin> set (from # ys)" "before from ys \<notin> set (to # xs)" using dj by blast+
  have cf: "chain h' (from # ys)"
    by (rule open_chain_frame [OF list_open(1) [OF ys] dy]) (use dy dj ne in \<open>auto simp: nx pv\<close>)
  have "chain h (xs @ [to])" using xs chain_ring [of h to "[]" xs] by (simp add: is_list_def)
  moreover have "behind to xs \<notin> set (tl (xs @ [to]))" "from \<notin> set (tl (xs @ [to]))"
    using dx dj by (cases xs, auto simp: behind_def)+
  ultimately have "chain h' (xs @ [to])"
    using dx dj ne by (intro chain_frame [where h = h and h' = h']) (auto simp: nx pv)
  moreover have "link h' to from" "link h' (before from ys) (behind to xs)"
    using nb ne dj by (auto simp: link_def nx pv)
  moreover have "before to (from # ys) = before from ys" by (simp add: before_def)
  ultimately have "chain h' (to # (from # ys) @ xs @ [to])" using cf unfolding chain_ring by simp
  then show ?thesis using dx dy dj by (auto simp: is_list_def)
qed

lemma head_moved:
  assumes "is_list h to zs" "from \<in> set zs"
  shows "\<exists>h'. do { h \<leftarrow> list_del h from; list_head_init h from } = Some h' \<and>
           is_list h' to (remove1 from zs) \<and> is_list h' from []"
proof -
  obtain h1 where h1: "list_del h from = Some h1" "is_list h1 to (remove1 from zs)" "only_touches (set (to # zs) - {from}) h h1"
    using del_list_code(1) [OF assms] by blast
  have "from \<in> dom h1" using is_list_dom [OF assms(1)] assms(2) h1(3) by (auto simp: only_touches_def)
  then obtain h2 where h2: "list_head_init h1 from = Some h2" "is_list h2 from []" "only_touches {from} h1 h2"
    using init_code(1) by blast
  have "from \<notin> set (to # remove1 from zs)" using assms by (auto simp: is_list_def)
  then show ?thesis using h1(1) h2 is_list_other [OF h1(2) h2(3)] by auto
qed

lemma list_splice_code:
  assumes xs: "is_list h to xs" and ys: "is_list h from ys" and dj: "set (to # xs) \<inter> set (from # ys) = {}"
  shows "\<exists>h'. list_append_list h to from = Some h' \<and> is_list h' to (xs @ ys) \<and> is_list h' from []"
    "\<exists>h'. list_prepend_list h to from = Some h' \<and> is_list h' to (ys @ xs) \<and> is_list h' from []"
proof -
  have lk: "get_prev h from = Some (before from ys)" "get_prev h to = Some (before to xs)"
    "get_next h to = Some (behind to xs)" using list_ends [OF xs] list_ends [OF ys] by (simp_all add: link_def)
  have nb: "before to xs \<in> set (to # xs)" "behind to xs \<in> set (to # xs)" "before from ys \<in> set (from # ys)"
    by (rule neighbours)+
  then have dm: "to \<in> dom h" "from \<in> dom h" "before to xs \<in> dom h" "behind to xs \<in> dom h" "before from ys \<in> dom h"
    using is_list_dom [OF xs] is_list_dom [OF ys] by auto
  have ne: "before to xs \<noteq> before from ys" "to \<noteq> before from ys" "from \<noteq> behind to xs" "from \<noteq> to" using nb dj by auto
  let ?a = "upd_prev (upd_next (upd_next (upd_prev h to (before from ys)) (before from ys) to) (before to xs) from) from (before to xs)"
  let ?p = "upd_next (upd_prev (upd_prev (upd_next h to from) from to) (behind to xs) (before from ys)) (before from ys) (behind to xs)"
  have "is_list ?a to (xs @ from # ys)"
    by (rule sew_append [OF xs ys dj]) (use dm in \<open>simp_all add: fields\<close>)
  moreover have "remove1 from (xs @ from # ys) = xs @ ys" using dj by (auto simp: remove1_append)
  moreover have "list_append_list h to from = do { h \<leftarrow> list_del ?a from; list_head_init h from }"
    using lk dm by (simp add: list_append_list_def fields)
  ultimately show "\<exists>h'. list_append_list h to from = Some h' \<and> is_list h' to (xs @ ys) \<and> is_list h' from []"
    using head_moved [of ?a to "xs @ from # ys" "from"] by simp
  have "is_list ?p to (from # ys @ xs)"
    by (rule sew_prepend [OF xs ys dj]) (use dm in \<open>simp_all add: fields\<close>)
  moreover have "list_prepend_list h to from = do { h \<leftarrow> list_del ?p from; list_head_init h from }"
    using lk dm by (simp add: list_prepend_list_def fields)
  ultimately show "\<exists>h'. list_prepend_list h to from = Some h' \<and> is_list h' to (ys @ xs) \<and> is_list h' from []"
    using head_moved [of ?p to "from # ys @ xs" "from"] by simp
qed

lemma list_swap_code:
  assumes ls: "is_list h l (us @ x # vs)" and n: "n \<notin> set (l # us @ x # vs)" "n \<in> dom h"
  shows "\<exists>h'. list_swap h x n = Some h' \<and> is_list h' l (us @ n # vs)"
proof -
  let ?p = "before l us" let ?s = "behind l vs"
  have lk: "get_next h x = Some ?s" "get_prev h x = Some ?p" using member_links [OF ls] by (simp_all add: link_def)
  then obtain nd where nd: "h x = Some nd" "n_next nd = ?s" "n_prev nd = ?p" by (auto simp: get_next_def get_prev_def)
  have dm: "?p \<in> dom h" "?s \<in> dom h" using is_list_dom [OF ls] neighbours(1) [of l us] neighbours(2) [of l vs] by auto
  have ne: "?p \<noteq> n" "?s \<noteq> n" using n(1) neighbours(1) [of l us] neighbours(2) [of l vs] by auto
  let ?g = "upd_next (upd_prev h ?s ?p) ?p ?s" let ?h1 = "h(n \<mapsto> nd)"
  have g: "is_list ?g l (us @ vs)" by (rule ring_delete [OF ls]) (use dm in \<open>simp_all add: fields\<close>)
  have h1: "get_next ?h1 = (get_next h)(n := Some ?s)" "get_prev ?h1 = (get_prev h)(n := Some ?p)" "dom ?h1 = dom h"
    using nd n(2) by (auto simp: get_next_def get_prev_def fun_eq_iff)
  have "list_swap h x n = Some (upd_next (upd_prev ?h1 ?s n) ?p n)"
    using nd n(2) dm ne h1 by (auto simp: list_swap_def fields)
  moreover have "is_list (upd_next (upd_prev ?h1 ?s n) ?p n) l (us @ n # vs)"
    by (rule ring_insert [OF g]) (use n(1) dm ne h1 in \<open>auto simp: fields fun_eq_iff\<close>)
  ultimately show ?thesis by blast
qed

lemma list_access_code:
  assumes ls: "is_list h l xs"
  shows "list_top h l = Some (case xs of [] \<Rightarrow> None | x # _ \<Rightarrow> Some x)"
    "list_tail h l = Some (if xs = [] then None else Some (last xs))"
    "\<exists>h'. list_pop h l = Some (case xs of [] \<Rightarrow> None | x # _ \<Rightarrow> Some x, h') \<and> is_list h' l (tl xs)"
proof -
  have e: "list_empty h l = Some (xs = [])" by (rule ccan_list.empty_list [OF ls])
  have lk: "get_next h l = Some (behind l xs)" "get_prev h l = Some (before l xs)"
    using list_ends [OF ls] by (simp_all add: link_def)
  show "list_top h l = Some (case xs of [] \<Rightarrow> None | x # _ \<Rightarrow> Some x)"
    using e lk by (cases xs) (simp_all add: list_top_def behind_def)
  show "list_tail h l = Some (if xs = [] then None else Some (last xs))"
    using e lk by (simp add: list_tail_def before_def)
  show "\<exists>h'. list_pop h l = Some (case xs of [] \<Rightarrow> None | x # _ \<Rightarrow> Some x, h') \<and> is_list h' l (tl xs)"
    using e lk ls del_list_code(1) [OF ls, of "hd xs"] by (cases xs) (auto simp: list_pop_def behind_def)
qed
subsection \<open>Properties\<close>

text \<open>C18. The linked lists refine sequences: from a fresh head, any legal series of additions at the head, additions at
  the tail and deletions runs without a fault, and walking the list forwards gives the sequence those
  operations describe, walking it backwards its reverse. The list of librdmacm behaves the same.
\<close>

theorem list_ops_refine:
  assumes "l \<in> dom h" "list_legal (dom h - {l}) [] ops"
  shows "\<exists>h0 h1 g0 g1. list_head_init h l = Some h0 \<and> list_run list_add list_add_tail list_del h0 l ops = Some h1 \<and>
           list_for_each h1 l = Some (list_spec [] ops) \<and> list_for_each_rev h1 l = Some (rev (list_spec [] ops)) \<and>
           dlist_init h l = Some g0 \<and>
           list_run (\<lambda>h l n. dlist_insert_after h n l) (\<lambda>h l n. dlist_insert_before h n l) dlist_remove g0 l ops = Some g1 \<and>
           list_for_each g1 l = Some (list_spec [] ops)"
proof -
  obtain h0 g0 where i: "list_head_init h l = Some h0" "is_list h0 l []" "only_touches {l} h h0"
    "dlist_init h l = Some g0" "is_list g0 l []" "only_touches {l} h g0" using init_code [OF assms(1)] by blast
  then have "list_legal (dom h0 - {l}) [] ops" "list_legal (dom g0 - {l}) [] ops"
    using assms(2) by (simp_all add: only_touches_def)
  then obtain h1 g1 where "list_run list_add list_add_tail list_del h0 l ops = Some h1" "is_list h1 l (list_spec [] ops)"
    "list_run (\<lambda>h l n. dlist_insert_after h n l) (\<lambda>h l n. dlist_insert_before h n l) dlist_remove g0 l ops = Some g1"
    "is_list g1 l (list_spec [] ops)"
    using ccan_list.run_refines [OF i(2)] rdmacm_list.run_refines [OF i(5)] by blast
  then show ?thesis using i(1,4) list_for_each_code by blast
qed

definition demo_heap :: heap where
  "demo_heap = (\<lambda>a. if a < 5 then Some \<lparr>n_next = 0, n_prev = 0\<rparr> else None)"

lemma demo_heap_dom: "dom demo_heap = {0, 1, 2, 3, 4}"
  by (auto simp: demo_heap_def dom_def)

theorem list_ops_refine_witness:
  "\<exists>h0 h1. list_head_init demo_heap 0 = Some h0 \<and>
     list_run list_add list_add_tail list_del h0 0 [Add_tail 1, Add_tail 2, Add_head 3, Del 1] = Some h1 \<and>
     list_for_each h1 0 = Some [3, 2]"
  using list_ops_refine [of 0 demo_heap "[Add_tail 1, Add_tail 2, Add_head 3, Del 1]"]
  by (simp add: demo_heap_dom) blast

text \<open>
  The consistency check decides: on a finite heap whose \<open>next\<close> pointers stay inside it, however its links are
  corrupted, \<^verbatim>\<open>list_check\<close> returns, and it accepts exactly the heads of well-formed lists.
\<close>

theorem list_check_exact:
  assumes "finite (dom h)" "\<forall>a n. h a = Some n \<longrightarrow> n_next n \<in> dom h" "l \<in> dom h"
  shows "\<exists>b. list_check h l = Some b \<and> (b \<longleftrightarrow> (\<exists>xs. is_list h l xs))"
proof -
  obtain n where "get_next h l = Some n" using assms(3) by (auto simp: get_next_def)
  then show ?thesis
    using check_from_exact [where h = h and l = l and ws = "[]" and n = n] assms(1,2) by (simp add: list_check_def list_check_node_def before_def)
qed

text \<open>
  Splicing moves every entry: appending or prepending one list to another that shares no node with it gives the
  concatenation in the right order, and leaves the source list empty and usable.
\<close>

theorem list_splice_exact:
  assumes "is_list h to xs" "is_list h from ys" "set (to # xs) \<inter> set (from # ys) = {}"
  shows "(\<exists>h'. list_append_list h to from = Some h' \<and> is_list h' to (xs @ ys) \<and> is_list h' from []) \<and>
         (\<exists>h'. list_prepend_list h to from = Some h' \<and> is_list h' to (ys @ xs) \<and> is_list h' from [])"
  using list_splice_code [OF assms] by blast

definition demo_rings :: heap where
  "demo_rings = [0 \<mapsto> \<lparr>n_next = 1, n_prev = 1\<rparr>, 1 \<mapsto> \<lparr>n_next = 0, n_prev = 0\<rparr>,
                 2 \<mapsto> \<lparr>n_next = 3, n_prev = 4\<rparr>, 3 \<mapsto> \<lparr>n_next = 4, n_prev = 2\<rparr>, 4 \<mapsto> \<lparr>n_next = 2, n_prev = 3\<rparr>,
                 5 \<mapsto> \<lparr>n_next = 0, n_prev = 0\<rparr>]"

lemma demo_rings_lists: "is_list demo_rings 0 [1]" "is_list demo_rings 2 [3, 4]"
  by (simp_all add: is_list_def link_def get_next_def get_prev_def demo_rings_def)

text \<open>
  Operations on one list leave the others alone: deleting a node from one list and adding it to the tail of another
  runs without a fault and changes the two lists by exactly that node.
\<close>

theorem list_move_safe:
  assumes "is_list h l xs" "is_list h k ys" "set (l # xs) \<inter> set (k # ys) = {}" "n \<in> set xs"
  shows "\<exists>h'. do { h \<leftarrow> list_del h n; list_add_tail h k n } = Some h' \<and>
           is_list h' l (remove1 n xs) \<and> is_list h' k (ys @ [n])"
  by (rule ccan_list.move_node [OF assms])

text \<open>
  The accessors are those of a sequence: \<^verbatim>\<open>list_top\<close>, \<^verbatim>\<open>list_tail\<close> and \<^verbatim>\<open>list_empty\<close> give the first entry, the last
  entry and emptiness; \<^verbatim>\<open>list_pop\<close> returns the first entry and leaves the rest; \<^verbatim>\<open>list_swap\<close> puts a new node in the place of an
  old one.
\<close>

theorem list_accessors_exact:
  assumes "is_list h l xs"
  shows "list_empty h l = Some (xs = []) \<and> list_top h l = Some (case xs of [] \<Rightarrow> None | x # _ \<Rightarrow> Some x) \<and>
         list_tail h l = Some (if xs = [] then None else Some (last xs)) \<and>
         (\<exists>h'. list_pop h l = Some (case xs of [] \<Rightarrow> None | x # _ \<Rightarrow> Some x, h') \<and> is_list h' l (tl xs)) \<and>
         (\<forall>us x vs n. xs = us @ x # vs \<longrightarrow> n \<in> dom h - set (l # xs) \<longrightarrow>
            (\<exists>h'. list_swap h x n = Some h' \<and> is_list h' l (us @ n # vs)))"
proof -
  have "\<exists>h'. list_swap h x n = Some h' \<and> is_list h' l (us @ n # vs)"
    if "xs = us @ x # vs" "n \<in> dom h - set (l # xs)" for us x vs n
    by (rule list_swap_code) (use assms that in auto)
  then show ?thesis using ccan_list.empty_list [OF assms] list_access_code [OF assms] by blast
qed

end
