(* ===== verification/MemTree.thy ===== *)
theory MemTree
  imports Prelude
begin

text \<open>
  The red-black tree of \<^verbatim>\<open>libibverbs/memory.c\<close>. The C nodes carry parent pointers, and the rebalancing loops climb
  along them; here the place of a node is a subtree together with the path that leads up from it, so that
  climbing is a step on the path and a rotation rewrites the top of it. \<open>None\<close> is a dereference of NULL.
  A node is named by its start address, which never changes while it is in the tree.
\<close>

subsection \<open>Definitions\<close>

datatype color = IBV_RED | IBV_BLACK

record mem_node =
  nd_start :: u64
  nd_end :: u64
  nd_refcnt :: int

datatype mtree = Leaf | Node mtree color mem_node mtree

text \<open>The way up: the parent of a left child with its right subtree, or of a right child with its left one.\<close>

datatype mctx = Top | Left_of color mem_node mtree mctx | Right_of mtree color mem_node mctx

fun plug :: "mtree \<Rightarrow> mctx \<Rightarrow> mtree" where
  "plug t Top = t"
| "plug t (Left_of c x r ctx) = plug (Node t c x r) ctx"
| "plug t (Right_of l c x ctx) = plug (Node l c x t) ctx"

fun color_of :: "mtree \<Rightarrow> color" where
  "color_of Leaf = IBV_BLACK" | "color_of (Node l c x r) = c"

fun paint :: "color \<Rightarrow> mtree \<Rightarrow> mtree" where
  "paint c Leaf = Leaf" | "paint c (Node l c' x r) = Node l c x r"

fun mm_locate :: "mtree \<Rightarrow> mctx \<Rightarrow> u64 \<Rightarrow> (mtree \<times> mctx) option" where
  "mm_locate Leaf ctx k = None"
| "mm_locate (Node l c x r) ctx k =
     (if nd_start x = k then Some (Node l c x r, ctx)
      else if nd_start x < k then mm_locate r (Right_of l c x ctx) k
      else mm_locate l (Left_of c x r ctx) k)"

fun rightmost :: "mtree \<Rightarrow> mem_node option" where
  "rightmost Leaf = None" | "rightmost (Node l c x r) = (if r = Leaf then Some x else rightmost r)"

fun leftmost :: "mtree \<Rightarrow> mem_node option" where
  "leftmost Leaf = None" | "leftmost (Node l c x r) = (if l = Leaf then Some x else leftmost l)"

fun climb_prev :: "mctx \<Rightarrow> mem_node option" where
  "climb_prev Top = None"
| "climb_prev (Left_of c x r ctx) = climb_prev ctx"
| "climb_prev (Right_of l c x ctx) = Some x"

fun climb_next :: "mctx \<Rightarrow> mem_node option" where
  "climb_next Top = None"
| "climb_next (Right_of l c x ctx) = climb_next ctx"
| "climb_next (Left_of c x r ctx) = Some x"

text \<open>The outer option is a name that is not in the tree, the inner one the returned pointer.\<close>

definition mm_prev :: "mtree \<Rightarrow> u64 \<Rightarrow> mem_node option option" where
  "mm_prev root k = (case mm_locate root Top k of
     Some (Node l c x r, ctx) \<Rightarrow> Some (if l \<noteq> Leaf then rightmost l else climb_prev ctx)
   | _ \<Rightarrow> None)"

definition mm_next :: "mtree \<Rightarrow> u64 \<Rightarrow> mem_node option option" where
  "mm_next root k = (case mm_locate root Top k of
     Some (Node l c x r, ctx) \<Rightarrow> Some (if r \<noteq> Leaf then leftmost r else climb_next ctx)
   | _ \<Rightarrow> None)"

text \<open>The rotations rewrite the subtree at their node; its place in the tree stays.\<close>

fun mm_rotate_right :: "mtree \<Rightarrow> mtree option" where
  "mm_rotate_right (Node (Node a c1 x b) c2 y d) = Some (Node a c1 x (Node b c2 y d))"
| "mm_rotate_right _ = None"

fun mm_rotate_left :: "mtree \<Rightarrow> mtree option" where
  "mm_rotate_left (Node a c2 y (Node b c1 x d)) = Some (Node (Node a c2 y b) c1 x d)"
| "mm_rotate_left _ = None"

text \<open>
  Rebalancing after an insertion. The loop runs while the parent is red; after the rotations the parent is
  black, so it ends there. In the end the root is painted black.
\<close>

fun mm_add_rebalance :: "mtree \<Rightarrow> mctx \<Rightarrow> mtree option" where
  "mm_add_rebalance node (Left_of IBV_RED p pr (Left_of gc g uncle ctx)) =
     (if color_of uncle = IBV_RED
      then mm_add_rebalance (Node (Node node IBV_BLACK p pr) IBV_RED g (paint IBV_BLACK uncle)) ctx
      else do {
        t \<leftarrow> mm_rotate_right (Node (Node node IBV_BLACK p pr) IBV_RED g uncle);
        Some (paint IBV_BLACK (plug t ctx)) })"
| "mm_add_rebalance node (Right_of pl IBV_RED p (Left_of gc g uncle ctx)) =
     (if color_of uncle = IBV_RED
      then mm_add_rebalance (Node (Node pl IBV_BLACK p node) IBV_RED g (paint IBV_BLACK uncle)) ctx
      else do {
        parent \<leftarrow> mm_rotate_left (Node pl IBV_RED p node);
        t \<leftarrow> mm_rotate_right (Node (paint IBV_BLACK parent) IBV_RED g uncle);
        Some (paint IBV_BLACK (plug t ctx)) })"
| "mm_add_rebalance node (Right_of pl IBV_RED p (Right_of uncle gc g ctx)) =
     (if color_of uncle = IBV_RED
      then mm_add_rebalance (Node (paint IBV_BLACK uncle) IBV_RED g (Node pl IBV_BLACK p node)) ctx
      else do {
        t \<leftarrow> mm_rotate_left (Node uncle IBV_RED g (Node pl IBV_BLACK p node));
        Some (paint IBV_BLACK (plug t ctx)) })"
| "mm_add_rebalance node (Left_of IBV_RED p pr (Right_of uncle gc g ctx)) =
     (if color_of uncle = IBV_RED
      then mm_add_rebalance (Node (paint IBV_BLACK uncle) IBV_RED g (Node node IBV_BLACK p pr)) ctx
      else do {
        parent \<leftarrow> mm_rotate_right (Node node IBV_RED p pr);
        t \<leftarrow> mm_rotate_left (Node uncle IBV_RED g (paint IBV_BLACK parent));
        Some (paint IBV_BLACK (plug t ctx)) })"
| "mm_add_rebalance node (Left_of IBV_RED p pr Top) = None"
| "mm_add_rebalance node (Right_of pl IBV_RED p Top) = None"
| "mm_add_rebalance node ctx = Some (paint IBV_BLACK (plug node ctx))"

fun mm_descend :: "mem_node \<Rightarrow> mtree \<Rightarrow> mctx \<Rightarrow> mctx" where
  "mm_descend new Leaf ctx = ctx"
| "mm_descend new (Node l c x r) ctx =
     (if nd_start x < nd_start new then mm_descend new r (Right_of l c x ctx)
      else mm_descend new l (Left_of c x r ctx))"

definition mm_add :: "mtree \<Rightarrow> mem_node \<Rightarrow> mtree option" where
  "mm_add root new = (if root = Leaf then None
     else mm_add_rebalance (Node Leaf IBV_RED new Leaf) (mm_descend new root Top))"

text \<open>
  Rebalancing after a removal: \<open>child\<close> has taken the place of a black node. A missing child counts as the
  left one when the left subtree of the parent is missing, as the comparison of the pointers does.
\<close>

definition fix_left :: "mtree \<Rightarrow> color \<Rightarrow> mem_node \<Rightarrow> mtree \<Rightarrow> (mtree + mtree) option" where
  "fix_left child pc p sib = (case sib of
     Leaf \<Rightarrow> None
   | Node sl sc s sr \<Rightarrow>
       if color_of sl = IBV_BLACK \<and> color_of sr = IBV_BLACK then Some (Inr (Node child pc p (paint IBV_RED sib)))
       else do {
         sib \<leftarrow> (if color_of sr = IBV_BLACK then mm_rotate_right (Node (paint IBV_BLACK sl) IBV_RED s sr) else Some sib);
         (case sib of
            Leaf \<Rightarrow> None
          | Node sl sc s sr \<Rightarrow>
              map_option Inl (mm_rotate_left (Node child IBV_BLACK p (Node sl pc s (paint IBV_BLACK sr))))) })"

definition fix_right :: "mtree \<Rightarrow> color \<Rightarrow> mem_node \<Rightarrow> mtree \<Rightarrow> (mtree + mtree) option" where
  "fix_right child pc p sib = (case sib of
     Leaf \<Rightarrow> None
   | Node sl sc s sr \<Rightarrow>
       if color_of sl = IBV_BLACK \<and> color_of sr = IBV_BLACK then Some (Inr (Node (paint IBV_RED sib) pc p child))
       else do {
         sib \<leftarrow> (if color_of sl = IBV_BLACK then mm_rotate_left (Node sl IBV_RED s (paint IBV_BLACK sr)) else Some sib);
         (case sib of
            Leaf \<Rightarrow> None
          | Node sl sc s sr \<Rightarrow>
              map_option Inl (mm_rotate_right (Node (Node (paint IBV_BLACK sl) pc s sr) IBV_BLACK p child))) })"

text \<open>\<open>Inr\<close> is the subtree to climb with, \<open>Inl\<close> the one after the final rotation.\<close>

fun mm_remove_rebalance :: "mtree \<Rightarrow> mctx \<Rightarrow> mtree option" where
  "mm_remove_rebalance child Top = Some (paint IBV_BLACK child)"
| "mm_remove_rebalance child (Left_of pc p sib ctx) =
     (if color_of child = IBV_RED then Some (plug (paint IBV_BLACK child) (Left_of pc p sib ctx))
      else if color_of sib = IBV_RED then
        (case sib of
           Leaf \<Rightarrow> None
         | Node sl sc s sr \<Rightarrow> do {
             r \<leftarrow> fix_left child IBV_RED p sl;
             (case r of
                Inl t \<Rightarrow> Some (paint IBV_BLACK (plug t (Left_of IBV_BLACK s sr ctx)))
              | Inr t \<Rightarrow> Some (plug (paint IBV_BLACK t) (Left_of IBV_BLACK s sr ctx))) })
      else do {
        r \<leftarrow> fix_left child pc p sib;
        (case r of
           Inl t \<Rightarrow> Some (paint IBV_BLACK (plug t ctx))
         | Inr t \<Rightarrow> mm_remove_rebalance t ctx) })"
| "mm_remove_rebalance child (Right_of sib pc p ctx) =
     (if color_of child = IBV_RED then Some (plug (paint IBV_BLACK child) (Right_of sib pc p ctx))
      else if child = Leaf \<and> sib = Leaf then None
      else if color_of sib = IBV_RED then
        (case sib of
           Leaf \<Rightarrow> None
         | Node sl sc s sr \<Rightarrow> do {
             r \<leftarrow> fix_right child IBV_RED p sr;
             (case r of
                Inl t \<Rightarrow> Some (paint IBV_BLACK (plug t (Right_of sl IBV_BLACK s ctx)))
              | Inr t \<Rightarrow> Some (plug (paint IBV_BLACK t) (Right_of sl IBV_BLACK s ctx))) })
      else do {
        r \<leftarrow> fix_right child pc p sib;
        (case r of
           Inl t \<Rightarrow> Some (paint IBV_BLACK (plug t ctx))
         | Inr t \<Rightarrow> mm_remove_rebalance t ctx) })"

text \<open>The node that takes the place of a removed inner node: the rightmost one of its left subtree.\<close>

fun take_rightmost :: "mtree \<Rightarrow> mctx \<Rightarrow> (mtree \<times> color \<times> mctx) option" where
  "take_rightmost Leaf ctx = None"
| "take_rightmost (Node l c x r) ctx =
     (if r = Leaf then Some (l, c, ctx) else take_rightmost r (Right_of l c x ctx))"

definition mm_unlink :: "mtree \<Rightarrow> mctx \<Rightarrow> (mtree \<times> color \<times> mctx) option" where
  "mm_unlink node ctx = (case node of
     Leaf \<Rightarrow> None
   | Node l c x r \<Rightarrow>
       if l \<noteq> Leaf \<and> r \<noteq> Leaf then do {
         tmp \<leftarrow> rightmost l;
         take_rightmost l (Left_of c tmp r ctx) }
       else Some (if l \<noteq> Leaf then l else r, c, ctx))"

definition mm_remove :: "mtree \<Rightarrow> u64 \<Rightarrow> mtree option" where
  "mm_remove root k = do {
     (node, ctx) \<leftarrow> mm_locate root Top k;
     (child, nodecol, ctx) \<leftarrow> mm_unlink node ctx;
     (if nodecol = IBV_RED then Some (plug child ctx) else mm_remove_rebalance child ctx) }"

fun mm_find_start :: "mtree \<Rightarrow> u64 \<Rightarrow> mem_node option" where
  "mm_find_start Leaf start = None"
| "mm_find_start (Node l c x r) start =
     (if nd_start x \<le> start \<and> nd_end x \<ge> start then Some x
      else if nd_start x < start then mm_find_start r start else mm_find_start l start)"

text \<open>Reading a node through its pointer, and writing its end or count.\<close>

definition mm_node :: "mtree \<Rightarrow> u64 \<Rightarrow> mem_node option" where
  "mm_node root k = (case mm_locate root Top k of Some (Node l c x r, ctx) \<Rightarrow> Some x | _ \<Rightarrow> None)"

definition mm_write :: "mtree \<Rightarrow> u64 \<Rightarrow> (mem_node \<Rightarrow> mem_node) \<Rightarrow> mtree option" where
  "mm_write root k f = (case mm_locate root Top k of
     Some (Node l c x r, ctx) \<Rightarrow> Some (plug (Node l c (f x) r) ctx) | _ \<Rightarrow> None)"

subsection \<open>In-order sequences\<close>

fun inorder :: "mtree \<Rightarrow> mem_node list" where
  "inorder Leaf = []" | "inorder (Node l c x r) = inorder l @ x # inorder r"

fun lefts :: "mctx \<Rightarrow> mem_node list" where
  "lefts Top = []" | "lefts (Left_of c x r ctx) = lefts ctx" | "lefts (Right_of l c x ctx) = lefts ctx @ inorder l @ [x]"

fun rights :: "mctx \<Rightarrow> mem_node list" where
  "rights Top = []" | "rights (Left_of c x r ctx) = x # inorder r @ rights ctx" | "rights (Right_of l c x ctx) = rights ctx"

lemma inorder_plug [simp]: "inorder (plug t ctx) = lefts ctx @ inorder t @ rights ctx"
  by (induction t ctx rule: plug.induct) simp_all

lemma inorder_paint [simp]: "inorder (paint c t) = inorder t"
  by (cases t) simp_all

lemma inorder_empty [simp]: "inorder t = [] \<longleftrightarrow> t = Leaf"
  by (cases t) simp_all

lemma inorder_rotate:
  "mm_rotate_right t = Some t' \<Longrightarrow> inorder t' = inorder t" "mm_rotate_left t = Some t' \<Longrightarrow> inorder t' = inorder t"
  by (cases t rule: mm_rotate_right.cases; auto) (cases t rule: mm_rotate_left.cases; auto)

lemma inorder_add_rebalance:
  "mm_add_rebalance node ctx = Some t \<Longrightarrow> inorder t = lefts ctx @ inorder node @ rights ctx"
  by (induction node ctx arbitrary: t rule: mm_add_rebalance.induct)
    (auto split: if_splits bind_splits dest!: inorder_rotate)

lemma inorder_fix:
  "fix_left child pc p sib = Some r \<Longrightarrow> inorder (case r of Inl t \<Rightarrow> t | Inr t \<Rightarrow> t) = inorder child @ p # inorder sib"
  "fix_right child pc p sib = Some r \<Longrightarrow> inorder (case r of Inl t \<Rightarrow> t | Inr t \<Rightarrow> t) = inorder sib @ p # inorder child"
  by (auto simp: fix_left_def fix_right_def split: mtree.splits if_splits bind_splits dest!: inorder_rotate)

subsection \<open>Balance\<close>

fun bh :: "mtree \<Rightarrow> nat" where
  "bh Leaf = 0" | "bh (Node l c x r) = bh l + (if c = IBV_BLACK then 1 else 0)"

fun rb :: "mtree \<Rightarrow> bool" where
  "rb Leaf \<longleftrightarrow> True"
| "rb (Node l c x r) \<longleftrightarrow> rb l \<and> rb r \<and> bh l = bh r \<and> (c = IBV_RED \<longrightarrow> color_of l = IBV_BLACK \<and> color_of r = IBV_BLACK)"

fun ctx_color :: "mctx \<Rightarrow> color" where
  "ctx_color Top = IBV_BLACK" | "ctx_color (Left_of c x r ctx) = c" | "ctx_color (Right_of l c x ctx) = c"

text \<open>A path that completes a balanced subtree of black height \<open>h\<close> to a balanced tree with a black root.\<close>

fun rbc :: "mctx \<Rightarrow> nat \<Rightarrow> bool" where
  "rbc Top h \<longleftrightarrow> True"
| "rbc (Left_of c x r ctx) h \<longleftrightarrow> rb r \<and> bh r = h \<and>
     (c = IBV_RED \<longrightarrow> color_of r = IBV_BLACK \<and> ctx_color ctx = IBV_BLACK \<and> ctx \<noteq> Top) \<and>
     rbc ctx (h + (if c = IBV_BLACK then 1 else 0))"
| "rbc (Right_of l c x ctx) h \<longleftrightarrow> rb l \<and> bh l = h \<and>
     (c = IBV_RED \<longrightarrow> color_of l = IBV_BLACK \<and> ctx_color ctx = IBV_BLACK \<and> ctx \<noteq> Top) \<and>
     rbc ctx (h + (if c = IBV_BLACK then 1 else 0))"

definition mm_balanced :: "mtree \<Rightarrow> bool" where
  "mm_balanced t \<longleftrightarrow> rb t \<and> color_of t = IBV_BLACK"

lemma color_cases: "c \<noteq> IBV_RED \<longleftrightarrow> c = IBV_BLACK" "c \<noteq> IBV_BLACK \<longleftrightarrow> c = IBV_RED"
  by (cases c, auto)+

lemma rb_paint [simp]: "rb t \<Longrightarrow> rb (paint IBV_BLACK t)" "color_of (paint IBV_BLACK t) = IBV_BLACK"
  by (cases t, auto)+

lemma bh_paint: "color_of t = IBV_RED \<Longrightarrow> bh (paint IBV_BLACK t) = bh t + 1" "color_of t = IBV_BLACK \<Longrightarrow> paint IBV_BLACK t = t"
  by (cases t, auto)+

lemma plug_rb:
  "rb t \<Longrightarrow> rbc ctx (bh t) \<Longrightarrow> (color_of t = IBV_RED \<longrightarrow> ctx_color ctx = IBV_BLACK) \<Longrightarrow> rb (plug t ctx)"
  by (induction t ctx rule: plug.induct) (auto simp: color_cases)

lemma plug_black: "rbc ctx h \<Longrightarrow> ctx \<noteq> Top \<Longrightarrow> color_of (plug t ctx) = IBV_BLACK"
proof (induction t ctx arbitrary: h rule: plug.induct)
  case (2 t c x r ctx)
  then show ?case by (cases "ctx = Top") (auto simp: color_cases)
next
  case (3 t l c x ctx)
  then show ?case by (cases "ctx = Top") (auto simp: color_cases)
qed simp

lemma plug_balanced:
  assumes "rb t" "rbc ctx (bh t)" "color_of t = IBV_RED \<longrightarrow> ctx_color ctx = IBV_BLACK"
  shows "mm_balanced (paint IBV_BLACK (plug t ctx))"
    "ctx \<noteq> Top \<or> color_of t = IBV_BLACK \<Longrightarrow> mm_balanced (plug t ctx)"
  using plug_rb [OF assms] plug_black [OF assms(2)] by (cases "ctx = Top"; auto simp: mm_balanced_def)+

lemma add_rebalance_balanced:
  "rb node \<Longrightarrow> color_of node = IBV_RED \<Longrightarrow> rbc ctx (bh node) \<Longrightarrow>
   \<exists>t. mm_add_rebalance node ctx = Some t \<and> mm_balanced t"
proof (induction node ctx rule: mm_add_rebalance.induct)
  case (1 node p pr gc g uncle ctx)
  then show ?case by (cases "color_of uncle") (auto simp: bh_paint intro!: plug_balanced)
next
  case (2 node pl p gc g uncle ctx)
  then show ?case by (cases "color_of uncle"; cases node) (auto simp: bh_paint intro!: plug_balanced)
next
  case (3 node pl p uncle gc g ctx)
  then show ?case by (cases "color_of uncle") (auto simp: bh_paint intro!: plug_balanced)
next
  case (4 node p pr uncle gc g ctx)
  then show ?case by (cases "color_of uncle"; cases node) (auto simp: bh_paint intro!: plug_balanced)
qed (auto intro!: plug_balanced, auto simp: mm_balanced_def)

lemma fix_left_balanced:
  assumes "rb child" "rb sib" "bh sib = bh child + 1" "color_of sib = IBV_BLACK" "color_of child = IBV_BLACK"
  shows "\<exists>r. fix_left child pc p sib = Some r \<and> (case r of
           Inl t \<Rightarrow> rb t \<and> color_of t = pc \<and> bh t = bh child + 1 + (if pc = IBV_BLACK then 1 else 0)
         | Inr t \<Rightarrow> rb (paint IBV_BLACK t) \<and> color_of t = pc \<and> bh (paint IBV_BLACK t) = bh child + 1)"
proof -
  obtain sl s sr where sib: "sib = Node sl IBV_BLACK s sr" using assms(3,4) by (cases sib) auto
  show ?thesis
  proof (cases "color_of sr = IBV_BLACK")
    case True
    then show ?thesis using assms sib by (cases sl) (auto simp: fix_left_def color_cases)
  next
    case False
    then show ?thesis using assms sib by (cases sr) (auto simp: fix_left_def color_cases)
  qed
qed

lemma fix_right_balanced:
  assumes "rb child" "rb sib" "bh sib = bh child + 1" "color_of sib = IBV_BLACK" "color_of child = IBV_BLACK"
  shows "\<exists>r. fix_right child pc p sib = Some r \<and> (case r of
           Inl t \<Rightarrow> rb t \<and> color_of t = pc \<and> bh t = bh child + 1 + (if pc = IBV_BLACK then 1 else 0)
         | Inr t \<Rightarrow> rb (paint IBV_BLACK t) \<and> color_of t = pc \<and> bh (paint IBV_BLACK t) = bh child + 1)"
proof -
  obtain sl s sr where sib: "sib = Node sl IBV_BLACK s sr" using assms(3,4) by (cases sib) auto
  show ?thesis
  proof (cases "color_of sl = IBV_BLACK")
    case True
    then show ?thesis using assms sib by (cases sr) (auto simp: fix_right_def color_cases)
  next
    case False
    then show ?thesis using assms sib by (cases sl) (auto simp: fix_right_def color_cases)
  qed
qed

lemma remove_rebalance_red:
  "color_of child = IBV_RED \<Longrightarrow> mm_remove_rebalance child ctx = Some (plug (paint IBV_BLACK child) ctx)"
  by (cases ctx) auto

lemma paint_same: "color_of t = c \<Longrightarrow> paint c t = t"
  by (cases t) auto

lemma red_node: "color_of t = IBV_RED \<Longrightarrow> \<exists>l x r. t = Node l IBV_RED x r"
  by (cases t) auto

text \<open>The last step of a round: the subtree of the parent has been rebuilt by \<^const>\<open>fix_left\<close> or \<^const>\<open>fix_right\<close>.\<close>

lemma remove_round:
  assumes IH: "\<And>t. rb t \<Longrightarrow> rbc ctx (bh t + 1) \<Longrightarrow>
      \<exists>u. mm_remove_rebalance t ctx = Some u \<and> mm_balanced u \<and> inorder u = lefts ctx @ inorder t @ rights ctx"
    and r: "case r of
           Inl t \<Rightarrow> rb t \<and> color_of t = pc \<and> bh t = h + 1 + (if pc = IBV_BLACK then 1 else 0)
         | Inr t \<Rightarrow> rb (paint IBV_BLACK t) \<and> color_of t = pc \<and> bh (paint IBV_BLACK t) = h + 1"
    and ctx: "rbc ctx (h + 1 + (if pc = IBV_BLACK then 1 else 0))" "pc = IBV_RED \<longrightarrow> ctx_color ctx = IBV_BLACK \<and> ctx \<noteq> Top"
  shows "\<exists>u. (case r of Inl t \<Rightarrow> Some (paint IBV_BLACK (plug t ctx)) | Inr t \<Rightarrow> mm_remove_rebalance t ctx) = Some u \<and>
           mm_balanced u \<and> inorder u = lefts ctx @ inorder (case r of Inl t \<Rightarrow> t | Inr t \<Rightarrow> t) @ rights ctx"
proof (cases r)
  case (Inl t)
  then show ?thesis using r ctx by (auto intro!: plug_balanced)
next
  case (Inr t)
  show ?thesis
  proof (cases pc)
    case IBV_RED
    then show ?thesis using Inr r ctx by (auto simp: remove_rebalance_red intro!: plug_balanced)
  next
    case IBV_BLACK
    then have "paint IBV_BLACK t = t" using Inr r by (simp add: paint_same)
    then show ?thesis using Inr r ctx IH [of t] IBV_BLACK by simp
  qed
qed

lemma remove_red_sibling_left:
  assumes "rb child" "rbc (Left_of pc p sib ctx) (bh child + 1)" "color_of child = IBV_BLACK" "color_of sib = IBV_RED"
  shows "\<exists>t. mm_remove_rebalance child (Left_of pc p sib ctx) = Some t \<and> mm_balanced t \<and>
           inorder t = lefts (Left_of pc p sib ctx) @ inorder child @ rights (Left_of pc p sib ctx)"
proof -
  obtain sl s sr where sib: "sib = Node sl IBV_RED s sr" using assms red_node by blast
  obtain r where r: "fix_left child IBV_RED p sl = Some r" "case r of
       Inl t \<Rightarrow> rb t \<and> color_of t = IBV_RED \<and> bh t = bh child + 1 + (if IBV_RED = IBV_BLACK then 1 else 0)
     | Inr t \<Rightarrow> rb (paint IBV_BLACK t) \<and> color_of t = IBV_RED \<and> bh (paint IBV_BLACK t) = bh child + 1"
    using fix_left_balanced [of child sl IBV_RED p] assms sib by auto
  have ctx: "rbc (Left_of IBV_BLACK s sr ctx) (bh child + 1)" using assms sib by (auto simp: color_cases)
  show ?thesis using r inorder_fix(1) [OF r(1)] assms(3) sib ctx
    by (cases r) (auto simp del: plug.simps intro!: plug_balanced)
qed

lemma remove_red_sibling_right:
  assumes "rb child" "rbc (Right_of sib pc p ctx) (bh child + 1)" "color_of child = IBV_BLACK" "color_of sib = IBV_RED"
  shows "\<exists>t. mm_remove_rebalance child (Right_of sib pc p ctx) = Some t \<and> mm_balanced t \<and>
           inorder t = lefts (Right_of sib pc p ctx) @ inorder child @ rights (Right_of sib pc p ctx)"
proof -
  obtain sl s sr where sib: "sib = Node sl IBV_RED s sr" using assms red_node by blast
  obtain r where r: "fix_right child IBV_RED p sr = Some r" "case r of
       Inl t \<Rightarrow> rb t \<and> color_of t = IBV_RED \<and> bh t = bh child + 1 + (if IBV_RED = IBV_BLACK then 1 else 0)
     | Inr t \<Rightarrow> rb (paint IBV_BLACK t) \<and> color_of t = IBV_RED \<and> bh (paint IBV_BLACK t) = bh child + 1"
    using fix_right_balanced [of child sr IBV_RED p] assms sib by auto
  have ctx: "rbc (Right_of sl IBV_BLACK s ctx) (bh child + 1)" using assms sib by (auto simp: color_cases)
  show ?thesis using r inorder_fix(2) [OF r(1)] assms(3) sib ctx
    by (cases r) (auto simp del: plug.simps intro!: plug_balanced)
qed

lemma remove_rebalance_balanced:
  "rb child \<Longrightarrow> rbc ctx (bh child + 1) \<Longrightarrow>
   \<exists>t. mm_remove_rebalance child ctx = Some t \<and> mm_balanced t \<and> inorder t = lefts ctx @ inorder child @ rights ctx"
proof (induction ctx arbitrary: child)
  case Top
  then show ?case by (simp add: mm_balanced_def)
next
  case (Left_of pc p sib ctx)
  show ?case
  proof (cases "color_of child")
    case IBV_RED
    then show ?thesis using Left_of.prems plug_balanced(2) [of "paint IBV_BLACK child" "Left_of pc p sib ctx"]
      by (simp add: remove_rebalance_red bh_paint del: plug.simps)
  next
    case black: IBV_BLACK
    show ?thesis
    proof (cases "color_of sib")
      case IBV_RED
      then show ?thesis using remove_red_sibling_left Left_of.prems black by blast
    next
      case IBV_BLACK
      obtain r where r: "fix_left child pc p sib = Some r" "case r of
           Inl t \<Rightarrow> rb t \<and> color_of t = pc \<and> bh t = bh child + 1 + (if pc = IBV_BLACK then 1 else 0)
         | Inr t \<Rightarrow> rb (paint IBV_BLACK t) \<and> color_of t = pc \<and> bh (paint IBV_BLACK t) = bh child + 1"
        using fix_left_balanced [of child sib pc p] Left_of.prems black IBV_BLACK by auto
      show ?thesis using remove_round [OF Left_of.IH r(2)] Left_of.prems r(1) inorder_fix(1) [OF r(1)] black IBV_BLACK by simp
    qed
  qed
next
  case (Right_of sib pc p ctx)
  show ?case
  proof (cases "color_of child")
    case IBV_RED
    then show ?thesis using Right_of.prems plug_balanced(2) [of "paint IBV_BLACK child" "Right_of sib pc p ctx"]
      by (simp add: remove_rebalance_red bh_paint del: plug.simps)
  next
    case black: IBV_BLACK
    have nl: "sib \<noteq> Leaf" using Right_of.prems by auto
    show ?thesis
    proof (cases "color_of sib")
      case IBV_RED
      then show ?thesis using remove_red_sibling_right Right_of.prems black by blast
    next
      case IBV_BLACK
      obtain r where r: "fix_right child pc p sib = Some r" "case r of
           Inl t \<Rightarrow> rb t \<and> color_of t = pc \<and> bh t = bh child + 1 + (if pc = IBV_BLACK then 1 else 0)
         | Inr t \<Rightarrow> rb (paint IBV_BLACK t) \<and> color_of t = pc \<and> bh (paint IBV_BLACK t) = bh child + 1"
        using fix_right_balanced [of child sib pc p] Right_of.prems black IBV_BLACK by auto
      show ?thesis using remove_round [OF Right_of.IH r(2)] Right_of.prems r(1) inorder_fix(2) [OF r(1)] black IBV_BLACK nl by simp
    qed
  qed
qed

subsection \<open>The operations on the sequence of nodes\<close>

definition mm_ordered :: "mtree \<Rightarrow> bool" where
  "mm_ordered t \<longleftrightarrow> sorted_wrt (<) (map nd_start (inorder t))"

lemma plug_balancedD:
  "mm_balanced (plug t ctx) \<Longrightarrow>
   rb t \<and> rbc ctx (bh t) \<and> (color_of t = IBV_RED \<longrightarrow> ctx_color ctx = IBV_BLACK \<and> ctx \<noteq> Top)"
  by (induction t ctx rule: plug.induct) (auto simp: mm_balanced_def color_cases)

lemma plug_rewrite: "mm_balanced (plug (Node l c x r) ctx) \<Longrightarrow> mm_balanced (plug (Node l c y r) ctx)"
  using plug_balancedD [of "Node l c x r" ctx] by (intro plug_balanced) (auto simp: mm_balanced_def color_cases)

lemma locate_sound:
  "mm_locate t ctx k = Some (u, ctx') \<Longrightarrow> plug u ctx' = plug t ctx \<and> (\<exists>l c x r. u = Node l c x r \<and> nd_start x = k)"
  by (induction t ctx k rule: mm_locate.induct) (auto split: if_splits)

lemma locate_complete:
  "sorted_wrt (<) (map nd_start (inorder t)) \<Longrightarrow> x \<in> set (inorder t) \<Longrightarrow> mm_locate t ctx (nd_start x) \<noteq> None"
proof (induction t arbitrary: ctx)
  case (Node l c y r)
  then show ?case by (auto simp: sorted_wrt_append simp del: not_None_eq)
qed simp

lemma split_unique:
  fixes xs :: "mem_node list"
  assumes "sorted_wrt (<) (map nd_start (xs @ x # ys))" "xs @ x # ys = xs' @ x' # ys'" "nd_start x = nd_start x'"
  shows "xs = xs' \<and> x = x' \<and> ys = ys'"
  using assms
proof (induction xs arbitrary: xs')
  case Nil
  then show ?case by (cases xs') auto
next
  case (Cons a xs)
  show ?case
  proof (cases xs')
    case Nil
    then show ?thesis using Cons.prems by auto
  next
    case (Cons b list)
    then have "xs @ x # ys = list @ x' # ys'" "a = b" "sorted_wrt (<) (map nd_start (xs @ x # ys))"
      using \<open>(a # xs) @ x # ys = xs' @ x' # ys'\<close> \<open>sorted_wrt (<) (map nd_start ((a # xs) @ x # ys))\<close> by simp_all
    then show ?thesis using Cons.IH [of list] Cons.prems(3) Cons by blast
  qed
qed

lemma locate_split:
  assumes "mm_ordered t" "inorder t = as @ x # bs"
  obtains l c r ctx where "mm_locate t Top (nd_start x) = Some (Node l c x r, ctx)" "plug (Node l c x r) ctx = t"
    "lefts ctx @ inorder l = as" "inorder r @ rights ctx = bs"
proof -
  obtain u ctx where u: "mm_locate t Top (nd_start x) = Some (u, ctx)"
    using locate_complete [of t x Top] assms by (auto simp: mm_ordered_def)
  obtain l c y r where y: "u = Node l c y r" "nd_start y = nd_start x" and p: "plug u ctx = t"
    using locate_sound [OF u] by auto
  have e: "as @ x # bs = (lefts ctx @ inorder l) @ y # (inorder r @ rights ctx)"
    using assms(2) p y(1) by auto
  have "as = lefts ctx @ inorder l \<and> x = y \<and> bs = inorder r @ rights ctx"
    by (rule split_unique [OF _ e y(2) [symmetric]]) (use assms in \<open>simp add: mm_ordered_def\<close>)
  then show ?thesis using that u y(1) p by blast
qed

lemma rightmost_last: "t \<noteq> Leaf \<Longrightarrow> rightmost t = Some (last (inorder t))"
  by (induction t) auto

lemma leftmost_hd: "t \<noteq> Leaf \<Longrightarrow> leftmost t = Some (hd (inorder t))"
  by (induction t) auto

lemma climb_prev_last: "climb_prev ctx = (if lefts ctx = [] then None else Some (last (lefts ctx)))"
  by (induction ctx) auto

lemma climb_next_hd: "climb_next ctx = (if rights ctx = [] then None else Some (hd (rights ctx)))"
  by (induction ctx) auto

lemma mm_prev_spec:
  "mm_ordered t \<Longrightarrow> inorder t = as @ x # bs \<Longrightarrow> mm_prev t (nd_start x) = Some (if as = [] then None else Some (last as))"
  by (erule (1) locate_split) (auto simp: mm_prev_def rightmost_last climb_prev_last)

lemma mm_next_spec:
  "mm_ordered t \<Longrightarrow> inorder t = as @ x # bs \<Longrightarrow> mm_next t (nd_start x) = Some (if bs = [] then None else Some (hd bs))"
  by (erule (1) locate_split) (auto simp: mm_next_def leftmost_hd climb_next_hd)

lemma mm_node_spec: "mm_ordered t \<Longrightarrow> inorder t = as @ x # bs \<Longrightarrow> mm_node t (nd_start x) = Some x"
  by (erule (1) locate_split) (auto simp: mm_node_def)

lemma mm_write_spec:
  assumes "mm_ordered t" "mm_balanced t" "inorder t = as @ x # bs"
  obtains t' where "mm_write t (nd_start x) f = Some t'" "mm_balanced t'" "inorder t' = as @ f x # bs"
  by (rule locate_split [OF assms(1,3)]) (use assms(2) that plug_rewrite in \<open>auto simp: mm_write_def\<close>)

lemma descend_plug: "plug Leaf (mm_descend new t ctx) = plug t ctx"
  by (induction new t ctx rule: mm_descend.induct) auto

lemma descend_sides:
  "sorted_wrt (<) (map nd_start (inorder t)) \<Longrightarrow> \<forall>a \<in> set (lefts ctx). nd_start a < nd_start new \<Longrightarrow>
   \<forall>b \<in> set (rights ctx). \<not> nd_start b < nd_start new \<Longrightarrow>
   (\<forall>a \<in> set (lefts (mm_descend new t ctx)). nd_start a < nd_start new) \<and>
   (\<forall>b \<in> set (rights (mm_descend new t ctx)). \<not> nd_start b < nd_start new)"
proof (induction new t ctx rule: mm_descend.induct)
  case (2 new l c x r ctx)
  have s: "sorted_wrt (<) (map nd_start (inorder l))" "sorted_wrt (<) (map nd_start (inorder r))"
    "\<forall>a \<in> set (inorder l). nd_start a < nd_start x" "\<forall>b \<in> set (inorder r). nd_start x < nd_start b"
    using "2.prems"(1) by (auto simp: sorted_wrt_append)
  show ?case
  proof (cases "nd_start x < nd_start new")
    case True
    have "\<forall>a \<in> set (inorder l). nd_start a < nd_start new" using s(3) True less_trans by blast
    then have "\<forall>a \<in> set (lefts (Right_of l c x ctx)). nd_start a < nd_start new"
      using True "2.prems"(2) unfolding lefts.simps set_append list.set by blast
    moreover have "mm_descend new (Node l c x r) ctx = mm_descend new r (Right_of l c x ctx)" using True by simp
    ultimately show ?thesis using "2.IH"(1) [OF True s(2)] "2.prems"(3) unfolding rights.simps by metis
  next
    case False
    have "\<forall>b \<in> set (inorder r). \<not> nd_start b < nd_start new" using s(4) False less_trans by blast
    then have "\<forall>b \<in> set (rights (Left_of c x r ctx)). \<not> nd_start b < nd_start new"
      using False "2.prems"(3) unfolding rights.simps set_append list.set by blast
    moreover have "mm_descend new (Node l c x r) ctx = mm_descend new l (Left_of c x r ctx)" using False by simp
    ultimately show ?thesis using "2.IH"(2) [OF False s(1)] "2.prems"(2) unfolding lefts.simps by metis
  qed
qed simp

lemma partition_unique:
  assumes "xs @ ys = xs' @ ys'" "\<forall>x \<in> set xs. P x" "\<forall>y \<in> set ys. \<not> P y" "\<forall>x \<in> set xs'. P x" "\<forall>y \<in> set ys'. \<not> P y"
  shows "xs = xs' \<and> ys = ys'"
proof -
  have "filter P (xs @ ys) = filter P (xs' @ ys')" "filter (\<lambda>x. \<not> P x) (xs @ ys) = filter (\<lambda>x. \<not> P x) (xs' @ ys')"
    using assms(1) by simp_all
  moreover have "filter P xs = xs" "filter P ys = []" "filter P xs' = xs'" "filter P ys' = []"
    "filter (\<lambda>x. \<not> P x) xs = []" "filter (\<lambda>x. \<not> P x) ys = ys" "filter (\<lambda>x. \<not> P x) xs' = []" "filter (\<lambda>x. \<not> P x) ys' = ys'"
    using assms by (simp_all add: filter_id_conv filter_empty_conv)
  ultimately show ?thesis by simp
qed

lemma mm_add_spec:
  assumes "mm_ordered t" "mm_balanced t" "t \<noteq> Leaf" "inorder t = as @ bs"
    "\<forall>a \<in> set as. nd_start a < nd_start new" "\<forall>b \<in> set bs. nd_start new \<le> nd_start b"
  obtains t' where "mm_add t new = Some t'" "mm_balanced t'" "inorder t' = as @ new # bs"
proof -
  let ?ctx = "mm_descend new t Top"
  have p: "plug Leaf ?ctx = t" using descend_plug [of new t Top] by simp
  have c: "rbc ?ctx 0" using plug_balancedD [of Leaf ?ctx] p assms(2) by simp
  have "lefts ?ctx @ rights ?ctx = as @ bs" using inorder_plug [of Leaf ?ctx] p assms(4) by simp
  from partition_unique [OF this, where P = "\<lambda>a. nd_start a < nd_start new"]
  have lr: "lefts ?ctx = as \<and> rights ?ctx = bs"
    using descend_sides [of t Top new] assms(1,5,6) by (auto simp: mm_ordered_def not_less)
  obtain t' where t': "mm_add_rebalance (Node Leaf IBV_RED new Leaf) ?ctx = Some t'" "mm_balanced t'"
    using add_rebalance_balanced [of "Node Leaf IBV_RED new Leaf" ?ctx] c by auto
  show ?thesis using that t' inorder_add_rebalance [OF t'(1)] lr assms(3) by (simp add: mm_add_def)
qed

definition unlinked :: "mem_node list \<Rightarrow> (mtree \<times> color \<times> mctx) option \<Rightarrow> bool" where
  "unlinked ns r \<longleftrightarrow> (\<exists>child col ctx. r = Some (child, col, ctx) \<and> rb child \<and>
     rbc ctx (bh child + (if col = IBV_BLACK then 1 else 0)) \<and> (col = IBV_RED \<longrightarrow> color_of child = IBV_BLACK) \<and>
     lefts ctx @ inorder child @ rights ctx = ns)"

lemma take_rightmost_unlinked:
  "rb t \<Longrightarrow> rbc ctx (bh t) \<Longrightarrow> (color_of t = IBV_RED \<longrightarrow> ctx_color ctx = IBV_BLACK \<and> ctx \<noteq> Top) \<Longrightarrow> t \<noteq> Leaf \<Longrightarrow>
   unlinked (lefts ctx @ butlast (inorder t) @ rights ctx) (take_rightmost t ctx)"
proof (induction t ctx rule: take_rightmost.induct)
  case (2 l c x r ctx)
  show ?case
  proof (cases "r = Leaf")
    case True
    then show ?thesis using "2.prems" by (auto simp: unlinked_def butlast_append)
  next
    case False
    have b: "inorder l @ x # butlast (inorder r) = butlast (inorder l @ x # inorder r)" using False by (simp add: butlast_append)
    show ?thesis using 2 False by (cases c) (simp_all add: b [symmetric])
  qed
qed simp

lemma unlink_unlinked:
  assumes "mm_balanced (plug (Node l c x r) ctx)"
  shows "unlinked (lefts ctx @ inorder l @ inorder r @ rights ctx) (mm_unlink (Node l c x r) ctx)"
proof (cases "l \<noteq> Leaf \<and> r \<noteq> Leaf")
  case True
  then have "butlast (inorder l) @ [last (inorder l)] = inorder l" by simp
  then have b: "butlast (inorder l) @ last (inorder l) # zs = inorder l @ zs" for zs
    by (metis append.assoc append_Cons append_Nil)
  show ?thesis
    using take_rightmost_unlinked [of l "Left_of c (last (inorder l)) r ctx"] plug_balancedD [OF assms] True
    by (cases c) (auto simp: mm_unlink_def rightmost_last b)
next
  case False
  then show ?thesis using plug_balancedD [OF assms] by (auto simp: mm_unlink_def unlinked_def)
qed

lemma mm_remove_spec:
  assumes "mm_ordered t" "mm_balanced t" "inorder t = as @ x # bs"
  obtains t' where "mm_remove t (nd_start x) = Some t'" "mm_balanced t'" "inorder t' = as @ bs"
proof -
  obtain l c r ctx where l: "mm_locate t Top (nd_start x) = Some (Node l c x r, ctx)" "plug (Node l c x r) ctx = t"
    "lefts ctx @ inorder l = as" "inorder r @ rights ctx = bs"
    using locate_split [OF assms(1,3)] by blast
  obtain child col ctx' where u: "mm_unlink (Node l c x r) ctx = Some (child, col, ctx')" "rb child"
      "rbc ctx' (bh child + (if col = IBV_BLACK then 1 else 0))" "col = IBV_RED \<longrightarrow> color_of child = IBV_BLACK"
      "lefts ctx' @ inorder child @ rights ctx' = as @ bs"
    using unlink_unlinked [of l c x r ctx] assms(2) l by (auto simp: unlinked_def)
  show ?thesis
  proof (cases col)
    case IBV_RED
    then have "mm_balanced (plug child ctx')" using u plug_balanced(2) [of child ctx'] by simp
    then show ?thesis using that [of "plug child ctx'"] l(1) u IBV_RED by (simp add: mm_remove_def)
  next
    case IBV_BLACK
    obtain t' where "mm_remove_rebalance child ctx' = Some t'" "mm_balanced t'" "inorder t' = as @ bs"
      using remove_rebalance_balanced [OF u(2), of ctx'] u(3,5) IBV_BLACK by auto
    then show ?thesis using that l(1) u(1) IBV_BLACK by (simp add: mm_remove_def)
  qed
qed

lemma find_append: "find P (xs @ ys) = (case find P xs of None \<Rightarrow> find P ys | Some x \<Rightarrow> Some x)"
  by (induction xs) auto

lemma mm_find_start_spec:
  "sorted_wrt (\<lambda>a b. nd_end a < nd_start b) (inorder t) \<Longrightarrow> \<forall>x \<in> set (inorder t). nd_start x \<le> nd_end x \<Longrightarrow>
   mm_find_start t s = find (\<lambda>x. nd_start x \<le> s \<and> s \<le> nd_end x) (inorder t)"
proof (induction t)
  case (Node l c x r)
  have l: "find (\<lambda>x. nd_start x \<le> s \<and> s \<le> nd_end x) (inorder l) = None" if "nd_start x \<le> s"
    using Node.prems that by (fastforce simp: find_None_iff sorted_wrt_append)
  have r: "find (\<lambda>x. nd_start x \<le> s \<and> s \<le> nd_end x) (inorder r) = None" if "s < nd_start x"
    using Node.prems that by (fastforce simp: find_None_iff sorted_wrt_append)
  show ?case using Node l r by (auto simp: find_append sorted_wrt_append not_le split: option.splits)
qed simp

subsection \<open>Trees the program can build\<close>

inductive mm_reach :: "mtree \<Rightarrow> bool" where
  init: "mm_reach (Node Leaf IBV_BLACK x Leaf)"
| add: "mm_reach t \<Longrightarrow> t \<noteq> Leaf \<Longrightarrow> nd_start new \<notin> nd_start ` set (inorder t) \<Longrightarrow> mm_add t new = Some t' \<Longrightarrow> mm_reach t'"
| remove: "mm_reach t \<Longrightarrow> x \<in> set (inorder t) \<Longrightarrow> mm_remove t (nd_start x) = Some t' \<Longrightarrow> mm_reach t'"

abbreviation below :: "u64 \<Rightarrow> mem_node list \<Rightarrow> mem_node list" where
  "below k \<equiv> filter (\<lambda>a. nd_start a < k)"

abbreviation above :: "u64 \<Rightarrow> mem_node list \<Rightarrow> mem_node list" where
  "above k \<equiv> filter (\<lambda>b. k < nd_start b)"

lemma sorted_split_at:
  "sorted_wrt (<) (map nd_start xs) \<Longrightarrow> k \<notin> nd_start ` set xs \<Longrightarrow> xs = below k xs @ above k xs"
proof (induction xs)
  case (Cons a xs)
  show ?case
  proof (cases "nd_start a < k")
    case True
    then show ?thesis using Cons by (simp add: less_not_sym)
  next
    case False
    then have k: "k < nd_start a" using Cons.prems by (auto simp: not_less order.order_iff_strict)
    have "\<forall>x \<in> set xs. k < nd_start x" using Cons.prems(1) k less_trans by fastforce
    then have "below k xs = []" "above k xs = xs" by (auto simp: filter_empty_conv filter_id_conv less_not_sym)
    then show ?thesis using k False by simp
  qed
qed simp

lemma add_exact:
  assumes "mm_ordered t" "mm_balanced t" "t \<noteq> Leaf" "nd_start new \<notin> nd_start ` set (inorder t)"
  shows "\<exists>t'. mm_add t new = Some t' \<and> mm_balanced t' \<and> mm_ordered t' \<and>
           inorder t' = below (nd_start new) (inorder t) @ new # above (nd_start new) (inorder t)"
proof -
  let ?k = "nd_start new" and ?ns = "inorder t"
  have split: "?ns = below ?k ?ns @ above ?k ?ns"
    using assms(1,4) unfolding mm_ordered_def by (rule sorted_split_at)
  obtain t' where t': "mm_add t new = Some t'" "mm_balanced t'" "inorder t' = below ?k ?ns @ new # above ?k ?ns"
    by (rule mm_add_spec [OF assms(1-3) split]) auto
  have "sorted_wrt (<) (map nd_start (below ?k ?ns @ above ?k ?ns))" using assms(1) split by (simp add: mm_ordered_def)
  then have "mm_ordered t'" unfolding mm_ordered_def t'(3) by (auto simp: sorted_wrt_append)
  then show ?thesis using t' by blast
qed

lemma remove_exact:
  assumes "mm_ordered t" "mm_balanced t" "x \<in> set (inorder t)"
  shows "\<exists>t'. mm_remove t (nd_start x) = Some t' \<and> mm_balanced t' \<and> mm_ordered t' \<and> inorder t' = remove1 x (inorder t)"
proof -
  obtain as bs where s: "inorder t = as @ x # bs" "x \<notin> set as" using assms(3) split_list_first by fastforce
  obtain t' where t': "mm_remove t (nd_start x) = Some t'" "mm_balanced t'" "inorder t' = as @ bs"
    by (rule mm_remove_spec [OF assms(1,2) s(1)])
  have "mm_ordered t'" using assms(1) s(1) unfolding mm_ordered_def t'(3) by (auto simp: sorted_wrt_append)
  then show ?thesis using t' s by (simp add: remove1_append)
qed

lemma reach_inv: "mm_reach t \<Longrightarrow> mm_balanced t \<and> mm_ordered t"
proof (induction rule: mm_reach.induct)
  case (init x)
  show ?case by (simp add: mm_balanced_def mm_ordered_def)
next
  case (add t new t')
  then show ?case using add_exact [of t new] by auto
next
  case (remove t x t')
  then show ?case using remove_exact [of t x] by auto
qed

fun depth :: "mtree \<Rightarrow> nat" where
  "depth Leaf = 0" | "depth (Node l c x r) = Suc (max (depth l) (depth r))"

lemma depth_bh: "rb t \<Longrightarrow> depth t \<le> 2 * bh t + (if color_of t = IBV_RED then 1 else 0)"
  by (induction t) (auto split: if_splits simp: color_cases)

lemma bh_size: "rb t \<Longrightarrow> 2 ^ bh t \<le> length (inorder t) + 1"
  by (induction t) auto

lemma balanced_depth:
  assumes "mm_balanced t"
  shows "2 ^ depth t \<le> (length (inorder t) + 1) ^ 2"
proof -
  have "2 ^ depth t \<le> (2::nat) ^ (2 * bh t)" using depth_bh [of t] assms by (intro power_increasing) (auto simp: mm_balanced_def)
  also have "\<dots> = (2 ^ bh t) ^ 2" by (simp add: power_mult power2_eq_square mult_2 power_add)
  also have "\<dots> \<le> (length (inorder t) + 1) ^ 2" using bh_size assms by (intro power_mono) (auto simp: mm_balanced_def)
  finally show ?thesis .
qed

subsection \<open>Properties\<close>

text \<open>C20. In a balanced, ordered, nonempty tree, adding a node with a new start address never dereferences NULL and
  inserts it in order; removing a node of the tree never dereferences NULL and takes out exactly that node. Both
  leave a balanced, ordered tree: equal black heights, no red node with a red child, a black root.
\<close>

theorem mm_add_remove_exact:
  assumes "mm_ordered t" "mm_balanced t" "t \<noteq> Leaf"
    and "nd_start new \<notin> nd_start ` set (inorder t)" "x \<in> set (inorder t)"
  shows "(\<exists>t'. mm_add t new = Some t' \<and> mm_balanced t' \<and> mm_ordered t' \<and>
            inorder t' = filter (\<lambda>a. nd_start a < nd_start new) (inorder t) @ new #
                         filter (\<lambda>b. nd_start new < nd_start b) (inorder t)) \<and>
         (\<exists>t'. mm_remove t (nd_start x) = Some t' \<and> mm_balanced t' \<and> mm_ordered t' \<and> inorder t' = remove1 x (inorder t))"
  using add_exact [OF assms(1-4)] remove_exact [OF assms(1,2,5)] by blast

abbreviation nd :: "u64 \<Rightarrow> mem_node" where
  "nd k \<equiv> \<lparr> nd_start = k, nd_end = k, nd_refcnt = 0 \<rparr>"

abbreviation sample :: mtree where
  "sample \<equiv> Node (Node Leaf IBV_RED (nd 1) Leaf) IBV_BLACK (nd 3) (Node Leaf IBV_RED (nd 5) Leaf)"

theorem mm_add_remove_exact_witness:
  "(\<exists>t'. mm_add sample (nd 4) = Some t' \<and> mm_balanced t' \<and> inorder t' = [nd 1, nd 3, nd 4, nd 5]) \<and>
   (\<exists>t'. mm_remove sample 3 = Some t' \<and> mm_balanced t' \<and> inorder t' = [nd 1, nd 5])"
  using mm_add_remove_exact [of sample "nd 4" "nd 3"] by (auto simp: mm_ordered_def mm_balanced_def)

text \<open>
  Every tree built from the first node by adding nodes with new start addresses and removing nodes is ordered by
  start address, and a tree of \<open>n\<close> nodes has depth at most \<open>2 log (n + 1)\<close>. So in it the search for the node around an
  address finds the one node that contains it when the ranges are disjoint, and the successor of a node is the next
  one in address order.
\<close>

theorem mm_reach_searches:
  assumes "mm_reach t" "inorder t = as @ x # y # bs" "sorted_wrt (\<lambda>a b. nd_end a < nd_start b) (inorder t)"
    "\<forall>n \<in> set (inorder t). nd_start n \<le> nd_end n" "nd_start x \<le> s" "s \<le> nd_end x"
  shows "2 ^ depth t \<le> (length (inorder t) + 1) ^ 2 \<and> mm_find_start t s = Some x \<and>
         mm_next t (nd_start x) = Some (Some y) \<and> mm_prev t (nd_start y) = Some (Some x)"
proof -
  have inv: "mm_balanced t" "mm_ordered t" using reach_inv assms(1) by auto
  have "\<forall>a \<in> set as. \<not> s \<le> nd_end a" using assms(2,3,5) by (fastforce simp: sorted_wrt_append)
  then have "find (\<lambda>x. nd_start x \<le> s \<and> s \<le> nd_end x) as = None" by (simp add: find_None_iff)
  then have "find (\<lambda>x. nd_start x \<le> s \<and> s \<le> nd_end x) (inorder t) = Some x"
    using assms(2,5,6) by (simp add: find_append)
  then show ?thesis using balanced_depth [OF inv(1)] mm_find_start_spec [OF assms(3,4)] mm_next_spec [OF inv(2) assms(2)]
    mm_prev_spec [OF inv(2), of "as @ [x]" y bs] assms(2) by simp
qed

end
