(* ===== verification/ForkTracker.thy ===== *)
theory ForkTracker
  imports MemTree "HOL-Library.Sublist" "HOL-Library.Multiset"
begin

text \<open>
  The fork tracking of \<^verbatim>\<open>libibverbs/memory.c\<close>: every registered memory range is kept from being copied on fork by
  \<^verbatim>\<open>madvise(MADV_DONTFORK)\<close>, and a tree of address ranges counts how many registrations cover each page. The state is
  the file's static variables, the number of calls of malloc made so far and the log of the madvise calls. What malloc,
  madvise, the environment and the kernel's smaps file answer is in the record \<open>mm_env\<close>. A node is named by its
  start address; \<open>None\<close> is a dereference of NULL or a loop that does not end. Reference counts are mathematical
  integers: the overflow of the C int by two billion registrations of one page is not modelled.
\<close>

subsection \<open>Definitions\<close>

datatype advice = MADV_DONTFORK | MADV_DOFORK

datatype ibv_fork_status = IBV_FORK_DISABLED | IBV_FORK_ENABLED | IBV_FORK_UNNEEDED

record mm_env =
  env_malloc :: "nat \<Rightarrow> bool"
  env_madvise :: "nat \<Rightarrow> int"
  env_smaps :: "string list option"
  env_hugepages_safe :: bool
  env_copy_on_fork :: bool
  env_sysconf :: int
  env_errno :: int
  env_memalign :: "u64 option"

record fork_state =
  mm_root :: mtree
  page_size :: int
  huge_page_enabled :: bool
  too_late :: bool
  mallocs :: nat
  madvises :: "(u64 \<times> u64 \<times> advice) list"

text \<open>\<^verbatim>\<open>%lx\<close> and \<^verbatim>\<open>%lu\<close> of sscanf: blanks, an optional sign, an optional 0x for base 16, digits; out of range saturates.\<close>

definition digit_value :: "char \<Rightarrow> nat" where
  "digit_value c = (let n = of_char c :: nat in
     if 48 \<le> n \<and> n \<le> 57 then n - 48 else if 97 \<le> n \<and> n \<le> 122 then n - 87
     else if 65 \<le> n \<and> n \<le> 90 then n - 55 else 36)"

definition isspace :: "char \<Rightarrow> bool" where
  "isspace c \<longleftrightarrow> (let n = of_char c :: nat in n = 32 \<or> 9 \<le> n \<and> n \<le> 13)"

definition strip_0x :: "nat \<Rightarrow> string \<Rightarrow> string" where
  "strip_0x base str = (if base = 16 \<and> (take 2 str = ''0x'' \<or> take 2 str = ''0X'') then drop 2 str else str)"

definition scan_ulong :: "nat \<Rightarrow> string \<Rightarrow> (u64 \<times> string) option" where
  "scan_ulong base str = (
     let str = dropWhile isspace str;
         neg = (take 1 str = ''-'');
         str = strip_0x base (if take 1 str = ''-'' \<or> take 1 str = ''+'' then drop 1 str else str);
         digits = takeWhile (\<lambda>c. digit_value c < base) str;
         v = foldl (\<lambda>a c. a * base + digit_value c) 0 digits;
         w = (if v < 2 ^ 64 then if neg then - word_of_nat v else word_of_nat v else - 1)
     in if digits = [] then None else Some (w, drop (length digits) str))"

definition scan_size :: "string \<Rightarrow> u64 option" where
  "scan_size buf = map_option fst (scan_ulong 10 (dropWhile (\<lambda>c. \<not> isspace c) (dropWhile isspace buf)))"

definition scan_range :: "string \<Rightarrow> (u64 \<times> u64) option" where
  "scan_range buf = do {
     (range_start, rest) \<leftarrow> scan_ulong 16 buf;
     if take 1 rest = ''-'' then do {
       (range_end, rest) \<leftarrow> scan_ulong 16 (drop 1 rest);
       Some (range_start, range_end) }
     else None }"

fun smaps_page_size :: "u64 \<Rightarrow> string list \<Rightarrow> u64" where
  "smaps_page_size sz [] = sz"
| "smaps_page_size sz (buf # file) =
     (if \<not> sublist ''KernelPageSize:'' buf then smaps_page_size sz file
      else (case scan_size buf of None \<Rightarrow> smaps_page_size sz file | Some n \<Rightarrow> n * 1024))"

fun find_mapping :: "u64 \<Rightarrow> u64 \<Rightarrow> string list \<Rightarrow> u64" where
  "find_mapping ret base [] = ret"
| "find_mapping ret base (buf # file) =
     (case scan_range buf of
        None \<Rightarrow> find_mapping ret base file
      | Some (range_start, range_end) \<Rightarrow>
          if base \<ge> range_start \<and> base < range_end then smaps_page_size ret file else find_mapping ret base file)"

definition get_page_size :: "mm_env \<Rightarrow> fork_state \<Rightarrow> u64 \<Rightarrow> u64" where
  "get_page_size env s base = (case env_smaps env of
     None \<Rightarrow> word_of_int (page_size s)
   | Some file \<Rightarrow> find_mapping (word_of_int (page_size s)) base file)"

definition ibv_is_fork_initialized :: "mm_env \<Rightarrow> fork_state \<Rightarrow> ibv_fork_status" where
  "ibv_is_fork_initialized env s =
     (if env_copy_on_fork env then IBV_FORK_UNNEEDED
      else if mm_root s \<noteq> Leaf then IBV_FORK_ENABLED else IBV_FORK_DISABLED)"

definition madvise :: "mm_env \<Rightarrow> fork_state \<Rightarrow> u64 \<Rightarrow> u64 \<Rightarrow> advice \<Rightarrow> fork_state \<times> int" where
  "madvise env s addr len advice =
     (s\<lparr> madvises := madvises s @ [(addr, len, advice)] \<rparr>, env_madvise env (length (madvises s)))"

definition malloc :: "mm_env \<Rightarrow> fork_state \<Rightarrow> fork_state \<times> bool" where
  "malloc env s = (s\<lparr> mallocs := mallocs s + 1 \<rparr>, env_malloc env (mallocs s))"

definition ibv_fork_init :: "mm_env \<Rightarrow> fork_state \<Rightarrow> fork_state \<times> int" where
  "ibv_fork_init env s0 = (
     let s = (if env_hugepages_safe env then s0\<lparr> huge_page_enabled := True \<rparr> else s0) in
     if mm_root s \<noteq> Leaf then (s, 0)
     else if ibv_is_fork_initialized env s = IBV_FORK_UNNEEDED then (s, 0)
     else if too_late s then (s, EINVAL)
     else let s = s\<lparr> page_size := env_sysconf env \<rparr> in
     if page_size s < 0 then (s, env_errno env)
     else (case env_memalign env of
       None \<Rightarrow> (s, ENOMEM)
     | Some tmp \<Rightarrow>
         let (sz, tmp_aligned) =
               (if huge_page_enabled s then let sz = get_page_size env s tmp in (sz, tmp AND NOT (sz - 1))
                else (word_of_int (page_size s), tmp));
             (s, r1) = madvise env s tmp_aligned sz MADV_DONTFORK;
             (s, r2) = (if r1 = 0 then madvise env s tmp_aligned sz MADV_DOFORK else (s, r1))
         in if r2 \<noteq> 0 then (s, ENOSYS)
            else let (s, ok) = malloc env s in
            if \<not> ok then (s, ENOMEM)
            else (s\<lparr> mm_root := Node Leaf IBV_BLACK \<lparr> nd_start = 0, nd_end = - 1, nd_refcnt = 0 \<rparr> Leaf \<rparr>, 0)))"

text \<open>\<open>node\<close> is the later of the two neighbours; \<open>prev\<close> takes over its end and count.\<close>

definition merge_ranges :: "fork_state \<Rightarrow> u64 \<Rightarrow> u64 \<Rightarrow> (fork_state \<times> u64) option" where
  "merge_ranges s node prev = do {
     n \<leftarrow> mm_node (mm_root s) node;
     root \<leftarrow> mm_write (mm_root s) prev (\<lambda>p. p\<lparr> nd_end := nd_end n, nd_refcnt := nd_refcnt n \<rparr>);
     root \<leftarrow> mm_remove root node;
     Some (s\<lparr> mm_root := root \<rparr>, prev) }"

definition split_range :: "mm_env \<Rightarrow> fork_state \<Rightarrow> u64 \<Rightarrow> u64 \<Rightarrow> (fork_state \<times> u64 option) option" where
  "split_range env s node cut_line = (
     let (s, ok) = malloc env s in
     if \<not> ok then Some (s, None)
     else do {
       n \<leftarrow> mm_node (mm_root s) node;
       let new_node = \<lparr> nd_start = cut_line, nd_end = nd_end n, nd_refcnt = nd_refcnt n \<rparr>;
       root \<leftarrow> mm_write (mm_root s) node (\<lambda>n. n\<lparr> nd_end := cut_line - 1 \<rparr>);
       root \<leftarrow> mm_add root new_node;
       Some (s\<lparr> mm_root := root \<rparr>, Some cut_line) })"

definition get_start_node :: "mm_env \<Rightarrow> fork_state \<Rightarrow> u64 \<Rightarrow> int \<Rightarrow> (fork_state \<times> u64 option) option" where
  "get_start_node env s start inc = do {
     node \<leftarrow> mm_find_start (mm_root s) start;
     (if nd_start node < start then split_range env s (nd_start node) start
      else do {
        tmp \<leftarrow> mm_prev (mm_root s) (nd_start node);
        (case tmp of
           Some p \<Rightarrow>
             if nd_refcnt p = nd_refcnt node + inc
             then map_option (\<lambda>(s, k). (s, Some k)) (merge_ranges s (nd_start node) (nd_start p))
             else Some (s, Some (nd_start node))
         | None \<Rightarrow> Some (s, Some (nd_start node))) }) }"

definition undo_merge :: "fork_state \<Rightarrow> u64 \<Rightarrow> (fork_state \<times> u64) option" where
  "undo_merge s node = do {
     n \<leftarrow> mm_node (mm_root s) node;
     tmp \<leftarrow> mm_prev (mm_root s) node;
     (s, node) \<leftarrow> (case tmp of
        Some p \<Rightarrow> if nd_refcnt p = nd_refcnt n then merge_ranges s node (nd_start p) else Some (s, node)
      | None \<Rightarrow> Some (s, node));
     n \<leftarrow> mm_node (mm_root s) node;
     tmp \<leftarrow> mm_next (mm_root s) node;
     (case tmp of
        Some q \<Rightarrow> if nd_refcnt q = nd_refcnt n then merge_ranges s (nd_start q) node else Some (s, node)
      | None \<Rightarrow> Some (s, node)) }"

definition undo_node :: "mm_env \<Rightarrow> fork_state \<Rightarrow> u64 \<Rightarrow> u64 \<Rightarrow> int \<Rightarrow> (fork_state \<times> u64 option) option" where
  "undo_node env s node start inc = do {
     n \<leftarrow> mm_node (mm_root s) node;
     (s, node) \<leftarrow> (if start > nd_start n then do {
          (s, tmp) \<leftarrow> split_range env s node start;
          (case tmp of
             Some tmp \<Rightarrow> do {
               root \<leftarrow> mm_write (mm_root s) node (\<lambda>n. n\<lparr> nd_refcnt := nd_refcnt n + inc \<rparr>);
               Some (s\<lparr> mm_root := root \<rparr>, Some tmp) }
           | None \<Rightarrow> Some (s, None)) }
        else Some (s, Some node));
     (case node of
        None \<Rightarrow> Some (s, None)
      | Some node \<Rightarrow> map_option (\<lambda>(s, k). (s, Some k)) (undo_merge s node)) }"

partial_function (option) dofork_pages :: "mm_env \<Rightarrow> fork_state \<Rightarrow> u64 \<Rightarrow> u64 \<Rightarrow> u64 \<Rightarrow> fork_state option" where
  "dofork_pages env s p limit range_page_size =
     (if p < limit
      then dofork_pages env (fst (madvise env s p range_page_size MADV_DOFORK)) (p + range_page_size) limit range_page_size
      else Some s)"

definition do_madvise :: "mm_env \<Rightarrow> fork_state \<Rightarrow> u64 \<Rightarrow> u64 \<Rightarrow> advice \<Rightarrow> u64 \<Rightarrow> (fork_state \<times> int) option" where
  "do_madvise env s addr len advice range_page_size = (
     let (s, ret) = madvise env s addr len advice in
     if ret = 0 \<or> advice = MADV_DONTFORK then Some (s, ret)
     else if len > range_page_size then do {
       s \<leftarrow> dofork_pages env s addr (addr + len) range_page_size;
       Some (s, 0) }
     else Some (s, 0))"

definition inc_of :: "advice \<Rightarrow> int" where
  "inc_of advice = (if advice = MADV_DONTFORK then 1 else - 1)"

datatype walk_exit = Walked "u64 option" | No_memory | Refused u64 int

text \<open>One node of the walk: cut it at the end of the range, advise the kernel on a first or last reference.\<close>

definition visit_node :: "mm_env \<Rightarrow> fork_state \<Rightarrow> u64 \<Rightarrow> u64 \<Rightarrow> u64 \<Rightarrow> advice \<Rightarrow> u64 \<Rightarrow> (fork_state \<times> int option) option" where
  "visit_node env s node start ende advice range_page_size = do {
     n \<leftarrow> mm_node (mm_root s) node;
     (s, ok) \<leftarrow> (if nd_end n > ende
        then map_option (\<lambda>(s, r). (s, r \<noteq> None)) (split_range env s node (ende + 1)) else Some (s, True));
     (if \<not> ok then Some (s, None)
      else do {
        n \<leftarrow> mm_node (mm_root s) node;
        (if inc_of advice = - 1 \<and> nd_refcnt n = 1 \<or> inc_of advice = 1 \<and> nd_refcnt n = 0
         then map_option (\<lambda>(s, ret). (s, Some ret))
           (if start > nd_start n then do_madvise env s start (nd_end n - start + 1) advice range_page_size
            else do_madvise env s (nd_start n) (nd_end n - nd_start n + 1) advice range_page_size)
         else Some (s, Some 0)) }) }"

partial_function (option) madvise_walk ::
  "mm_env \<Rightarrow> fork_state \<Rightarrow> u64 option \<Rightarrow> u64 \<Rightarrow> u64 \<Rightarrow> advice \<Rightarrow> u64 \<Rightarrow> (fork_state \<times> walk_exit) option" where
  "madvise_walk env s node start ende advice range_page_size = (case node of
     None \<Rightarrow> Some (s, Walked None)
   | Some k \<Rightarrow> do {
       n \<leftarrow> mm_node (mm_root s) k;
       (if \<not> nd_start n \<le> ende then Some (s, Walked (Some k))
        else do {
          (s, ret) \<leftarrow> visit_node env s k start ende advice range_page_size;
          (case ret of
             None \<Rightarrow> Some (s, No_memory)
           | Some ret \<Rightarrow>
               if ret \<noteq> 0 then Some (s, Refused k ret)
               else do {
                 root \<leftarrow> mm_write (mm_root s) k (\<lambda>n. n\<lparr> nd_refcnt := nd_refcnt n + inc_of advice \<rparr>);
                 nx \<leftarrow> mm_next root k;
                 madvise_walk env (s\<lparr> mm_root := root \<rparr>) (map_option nd_start nx) start ende advice range_page_size }) }) })"

declare dofork_pages.simps [code] madvise_walk.simps [code]

text \<open>The merge of the first node after the range with its predecessor.\<close>

definition merge_after :: "fork_state \<Rightarrow> u64 option \<Rightarrow> fork_state option" where
  "merge_after s node = (case node of
     None \<Rightarrow> Some s
   | Some k \<Rightarrow> do {
       n \<leftarrow> mm_node (mm_root s) k;
       tmp \<leftarrow> mm_prev (mm_root s) k;
       (case tmp of
          Some p \<Rightarrow> if nd_refcnt n = nd_refcnt p then map_option fst (merge_ranges s k (nd_start p)) else Some s
        | None \<Rightarrow> Some s) })"

text \<open>From the label \<^verbatim>\<open>again\<close> on: \<open>Inl\<close> is the value returned, \<open>Inr\<close> the end of the range for the rollback.\<close>

definition madvise_pass ::
  "mm_env \<Rightarrow> bool \<Rightarrow> fork_state \<Rightarrow> u64 \<Rightarrow> u64 \<Rightarrow> advice \<Rightarrow> u64 \<Rightarrow> (fork_state \<times> (int + u64)) option" where
  "madvise_pass env rolling_back s start ende advice range_page_size = do {
     (s, node) \<leftarrow> get_start_node env s start (inc_of advice);
     (case node of
        None \<Rightarrow> Some (s, Inl (- 1))
      | Some k \<Rightarrow> do {
          (s, ex) \<leftarrow> madvise_walk env s (Some k) start ende advice range_page_size;
          (case ex of
             No_memory \<Rightarrow> Some (s, Inl (- 1))
           | Walked nx \<Rightarrow> do {
               s \<leftarrow> merge_after s nx;
               Some (s, Inl (if rolling_back then - 1 else 0)) }
           | Refused k ret \<Rightarrow> do {
               (s, node) \<leftarrow> undo_node env s k start (inc_of advice);
               (if rolling_back then Some (s, Inl (- 1))
                else (case node of
                  None \<Rightarrow> Some (s, Inl ret)
                | Some k \<Rightarrow> do {
                    n \<leftarrow> mm_node (mm_root s) k;
                    Some (s, Inr (nd_end n)) })) }) }) }"

definition ibv_madvise_range :: "mm_env \<Rightarrow> fork_state \<Rightarrow> u64 \<Rightarrow> u64 \<Rightarrow> advice \<Rightarrow> (fork_state \<times> int) option" where
  "ibv_madvise_range env s base sz advice = (
     if sz = 0 \<or> base = 0 then Some (s, 0)
     else
       let range_page_size = (if huge_page_enabled s then get_page_size env s base else word_of_int (page_size s));
           start = base AND NOT (range_page_size - 1);
           ende = ((base + sz + range_page_size - 1) AND NOT (range_page_size - 1)) - 1
       in do {
         (s, r) \<leftarrow> madvise_pass env False s start ende advice range_page_size;
         (case r of
            Inl ret \<Rightarrow> Some (s, ret)
          | Inr ende \<Rightarrow> do {
              (s, r) \<leftarrow> madvise_pass env True s start ende
                (if advice = MADV_DONTFORK then MADV_DOFORK else MADV_DONTFORK) range_page_size;
              (case r of Inl ret \<Rightarrow> Some (s, ret) | Inr _ \<Rightarrow> None) }) })"

definition ibv_dontfork_range :: "mm_env \<Rightarrow> fork_state \<Rightarrow> u64 \<Rightarrow> u64 \<Rightarrow> (fork_state \<times> int) option" where
  "ibv_dontfork_range env s base sz =
     (if mm_root s \<noteq> Leaf then ibv_madvise_range env s base sz MADV_DONTFORK
      else Some (s\<lparr> too_late := True \<rparr>, 0))"

definition ibv_dofork_range :: "mm_env \<Rightarrow> fork_state \<Rightarrow> u64 \<Rightarrow> u64 \<Rightarrow> (fork_state \<times> int) option" where
  "ibv_dofork_range env s base sz =
     (if mm_root s \<noteq> Leaf then ibv_madvise_range env s base sz MADV_DOFORK
      else Some (s\<lparr> too_late := True \<rparr>, 0))"

subsection \<open>Ranges that tile the address space\<close>

fun tiles :: "nat \<Rightarrow> nat \<Rightarrow> mem_node list \<Rightarrow> bool" where
  "tiles lo hi [] \<longleftrightarrow> lo = hi"
| "tiles lo hi (n # ns) \<longleftrightarrow> unat (nd_start n) = lo \<and> lo \<le> unat (nd_end n) \<and> tiles (unat (nd_end n) + 1) hi ns"

lemma tiles_append: "tiles lo hi (as @ bs) \<longleftrightarrow> (\<exists>m. tiles lo m as \<and> tiles m hi bs)"
  by (induction as arbitrary: lo) auto

lemma tiles_le: "tiles lo hi ns \<Longrightarrow> lo \<le> hi"
  by (induction ns arbitrary: lo) fastforce+

lemma tiles_bounds: "tiles lo hi ns \<Longrightarrow> n \<in> set ns \<Longrightarrow> lo \<le> unat (nd_start n) \<and> unat (nd_start n) \<le> unat (nd_end n) \<and> unat (nd_end n) < hi"
proof (induction ns arbitrary: lo)
  case (Cons a ns)
  then show ?case using tiles_le [of "unat (nd_end a) + 1" hi ns] by fastforce
qed simp

lemma tiles_sorted:
  assumes "tiles lo hi ns"
  shows "sorted_wrt (\<lambda>a b. nd_end a < nd_start b) ns" "sorted_wrt (<) (map nd_start ns)" "\<forall>n \<in> set ns. nd_start n \<le> nd_end n"
proof -
  show e: "sorted_wrt (\<lambda>a b. nd_end a < nd_start b) ns" using assms
  proof (induction ns arbitrary: lo)
    case (Cons a ns)
    then show ?case using tiles_bounds [of "unat (nd_end a) + 1" hi ns] by (auto simp: word_less_nat_alt) fastforce
  qed simp
  show p: "\<forall>n \<in> set ns. nd_start n \<le> nd_end n" using tiles_bounds [OF assms] by (simp add: word_le_nat_alt)
  show "sorted_wrt (<) (map nd_start ns)" unfolding sorted_wrt_map
    by (rule sorted_wrt_mono_rel [OF _ e]) (use p in force)
qed

definition holds :: "mtree \<Rightarrow> mem_node list \<Rightarrow> bool" where
  "holds root ns \<longleftrightarrow> mm_balanced root \<and> inorder root = ns \<and> tiles 0 (2 ^ 64) ns"

lemma holds_ordered: "holds root ns \<Longrightarrow> mm_ordered root"
  by (auto simp: holds_def mm_ordered_def tiles_sorted)

lemma holds_node: "holds root (as @ n # bs) \<Longrightarrow> mm_node root (nd_start n) = Some n"
  using mm_node_spec holds_ordered holds_def by blast

lemma holds_next: "holds root (as @ n # bs) \<Longrightarrow> mm_next root (nd_start n) = Some (if bs = [] then None else Some (hd bs))"
  using mm_next_spec holds_ordered holds_def by blast

lemma holds_prev: "holds root (as @ n # bs) \<Longrightarrow> mm_prev root (nd_start n) = Some (if as = [] then None else Some (last as))"
  using mm_prev_spec holds_ordered holds_def by blast

lemma holds_write:
  assumes "holds root (as @ n # bs)" "nd_start (f n) = nd_start n" "nd_end (f n) = nd_end n"
  obtains root' where "mm_write root (nd_start n) f = Some root'" "holds root' (as @ f n # bs)"
proof (rule mm_write_spec [of root as n bs f])
  show "mm_ordered root" "mm_balanced root" "inorder root = as @ n # bs" using assms holds_ordered by (auto simp: holds_def)
  fix t' assume "mm_write root (nd_start n) f = Some t'" "mm_balanced t'" "inorder t' = as @ f n # bs"
  then show thesis using assms by (intro that) (auto simp: holds_def tiles_append)
qed

lemma merge_ranges_spec:
  assumes "holds (mm_root s) (as @ p # n # bs)"
  obtains root where "merge_ranges s (nd_start n) (nd_start p) = Some (s\<lparr> mm_root := root \<rparr>, nd_start p)"
    "holds root (as @ p\<lparr> nd_end := nd_end n, nd_refcnt := nd_refcnt n \<rparr> # bs)"
proof -
  let ?p = "p\<lparr> nd_end := nd_end n, nd_refcnt := nd_refcnt n \<rparr>"
  have o: "mm_ordered (mm_root s)" "mm_balanced (mm_root s)" "inorder (mm_root s) = as @ p # n # bs"
    using assms holds_ordered by (auto simp: holds_def)
  obtain t where t: "mm_write (mm_root s) (nd_start p) (\<lambda>p. p\<lparr> nd_end := nd_end n, nd_refcnt := nd_refcnt n \<rparr>) = Some t"
    "mm_balanced t" "inorder t = (as @ [?p]) @ n # bs"
    by (rule mm_write_spec [OF o]) auto
  have "mm_ordered t" using o t(3) by (simp add: mm_ordered_def)
  from mm_remove_spec [OF this t(2,3)] obtain u where u: "mm_remove t (nd_start n) = Some u" "mm_balanced u" "inorder u = as @ ?p # bs"
    by auto
  have "mm_node (mm_root s) (nd_start n) = Some n" using holds_node [of _ "as @ [p]" n bs] assms by simp
  moreover have "holds u (as @ ?p # bs)" using u assms by (auto simp: holds_def tiles_append)
  ultimately show ?thesis using that t u by (simp add: merge_ranges_def)
qed

lemma split_range_spec:
  assumes "holds (mm_root s) (as @ n # bs)" "nd_start n < cl" "cl \<le> nd_end n" "env_malloc env (mallocs s)"
  obtains root where "split_range env s (nd_start n) cl = Some (s\<lparr> mallocs := mallocs s + 1, mm_root := root \<rparr>, Some cl)"
    "holds root (as @ n\<lparr> nd_end := cl - 1 \<rparr> # \<lparr> nd_start = cl, nd_end = nd_end n, nd_refcnt = nd_refcnt n \<rparr> # bs)"
proof -
  let ?n = "n\<lparr> nd_end := cl - 1 \<rparr>" and ?new = "\<lparr> nd_start = cl, nd_end = nd_end n, nd_refcnt = nd_refcnt n \<rparr>"
  have o: "mm_ordered (mm_root s)" "mm_balanced (mm_root s)" "inorder (mm_root s) = as @ n # bs"
    using assms holds_ordered by (auto simp: holds_def)
  obtain t where t: "mm_write (mm_root s) (nd_start n) (\<lambda>n. n\<lparr> nd_end := cl - 1 \<rparr>) = Some t"
    "mm_balanced t" "inorder t = as @ ?n # bs"
    by (rule mm_write_spec [OF o, of "\<lambda>n. n\<lparr> nd_end := cl - 1 \<rparr>"]) auto
  have "mm_ordered t" using o t(3) by (simp add: mm_ordered_def)
  have tl: "tiles 0 (unat (nd_start n)) as" "tiles (unat (nd_end n) + 1) (2 ^ 64) bs"
    using assms(1) by (auto simp: holds_def tiles_append)
  have a: "\<forall>a \<in> set (as @ [?n]). nd_start a < nd_start ?new"
    using tiles_bounds [OF tl(1)] assms(2) by (fastforce simp: word_less_nat_alt)
  have b: "\<forall>b \<in> set bs. nd_start ?new \<le> nd_start b"
    using tiles_bounds [OF tl(2)] assms(3) by (fastforce simp: word_le_nat_alt)
  obtain u where u: "mm_add t ?new = Some u" "mm_balanced u" "inorder u = (as @ [?n]) @ ?new # bs"
    by (rule mm_add_spec [OF \<open>mm_ordered t\<close> t(2) _ _ a b]) (use t in auto)
  have "cl \<noteq> 0" using assms(2) by auto
  then have "unat (cl - 1) = unat cl - 1" "0 < unat cl" by (simp_all add: unat_minus_one unat_gt_0)
  then have "holds u (as @ ?n # ?new # bs)"
    using u assms by (auto simp: holds_def tiles_append word_less_nat_alt word_le_nat_alt)
  then show ?thesis using that t u assms holds_node [OF assms(1)] by (simp add: split_range_def malloc_def)
qed

subsection \<open>The walk over a range\<close>

definition obliging :: "mm_env \<Rightarrow> bool" where
  "obliging env \<longleftrightarrow> (\<forall>n. env_malloc env n) \<and> (\<forall>n. env_madvise env n = 0)"

definition grown :: "fork_state \<Rightarrow> (u64 \<times> u64 \<times> advice) list \<Rightarrow> fork_state \<Rightarrow> bool" where
  "grown s calls s' \<longleftrightarrow> madvises s' = madvises s @ calls \<and> page_size s' = page_size s \<and>
     huge_page_enabled s' = huge_page_enabled s \<and> too_late s' = too_late s"

lemma grown_refl: "grown s [] s"
  by (simp add: grown_def)

lemma grown_trans: "grown s c s' \<Longrightarrow> grown s' d s'' \<Longrightarrow> grown s (c @ d) s''"
  by (simp add: grown_def)

lemma grown_root [simp]:
  "grown s c (s'\<lparr> mm_root := r \<rparr>) \<longleftrightarrow> grown s c s'" "grown (s\<lparr> mm_root := r \<rparr>) c s' \<longleftrightarrow> grown s c s'"
  by (simp_all add: grown_def)

lemma inc_of_simps [simp]: "inc_of MADV_DONTFORK = 1" "inc_of MADV_DOFORK = - 1" "inc_of adv \<noteq> 0"
  by (auto simp: inc_of_def)

definition threshold :: "advice \<Rightarrow> int" where
  "threshold adv = (if adv = MADV_DONTFORK then 0 else 1)"

lemma threshold_cond: "inc_of adv = - 1 \<and> c = 1 \<or> inc_of adv = 1 \<and> c = 0 \<longleftrightarrow> c = threshold adv"
  by (cases adv) (auto simp: threshold_def)

definition call_for :: "advice \<Rightarrow> u64 \<Rightarrow> u64 \<Rightarrow> mem_node \<Rightarrow> (u64 \<times> u64 \<times> advice) list" where
  "call_for adv start ende n =
     (if nd_refcnt n = threshold adv then [(max start (nd_start n), min ende (nd_end n) - max start (nd_start n) + 1, adv)] else [])"

fun calls_for :: "advice \<Rightarrow> u64 \<Rightarrow> u64 \<Rightarrow> mem_node list \<Rightarrow> (u64 \<times> u64 \<times> advice) list" where
  "calls_for adv start ende [] = []"
| "calls_for adv start ende (n # ns) =
     (if \<not> nd_start n \<le> ende then []
      else call_for adv start ende n @ (if nd_end n > ende then [] else calls_for adv start ende ns))"

fun walked :: "int \<Rightarrow> u64 \<Rightarrow> mem_node list \<Rightarrow> mem_node list" where
  "walked inc ende [] = []"
| "walked inc ende (n # ns) =
     (if \<not> nd_start n \<le> ende then []
      else if nd_end n > ende then [n\<lparr> nd_end := ende, nd_refcnt := nd_refcnt n + inc \<rparr>]
      else n\<lparr> nd_refcnt := nd_refcnt n + inc \<rparr> # walked inc ende ns)"

fun rest :: "u64 \<Rightarrow> mem_node list \<Rightarrow> mem_node list" where
  "rest ende [] = []"
| "rest ende (n # ns) =
     (if \<not> nd_start n \<le> ende then n # ns
      else if nd_end n > ende then \<lparr> nd_start = ende + 1, nd_end = nd_end n, nd_refcnt = nd_refcnt n \<rparr> # ns
      else rest ende ns)"

definition first_key :: "mem_node list \<Rightarrow> u64 option" where
  "first_key ns = (case ns of [] \<Rightarrow> None | n # _ \<Rightarrow> Some (nd_start n))"

lemma do_madvise_ok:
  "obliging env \<Longrightarrow> do_madvise env s a l adv rps = Some (s\<lparr> madvises := madvises s @ [(a, l, adv)] \<rparr>, 0)"
  by (simp add: do_madvise_def madvise_def obliging_def)

lemma visit_node_spec:
  assumes "obliging env" "holds (mm_root s) (as @ n # bs)" "nd_start n \<le> ende"
  defines "n' \<equiv> n\<lparr> nd_end := min ende (nd_end n) \<rparr>"
  obtains s' where "visit_node env s (nd_start n) start ende adv rps = Some (s', Some 0)"
    "grown s (call_for adv start ende n) s'"
    "holds (mm_root s') (as @ n' # (if nd_end n > ende then \<lparr> nd_start = ende + 1, nd_end = nd_end n, nd_refcnt = nd_refcnt n \<rparr> # bs else bs))"
proof -
  let ?bs = "if nd_end n > ende then \<lparr> nd_start = ende + 1, nd_end = nd_end n, nd_refcnt = nd_refcnt n \<rparr> # bs else bs"
  obtain s1 where s1: "(if nd_end n > ende then map_option (\<lambda>(s, r). (s, r \<noteq> None)) (split_range env s (nd_start n) (ende + 1))
        else Some (s, True)) = Some (s1, True)" "grown s [] s1" "holds (mm_root s1) (as @ n' # ?bs)"
  proof (cases "nd_end n > ende")
    case True
    then have c: "nd_start n < ende + 1" "ende + 1 \<le> nd_end n" using assms(3) by (auto simp: word_le_nat_alt word_less_nat_alt unat_succ_less [OF True])
    obtain root where "split_range env s (nd_start n) (ende + 1) = Some (s\<lparr> mallocs := mallocs s + 1, mm_root := root \<rparr>, Some (ende + 1))"
      "holds root (as @ n\<lparr> nd_end := ende + 1 - 1 \<rparr> # \<lparr> nd_start = ende + 1, nd_end = nd_end n, nd_refcnt = nd_refcnt n \<rparr> # bs)"
      by (rule split_range_spec [OF assms(2) c, of env]) (use assms(1) in \<open>auto simp: obliging_def\<close>)
    then show ?thesis using that [of "s\<lparr> mallocs := mallocs s + 1, mm_root := root \<rparr>"] True
      by (simp add: grown_def n'_def min_absorb1)
  next
    case False
    then have "n' = n" by (simp add: n'_def min_absorb2 not_less)
    then show ?thesis using that [of s] assms(2) False by (simp add: grown_refl)
  qed
  have n1: "mm_node (mm_root s1) (nd_start n) = Some n'" using holds_node [OF s1(3)] by (simp add: n'_def)
  have n0: "mm_node (mm_root s) (nd_start n) = Some n" using holds_node [OF assms(2)] .
  define l where "l = min ende (nd_end n) - max start (nd_start n) + 1"
  define s' where "s' = (if nd_refcnt n = threshold adv then s1\<lparr> madvises := madvises s1 @ [(max start (nd_start n), l, adv)] \<rparr> else s1)"
  have "visit_node env s (nd_start n) start ende adv rps = Some (s', Some 0)"
    by (auto simp: visit_node_def n0 s1(1) n1 threshold_cond do_madvise_ok [OF assms(1)] s'_def l_def n'_def max_def)
  moreover have "grown s (call_for adv start ende n) s'"
    using s1(2) by (simp add: s'_def call_for_def l_def grown_def)
  moreover have "mm_root s' = mm_root s1" by (simp add: s'_def)
  ultimately show ?thesis using that s1(3) by simp
qed

lemma madvise_walk_spec:
  assumes "obliging env" "holds (mm_root s) (as @ ns)"
  shows "\<exists>s'. madvise_walk env s (first_key ns) start ende adv rps = Some (s', Walked (first_key (rest ende ns))) \<and>
           grown s (calls_for adv start ende ns) s' \<and> holds (mm_root s') (as @ walked (inc_of adv) ende ns @ rest ende ns)"
  using assms(2)
proof (induction ns arbitrary: as s)
  case Nil
  then show ?case by (simp add: first_key_def madvise_walk.simps grown_refl)
next
  case (Cons n ns)
  have n0: "mm_node (mm_root s) (nd_start n) = Some n" using holds_node [OF Cons.prems] .
  show ?case
  proof (cases "nd_start n \<le> ende")
    case False
    then show ?thesis using Cons.prems n0 by (subst madvise_walk.simps) (simp add: first_key_def grown_refl)
  next
    case le: True
    let ?n = "n\<lparr> nd_end := min ende (nd_end n) \<rparr>" and ?m = "n\<lparr> nd_end := min ende (nd_end n), nd_refcnt := nd_refcnt n + inc_of adv \<rparr>"
    let ?bs = "if nd_end n > ende then \<lparr> nd_start = ende + 1, nd_end = nd_end n, nd_refcnt = nd_refcnt n \<rparr> # ns else ns"
    obtain s1 where s1: "visit_node env s (nd_start n) start ende adv rps = Some (s1, Some 0)"
      "grown s (call_for adv start ende n) s1" "holds (mm_root s1) (as @ ?n # ?bs)"
      using visit_node_spec [OF assms(1) Cons.prems le] by blast
    obtain root where r: "mm_write (mm_root s1) (nd_start n) (\<lambda>n. n\<lparr> nd_refcnt := nd_refcnt n + inc_of adv \<rparr>) = Some root"
      "holds root ((as @ [?m]) @ ?bs)"
      by (rule holds_write [OF s1(3), of "\<lambda>n. n\<lparr> nd_refcnt := nd_refcnt n + inc_of adv \<rparr>"]) auto
    have nx: "mm_next root (nd_start n) = Some (if ?bs = [] then None else Some (hd ?bs))"
      using holds_next [of root as ?m ?bs] r(2) by simp
    have step: "madvise_walk env s (first_key (n # ns)) start ende adv rps =
        madvise_walk env (s1\<lparr> mm_root := root \<rparr>) (first_key ?bs) start ende adv rps"
      using le n0 s1(1) r(1) nx by (subst madvise_walk.simps) (cases ns; simp add: first_key_def)
    show ?thesis
    proof (cases "nd_end n > ende")
      case True
      have "ende < ende + 1" using unat_succ_less [OF True] by (simp add: word_less_nat_alt)
      then have "madvise_walk env (s1\<lparr> mm_root := root \<rparr>) (first_key ?bs) start ende adv rps =
          Some (s1\<lparr> mm_root := root \<rparr>, Walked (Some (ende + 1)))"
        using True holds_node [of root "as @ [?m]" "\<lparr> nd_start = ende + 1, nd_end = nd_end n, nd_refcnt = nd_refcnt n \<rparr>" ns] r(2)
        by (subst madvise_walk.simps) (simp add: first_key_def not_le)
      then show ?thesis using step s1(2) r(2) True le by (simp add: first_key_def min_absorb1)
    next
      case False
      then have b: "?bs = ns" by simp
      obtain s' where "madvise_walk env (s1\<lparr> mm_root := root \<rparr>) (first_key ns) start ende adv rps =
            Some (s', Walked (first_key (rest ende ns)))" "grown (s1\<lparr> mm_root := root \<rparr>) (calls_for adv start ende ns) s'"
          "holds (mm_root s') ((as @ [?m]) @ walked (inc_of adv) ende ns @ rest ende ns)"
        using Cons.IH [of "s1\<lparr> mm_root := root \<rparr>" "as @ [?m]"] r(2) False by auto
      moreover have "?m = n\<lparr> nd_refcnt := nd_refcnt n + inc_of adv \<rparr>" using False by (simp add: min_absorb2 not_less)
      ultimately show ?thesis using step [unfolded b] False le grown_trans [OF s1(2), of "calls_for adv start ende ns" s'] by simp
    qed
  qed
qed

subsection \<open>Counts per address\<close>

definition span :: "mem_node \<Rightarrow> nat" where
  "span n = unat (nd_end n) + 1 - unat (nd_start n)"

definition counts :: "mem_node list \<Rightarrow> int list" where
  "counts ns = concat (map (\<lambda>n. replicate (span n) (nd_refcnt n)) ns)"

lemma counts_simps [simp]:
  "counts [] = []" "counts (n # ns) = replicate (span n) (nd_refcnt n) @ counts ns" "counts (xs @ ys) = counts xs @ counts ys"
  by (simp_all add: counts_def)

lemma counts_length: "tiles lo hi ns \<Longrightarrow> length (counts ns) = hi - lo"
proof (induction ns arbitrary: lo)
  case (Cons n ns)
  then show ?case using tiles_le [of "unat (nd_end n) + 1" hi ns] by (auto simp: span_def)
qed simp

lemma replicate_split: "c = a + b \<Longrightarrow> replicate a x @ replicate b x = replicate c x"
  by (simp add: replicate_add)

lemma walked_counts:
  assumes "tiles lo hi ns" "lo \<le> unat ende + 1"
  shows "counts (walked inc ende ns) = map (\<lambda>c. c + inc) (take (unat ende + 1 - lo) (counts ns))"
    "counts (rest ende ns) = drop (unat ende + 1 - lo) (counts ns)"
  using assms
proof (induction ns arbitrary: lo)
  case (Cons n ns)
  {
    case 1
    then show ?case using Cons.IH(1) [of "unat (nd_end n) + 1"]
      by (auto simp: word_le_nat_alt word_less_nat_alt span_def min_def)
  next
    case 2
    have "unat (ende + 1) = unat ende + 1" if "ende < nd_end n" using unat_succ_less [OF that] .
    then show ?case using 2 Cons.IH(2) [of "unat (nd_end n) + 1"]
      by (auto simp: word_le_nat_alt word_less_nat_alt span_def min_def)
  }
qed simp_all

definition shifted :: "nat \<Rightarrow> nat \<Rightarrow> int \<Rightarrow> int list \<Rightarrow> int list" where
  "shifted i j d cs = take i cs @ map (\<lambda>c. c + d) (take (j - i) (drop i cs)) @ drop j cs"

lemma shifted_append: "length xs = i \<Longrightarrow> i \<le> j \<Longrightarrow>
  shifted i j d (xs @ ys) = xs @ map (\<lambda>c. c + d) (take (j - i) ys) @ drop (j - i) ys"
  by (simp add: shifted_def)

text \<open>How the first node of the walk is prepared: cut at the start, merged with its predecessor, or left as it is.\<close>

inductive started :: "u64 \<Rightarrow> int \<Rightarrow> mem_node list \<Rightarrow> mem_node list \<Rightarrow> mem_node list \<Rightarrow> bool" for start inc where
  cut_off: "nd_start n < start \<Longrightarrow> start \<le> nd_end n \<Longrightarrow>
     started start inc (as @ n # bs) (as @ [n\<lparr> nd_end := start - 1 \<rparr>])
       (\<lparr> nd_start = start, nd_end = nd_end n, nd_refcnt = nd_refcnt n \<rparr> # bs)"
| merged: "nd_start n = start \<Longrightarrow> nd_refcnt p = nd_refcnt n + inc \<Longrightarrow>
     started start inc (as @ p # n # bs) as (p\<lparr> nd_end := nd_end n, nd_refcnt := nd_refcnt n \<rparr> # bs)"
| aligned: "nd_start n = start \<Longrightarrow> as = [] \<or> nd_refcnt (last as) \<noteq> nd_refcnt n + inc \<Longrightarrow>
     started start inc (as @ n # bs) as (n # bs)"

lemma tiles_cover: "tiles lo hi ns \<Longrightarrow> lo \<le> a \<Longrightarrow> a < hi \<Longrightarrow> \<exists>n \<in> set ns. unat (nd_start n) \<le> a \<and> a \<le> unat (nd_end n)"
proof (induction ns arbitrary: lo)
  case (Cons n ns)
  show ?case
  proof (cases "a \<le> unat (nd_end n)")
    case True
    then show ?thesis using Cons.prems by auto
  next
    case False
    then show ?thesis using Cons.prems Cons.IH [of "unat (nd_end n) + 1"] by auto
  qed
qed simp

lemma get_start_node_spec:
  assumes "obliging env" "holds (mm_root s) ns"
  obtains s' as' ns' where "get_start_node env s start inc = Some (s', first_key ns')" "grown s [] s'"
    "holds (mm_root s') (as' @ ns')" "started start inc ns as' ns'" "ns' \<noteq> []"
proof -
  have t: "tiles 0 (2 ^ 64) ns" "inorder (mm_root s) = ns" using assms(2) by (auto simp: holds_def)
  have "\<exists>n \<in> set ns. nd_start n \<le> start \<and> start \<le> nd_end n"
    using tiles_cover [OF t(1), of "unat start"] unat_below [of start] by (simp add: word_le_nat_alt)
  then obtain n where n: "mm_find_start (mm_root s) start = Some n" "n \<in> set ns" "nd_start n \<le> start" "start \<le> nd_end n"
    using mm_find_start_spec [of "mm_root s" start] tiles_sorted [OF t(1)] t(2)
    by (cases "find (\<lambda>x. nd_start x \<le> start \<and> start \<le> nd_end x) ns") (auto simp: find_None_iff find_Some_iff)
  obtain as bs where ns: "ns = as @ n # bs" using n(2) split_list by metis
  have h: "holds (mm_root s) (as @ n # bs)" using assms(2) ns by simp
  show ?thesis
  proof (cases "nd_start n < start")
    case True
    obtain root where "split_range env s (nd_start n) start = Some (s\<lparr> mallocs := mallocs s + 1, mm_root := root \<rparr>, Some start)"
      "holds root (as @ n\<lparr> nd_end := start - 1 \<rparr> # \<lparr> nd_start = start, nd_end = nd_end n, nd_refcnt = nd_refcnt n \<rparr> # bs)"
      by (rule split_range_spec [OF h True n(4), of env]) (use assms(1) in \<open>auto simp: obliging_def\<close>)
    then show ?thesis using n True ns started.cut_off [OF True n(4), of inc as bs] assms(1)
      by (intro that [of "s\<lparr> mallocs := mallocs s + 1, mm_root := root \<rparr>"])
         (auto simp: get_start_node_def first_key_def grown_def)
  next
    case False
    then have st: "nd_start n = start" using n(3) by simp
    have pr: "mm_prev (mm_root s) (nd_start n) = Some (if as = [] then None else Some (last as))" using holds_prev [OF h] .
    show ?thesis
    proof (cases "as \<noteq> [] \<and> nd_refcnt (last as) = nd_refcnt n + inc")
      case True
      then obtain as0 p where as: "as = as0 @ [p]" "nd_refcnt p = nd_refcnt n + inc" by (cases as rule: rev_cases) auto
      obtain root where "merge_ranges s (nd_start n) (nd_start p) = Some (s\<lparr> mm_root := root \<rparr>, nd_start p)"
        "holds root (as0 @ p\<lparr> nd_end := nd_end n, nd_refcnt := nd_refcnt n \<rparr> # bs)"
        using merge_ranges_spec [of s as0 p n bs] h as by auto
      then show ?thesis using n(1) st pr as ns started.merged [OF st as(2), of as0 bs]
        by (intro that [of "s\<lparr> mm_root := root \<rparr>"]) (auto simp: get_start_node_def first_key_def grown_def)
    next
      case no: False
      then show ?thesis using n(1) st pr ns h started.aligned [OF st, of as inc bs]
        by (intro that [of s "n # bs" as]) (auto simp: get_start_node_def first_key_def grown_def split: if_splits)
    qed
  qed
qed

lemma span_one: "unat (nd_start n) \<le> unat (nd_end n) \<Longrightarrow> nd_start n < c \<Longrightarrow> c \<le> nd_end n \<Longrightarrow>
  replicate (span (n\<lparr> nd_end := c - 1 \<rparr>)) (nd_refcnt n) @
  replicate (span \<lparr> nd_start = c, nd_end = nd_end n, nd_refcnt = nd_refcnt n \<rparr>) (nd_refcnt n) = replicate (span n) (nd_refcnt n)"
proof (rule replicate_split)
  assume a: "unat (nd_start n) \<le> unat (nd_end n)" "nd_start n < c" "c \<le> nd_end n"
  then have "c \<noteq> 0" by auto
  then show "span n = span (n\<lparr> nd_end := c - 1 \<rparr>) + span \<lparr> nd_start = c, nd_end = nd_end n, nd_refcnt = nd_refcnt n \<rparr>"
    using a by (simp add: span_def unat_minus_one word_less_nat_alt word_le_nat_alt)
qed

text \<open>The walk from a merged first node is the walk from the node itself, with the predecessor in front.\<close>

lemma merged_walk:
  assumes "tiles lo hi (p # n # bs)" "nd_start n \<le> ende" "nd_refcnt p = nd_refcnt n + inc"
  defines "pn \<equiv> p\<lparr> nd_end := nd_end n, nd_refcnt := nd_refcnt n \<rparr>"
  shows "counts (walked inc ende (pn # bs)) = counts [p] @ counts (walked inc ende (n # bs))"
    "rest ende (pn # bs) = rest ende (n # bs)"
    "calls_for adv (nd_start n) ende (pn # bs) = calls_for adv (nd_start n) ende (n # bs)"
proof -
  have le: "nd_start p \<le> ende" "nd_start p \<le> nd_start n" using assms(1,2) by (auto simp: word_le_nat_alt)
  show "rest ende (pn # bs) = rest ende (n # bs)" using le assms(2) by (simp add: pn_def)
  show "calls_for adv (nd_start n) ende (pn # bs) = calls_for adv (nd_start n) ende (n # bs)"
    using le assms(2) by (simp add: pn_def call_for_def max_absorb1)
  show "counts (walked inc ende (pn # bs)) = counts [p] @ counts (walked inc ende (n # bs))"
    using le assms by (auto simp: span_def word_le_nat_alt word_less_nat_alt replicate_add [symmetric])
qed

lemma walk_effect:
  assumes "tiles 0 (unat start) xs" "tiles (unat start) (2 ^ 64) ys" "start \<le> ende"
  shows "counts xs @ counts (walked inc ende ys) @ counts (rest ende ys) = shifted (unat start) (unat ende + 1) inc (counts xs @ counts ys)"
  using walked_counts [OF assms(2), of ende] counts_length [OF assms(1)] assms(3) by (simp add: shifted_append word_le_nat_alt)

lemma cut_off_tiles:
  assumes "tiles 0 (2 ^ 64) (as @ n # bs)" "nd_start n < start" "start \<le> nd_end n"
  shows "tiles 0 (unat start) (as @ [n\<lparr> nd_end := start - 1 \<rparr>])"
    "tiles (unat start) (2 ^ 64) (\<lparr> nd_start = start, nd_end = nd_end n, nd_refcnt = nd_refcnt n \<rparr> # bs)"
proof -
  have "start \<noteq> 0" using assms(2) by auto
  then show "tiles 0 (unat start) (as @ [n\<lparr> nd_end := start - 1 \<rparr>])"
    "tiles (unat start) (2 ^ 64) (\<lparr> nd_start = start, nd_end = nd_end n, nd_refcnt = nd_refcnt n \<rparr> # bs)"
    using assms by (auto simp: tiles_append unat_minus_one word_less_nat_alt word_le_nat_alt)
qed

lemma started_counts:
  assumes "started start inc ns as' ns'" "tiles 0 (2 ^ 64) ns" "start \<le> ende"
  shows "counts (as' @ walked inc ende ns' @ rest ende ns') = shifted (unat start) (unat ende + 1) inc (counts ns)"
  using assms
proof (induction rule: started.induct)
  case (cut_off n as bs)
  have "counts (as @ n # bs) = counts (as @ [n\<lparr> nd_end := start - 1 \<rparr>]) @
      counts (\<lparr> nd_start = start, nd_end = nd_end n, nd_refcnt = nd_refcnt n \<rparr> # bs)"
    using span_one [of n start] cut_off by (simp add: tiles_append)
  then show ?case using walk_effect [OF cut_off_tiles [OF cut_off(3,1,2)] cut_off(4), of inc] by (simp only: counts_simps(3) append.assoc)
next
  case (merged n p as bs)
  have t: "tiles 0 (unat start) (as @ [p])" "tiles (unat start) (2 ^ 64) (n # bs)"
    using merged by (auto simp: tiles_append)
  obtain lo where lo: "tiles lo (2 ^ 64) (p # n # bs)" using merged by (auto simp: tiles_append)
  have "counts (as @ p # n # bs) = counts (as @ [p]) @ counts (n # bs)" by simp
  then show ?case using walk_effect [OF t merged(4), of inc] merged merged_walk [OF lo, of ende inc]
    by (simp only: counts_simps(3) append.assoc)
next
  case (aligned n as bs)
  have t: "tiles 0 (unat start) as" "tiles (unat start) (2 ^ 64) (n # bs)"
    using aligned by (auto simp: tiles_append)
  then show ?case using walk_effect [OF t aligned(4), of inc] by (simp only: counts_simps(3))
qed

text \<open>The addresses that a series of madvise calls covers.\<close>

definition covered :: "(u64 \<times> u64 \<times> advice) list \<Rightarrow> nat set" where
  "covered calls = (\<Union>(a, l, adv) \<in> set calls. {unat a ..< unat a + unat l})"

lemma covered_simps [simp]: "covered [] = {}" "covered ((a, l, adv) # cs) = {unat a ..< unat a + unat l} \<union> covered cs"
  "covered (xs @ ys) = covered xs \<union> covered ys"
  by (auto simp: covered_def)

lemma unat_span: "a \<le> b \<Longrightarrow> unat (b :: u64) + 1 < 2 ^ 64 \<Longrightarrow> unat (b - a + 1) = unat b + 1 - unat a"
  by (subst unat_succ) (auto simp: unat_sub word_le_nat_alt)

lemma call_for_covered:
  assumes "start \<le> nd_start n" "nd_start n \<le> ende" "nd_start n \<le> nd_end n" "unat ende + 1 < 2 ^ 64"
  shows "covered (call_for adv start ende n) =
    (if nd_refcnt n = threshold adv then {unat (nd_start n) ..< unat (min ende (nd_end n)) + 1} else {})"
proof -
  have "unat (min ende (nd_end n)) + 1 < 2 ^ 64" using assms(4) by (simp add: min_def word_le_nat_alt)
  then have "unat (min ende (nd_end n) - nd_start n + 1) = unat (min ende (nd_end n)) + 1 - unat (nd_start n)"
    using assms by (intro unat_span) (auto simp: min_def)
  moreover have "unat (nd_start n) \<le> unat (min ende (nd_end n))" using assms by (auto simp: min_def word_le_nat_alt)
  ultimately show ?thesis using assms(1) by (simp add: call_for_def max_absorb2)
qed

lemma calls_for_covered:
  assumes "tiles lo hi ns" "unat start \<le> lo" "unat ende + 1 < 2 ^ 64"
  shows "covered (calls_for adv start ende ns) = {a. lo \<le> a \<and> a \<le> unat ende \<and> a < hi \<and> counts ns ! (a - lo) = threshold adv}"
  using assms(1,2)
proof (induction ns arbitrary: lo)
  case (Cons n ns)
  define e where "e = unat (nd_end n)"
  have n: "unat (nd_start n) = lo" "lo \<le> e" "tiles (e + 1) hi ns" using Cons.prems by (auto simp: e_def)
  have hi: "e < hi" using tiles_le [OF n(3)] by simp
  have nth: "counts (n # ns) ! (a - lo) = (if a \<le> e then nd_refcnt n else counts ns ! (a - (e + 1)))" if "lo \<le> a" for a
    using that n by (auto simp: nth_append span_def e_def)
  have st: "start \<le> nd_start n" "nd_start n \<le> nd_end n" using Cons.prems n by (auto simp: word_le_nat_alt e_def)
  have IH: "covered (calls_for adv start ende ns) = {a. e + 1 \<le> a \<and> a \<le> unat ende \<and> a < hi \<and> counts ns ! (a - (e + 1)) = threshold adv}"
    by (rule Cons.IH [OF n(3)]) (use Cons.prems n in auto)
  show ?case
  proof (cases "nd_start n \<le> ende")
    case False
    then show ?thesis using n by (auto simp: word_le_nat_alt)
  next
    case True
    have m: "unat (min ende (nd_end n)) = min (unat ende) e" by (auto simp: min_def word_le_nat_alt e_def)
    have c: "covered (call_for adv start ende n) = (if nd_refcnt n = threshold adv then {lo ..< min (unat ende) e + 1} else {})"
      using call_for_covered [OF st(1) True st(2) assms(3)] n(1) m by simp
    show ?thesis
      using c IH True nth hi n(2) by (auto simp: word_less_nat_alt e_def [symmetric] simp del: counts_simps split: if_splits)
  qed
qed simp

lemma started_covered:
  assumes "started start inc ns as' ns'" "tiles 0 (2 ^ 64) ns" "start \<le> ende" "unat ende + 1 < 2 ^ 64"
  shows "covered (calls_for adv start ende ns') = {a. unat start \<le> a \<and> a \<le> unat ende \<and> counts ns ! a = threshold adv}"
proof -
  have *: "covered (calls_for adv start ende ys) = {a. unat start \<le> a \<and> a \<le> unat ende \<and> (counts xs @ counts ys) ! a = threshold adv}"
    if "tiles 0 (unat start) xs" "tiles (unat start) (2 ^ 64) ys" for xs ys
  proof -
    have e: "(counts xs @ counts ys) ! a = counts ys ! (a - unat start)" if "unat start \<le> a" for a
      using that counts_length [OF \<open>tiles 0 (unat start) xs\<close>] by (simp add: nth_append)
    have b: "a < 2 ^ 64" if "a \<le> unat ende" for a using that assms(4) by linarith
    show ?thesis unfolding calls_for_covered [OF that(2) order.refl assms(4)]
      by (intro Collect_cong) (use e b in metis)
  qed
  show ?thesis using assms(1-3)
  proof (induction rule: started.induct)
    case (cut_off n as bs)
    have "counts (as @ n # bs) = counts (as @ [n\<lparr> nd_end := start - 1 \<rparr>]) @
        counts (\<lparr> nd_start = start, nd_end = nd_end n, nd_refcnt = nd_refcnt n \<rparr> # bs)"
      using span_one [of n start] cut_off by (simp add: tiles_append)
    then show ?case using * [OF cut_off_tiles [OF cut_off(3,1,2)]] by (simp only: counts_simps(3) append.assoc)
  next
    case (merged n p as bs)
    obtain lo where lo: "tiles lo (2 ^ 64) (p # n # bs)" using merged by (auto simp: tiles_append)
    then show ?case using * [of "as @ [p]" "n # bs"] merged merged_walk(3) [OF lo, of ende inc]
      by (simp add: tiles_append del: calls_for.simps)
  next
    case (aligned n as bs)
    then show ?case using * [of as "n # bs"] by (auto simp: tiles_append simp del: calls_for.simps)
  qed
qed

subsection \<open>A whole pass\<close>

text \<open>Neighbours with equal counts are never kept apart.\<close>

abbreviation canonical :: "mem_node list \<Rightarrow> bool" where
  "canonical ns \<equiv> distinct_adj (map nd_refcnt ns)"

definition joined :: "mem_node list \<Rightarrow> mem_node list \<Rightarrow> mem_node list" where
  "joined xs ys = (if xs \<noteq> [] \<and> ys \<noteq> [] \<and> nd_refcnt (last xs) = nd_refcnt (hd ys)
     then butlast xs @ (last xs)\<lparr> nd_end := nd_end (hd ys), nd_refcnt := nd_refcnt (hd ys) \<rparr> # tl ys else xs @ ys)"

lemma merge_after_spec:
  assumes "holds (mm_root s) (xs @ ys)"
  shows "\<exists>s'. merge_after s (first_key ys) = Some s' \<and> grown s [] s' \<and> holds (mm_root s') (joined xs ys)"
proof (cases "xs = [] \<or> ys = []")
  case True
  then show ?thesis using assms holds_node [of "mm_root s" xs "hd ys" "tl ys"] holds_prev [of "mm_root s" xs "hd ys" "tl ys"]
    by (cases ys) (auto simp: merge_after_def first_key_def joined_def grown_refl)
next
  case False
  then obtain us p n vs where e: "xs = us @ [p]" "ys = n # vs" by (metis list.exhaust rev_exhaust)
  have h: "holds (mm_root s) (us @ p # n # vs)" using assms e by simp
  have n: "mm_node (mm_root s) (nd_start n) = Some n" "mm_prev (mm_root s) (nd_start n) = Some (Some p)"
    using holds_node [of "mm_root s" "us @ [p]" n vs] holds_prev [of "mm_root s" "us @ [p]" n vs] h by auto
  obtain root where "merge_ranges s (nd_start n) (nd_start p) = Some (s\<lparr> mm_root := root \<rparr>, nd_start p)"
    "holds root (us @ p\<lparr> nd_end := nd_end n, nd_refcnt := nd_refcnt n \<rparr> # vs)"
    using merge_ranges_spec [OF h] by blast
  then show ?thesis using e n h by (auto simp: merge_after_def first_key_def joined_def grown_refl)
qed

lemma joined_counts: "tiles lo hi (xs @ ys) \<Longrightarrow> counts (joined xs ys) = counts (xs @ ys)"
proof (cases "xs = [] \<or> ys = []")
  case False
  then obtain us p n vs where e: "xs = us @ [p]" "ys = n # vs" by (metis list.exhaust rev_exhaust)
  assume "tiles lo hi (xs @ ys)"
  then show ?thesis using e by (auto simp: joined_def tiles_append span_def replicate_add [symmetric])
qed (auto simp: joined_def)

lemma joined_canonical: "canonical xs \<Longrightarrow> canonical ys \<Longrightarrow> canonical (joined xs ys)"
proof (cases "xs = [] \<or> ys = []")
  case False
  then obtain us p n vs where e: "xs = us @ [p]" "ys = n # vs" by (metis list.exhaust rev_exhaust)
  assume "canonical xs" "canonical ys"
  then show ?thesis using e by (auto simp: joined_def distinct_adj_append_iff distinct_adj_Cons)
qed (auto simp: joined_def)

lemma walked_canonical:
  "canonical ns \<Longrightarrow> canonical (walked inc ende ns) \<and> canonical (rest ende ns) \<and>
     (walked inc ende ns \<noteq> [] \<longrightarrow> nd_refcnt (hd (walked inc ende ns)) = nd_refcnt (hd ns) + inc)"
proof (induction ns)
  case (Cons n ns)
  then show ?case by (cases ns) (auto simp: distinct_adj_Cons)
qed simp

lemma started_canonical:
  assumes "started start inc ns as' ns'" "canonical ns" "inc \<noteq> 0"
  shows "canonical (as' @ walked inc ende ns')"
proof -
  have "canonical as' \<and> canonical ns' \<and> (as' = [] \<or> nd_refcnt (last as') \<noteq> nd_refcnt (hd ns') + inc)"
    using assms by (induction rule: started.induct) (auto simp: distinct_adj_append_iff distinct_adj_Cons last_map)
  then show ?thesis using walked_canonical [of ns' inc ende]
    by (auto simp: distinct_adj_append_iff last_map hd_map)
qed

lemma started_rest_canonical: "started start inc ns as' ns' \<Longrightarrow> canonical ns \<Longrightarrow> canonical (rest ende ns')"
proof -
  assume "started start inc ns as' ns'" "canonical ns"
  then have "canonical ns'" by (induction rule: started.induct) (auto simp: distinct_adj_append_iff distinct_adj_Cons)
  then show ?thesis using walked_canonical by blast
qed

lemma calls_for_advice: "c \<in> set (calls_for adv start ende ns) \<Longrightarrow> snd (snd c) = adv"
  by (induction ns) (auto simp: call_for_def split: if_splits)

lemma madvise_pass_spec:
  assumes "obliging env" "holds (mm_root s) ns" "canonical ns" "start \<le> ende" "unat ende + 1 < 2 ^ 64"
  obtains s' ns' calls where "madvise_pass env rolling s start ende adv rps = Some (s', Inl (if rolling then - 1 else 0))"
    "grown s calls s'" "holds (mm_root s') ns'" "canonical ns'"
    "counts ns' = shifted (unat start) (unat ende + 1) (inc_of adv) (counts ns)"
    "covered calls = {a. unat start \<le> a \<and> a \<le> unat ende \<and> counts ns ! a = threshold adv}"
    "\<forall>c \<in> set calls. snd (snd c) = adv"
proof -
  have t: "tiles 0 (2 ^ 64) ns" using assms(2) by (simp add: holds_def)
  obtain s1 as1 ns1 where g: "get_start_node env s start (inc_of adv) = Some (s1, first_key ns1)" "grown s [] s1"
    "holds (mm_root s1) (as1 @ ns1)" and st: "started start (inc_of adv) ns as1 ns1" and ne: "ns1 \<noteq> []"
    using get_start_node_spec [OF assms(1,2)] by blast
  let ?xs = "as1 @ walked (inc_of adv) ende ns1" and ?ys = "rest ende ns1" and ?calls = "calls_for adv start ende ns1"
  obtain s2 where w: "madvise_walk env s1 (first_key ns1) start ende adv rps = Some (s2, Walked (first_key ?ys))"
    "grown s1 ?calls s2" "holds (mm_root s2) (?xs @ ?ys)"
    using madvise_walk_spec [OF assms(1) g(3)] by fastforce
  obtain s3 where m: "merge_after s2 (first_key ?ys) = Some s3" "grown s2 [] s3" "holds (mm_root s3) (joined ?xs ?ys)"
    using merge_after_spec [OF w(3)] by blast
  have t2: "tiles 0 (2 ^ 64) (?xs @ ?ys)" using w(3) by (simp add: holds_def)
  have "first_key ns1 = Some (nd_start (hd ns1))" using ne by (cases ns1) (auto simp: first_key_def)
  then have "madvise_pass env rolling s start ende adv rps = Some (s3, Inl (if rolling then - 1 else 0))"
    using g w m by (simp add: madvise_pass_def)
  moreover have "grown s ?calls s3" using grown_trans [OF grown_trans [OF g(2) w(2)] m(2)] by simp
  moreover have "counts (joined ?xs ?ys) = shifted (unat start) (unat ende + 1) (inc_of adv) (counts ns)"
    using started_counts [OF st t assms(4)] joined_counts [OF t2] by simp
  moreover have "canonical (joined ?xs ?ys)"
    using joined_canonical started_canonical [OF st assms(3)] started_rest_canonical [OF st assms(3)] by simp
  ultimately show ?thesis using that m(3) started_covered [OF st t assms(4,5)] calls_for_advice by blast
qed

subsection \<open>Registrations and the pages they cover\<close>

definition rps :: "mm_env \<Rightarrow> fork_state \<Rightarrow> u64 \<Rightarrow> u64" where
  "rps env s base = (if huge_page_enabled s then get_page_size env s base else word_of_int (page_size s))"

text \<open>The page size is a power of two and rounding the end of the range up does not wrap around.\<close>

definition fits :: "mm_env \<Rightarrow> fork_state \<Rightarrow> u64 \<times> u64 \<Rightarrow> bool" where
  "fits env s r \<longleftrightarrow> (\<exists>k < 64. unat (rps env s (fst r)) = 2 ^ k) \<and> unat (fst r) + unat (snd r) + unat (rps env s (fst r)) \<le> 2 ^ 64"

definition pages :: "mm_env \<Rightarrow> fork_state \<Rightarrow> u64 \<times> u64 \<Rightarrow> nat set" where
  "pages env s r = (let p = unat (rps env s (fst r)) in
     if fst r = 0 \<or> snd r = 0 then {}
     else {unat (fst r) div p * p ..< (unat (fst r) + unat (snd r) + p - 1) div p * p})"

lemma fits_range:
  assumes "fits env s (base, sz)" "base \<noteq> 0" "sz \<noteq> 0"
  defines "p \<equiv> rps env s base"
  defines "start \<equiv> base AND NOT (p - 1)"
  defines "ende \<equiv> ((base + sz + p - 1) AND NOT (p - 1)) - 1"
  shows "start \<le> ende" "unat ende + 1 < 2 ^ 64" "pages env s (base, sz) = {unat start ..< unat ende + 1}"
proof -
  obtain k where k: "k < 64" "unat p = 2 ^ k" using assms(1) by (auto simp: fits_def p_def)
  have le: "unat base + unat sz + unat p \<le> 2 ^ 64" using assms(1) by (simp add: fits_def p_def)
  have sz: "0 < unat sz" using assms(3) by (simp add: unat_gt_0)
  have p0: "0 < unat p" using k by simp
  have "p = of_nat (unat p)" by simp
  then have m: "p - 1 = mask k" using k by (simp add: mask_eq_exp_minus_1)
  have pm: "unat (p - 1) = unat p - 1" using p0 by (intro unat_minus_one) auto
  define x where "x = base + sz + p - 1"
  have x: "unat x = unat base + unat sz + unat p - 1"
  proof -
    have "x = base + sz + (p - 1)" by (simp add: x_def)
    then show ?thesis using le p0 pm by (simp add: unat_word_ariths)
  qed
  let ?u = "unat x div unat p * unat p"
  have u: "unat (x AND NOT (p - 1)) = ?u" using unat_and_not_mask [of x k] m k by simp
  have st: "unat start = unat base div unat p * unat p" using unat_and_not_mask [of base k] m k by (simp add: start_def)
  have "(unat base + unat p) div unat p * unat p \<le> ?u" using x sz by (intro mult_le_mono div_le_mono) auto
  then have su: "unat start + unat p \<le> ?u" using st p0 by (simp add: div_add_self2)
  have "?u \<le> unat x" by simp
  then have u2: "?u < 2 ^ 64" using unat_below [of x] by linarith
  have "x AND NOT (p - 1) \<noteq> 0" using u su p0 by auto
  then have e: "unat ende + 1 = ?u" using u su p0 by (simp add: ende_def x_def [symmetric] unat_minus_one)
  show "start \<le> ende" using e su p0 by (simp add: word_le_nat_alt)
  show "unat ende + 1 < 2 ^ 64" using e u2 by linarith
  show "pages env s (base, sz) = {unat start ..< unat ende + 1}"
    using assms(2,3) st e x by (simp add: pages_def p_def [symmetric] Let_def)
qed

text \<open>The pages the kernel does not copy on fork, by the madvise calls that were made.\<close>

definition apply_advice :: "nat set \<Rightarrow> u64 \<times> u64 \<times> advice \<Rightarrow> nat set" where
  "apply_advice m c = (case c of (a, l, adv) \<Rightarrow>
     if adv = MADV_DONTFORK then m \<union> {unat a ..< unat a + unat l} else m - {unat a ..< unat a + unat l})"

definition marked :: "(u64 \<times> u64 \<times> advice) list \<Rightarrow> nat set" where
  "marked calls = foldl apply_advice {} calls"

lemma marked_append:
  assumes "\<forall>c \<in> set calls. snd (snd c) = adv"
  shows "marked (log @ calls) = (if adv = MADV_DONTFORK then marked log \<union> covered calls else marked log - covered calls)"
proof -
  have "foldl apply_advice m calls = (if adv = MADV_DONTFORK then m \<union> covered calls else m - covered calls)" for m
    using assms by (induction calls arbitrary: m) (auto simp: apply_advice_def)
  then show ?thesis by (simp add: marked_def)
qed

lemma shifted_nth:
  "i \<le> j \<Longrightarrow> j \<le> length cs \<Longrightarrow> a < length cs \<Longrightarrow>
   shifted i j d cs ! a = cs ! a + (if i \<le> a \<and> a < j then d else 0)"
  by (auto simp: shifted_def nth_append min_def)

abbreviation count_at :: "fork_state \<Rightarrow> nat \<Rightarrow> int" where
  "count_at s a \<equiv> counts (inorder (mm_root s)) ! a"

definition tracking :: "fork_state \<Rightarrow> bool" where
  "tracking s \<longleftrightarrow> holds (mm_root s) (inorder (mm_root s)) \<and> canonical (inorder (mm_root s)) \<and>
     (\<forall>a < 2 ^ 64. 0 \<le> count_at s a) \<and> marked (madvises s) = {a. a < 2 ^ 64 \<and> 0 < count_at s a}"

definition unchanged :: "fork_state \<Rightarrow> fork_state \<Rightarrow> bool" where
  "unchanged s s' \<longleftrightarrow> page_size s' = page_size s \<and> huge_page_enabled s' = huge_page_enabled s \<and> too_late s' = too_late s"

lemma unchanged_rps: "unchanged s s' \<Longrightarrow> rps env s' = rps env s"
  by (simp add: unchanged_def rps_def get_page_size_def fun_eq_iff split: option.split)

lemma unchanged_simps: "unchanged s s' \<Longrightarrow> pages env s' = pages env s" "unchanged s s' \<Longrightarrow> fits env s' = fits env s"
  by (simp_all add: unchanged_rps pages_def fits_def fun_eq_iff)

lemma madvise_range_counts:
  assumes "obliging env" "tracking s" "fits env s (base, sz)"
  obtains s' where "ibv_madvise_range env s base sz adv = Some (s', 0)" "unchanged s s'"
    "holds (mm_root s') (inorder (mm_root s'))" "canonical (inorder (mm_root s'))"
    "\<forall>a < 2 ^ 64. count_at s' a = count_at s a + (if a \<in> pages env s (base, sz) then inc_of adv else 0)"
    "marked (madvises s') = (let c = {a \<in> pages env s (base, sz). count_at s a = threshold adv} in
       if adv = MADV_DONTFORK then marked (madvises s) \<union> c else marked (madvises s) - c)"
proof (cases "sz = 0 \<or> base = 0")
  case True
  then show ?thesis using that [of s] assms(2) by (auto simp: ibv_madvise_range_def tracking_def unchanged_def pages_def Let_def)
next
  case False
  define p where "p = rps env s base"
  define start where "start = base AND NOT (p - 1)"
  define ende where "ende = ((base + sz + p - 1) AND NOT (p - 1)) - 1"
  have r: "start \<le> ende" "unat ende + 1 < 2 ^ 64" and pg: "pages env s (base, sz) = {unat start ..< unat ende + 1}"
    using fits_range [OF assms(3)] False by (auto simp: p_def start_def ende_def)
  have h: "holds (mm_root s) (inorder (mm_root s))" "canonical (inorder (mm_root s))" using assms(2) by (auto simp: tracking_def)
  obtain s' ns' calls where f: "madvise_pass env False s start ende adv p = Some (s', Inl 0)" "grown s calls s'"
    "holds (mm_root s') ns'" "canonical ns'"
    "counts ns' = shifted (unat start) (unat ende + 1) (inc_of adv) (counts (inorder (mm_root s)))"
    "covered calls = {a. unat start \<le> a \<and> a \<le> unat ende \<and> count_at s a = threshold adv}"
    "\<forall>c \<in> set calls. snd (snd c) = adv"
    by (rule madvise_pass_spec [OF assms(1) h r, of False adv p]) auto
  have ns': "ns' = inorder (mm_root s')" using f(3) by (simp add: holds_def)
  have len: "length (counts (inorder (mm_root s))) = 2 ^ 64" using h(1) counts_length by (fastforce simp: holds_def)
  have "ibv_madvise_range env s base sz adv = Some (s', 0)"
    using False f(1) by (simp add: ibv_madvise_range_def Let_def p_def rps_def start_def ende_def)
  moreover have "unchanged s s'" using f(2) by (simp add: grown_def unchanged_def)
  moreover have "count_at s' a = count_at s a + (if a \<in> pages env s (base, sz) then inc_of adv else 0)" if "a < 2 ^ 64" for a
    unfolding ns' [symmetric] f(5) pg using that r len by (subst shifted_nth) (auto simp: word_le_nat_alt)
  moreover have "covered calls = {a \<in> pages env s (base, sz). count_at s a = threshold adv}" unfolding f(6) pg by auto
  then have "marked (madvises s') = (let c = {a \<in> pages env s (base, sz). count_at s a = threshold adv} in
       if adv = MADV_DONTFORK then marked (madvises s) \<union> c else marked (madvises s) - c)"
    using f(2) marked_append [OF f(7), of "madvises s"] by (simp add: grown_def)
  ultimately show ?thesis using that f(3,4) ns' by blast
qed

lemma pages_below: "fits env s r \<Longrightarrow> a \<in> pages env s r \<Longrightarrow> a < 2 ^ 64"
proof -
  assume a: "fits env s r" "a \<in> pages env s r"
  have nz: "fst r \<noteq> 0" "snd r \<noteq> 0" using a(2) by (auto simp: pages_def Let_def split: if_splits)
  show ?thesis using fits_range [of env s "fst r" "snd r"] a nz by force
qed

lemma dontfork_step:
  assumes "obliging env" "tracking s" "fits env s (base, sz)"
  obtains s' where "ibv_dontfork_range env s base sz = Some (s', 0)" "unchanged s s'" "tracking s'"
    "\<forall>a < 2 ^ 64. count_at s' a = count_at s a + (if a \<in> pages env s (base, sz) then 1 else 0)"
proof -
  obtain s' where s': "ibv_madvise_range env s base sz MADV_DONTFORK = Some (s', 0)" "unchanged s s'"
    "holds (mm_root s') (inorder (mm_root s'))" "canonical (inorder (mm_root s'))"
    "\<forall>a < 2 ^ 64. count_at s' a = count_at s a + (if a \<in> pages env s (base, sz) then 1 else 0)"
    "marked (madvises s') = marked (madvises s) \<union> {a \<in> pages env s (base, sz). count_at s a = 0}"
    by (rule madvise_range_counts [OF assms, of MADV_DONTFORK]) (auto simp: threshold_def Let_def)
  have nl: "mm_root s \<noteq> Leaf" using assms(2) by (auto simp: tracking_def holds_def)
  have t: "\<forall>a < 2 ^ 64. 0 \<le> count_at s a" "marked (madvises s) = {a. a < 2 ^ 64 \<and> 0 < count_at s a}"
    using assms(2) by (auto simp: tracking_def)
  have "marked (madvises s') = {a. a < 2 ^ 64 \<and> 0 < count_at s' a}"
  proof (intro set_eqI)
    fix a show "a \<in> marked (madvises s') \<longleftrightarrow> a \<in> {a. a < 2 ^ 64 \<and> 0 < count_at s' a}"
      using s'(5,6) t pages_below [OF assms(3), of a] by (cases "a < 2 ^ 64") fastforce+
  qed
  moreover have "\<forall>a < 2 ^ 64. 0 \<le> count_at s' a" using s'(5) t(1) by auto
  ultimately have "tracking s'" using s'(3,4) by (simp add: tracking_def)
  then show ?thesis using that s' nl by (simp add: ibv_dontfork_range_def)
qed

lemma dofork_step:
  assumes "obliging env" "tracking s" "fits env s (base, sz)" "\<forall>a \<in> pages env s (base, sz). 1 \<le> count_at s a"
  obtains s' where "ibv_dofork_range env s base sz = Some (s', 0)" "unchanged s s'" "tracking s'"
    "\<forall>a < 2 ^ 64. count_at s' a = count_at s a - (if a \<in> pages env s (base, sz) then 1 else 0)"
proof -
  obtain s' where s': "ibv_madvise_range env s base sz MADV_DOFORK = Some (s', 0)" "unchanged s s'"
    "holds (mm_root s') (inorder (mm_root s'))" "canonical (inorder (mm_root s'))"
    "\<forall>a < 2 ^ 64. count_at s' a = count_at s a - (if a \<in> pages env s (base, sz) then 1 else 0)"
    "marked (madvises s') = marked (madvises s) - {a \<in> pages env s (base, sz). count_at s a = 1}"
    by (rule madvise_range_counts [OF assms(1-3), of MADV_DOFORK]) (auto simp: threshold_def Let_def)
  have nl: "mm_root s \<noteq> Leaf" using assms(2) by (auto simp: tracking_def holds_def)
  have t: "\<forall>a < 2 ^ 64. 0 \<le> count_at s a" "marked (madvises s) = {a. a < 2 ^ 64 \<and> 0 < count_at s a}"
    using assms(2) by (auto simp: tracking_def)
  have "marked (madvises s') = {a. a < 2 ^ 64 \<and> 0 < count_at s' a}"
  proof (intro set_eqI)
    fix a
    have c: "a < 2 ^ 64 \<Longrightarrow> count_at s' a = count_at s a - (if a \<in> pages env s (base, sz) then 1 else 0)"
      "a \<in> pages env s (base, sz) \<Longrightarrow> 1 \<le> count_at s a" "a \<in> pages env s (base, sz) \<Longrightarrow> a < 2 ^ 64"
      using s'(5) assms(4) pages_below [OF assms(3)] by blast+
    show "a \<in> marked (madvises s') \<longleftrightarrow> a \<in> {a. a < 2 ^ 64 \<and> 0 < count_at s' a}"
      unfolding s'(6) t(2) using c by (cases "a \<in> pages env s (base, sz)") auto
  qed
  moreover have "\<forall>a < 2 ^ 64. 0 \<le> count_at s' a" using s'(5) t(1) assms(4) by auto
  ultimately have "tracking s'" using s'(3,4) by (simp add: tracking_def)
  then show ?thesis using that s' nl by (simp add: ibv_dofork_range_def)
qed

subsection \<open>Histories of registrations\<close>

definition initial_state :: fork_state where
  "initial_state = \<lparr> mm_root = Leaf, page_size = 0, huge_page_enabled = False, too_late = False, mallocs = 0, madvises = [] \<rparr>"

inductive fork_reach :: "mm_env \<Rightarrow> fork_state \<Rightarrow> (u64 \<times> u64) multiset \<Rightarrow> bool" for env where
  init: "ibv_fork_init env initial_state = (s, 0) \<Longrightarrow> mm_root s \<noteq> Leaf \<Longrightarrow> fork_reach env s {#}"
| register: "fork_reach env s live \<Longrightarrow> fits env s (base, sz) \<Longrightarrow> ibv_dontfork_range env s base sz = Some (s', r) \<Longrightarrow>
    fork_reach env s' (add_mset (base, sz) live)"
| deregister: "fork_reach env s live \<Longrightarrow> (base, sz) \<in># live \<Longrightarrow> ibv_dofork_range env s base sz = Some (s', r) \<Longrightarrow>
    fork_reach env s' (live - {#(base, sz)#})"

definition covering :: "mm_env \<Rightarrow> fork_state \<Rightarrow> (u64 \<times> u64) multiset \<Rightarrow> nat \<Rightarrow> int" where
  "covering env s live a = int (size (filter_mset (\<lambda>r. a \<in> pages env s r) live))"

lemma covering_add: "covering env s (add_mset r live) a = covering env s live a + (if a \<in> pages env s r then 1 else 0)"
  by (simp add: covering_def)

lemma covering_remove: "r \<in># live \<Longrightarrow> covering env s (live - {#r#}) a = covering env s live a - (if a \<in> pages env s r then 1 else 0)"
  using covering_add [of env s r "live - {#r#}" a] by simp

lemma covering_pos: "r \<in># live \<Longrightarrow> a \<in> pages env s r \<Longrightarrow> 1 \<le> covering env s live a"
  by (auto dest!: multi_member_split simp: covering_def)

lemma fork_init_tracking:
  assumes "ibv_fork_init env initial_state = (s, 0)" "mm_root s \<noteq> Leaf"
  shows "tracking s" "\<forall>a < 2 ^ 64. count_at s a = 0"
proof -
  let ?n = "\<lparr> nd_start = 0, nd_end = - 1, nd_refcnt = 0 \<rparr>"
  have s: "mm_root s = Node Leaf IBV_BLACK ?n Leaf \<and> marked (madvises s) = {}"
    using assms
    by (auto simp: ibv_fork_init_def initial_state_def Let_def madvise_def malloc_def marked_def apply_advice_def
      split: if_splits option.splits prod.splits)
  have u: "unat (- 1 :: u64) = 2 ^ 64 - 1" by (simp add: unsigned_minus_1_eq_mask mask_eq_exp_minus_1)
  have c: "counts (inorder (mm_root s)) = replicate (2 ^ 64) 0" using s u by (simp add: span_def)
  then show z: "\<forall>a < 2 ^ 64. count_at s a = 0" by (simp del: counts_simps)
  show "tracking s" unfolding tracking_def using s u z
    by (auto simp: holds_def mm_balanced_def simp del: counts_simps)
qed

definition tracked :: "mm_env \<Rightarrow> fork_state \<Rightarrow> (u64 \<times> u64) multiset \<Rightarrow> bool" where
  "tracked env s live \<longleftrightarrow> tracking s \<and> (\<forall>r \<in># live. fits env s r) \<and> (\<forall>a < 2 ^ 64. count_at s a = covering env s live a)"

lemma tracked_register:
  assumes "obliging env" "tracked env s live" "fits env s (base, sz)"
  obtains s' where "ibv_dontfork_range env s base sz = Some (s', 0)" "unchanged s s'" "tracked env s' (add_mset (base, sz) live)"
proof (rule dontfork_step [OF assms(1) _ assms(3)])
  show "tracking s" using assms(2) by (simp add: tracked_def)
  fix s' assume s': "ibv_dontfork_range env s base sz = Some (s', 0)" "unchanged s s'" "tracking s'"
    "\<forall>a < 2 ^ 64. count_at s' a = count_at s a + (if a \<in> pages env s (base, sz) then 1 else 0)"
  have "covering env s' = covering env s" by (simp add: fun_eq_iff covering_def unchanged_simps [OF s'(2)])
  then show thesis using s' assms(2,3) by (intro that) (auto simp: tracked_def covering_add unchanged_simps [OF s'(2)])
qed

lemma tracked_deregister:
  assumes "obliging env" "tracked env s live" "(base, sz) \<in># live"
  obtains s' where "ibv_dofork_range env s base sz = Some (s', 0)" "unchanged s s'" "tracked env s' (live - {#(base, sz)#})"
proof -
  have f: "fits env s (base, sz)" "tracking s" using assms(2,3) by (auto simp: tracked_def)
  have pos: "\<forall>a \<in> pages env s (base, sz). 1 \<le> count_at s a"
    using assms(2) covering_pos [OF assms(3)] pages_below [OF f(1)] unfolding tracked_def by metis
  obtain s' where s': "ibv_dofork_range env s base sz = Some (s', 0)" "unchanged s s'" "tracking s'"
    "\<forall>a < 2 ^ 64. count_at s' a = count_at s a - (if a \<in> pages env s (base, sz) then 1 else 0)"
    by (rule dofork_step [OF assms(1) f(2,1) pos])
  have "covering env s' = covering env s" by (simp add: fun_eq_iff covering_def unchanged_simps [OF s'(2)])
  then show ?thesis using s' assms(2,3)
    by (intro that) (auto simp: tracked_def covering_remove unchanged_simps [OF s'(2)] dest: in_diffD)
qed

lemma reach_tracked: "fork_reach env s live \<Longrightarrow> obliging env \<Longrightarrow> tracked env s live"
proof (induction rule: fork_reach.induct)
  case (init s)
  then show ?case using fork_init_tracking [of env s] by (simp add: tracked_def covering_def)
next
  case (register s live base sz s' r)
  then show ?case using tracked_register [of env s live base sz] by (metis option.inject prod.inject)
next
  case (deregister s live base sz s' r)
  then show ?case using tracked_deregister [of env s live base sz] by (metis option.inject prod.inject)
qed

text \<open>Tilings without equal neighbours are determined by their counts.\<close>

lemma first_run:
  assumes "replicate (Suc i) x @ xs = replicate (Suc j) y @ ys" "xs = [] \<or> hd xs \<noteq> x" "ys = [] \<or> hd ys \<noteq> y"
  shows "i = j \<and> x = y \<and> xs = ys"
  using assms
proof (induction i arbitrary: j)
  case 0
  then show ?case by (cases j) auto
next
  case (Suc i)
  then show ?case by (cases j) auto
qed

lemma counts_hd: "tiles lo hi (n # ns) \<Longrightarrow> hd (counts (n # ns)) = nd_refcnt n"
  by (auto simp: span_def hd_append Suc_diff_le)

lemma canonical_unique:
  "tiles lo hi xs \<Longrightarrow> tiles lo hi ys \<Longrightarrow> canonical xs \<Longrightarrow> canonical ys \<Longrightarrow> counts xs = counts ys \<Longrightarrow> xs = ys"
proof (induction xs arbitrary: lo ys)
  case Nil
  then show ?case by (cases ys) (auto simp: span_def)
next
  case (Cons n ns)
  then obtain m ms where ys: "ys = m # ms" by (cases ys) (auto simp: span_def)
  have hd: "counts us = [] \<or> hd (counts us) \<noteq> nd_refcnt u" if "canonical (u # us)" "tiles l hi (u # us)" for u us l
    using that counts_hd by (cases us) (auto simp: distinct_adj_Cons simp del: counts_simps(2))
  have "span n = Suc (unat (nd_end n) - lo)" "span m = Suc (unat (nd_end m) - lo)" using Cons.prems ys by (auto simp: span_def)
  then have e: "unat (nd_end n) - lo = unat (nd_end m) - lo \<and> nd_refcnt n = nd_refcnt m \<and> counts ns = counts ms"
    using Cons.prems(5) ys hd [OF Cons.prems(3,1)] hd [of m ms lo] Cons.prems(2,4)
    by (intro first_run) (simp_all del: replicate.simps)
  then have "nd_end n = nd_end m" "nd_start n = nd_start m" using Cons.prems(1,2) ys by (auto simp: word_unat_eq_iff)
  then have "n = m" using e by simp
  moreover have "ns = ms" using Cons.prems ys e \<open>nd_end n = nd_end m\<close>
    by (intro Cons.IH [of "unat (nd_end n) + 1"]) (auto simp: distinct_adj_Cons)
  ultimately show ?case using ys by simp
qed

subsection \<open>Properties\<close>

text \<open>C19. Suppose every malloc and every madvise succeeds, the smaps file gives one address the same page size
  throughout the history, the page sizes are powers of two and no range registered ends within one page of 2 to the 64
  or wraps around. Then any history of registrations and deregistrations after ibv_fork_init keeps the tree balanced and
  exact: the count of every address is the number of live registrations whose pages contain it, and the addresses the
  madvise calls have excluded from fork are exactly those some live registration covers. Every further registration of
  such a range, and every deregistration of a live one, returns 0 without a fault.
\<close>

theorem fork_tracker_exact:
  assumes "obliging env" "fork_reach env s live"
  shows "mm_balanced (mm_root s) \<and> (\<forall>a < 2 ^ 64. count_at s a = covering env s live a) \<and>
    marked (madvises s) = {a. \<exists>r \<in># live. a \<in> pages env s r} \<and>
    (\<forall>base sz. fits env s (base, sz) \<longrightarrow> (\<exists>s'. ibv_dontfork_range env s base sz = Some (s', 0))) \<and>
    (\<forall>base sz. (base, sz) \<in># live \<longrightarrow> (\<exists>s'. ibv_dofork_range env s base sz = Some (s', 0)))"
proof -
  have t: "tracked env s live" using reach_tracked assms by blast
  have m: "0 < covering env s live a \<longleftrightarrow> (\<exists>r \<in># live. a \<in> pages env s r)" for a
    unfolding covering_def of_nat_0_less_iff nonempty_has_size [symmetric] set_mset_eq_empty_iff [symmetric] by auto
  have "marked (madvises s) = {a. \<exists>r \<in># live. a \<in> pages env s r}"
  proof (intro set_eqI)
    fix a
    have b: "a < 2 ^ 64" if "r \<in># live" "a \<in> pages env s r" for r using t that pages_below unfolding tracked_def by blast
    have "a \<in> marked (madvises s) \<longleftrightarrow> a < 2 ^ 64 \<and> 0 < count_at s a" using t unfolding tracked_def tracking_def by blast
    also have "\<dots> \<longleftrightarrow> a < 2 ^ 64 \<and> 0 < covering env s live a" using t unfolding tracked_def by metis
    finally show "a \<in> marked (madvises s) \<longleftrightarrow> a \<in> {a. \<exists>r \<in># live. a \<in> pages env s r}" unfolding m using b by blast
  qed
  moreover have "\<exists>s'. ibv_dontfork_range env s base sz = Some (s', 0)" if "fits env s (base, sz)" for base sz
    using tracked_register [OF assms(1) t that] by blast
  moreover have "\<exists>s'. ibv_dofork_range env s base sz = Some (s', 0)" if "(base, sz) \<in># live" for base sz
    using tracked_deregister [OF assms(1) t that] by blast
  moreover have "mm_balanced (mm_root s)" "\<forall>a < 2 ^ 64. count_at s a = covering env s live a"
    using t by (auto simp: tracked_def tracking_def holds_def)
  ultimately show ?thesis by blast
qed

definition quiet_env :: mm_env where
  "quiet_env = \<lparr> env_malloc = \<lambda>_. True, env_madvise = \<lambda>_. 0, env_smaps = None, env_hugepages_safe = False,
     env_copy_on_fork = False, env_sysconf = 4096, env_errno = 0, env_memalign = Some 65536 \<rparr>"

definition forked_state :: fork_state where
  "forked_state = fst (ibv_fork_init quiet_env initial_state)"

lemma forked_reach: "fork_reach quiet_env forked_state {#}"
  by (rule fork_reach.init) code_simp+

lemma forked_fits: "fits quiet_env forked_state (4097, 4096)" "rps quiet_env forked_state b = 4096"
proof -
  have "\<not> huge_page_enabled forked_state \<and> page_size forked_state = 4096" by code_simp
  then show r: "rps quiet_env forked_state b = 4096" for b by (simp add: rps_def)
  show "fits quiet_env forked_state (4097, 4096)" unfolding fits_def r fst_conv snd_conv
    by (intro conjI exI [of _ 12]) simp_all
qed

theorem fork_tracker_exact_witness:
  "\<exists>s. fork_reach quiet_env s {#(4097, 4096)#} \<and> marked (madvises s) = {4096 ..< 12288} \<and> count_at s 5000 = 1"
proof -
  have o: "obliging quiet_env" by (simp add: obliging_def quiet_env_def)
  obtain s where s: "ibv_dontfork_range quiet_env forked_state 4097 4096 = Some (s, 0)"
    using fork_tracker_exact [OF o forked_reach] forked_fits(1) by blast
  have r: "fork_reach quiet_env s {#(4097, 4096)#}" using fork_reach.register [OF forked_reach forked_fits(1) s] .
  have "unchanged forked_state s" using tracked_register [OF o reach_tracked [OF forked_reach o] forked_fits(1)] s by auto
  then have p: "pages quiet_env s (4097, 4096) = {4096 ..< 12288}"
    by (simp add: unchanged_simps) (simp add: pages_def forked_fits(2) Let_def)
  have "covering quiet_env s {#(4097, 4096)#} 5000 = 1" by (simp add: covering_def p)
  moreover have "marked (madvises s) = {4096 ..< 12288}" "count_at s 5000 = covering quiet_env s {#(4097, 4096)#} 5000"
    using fork_tracker_exact [OF o r] p by auto
  ultimately show ?thesis using r by metis
qed

text \<open>
  While malloc and madvise succeed, deregistering a range right after registering it gives back the same list of
  address ranges and counts and the same set of addresses excluded from fork: the splits are all merged again.
\<close>

theorem dontfork_dofork_roundtrip:
  assumes "obliging env" "fork_reach env s live" "fits env s (base, sz)"
  shows "\<exists>s1 s2. ibv_dontfork_range env s base sz = Some (s1, 0) \<and> ibv_dofork_range env s1 base sz = Some (s2, 0) \<and>
           inorder (mm_root s2) = inorder (mm_root s) \<and> marked (madvises s2) = marked (madvises s)"
proof -
  have t: "tracked env s live" using reach_tracked assms by blast
  obtain s1 where s1: "ibv_dontfork_range env s base sz = Some (s1, 0)" "unchanged s s1" "tracked env s1 (add_mset (base, sz) live)"
    by (rule tracked_register [OF assms(1) t assms(3)])
  obtain s2 where s2: "ibv_dofork_range env s1 base sz = Some (s2, 0)" "unchanged s1 s2" "tracked env s2 live"
    using tracked_deregister [OF assms(1) s1(3), of base sz] by auto
  have c: "covering env s2 live = covering env s live"
    by (simp add: fun_eq_iff covering_def unchanged_simps [OF s2(2)] unchanged_simps [OF s1(2)])
  have h: "tiles 0 (2 ^ 64) (inorder (mm_root x)) \<and> canonical (inorder (mm_root x))" if "tracked env x live" for x
    using that by (simp add: tracked_def tracking_def holds_def)
  have "counts (inorder (mm_root s2)) = counts (inorder (mm_root s))"
  proof (rule nth_equalityI)
    show "length (counts (inorder (mm_root s2))) = length (counts (inorder (mm_root s)))"
      using h [OF t] h [OF s2(3)] by (metis counts_length)
    fix a assume "a < length (counts (inorder (mm_root s2)))"
    then have "a < 2 ^ 64" using h [OF s2(3)] counts_length by (metis diff_zero)
    then show "count_at s2 a = count_at s a" using t s2(3) c unfolding tracked_def by metis
  qed
  then have e: "inorder (mm_root s2) = inorder (mm_root s)" using canonical_unique h [OF t] h [OF s2(3)] by blast
  have "marked (madvises s2) = marked (madvises s)" using t s2(3) unfolding tracked_def tracking_def e by blast
  then show ?thesis using s1(1) s2(1) e by blast
qed

text \<open>
  A refused madvise corrupts the counts. When the kernel refuses the first MADV_DONTFORK after ibv_fork_init,
  ibv_dontfork_range fails, but its rollback has decremented the count of every address from the start of the
  range to the end of the address space, although none was incremented. The registration of a second
  range after that reports success without any madvise call, and its pages are copied on fork.
\<close>

theorem refused_dontfork_unprotects:
  "let env = quiet_env\<lparr> env_madvise := \<lambda>n. if n = 2 then - 1 else 0 \<rparr> in
   case ibv_dontfork_range env forked_state 4097 4096 of
     Some (s1, r1) \<Rightarrow> r1 = - 1 \<and>
       map nd_refcnt (inorder (mm_root s1)) = [0, - 1] \<and> map nd_end (inorder (mm_root s1)) = [4095, - 1] \<and>
       (case ibv_dontfork_range env s1 16384 4096 of
          Some (s2, r2) \<Rightarrow> r2 = 0 \<and> madvises s2 = madvises s1 \<and>
            length (filter (\<lambda>(a, l, adv). a \<le> 16384 \<and> 16384 < a + l) (madvises s2)) = 0
        | None \<Rightarrow> False)
   | None \<Rightarrow> False"
  by code_simp

end
