(* ===== verification/RdmaPsn.thy ===== *)
theory RdmaPsn
  imports Prelude
begin

text \<open>
  Packet and message sequence numbers of the Rust driver (\<^verbatim>\<open>rdma_utils/psn.rs\<close>, \<^verbatim>\<open>rdma_utils/msn.rs\<close>). A packet sequence
  number (PSN) has 24 bits in a u32 and is compared on the circle; a message sequence number (MSN) has 16 bits.
\<close>

subsection \<open>Definitions\<close>

datatype ordering = Less | Equal | Greater

definition PSN_MASK :: u32 where "PSN_MASK = 0xFFFFFF"

definition MAX_PSN_WINDOW :: nat where "MAX_PSN_WINDOW = 2 ^ 23"

definition MAX_SEND_WR :: nat where "MAX_SEND_WR = 0x8000"

datatype psn = Psn (into_inner: u32)

definition psn_cmp :: "psn \<Rightarrow> psn \<Rightarrow> ordering" where
  "psn_cmp self other = (let x = (into_inner self - into_inner other) AND PSN_MASK in
     if x = 0 then Equal else if unat x > MAX_PSN_WINDOW then Less else Greater)"

text \<open>The operators \<^verbatim>\<open><\<close> and \<^verbatim>\<open><=\<close> that Rust derives from \<^verbatim>\<open>cmp\<close>.\<close>

instantiation psn :: ord
begin

definition less_psn :: "psn \<Rightarrow> psn \<Rightarrow> bool" where
  "a < b \<longleftrightarrow> psn_cmp a b = Less"

definition less_eq_psn :: "psn \<Rightarrow> psn \<Rightarrow> bool" where
  "a \<le> b \<longleftrightarrow> psn_cmp a b \<noteq> Greater"

instance ..

end

definition psn_add :: "psn \<Rightarrow> u32 \<Rightarrow> psn" where
  "psn_add self rhs = Psn ((into_inner self + rhs) AND PSN_MASK)"

definition psn_sub :: "psn \<Rightarrow> u32 \<Rightarrow> psn" where
  "psn_sub self rhs = Psn ((into_inner self - rhs) AND PSN_MASK)"

definition psn_diff :: "psn \<Rightarrow> psn \<Rightarrow> psn" where
  "psn_diff self rhs = Psn ((into_inner self - into_inner rhs) AND PSN_MASK)"

datatype msn = Msn u16

fun msn_distance :: "msn \<Rightarrow> msn \<Rightarrow> nat" where
  "msn_distance (Msn a) (Msn b) = unat (a - b)"

text \<open>\<open>None\<close> is the panic on a delta that does not fit in 16 bits.\<close>

fun msn_advance :: "msn \<Rightarrow> nat \<Rightarrow> msn option" where
  "msn_advance (Msn a) dlt = (if dlt < 2 ^ 16 then Some (Msn (a + word_of_nat dlt)) else None)"

fun msn_partial_cmp :: "msn \<Rightarrow> msn \<Rightarrow> ordering" where
  "msn_partial_cmp (Msn a) (Msn b) = (let x = a - b in
     if x = 0 then Equal else if unat x > MAX_SEND_WR then Less else Greater)"

subsection \<open>Arithmetic on the circle\<close>

lemma and_PSN_MASK: "w AND PSN_MASK = take_bit 24 w"
proof -
  have "PSN_MASK = mask 24" by (simp add: PSN_MASK_def mask_eq_exp_minus_1)
  then show ?thesis by (simp add: take_bit_eq_mask)
qed

lemma unat_take24: "unat (take_bit 24 (w :: u32)) = unat w mod 2 ^ 24"
  by (simp only: unsigned_take_bit_eq) (simp add: take_bit_eq_mod)

lemma int_unat_sub32: "int (unat (a - b :: u32)) = (int (unat a) - int (unat b)) mod 2 ^ 32"
  by (simp add: uint_word_ariths flip: uint_nat)

lemma psn_dist: "int (unat ((a - b) AND PSN_MASK)) = (int (unat a) - int (unat b)) mod 2 ^ 24"
  unfolding and_PSN_MASK unat_take24 of_nat_mod int_unat_sub32 of_nat_power of_nat_numeral
  by (simp add: mod_mod_cancel)

text \<open>The position of a PSN on the circle.\<close>

definition seq :: "psn \<Rightarrow> int" where
  "seq p = int (unat (into_inner p)) mod 2 ^ 24"

lemma psn_cmp_seq:
  "psn_cmp p q = (let d = (seq p - seq q) mod 2 ^ 24 in if d = 0 then Equal else if d > 2 ^ 23 then Less else Greater)"
proof -
  let ?x = "(into_inner p - into_inner q) AND PSN_MASK"
  have x: "int (unat ?x) = (seq p - seq q) mod 2 ^ 24" unfolding psn_dist seq_def by (simp add: mod_diff_eq)
  have "?x = 0 \<longleftrightarrow> int (unat ?x) = 0" by (simp only: of_nat_eq_0_iff unat_eq_0)
  moreover have "unat ?x > MAX_PSN_WINDOW \<longleftrightarrow> int (unat ?x) > 2 ^ 23"
    using of_nat_less_iff [of "2 ^ 23" "unat ?x", where 'a = int] by (simp only: MAX_PSN_WINDOW_def of_nat_power of_nat_numeral)
  ultimately show ?thesis unfolding psn_cmp_def Let_def x by simp
qed

lemma seq_add: "seq (psn_add p w) = (seq p + int (unat w)) mod 2 ^ 24"
proof -
  have "int (unat ((into_inner p + w) AND PSN_MASK)) = (int (unat (into_inner p)) + int (unat w)) mod 2 ^ 24"
    unfolding and_PSN_MASK unat_take24 of_nat_mod of_nat_power of_nat_numeral
    by (simp add: unat_word_ariths of_nat_mod mod_mod_cancel)
  then show ?thesis by (simp add: psn_add_def seq_def mod_add_left_eq)
qed

lemma cmp_of_dist:
  assumes "(seq p - seq q) mod 2 ^ 24 = k mod 2 ^ 24" "- (2 ^ 23) < k" "k \<le> 2 ^ 23"
  shows "psn_cmp p q = (if k < 0 then Less else if k = 0 then Equal else Greater)"
proof (cases "k < 0")
  case True
  have "k mod 2 ^ 24 = (k + 2 ^ 24) mod 2 ^ 24" by simp
  also have "\<dots> = k + 2 ^ 24" using True assms(2) by (intro mod_pos_pos_trivial) auto
  finally show ?thesis using True assms by (simp add: psn_cmp_seq)
next
  case False
  then have "k mod 2 ^ 24 = k" using assms(3) by (intro mod_pos_pos_trivial) auto
  then show ?thesis using False assms by (simp add: psn_cmp_seq)
qed

lemma seq_range: "0 \<le> seq p" "seq p < 2 ^ 24"
  by (simp_all add: seq_def)

lemma seq_add_diff: "(seq (psn_add p v) - seq (psn_add p w)) mod 2 ^ 24 = (int (unat v) - int (unat w)) mod 2 ^ 24"
  unfolding seq_add by (simp add: mod_diff_eq)

text \<open>Numbers of one turn of the circle that are less than half a turn apart compare as integers.\<close>

lemma near_cmp:
  assumes "\<bar>seq p - seq q\<bar> < 2 ^ 23"
  shows "psn_cmp p q = (if seq p < seq q then Less else if seq p = seq q then Equal else Greater)"
  using cmp_of_dist [of p q "seq p - seq q"] assms by auto

lemma near_less: "\<bar>seq p - seq q\<bar> < 2 ^ 23 \<Longrightarrow> p < q \<longleftrightarrow> seq p < seq q"
  "\<bar>seq p - seq q\<bar> < 2 ^ 23 \<Longrightarrow> p \<le> q \<longleftrightarrow> seq p \<le> seq q"
  by (auto simp: less_psn_def less_eq_psn_def near_cmp)

text \<open>C22. On any window of 2^23 consecutive PSNs, across the wrap around too, the comparison is the order of the offsets. Two
  PSNs exactly half a circle apart both compare as greater than the other, and these are the only pairs for which the
  comparison is not antisymmetric.
\<close>

theorem psn_window_order:
  "(\<forall>i j. i < 2 ^ 23 \<and> j < 2 ^ 23 \<longrightarrow>
      psn_cmp (psn_add p (word_of_nat i)) (psn_add p (word_of_nat j)) = (if i < j then Less else if i = j then Equal else Greater)) \<and>
   (psn_cmp p q = Greater \<and> psn_cmp q p = Greater \<longleftrightarrow> (seq p - seq q) mod 2 ^ 24 = 2 ^ 23)"
proof (intro conjI allI impI)
  fix i j :: nat assume "i < 2 ^ 23 \<and> j < 2 ^ 23"
  then have "int (unat (word_of_nat i :: u32)) = int i" "int (unat (word_of_nat j :: u32)) = int j"
    by (simp_all add: unat_of_nat del: uint_nat)
  with \<open>i < 2 ^ 23 \<and> j < 2 ^ 23\<close> show "psn_cmp (psn_add p (word_of_nat i)) (psn_add p (word_of_nat j)) =
      (if i < j then Less else if i = j then Equal else Greater)"
    using cmp_of_dist [OF seq_add_diff, of "word_of_nat i" "word_of_nat j" p] by auto
next
  have "(seq q - seq p) mod 2 ^ 24 = (- (seq p - seq q)) mod 2 ^ 24" by simp
  then show "psn_cmp p q = Greater \<and> psn_cmp q p = Greater \<longleftrightarrow> (seq p - seq q) mod 2 ^ 24 = 2 ^ 23"
    unfolding psn_cmp_seq Let_def zmod_zminus1_eq_if by auto
qed

theorem psn_window_order_witness:
  "psn_cmp (psn_add (Psn 0xFFFFFE) (word_of_nat 1)) (psn_add (Psn 0xFFFFFE) (word_of_nat 5)) = Less"
  using psn_window_order [where p = "Psn 0xFFFFFE", THEN conjunct1, rule_format, of 1 5] by simp

end
