(* ===== verification/BitVec.thy ===== *)
theory BitVec
  imports Prelude
begin

text \<open>
  The growable bit vectors of the bitvec crate, on which the Rust driver builds its tables. The crate is not part of the
  sources: its operations are the fields of a record that the model's definitions take as an argument, and
  \<open>bitvec_laws\<close> states what its documentation promises of them, through the list of bits a vector holds. \<open>None\<close> is a panic.
\<close>

subsection \<open>Operations and their documented behaviour\<close>

record 'b bitvec_ops =
  bv_len :: "'b \<Rightarrow> nat"
  bv_get :: "'b \<Rightarrow> nat \<Rightarrow> bool option"
  bv_set :: "'b \<Rightarrow> nat \<Rightarrow> bool \<Rightarrow> 'b option"
  bv_resize :: "'b \<Rightarrow> nat \<Rightarrow> bool \<Rightarrow> 'b"
  bv_fill :: "'b \<Rightarrow> bool \<Rightarrow> 'b"
  bv_first_zero :: "'b \<Rightarrow> nat option"
  bv_shift_left :: "'b \<Rightarrow> nat \<Rightarrow> 'b option"
  bv_new :: 'b

definition first_false :: "bool list \<Rightarrow> nat option" where
  "first_false bs = (let n = length (takeWhile (\<lambda>b. b) bs) in if n < length bs then Some n else None)"

definition bitvec_laws :: "('b, 'z) bitvec_ops_scheme \<Rightarrow> ('b \<Rightarrow> bool list) \<Rightarrow> bool" where
  "bitvec_laws B bits \<longleftrightarrow>
     bits (bv_new B) = [] \<and>
     (\<forall>v. bv_len B v = length (bits v)) \<and>
     (\<forall>v i. bv_get B v i = (if i < length (bits v) then Some (bits v ! i) else None)) \<and>
     (\<forall>v i x. map_option bits (bv_set B v i x) = (if i < length (bits v) then Some ((bits v)[i := x]) else None)) \<and>
     (\<forall>v n x. bits (bv_resize B v n x) = take n (bits v) @ replicate (n - length (bits v)) x) \<and>
     (\<forall>v x. bits (bv_fill B v x) = replicate (length (bits v)) x) \<and>
     (\<forall>v. bv_first_zero B v = first_false (bits v)) \<and>
     (\<forall>v n. n \<le> length (bits v) \<longrightarrow> map_option bits (bv_shift_left B v n) = Some (drop n (bits v) @ replicate n False))"

text \<open>Lists of booleans behave as documented.\<close>

definition list_bitvec :: "bool list bitvec_ops" where
  "list_bitvec = \<lparr> bv_len = length,
     bv_get = \<lambda>v i. if i < length v then Some (v ! i) else None,
     bv_set = \<lambda>v i x. if i < length v then Some (v[i := x]) else None,
     bv_resize = \<lambda>v n x. take n v @ replicate (n - length v) x,
     bv_fill = \<lambda>v x. replicate (length v) x,
     bv_first_zero = first_false,
     bv_shift_left = \<lambda>v n. if n \<le> length v then Some (drop n v @ replicate n False) else None,
     bv_new = [] \<rparr>"

lemma list_bitvec_laws: "bitvec_laws list_bitvec (\<lambda>v. v)"
  by (simp add: bitvec_laws_def list_bitvec_def)

subsection \<open>Consequences\<close>

lemma bitvec_simps:
  assumes "bitvec_laws B bits"
  shows "bits (bv_new B) = []" "bv_len B v = length (bits v)" "bv_get B v i = (if i < length (bits v) then Some (bits v ! i) else None)"
    "bits (bv_resize B v n x) = take n (bits v) @ replicate (n - length (bits v)) x"
    "bits (bv_fill B v x) = replicate (length (bits v)) x" "bv_first_zero B v = first_false (bits v)"
  using assms by (auto simp: bitvec_laws_def)

lemma bitvec_set:
  assumes "bitvec_laws B bits" "i < length (bits v)"
  obtains v' where "bv_set B v i x = Some v'" "bits v' = (bits v)[i := x]"
proof -
  have "map_option bits (bv_set B v i x) = Some ((bits v)[i := x])" using assms unfolding bitvec_laws_def by auto
  then show ?thesis using that by auto
qed

lemma bitvec_set_None: "bitvec_laws B bits \<Longrightarrow> length (bits v) \<le> i \<Longrightarrow> bv_set B v i x = None"
  unfolding bitvec_laws_def by (metis not_less map_option_is_None)

lemma bitvec_shift:
  assumes "bitvec_laws B bits" "n \<le> length (bits v)"
  obtains v' where "bv_shift_left B v n = Some v'" "bits v' = drop n (bits v) @ replicate n False"
proof -
  have "map_option bits (bv_shift_left B v n) = Some (drop n (bits v) @ replicate n False)"
    using assms unfolding bitvec_laws_def by blast
  then show ?thesis using that by auto
qed

lemma first_false_Some: "first_false bs = Some i \<Longrightarrow> i < length bs \<and> \<not> bs ! i \<and> (\<forall>j < i. bs ! j)"
proof -
  assume a: "first_false bs = Some i"
  then have i: "i = length (takeWhile (\<lambda>b. b) bs)" "i < length bs" by (auto simp: first_false_def Let_def split: if_splits)
  then have "\<not> bs ! i" using nth_length_takeWhile [of "\<lambda>b. b" bs] by simp
  moreover have "bs ! j" if "j < i" for j
    using that i nth_mem [of j "takeWhile (\<lambda>b. b) bs"] set_takeWhileD takeWhile_nth [of j "\<lambda>b. b" bs] by fastforce
  ultimately show ?thesis using i by blast
qed

lemma first_false_None: "first_false bs = None \<Longrightarrow> \<forall>j < length bs. bs ! j"
proof -
  assume "first_false bs = None"
  then have "length (takeWhile (\<lambda>b. b) bs) = length bs"
    using length_takeWhile_le [of "\<lambda>b. b" bs] by (auto simp: first_false_def Let_def split: if_splits)
  then have "takeWhile (\<lambda>b. b) bs = bs" by (metis takeWhile_eq_take take_all order.refl)
  then show ?thesis using nth_mem by (auto simp: takeWhile_eq_all_conv)
qed

end
