(* ===== verification/PsnTracker.thy ===== *)
theory PsnTracker
  imports RdmaPsn BitVec
begin

text \<open>
  The acknowledgement trackers of the Rust driver (\<^verbatim>\<open>rdma_utils/psn_tracker.rs\<close>). A tracker has the first PSN not known to be
  received and a bit vector for those after it. Each operation returns the new state and the new base PSN if it reports
  one; an outer \<open>None\<close> is a panic of the bit vector.
\<close>

subsection \<open>Definitions\<close>

record 'b psn_tracker =
  base_psn :: psn
  inner :: 'b

definition rstart :: "'b psn_tracker \<Rightarrow> psn \<Rightarrow> int" where
  "rstart self psn = (let x = into_inner psn - into_inner (base_psn self) in
     if drop_bit 23 x AND 1 \<noteq> 0 then sint (x OR 0xFF000000) else sint x)"

fun for_each :: "(nat \<Rightarrow> 'b \<Rightarrow> 'b option) \<Rightarrow> nat list \<Rightarrow> 'b \<Rightarrow> 'b option" where
  "for_each f [] v = Some v"
| "for_each f (i # is) v = do { v \<leftarrow> f i v; for_each f is v }"

definition try_advance :: "('b, 'z) bitvec_ops_scheme \<Rightarrow> 'b psn_tracker \<Rightarrow> ('b psn_tracker \<times> psn option) option" where
  "try_advance B self = (
     let pos = (case bv_first_zero B (inner self) of Some i \<Rightarrow> i | None \<Rightarrow> bv_len B (inner self)) in
     if pos = 0 then Some (self, None)
     else do {
       v \<leftarrow> bv_shift_left B (inner self) pos;
       let base = psn_add (base_psn self) (word_of_nat pos);
       Some (self\<lparr> inner := v, base_psn := base \<rparr>, Some base) })"

definition ack_before :: "('b, 'z) bitvec_ops_scheme \<Rightarrow> 'b psn_tracker \<Rightarrow> psn \<Rightarrow> ('b psn_tracker \<times> psn option) option" where
  "ack_before B self psn = (
     let r = rstart self psn in
     if r < 0 then Some (self, None)
     else do {
       v \<leftarrow> (if nat r \<ge> bv_len B (inner self) then Some (bv_fill B (inner self) False)
              else bv_shift_left B (inner self) (nat r));
       Some (self\<lparr> base_psn := psn, inner := v \<rparr>, Some psn) })"

definition ack_one :: "('b, 'z) bitvec_ops_scheme \<Rightarrow> 'b psn_tracker \<Rightarrow> psn \<Rightarrow> ('b psn_tracker \<times> psn option) option" where
  "ack_one B self psn = (
     let r = rstart self psn in
     if r < 0 then Some (self, None)
     else do {
       let v = (if nat r \<ge> bv_len B (inner self) then bv_resize B (inner self) (nat r + 1) False else inner self);
       v \<leftarrow> bv_set B v (nat r) True;
       try_advance B (self\<lparr> inner := v \<rparr>) })"

definition ack_range :: "('b, 'z) bitvec_ops_scheme \<Rightarrow> 'b psn_tracker \<Rightarrow> psn \<Rightarrow> psn \<Rightarrow> ('b psn_tracker \<times> psn option) option" where
  "ack_range B self psn_low psn_high = (
     if psn_low \<le> base_psn self then ack_before B self psn_high
     else let rs = rstart self psn_low; re = rstart self psn_high in
     if rs < 0 \<or> re < 0 then Some (self, None)
     else do {
       let v = (if nat re \<ge> bv_len B (inner self) then bv_resize B (inner self) (nat re + 1) False else inner self);
       v \<leftarrow> for_each (\<lambda>i v. bv_set B v i True) [nat rs ..< nat re] v;
       Some (self\<lparr> inner := v \<rparr>, None) })"

definition ack_bitmap :: "('b, 'z) bitvec_ops_scheme \<Rightarrow> 'b psn_tracker \<Rightarrow> psn \<Rightarrow> 128 word \<Rightarrow> ('b psn_tracker \<times> psn option) option" where
  "ack_bitmap B self now_psn bitmap = (
     let rs = rstart self now_psn; re = rs + 128;
         v = (if 0 \<le> re \<and> nat re > bv_len B (inner self) then bv_resize B (inner self) (nat re) False else inner self)
     in do {
       v \<leftarrow> for_each (\<lambda>i v. if drop_bit (nat (int i - rs)) bitmap AND 1 = 1 then bv_set B v i True else Some v)
              [nat (max rs 0) ..< nat re] v;
       try_advance B (self\<lparr> inner := v \<rparr>) })"

record 'b local_ack_tracker =
  la_tracker :: "'b psn_tracker"
  la_psn_pre :: psn

definition or_else :: "psn option \<Rightarrow> psn option \<Rightarrow> psn option" where
  "or_else a b = (case a of Some x \<Rightarrow> Some x | None \<Rightarrow> b)"

definition local_ack_one :: "('b, 'z) bitvec_ops_scheme \<Rightarrow> 'b local_ack_tracker \<Rightarrow> psn \<Rightarrow> ('b local_ack_tracker \<times> psn option) option" where
  "local_ack_one B self psn = do {
     (t, r) \<leftarrow> ack_one B (la_tracker self) psn;
     Some (self\<lparr> la_tracker := t \<rparr>, r) }"

definition local_ack_bitmap ::
  "('b, 'z) bitvec_ops_scheme \<Rightarrow> 'b local_ack_tracker \<Rightarrow> psn \<Rightarrow> 128 word \<Rightarrow> ('b local_ack_tracker \<times> psn option) option" where
  "local_ack_bitmap B self base bitmap = do {
     (t, x) \<leftarrow> ack_range B (la_tracker self) (la_psn_pre self) base;
     (t, y) \<leftarrow> ack_bitmap B t base bitmap;
     Some (self\<lparr> la_tracker := t, la_psn_pre := (if la_psn_pre self < base then base else la_psn_pre self) \<rparr>, or_else y x) }"

definition local_nak_bitmap ::
  "('b, 'z) bitvec_ops_scheme \<Rightarrow> 'b local_ack_tracker \<Rightarrow> psn \<Rightarrow> 128 word \<Rightarrow> psn \<Rightarrow> 128 word \<Rightarrow>
   ('b local_ack_tracker \<times> psn option) option" where
  "local_nak_bitmap B self psn_pre pre_bitmap psn_now now_bitmap = do {
     (t, x) \<leftarrow> ack_range B (la_tracker self) (la_psn_pre self) psn_pre;
     (t, y) \<leftarrow> ack_bitmap B t psn_pre pre_bitmap;
     (t, z) \<leftarrow> ack_bitmap B t psn_now now_bitmap;
     Some (self\<lparr> la_tracker := t, la_psn_pre := (if la_psn_pre self < psn_now then psn_now else la_psn_pre self) \<rparr>,
           or_else (or_else z y) x) }"

record 'b remote_ack_tracker =
  ra_tracker :: "'b psn_tracker"
  ra_msn_pre :: u16
  ra_psn_pre :: psn

definition remote_ack_before :: "('b, 'z) bitvec_ops_scheme \<Rightarrow> 'b remote_ack_tracker \<Rightarrow> psn \<Rightarrow> ('b remote_ack_tracker \<times> psn option) option" where
  "remote_ack_before B self psn = do {
     (t, r) \<leftarrow> ack_before B (ra_tracker self) psn;
     Some (self\<lparr> ra_tracker := t \<rparr>, r) }"

definition remote_nak_bitmap ::
  "('b, 'z) bitvec_ops_scheme \<Rightarrow> 'b remote_ack_tracker \<Rightarrow> u16 \<Rightarrow> psn \<Rightarrow> 128 word \<Rightarrow> psn \<Rightarrow> 128 word \<Rightarrow>
   ('b remote_ack_tracker \<times> psn option) option" where
  "remote_nak_bitmap B self msn psn_pre pre_bitmap psn_now now_bitmap = do {
     (t, x) \<leftarrow> (if msn = ra_msn_pre self + 1 then ack_range B (ra_tracker self) (ra_psn_pre self) psn_pre
                else Some (ra_tracker self, None));
     (t, y) \<leftarrow> ack_bitmap B t psn_pre pre_bitmap;
     (t, z) \<leftarrow> ack_bitmap B t psn_now now_bitmap;
     let slid = ra_psn_pre self < psn_now;
     Some (self\<lparr> ra_tracker := t, ra_psn_pre := (if slid then psn_now else ra_psn_pre self),
                ra_msn_pre := (if slid then msn else ra_msn_pre self) \<rparr>, or_else (or_else z y) x) }"

subsection \<open>The distance from the base\<close>

definition valid_psn :: "psn \<Rightarrow> bool" where
  "valid_psn p \<longleftrightarrow> uint (into_inner p) < 2 ^ 24"

lemma seq_valid: "valid_psn p \<Longrightarrow> seq p = uint (into_inner p)"
  by (simp add: valid_psn_def seq_def)

lemma high_mask: "(0xFF000000 :: u32) = NOT (mask 24)"
  by (simp add: mask_eq_exp_minus_1)

lemma and_high: "uint ((x :: u32) AND 0xFF000000) = uint x div 2 ^ 24 * 2 ^ 24"
proof -
  have x: "0 \<le> uint x" "uint x < 2 ^ 32" using uint_bounded [of x] by auto
  have "x AND NOT (mask 24) = push_bit 24 (drop_bit 24 x)" by (rule bit_word_eqI) (auto simp: bit_simps)
  moreover have "uint (drop_bit 24 x) = uint x div 2 ^ 24" 
    using x by (simp only: unsigned_drop_bit_eq) (simp add: drop_bit_eq_div take_bit_eq_mod)
  then have "uint (push_bit 24 (drop_bit 24 x)) = (uint x div 2 ^ 24 * 2 ^ 24) mod 2 ^ 32"
    by (simp only: unsigned_push_bit_eq) (simp add: push_bit_eq_mult take_bit_eq_mod)
  moreover have "uint x div 2 ^ 24 * 2 ^ 24 \<le> uint x" by (simp add: minus_mod_eq_div_mult [symmetric])
  then have "(uint x div 2 ^ 24 * 2 ^ 24) mod 2 ^ 32 = uint x div 2 ^ 24 * 2 ^ 24"
    using x by (intro mod_pos_pos_trivial) (auto simp: pos_imp_zdiv_nonneg_iff)
  ultimately show ?thesis by (simp only: high_mask)
qed

lemma or_high: "uint ((x :: u32) OR 0xFF000000) = uint x mod 2 ^ 24 + 0xFF000000"
proof -
  have "x OR 0xFF000000 = x + 0xFF000000 - (x AND 0xFF000000)" using word_plus_and_or [of x "0xFF000000"] by (simp add: algebra_simps)
  then have "uint (x OR 0xFF000000) = (uint x + 0xFF000000 - uint x div 2 ^ 24 * 2 ^ 24) mod 2 ^ 32"
    by (simp add: uint_word_ariths and_high mod_diff_left_eq)
  also have "uint x + 0xFF000000 - uint x div 2 ^ 24 * 2 ^ 24 = uint x mod 2 ^ 24 + 0xFF000000"
    by (simp add: minus_div_mult_eq_mod [symmetric])
  finally show ?thesis by simp
qed

lemma sint32: "sint (w :: u32) = (uint w + 2 ^ 31) mod 2 ^ 32 - 2 ^ 31"
  by (simp add: sint_uint signed_take_bit_eq_take_bit_shift take_bit_eq_mod)

lemma bit23: "drop_bit 23 (x :: u32) AND 1 \<noteq> 0 \<longleftrightarrow> odd (uint x div 2 ^ 23)"
proof -
  have "drop_bit 23 x AND 1 \<noteq> 0 \<longleftrightarrow> bit x 23" by (simp add: and_one_eq odd_iff_mod_2_eq_one [symmetric] bit_iff_odd_drop_bit)
  also have "\<dots> \<longleftrightarrow> bit (uint x) 23" by (simp add: bit_uint_iff)
  finally show ?thesis by (simp add: bit_iff_odd)
qed

lemma rstart_value:
  assumes "valid_psn p" "valid_psn (base_psn t)"
  defines "d \<equiv> seq p - seq (base_psn t)"
  shows "rstart t p = (if d \<ge> 2 ^ 23 then d - 2 ^ 24 else d)"
proof -
  let ?x = "into_inner p - into_inner (base_psn t)"
  have d: "- (2 ^ 24) < d" "d < 2 ^ 24" using assms seq_range [of p] seq_range [of "base_psn t"] by auto
  have x: "uint ?x = d mod 2 ^ 32" unfolding d_def seq_valid [OF assms(1)] seq_valid [OF assms(2)] by (simp add: uint_word_ariths)
  have r: "rstart t p = (if odd (uint ?x div 2 ^ 23) then sint (?x OR 0xFF000000) else sint ?x)"
    unfolding rstart_def Let_def bit23 by simp
  consider "d < 0" | "0 \<le> d" "d < 2 ^ 23" | "2 ^ 23 \<le> d" by linarith
  then show ?thesis
  proof cases
    case 1
    have u: "uint ?x = d + 2 ^ 32" unfolding x using 1 d by (subst mod_add_self2 [symmetric]) (intro mod_pos_pos_trivial, auto)
    have "(d + 2 ^ 32) mod 2 ^ 24 = (d + 2 ^ 24) mod 2 ^ 24"
      using mod_mult_self2 [of d "2 ^ 24" 256] mod_add_self2 [of d "2 ^ 24"] by simp
    also have "\<dots> = d + 2 ^ 24" using 1 d by (intro mod_pos_pos_trivial) auto
    finally have o: "uint (?x OR 0xFF000000) = d + 2 ^ 32" unfolding or_high u by simp
    have "(d + 2 ^ 32 + 2 ^ 31) mod 2 ^ 32 = (d + 2 ^ 31) mod 2 ^ 32"
      using mod_add_self2 [of "d + 2 ^ 31" "2 ^ 32"] by (simp add: algebra_simps)
    also have "\<dots> = d + 2 ^ 31" using 1 d by (intro mod_pos_pos_trivial) auto
    finally show ?thesis unfolding r using 1 by (simp add: sint32 o u)
  next
    case 2
    have u: "uint ?x = d" unfolding x using 2 by (intro mod_pos_pos_trivial) auto
    have "d div 2 ^ 23 = 0" using 2 by (intro div_pos_pos_trivial) auto
    moreover have "(d + 2 ^ 31) mod 2 ^ 32 = d + 2 ^ 31" using 2 by (intro mod_pos_pos_trivial) auto
    ultimately show ?thesis unfolding r using 2 by (simp add: sint32 u)
  next
    case 3
    have u: "uint ?x = d" unfolding x using 3 d by (intro mod_pos_pos_trivial) auto
    have "(d - 2 ^ 23) div 2 ^ 23 = 0" using 3 d by (intro div_pos_pos_trivial) auto
    then have "d div 2 ^ 23 = 1" by simp
    moreover have "d mod 2 ^ 24 = d" using 3 d by (intro mod_pos_pos_trivial) auto
    then have o: "uint (?x OR 0xFF000000) = d + 0xFF000000" unfolding or_high u by simp
    moreover have "(d + 0xFF000000 + 2 ^ 31) mod 2 ^ 32 = (d + 0xFF000000 + 2 ^ 31 - 2 ^ 32) mod 2 ^ 32"
      using mod_add_self2 [of "d + 0xFF000000 + 2 ^ 31 - 2 ^ 32" "2 ^ 32"] by simp
    then have "(d + 0xFF000000 + 2 ^ 31) mod 2 ^ 32 = d + 0xFF000000 + 2 ^ 31 - 2 ^ 32"
      using 3 d by (simp only:) (intro mod_pos_pos_trivial, auto)
    ultimately show ?thesis unfolding r using 3 by (simp add: sint32 u)
  qed
qed

subsection \<open>What a tracker has recorded\<close>

text \<open>Numbers of one turn of the circle, as integers: all before the base and those whose bit is set.\<close>

definition acked :: "('b \<Rightarrow> bool list) \<Rightarrow> 'b psn_tracker \<Rightarrow> int set" where
  "acked bits t = {n. n < seq (base_psn t) \<or> (\<exists>i < length (bits (inner t)). bits (inner t) ! i \<and> n = seq (base_psn t) + int i)}"

definition tracker_ok :: "('b \<Rightarrow> bool list) \<Rightarrow> 'b psn_tracker \<Rightarrow> bool" where
  "tracker_ok bits t \<longleftrightarrow> valid_psn (base_psn t) \<and> (\<forall>n \<in> acked bits t. n + 1 < 2 ^ 24)"

definition near :: "'b psn_tracker \<Rightarrow> psn \<Rightarrow> bool" where
  "near t p \<longleftrightarrow> valid_psn p \<and> \<bar>seq p - seq (base_psn t)\<bar> < 2 ^ 23"

lemma rstart_near: "near t p \<Longrightarrow> tracker_ok bits t \<Longrightarrow> rstart t p = seq p - seq (base_psn t)"
  using rstart_value [of p t] by (auto simp: near_def tracker_ok_def)

lemma psn_add_valid: "valid_psn p \<Longrightarrow> seq p + int n < 2 ^ 24 \<Longrightarrow>
  valid_psn (psn_add p (word_of_nat n)) \<and> seq (psn_add p (word_of_nat n)) = seq p + int n"
proof -
  assume a: "valid_psn p" "seq p + int n < 2 ^ 24"
  then have n: "n < 2 ^ 24" using seq_range [of p] by auto
  then have "unat (word_of_nat n :: u32) = n" by (simp add: unat_of_nat)
  then have s: "seq (psn_add p (word_of_nat n)) = seq p + int n"
    unfolding seq_add using a(2) seq_range [of p] by simp
  have "uint (take_bit 24 (into_inner p + word_of_nat n)) < 2 ^ 24"
    using take_bit_int_less_exp [of 24 "uint (into_inner p + word_of_nat n)"] by (simp only: unsigned_take_bit_eq)
  then show ?thesis using s by (simp add: valid_psn_def psn_add_def and_PSN_MASK)
qed

lemma acked_shift:
  assumes "bits v' = drop n (bits (inner t)) @ replicate n False" "n \<le> length (bits (inner t))"
    "seq b = seq (base_psn t) + int n"
  shows "acked bits (t\<lparr> inner := v', base_psn := b \<rparr>) = acked bits t \<union> {m. m < seq b}"
proof (intro set_eqI)
  fix m
  let ?bs = "bits (inner t)"
  have "(\<exists>i < length ?bs. bits v' ! i \<and> m = seq b + int i) \<longleftrightarrow> (\<exists>j < length ?bs. n \<le> j \<and> ?bs ! j \<and> m = seq (base_psn t) + int j)"
  proof
    assume "\<exists>i < length ?bs. bits v' ! i \<and> m = seq b + int i"
    then obtain i where i: "i < length ?bs" "bits v' ! i" "m = seq b + int i" by blast
    then have "i < length ?bs - n" "?bs ! (n + i)" using assms(1,2) by (auto simp: nth_append split: if_splits)
    then show "\<exists>j < length ?bs. n \<le> j \<and> ?bs ! j \<and> m = seq (base_psn t) + int j"
      using i(3) assms(3) by (intro exI [of _ "n + i"]) auto
  next
    assume "\<exists>j < length ?bs. n \<le> j \<and> ?bs ! j \<and> m = seq (base_psn t) + int j"
    then obtain j where j: "j < length ?bs" "n \<le> j" "?bs ! j" "m = seq (base_psn t) + int j" by blast
    then show "\<exists>i < length ?bs. bits v' ! i \<and> m = seq b + int i"
      using assms by (intro exI [of _ "j - n"]) (auto simp: nth_append)
  qed
  moreover have "(\<exists>j < length ?bs. ?bs ! j \<and> m = seq (base_psn t) + int j) \<or> m < seq b \<longleftrightarrow>
      (\<exists>j < length ?bs. n \<le> j \<and> ?bs ! j \<and> m = seq (base_psn t) + int j) \<or> m < seq b"
    using assms(3) by auto
  moreover have "length (bits v') = length ?bs" using assms(1,2) by simp
  ultimately show "m \<in> acked bits (t\<lparr> inner := v', base_psn := b \<rparr>) \<longleftrightarrow> m \<in> acked bits t \<union> {m. m < seq b}"
    using assms(3) by (auto simp: acked_def)
qed

lemma try_advance_spec:
  assumes L: "bitvec_laws B bits" and ok: "tracker_ok bits t"
  obtains t' where "try_advance B t = Some (t', if seq (base_psn t') = seq (base_psn t) then None else Some (base_psn t'))"
    "tracker_ok bits t'" "acked bits t' = acked bits t" "seq (base_psn t) \<le> seq (base_psn t')" "seq (base_psn t') \<notin> acked bits t'"
proof -
  let ?bs = "bits (inner t)" and ?b = "seq (base_psn t)"
  define pos where "pos = (case first_false ?bs of Some i \<Rightarrow> i | None \<Rightarrow> length ?bs)"
  have p: "pos \<le> length ?bs" "\<forall>j < pos. ?bs ! j" "pos < length ?bs \<longrightarrow> \<not> ?bs ! pos"
    using first_false_Some [of ?bs] first_false_None [of ?bs] by (auto simp: pos_def split: option.splits)
  have c: "(case bv_first_zero B (inner t) of Some i \<Rightarrow> i | None \<Rightarrow> bv_len B (inner t)) = pos"
    by (simp add: pos_def bitvec_simps [OF L] split: option.splits)
  show ?thesis
  proof (cases "pos = 0")
    case True
    then have "seq (base_psn t) \<notin> acked bits t" using p by (auto simp: acked_def)
    then show ?thesis using that [of t] True ok by (simp add: try_advance_def c)
  next
    case False
    obtain v' where v': "bv_shift_left B (inner t) pos = Some v'" "bits v' = drop pos ?bs @ replicate pos False"
      using bitvec_shift [OF L p(1)] by blast
    have "pos - 1 < length ?bs" "?bs ! (pos - 1)" using p False by auto
    then have "?b + int (pos - 1) \<in> acked bits t" unfolding acked_def by blast
    then have last: "?b + int pos < 2 ^ 24" using ok False by (fastforce simp: tracker_ok_def)
    define b where "b = psn_add (base_psn t) (word_of_nat pos)"
    have b: "valid_psn b" "seq b = ?b + int pos"
      using psn_add_valid [of "base_psn t" pos] ok last by (auto simp: b_def tracker_ok_def)
    let ?t = "t\<lparr> inner := v', base_psn := b \<rparr>"
    have "try_advance B t = Some (?t, Some b)"
      using False v'(1) by (simp add: try_advance_def c Let_def b_def)
    moreover have len: "length (bits v') = length ?bs" using v'(2) p(1) by simp
    have ak: "acked bits ?t = acked bits t \<union> {m. m < seq b}" by (rule acked_shift [OF v'(2) p(1) b(2)])
    moreover have sub: "{m. m < seq b} \<subseteq> acked bits t"
    proof
      fix m assume "m \<in> {m. m < seq b}"
      then show "m \<in> acked bits t" using p b(2)
        by (cases "m < ?b") (auto simp: acked_def intro!: exI [of _ "nat (m - ?b)"])
    qed
    moreover have "seq b \<notin> acked bits ?t" using p(1,3) v'(2) len by (auto simp: acked_def nth_append)
    moreover have "tracker_ok bits ?t" using ok b(1) ak sub by (auto simp: tracker_ok_def)
    ultimately show ?thesis using that [of ?t] b(2) False by auto
  qed
qed

subsection \<open>Effect of the operations\<close>

lemma for_each_set:
  assumes L: "bitvec_laws B bits" and "\<forall>i \<in> set is. i < length (bits v)"
  obtains v' where "for_each (\<lambda>i v. if c i then bv_set B v i True else Some v) is v = Some v'"
    "length (bits v') = length (bits v)" "\<forall>j < length (bits v). bits v' ! j \<longleftrightarrow> bits v ! j \<or> j \<in> set is \<and> c j"
proof -
  have "\<exists>v'. for_each (\<lambda>i v. if c i then bv_set B v i True else Some v) is v = Some v' \<and>
     length (bits v') = length (bits v) \<and> (\<forall>j < length (bits v). bits v' ! j \<longleftrightarrow> bits v ! j \<or> j \<in> set is \<and> c j)"
    using assms(2)
  proof (induction "is" arbitrary: v)
    case (Cons i "is")
    show ?case
    proof (cases "c i")
      case True
      obtain u where u: "bv_set B v i True = Some u" "bits u = (bits v)[i := True]"
        using bitvec_set [OF L, of i v True] Cons.prems by auto
      then show ?thesis using Cons.IH [of u] Cons.prems True by (auto simp: nth_list_update)
    next
      case False
      then show ?thesis using Cons.IH [of v] Cons.prems by auto
    qed
  qed simp
  then show ?thesis using that by blast
qed

lemma resized:
  fixes n :: nat and v :: 'b
  assumes "bitvec_laws B bits"
  defines "v' \<equiv> (if n > bv_len B v then bv_resize B v n False else v)"
  shows "n \<le> length (bits v')" "length (bits v) \<le> length (bits v')"
    "i < length (bits v') \<Longrightarrow> bits v' ! i \<longleftrightarrow> i < length (bits v) \<and> bits v ! i"
  by (auto simp: v'_def bitvec_simps [OF assms(1)] nth_append)

lemma acked_inner:
  assumes "length (bits (inner t)) \<le> length (bits v)"
    "\<forall>i < length (bits v). bits v ! i \<longleftrightarrow> i < length (bits (inner t)) \<and> bits (inner t) ! i \<or> c i"
    "\<forall>i. c i \<longrightarrow> i < length (bits v)"
  shows "acked bits (t\<lparr> inner := v \<rparr>) = acked bits t \<union> {seq (base_psn t) + int i | i. c i}"
  using assms unfolding acked_def by fastforce

lemma ack_one_spec:
  assumes L: "bitvec_laws B bits" and ok: "tracker_ok bits t" and p: "near t p" "seq p + 1 < 2 ^ 24"
  obtains t' r where "ack_one B t p = Some (t', r)" "tracker_ok bits t'" "acked bits t' = acked bits t \<union> {seq p}"
    "seq (base_psn t) \<le> seq (base_psn t')" "r = (if seq (base_psn t') = seq (base_psn t) then None else Some (base_psn t'))"
    "seq (base_psn t) \<notin> acked bits t \<longrightarrow> seq (base_psn t') \<notin> acked bits t'"
    "if seq p < seq (base_psn t) then t' = t else seq (base_psn t') \<notin> acked bits t'"
proof (cases "seq p < seq (base_psn t)")
  case True
  then show ?thesis using that [of t None] ok rstart_near [OF p(1) ok] by (auto simp: ack_one_def acked_def)
next
  case False
  define k where "k = nat (seq p - seq (base_psn t))"
  have k: "rstart t p = int k" "seq p = seq (base_psn t) + int k" using rstart_near [OF p(1) ok] False by (auto simp: k_def)
  define v where "v = (if k + 1 > bv_len B (inner t) then bv_resize B (inner t) (k + 1) False else inner t)"
  note v = resized [OF L, where n = "k + 1" and v = "inner t", folded v_def]
  obtain u where u: "bv_set B v k True = Some u" "bits u = (bits v)[k := True]" using bitvec_set [OF L, of k v True] v(1) by auto
  let ?t = "t\<lparr> inner := u \<rparr>"
  have a: "acked bits ?t = acked bits t \<union> {seq p}"
    using acked_inner [of bits t u "\<lambda>i. i = k"] v u(2) k(2) by (auto simp: nth_list_update)
  have ok': "tracker_ok bits ?t" using ok p(2) a by (auto simp: tracker_ok_def)
  obtain t' where t': "try_advance B ?t = Some (t', if seq (base_psn t') = seq (base_psn ?t) then None else Some (base_psn t'))"
    "tracker_ok bits t'" "acked bits t' = acked bits ?t" "seq (base_psn ?t) \<le> seq (base_psn t')"
    "seq (base_psn t') \<notin> acked bits t'"
    using try_advance_spec [OF L ok'] by blast
  have "(if k \<ge> bv_len B (inner t) then bv_resize B (inner t) (k + 1) False else inner t) = v" by (simp add: v_def less_Suc_eq_le)
  then have "ack_one B t p = try_advance B ?t" using k(1) u(1) by (auto simp: ack_one_def split: if_splits)
  then show ?thesis using that t' a False by simp
qed

lemma ack_before_spec:
  assumes L: "bitvec_laws B bits" and ok: "tracker_ok bits t" and p: "near t p"
  obtains t' r where "ack_before B t p = Some (t', r)" "tracker_ok bits t'" "acked bits t' = acked bits t \<union> {n. n < seq p}"
    "base_psn t' = (if seq p < seq (base_psn t) then base_psn t else p)"
    "r = (if seq p < seq (base_psn t) then None else Some p)"
proof (cases "seq p < seq (base_psn t)")
  case True
  then have "acked bits t = acked bits t \<union> {n. n < seq p}" by (auto simp: acked_def)
  then show ?thesis using that [of t None] ok rstart_near [OF p ok] True by (simp add: ack_before_def)
next
  case False
  define k where "k = nat (seq p - seq (base_psn t))"
  have k: "rstart t p = int k" "seq p = seq (base_psn t) + int k" using rstart_near [OF p ok] False by (auto simp: k_def)
  have bound: "n + 1 < 2 ^ 24" if "n < seq p" for n using that seq_range [of p] by linarith
  have valid: "valid_psn p" using p by (simp add: near_def)
  show ?thesis
  proof (cases "k \<ge> length (bits (inner t))")
    case True
    let ?t = "t\<lparr> base_psn := p, inner := bv_fill B (inner t) False \<rparr>"
    have a: "acked bits ?t = acked bits t \<union> {n. n < seq p}" using True k(2) by (auto simp: acked_def bitvec_simps [OF L])
    moreover have "acked bits t \<subseteq> {n. n < seq p}" using True k(2) by (auto simp: acked_def)
    ultimately have "tracker_ok bits ?t" using valid bound by (auto simp: tracker_ok_def)
    then show ?thesis using that [of ?t "Some p"] a False True k(1) by (simp add: ack_before_def bitvec_simps [OF L])
  next
    case F: False
    obtain v where v: "bv_shift_left B (inner t) k = Some v" "bits v = drop k (bits (inner t)) @ replicate k False"
      using bitvec_shift [OF L, of k "inner t"] F by auto
    have a: "acked bits (t\<lparr> inner := v, base_psn := p \<rparr>) = acked bits t \<union> {n. n < seq p}"
      by (rule acked_shift [OF v(2) _ k(2)]) (use F in simp)
    moreover have "tracker_ok bits (t\<lparr> inner := v, base_psn := p \<rparr>)" using a ok valid bound by (auto simp: tracker_ok_def)
    ultimately show ?thesis using that [of "t\<lparr> inner := v, base_psn := p \<rparr>" "Some p"] False F k(1) v(1)
      by (simp add: ack_before_def bitvec_simps [OF L])
  qed
qed

lemma ack_range_spec:
  assumes L: "bitvec_laws B bits" and ok: "tracker_ok bits t" and p: "near t lo" "near t hi" "seq hi + 1 < 2 ^ 24"
  obtains t' r where "ack_range B t lo hi = Some (t', r)" "tracker_ok bits t'"
    "acked bits t' = acked bits t \<union> (if seq lo \<le> seq (base_psn t) then {n. n < seq hi} else {seq lo ..< seq hi})"
    "base_psn t' = (if seq lo \<le> seq (base_psn t) \<and> seq (base_psn t) \<le> seq hi then hi else base_psn t)"
    "r = (if seq lo \<le> seq (base_psn t) \<and> seq (base_psn t) \<le> seq hi then Some hi else None)"
proof (cases "seq lo \<le> seq (base_psn t)")
  case True
  then have "lo \<le> base_psn t" using near_less(2) p(1) by (simp add: near_def)
  moreover obtain t' r where "ack_before B t hi = Some (t', r)" "tracker_ok bits t'" "acked bits t' = acked bits t \<union> {n. n < seq hi}"
    "base_psn t' = (if seq hi < seq (base_psn t) then base_psn t else hi)" "r = (if seq hi < seq (base_psn t) then None else Some hi)"
    using ack_before_spec [OF L ok p(2)] by blast
  ultimately show ?thesis using that [of t' r] True by (auto simp: ack_range_def split: if_splits)
next
  case False
  then have lo: "\<not> lo \<le> base_psn t" using near_less(2) p(1) by (simp add: near_def)
  show ?thesis
  proof (cases "seq hi < seq (base_psn t)")
    case True
    then show ?thesis using that [of t None] False lo ok rstart_near [OF p(1) ok] rstart_near [OF p(2) ok]
      by (auto simp: ack_range_def)
  next
    case F: False
    define j k where "j = nat (seq lo - seq (base_psn t))" and "k = nat (seq hi - seq (base_psn t))"
    have jk: "rstart t lo = int j" "seq lo = seq (base_psn t) + int j" "rstart t hi = int k" "seq hi = seq (base_psn t) + int k"
      using rstart_near [OF p(1) ok] rstart_near [OF p(2) ok] False F by (auto simp: j_def k_def)
    define v where "v = (if k + 1 > bv_len B (inner t) then bv_resize B (inner t) (k + 1) False else inner t)"
    note v = resized [OF L, where n = "k + 1" and v = "inner t", folded v_def]
    obtain u where u: "for_each (\<lambda>i v. if True then bv_set B v i True else Some v) [j ..< k] v = Some u"
      "length (bits u) = length (bits v)" "\<forall>i < length (bits v). bits u ! i \<longleftrightarrow> bits v ! i \<or> i \<in> set [j ..< k] \<and> True"
      by (rule for_each_set [OF L, of "[j ..< k]" v "\<lambda>_. True"]) (use v(1) in auto)
    have "(if k \<ge> bv_len B (inner t) then bv_resize B (inner t) (k + 1) False else inner t) = v" by (simp add: v_def less_Suc_eq_le)
    then have e: "ack_range B t lo hi = Some (t\<lparr> inner := u \<rparr>, None)" using lo jk(1,3) u(1) by (auto simp: ack_range_def split: if_splits)
    have "acked bits (t\<lparr> inner := u \<rparr>) = acked bits t \<union> {seq (base_psn t) + int i | i. j \<le> i \<and> i < k}"
      using acked_inner [of bits t u "\<lambda>i. j \<le> i \<and> i < k"] u(2,3) v by auto
    also have "{seq (base_psn t) + int i | i. j \<le> i \<and> i < k} = {seq lo ..< seq hi}"
      unfolding jk(2,4) by (auto intro!: exI [of _ "nat (_ - seq (base_psn t))"])
    finally have a: "acked bits (t\<lparr> inner := u \<rparr>) = acked bits t \<union> {seq lo ..< seq hi}" .
    have "tracker_ok bits (t\<lparr> inner := u \<rparr>)" using ok p(3) a by (auto simp: tracker_ok_def)
    then show ?thesis using that [of "t\<lparr> inner := u \<rparr>" None] e a False by simp
  qed
qed

lemma ack_bitmap_spec:
  assumes L: "bitvec_laws B bits" and ok: "tracker_ok bits t" and p: "near t p" "seq p + 128 < 2 ^ 24"
  obtains t' r where "ack_bitmap B t p bm = Some (t', r)" "tracker_ok bits t'"
    "acked bits t' = acked bits t \<union> {seq p + int i | i. i < 128 \<and> bit bm i}"
    "seq (base_psn t) \<le> seq (base_psn t')" "r = (if seq (base_psn t') = seq (base_psn t) then None else Some (base_psn t'))"
    "seq (base_psn t') \<notin> acked bits t'"
proof -
  let ?b = "seq (base_psn t)"
  define rs where "rs = seq p - ?b"
  have rs: "rstart t p = rs" using rstart_near [OF p(1) ok] by (simp add: rs_def)
  let ?n = "nat (rs + 128)"
  define v where "v = (if ?n > bv_len B (inner t) then bv_resize B (inner t) ?n False else inner t)"
  note v = resized [OF L, where n = ?n and v = "inner t", folded v_def]
  have ve: "(if 0 \<le> rs + 128 \<and> ?n > bv_len B (inner t) then bv_resize B (inner t) ?n False else inner t) = v" by (auto simp: v_def)
  let ?c = "\<lambda>i. drop_bit (nat (int i - rs)) bm AND 1 = 1"
  obtain u where u: "for_each (\<lambda>i v. if ?c i then bv_set B v i True else Some v) [nat (max rs 0) ..< ?n] v = Some u"
    "length (bits u) = length (bits v)" "\<forall>i < length (bits v). bits u ! i \<longleftrightarrow> bits v ! i \<or> i \<in> set [nat (max rs 0) ..< ?n] \<and> ?c i"
    by (rule for_each_set [OF L, of "[nat (max rs 0) ..< ?n]" v ?c]) (use v(1) in auto)
  let ?t = "t\<lparr> inner := u \<rparr>"
  have e: "ack_bitmap B t p bm = try_advance B ?t" using u(1) unfolding ack_bitmap_def Let_def rs ve by simp
  have c: "?c i \<longleftrightarrow> bit bm (nat (int i - rs))" for i
    by (simp add: and_one_eq odd_iff_mod_2_eq_one [symmetric] bit_iff_odd_drop_bit)
  have "acked bits ?t = acked bits t \<union> {?b + int i | i. nat (max rs 0) \<le> i \<and> i < ?n \<and> ?c i}"
    using acked_inner [of bits t u "\<lambda>i. nat (max rs 0) \<le> i \<and> i < ?n \<and> ?c i"] u(2,3) v by auto
  also have "\<dots> = acked bits t \<union> {seq p + int i | i. i < 128 \<and> bit bm i}"
  proof (intro equalityI subsetI)
    fix n assume "n \<in> acked bits t \<union> {?b + int i | i. nat (max rs 0) \<le> i \<and> i < ?n \<and> ?c i}"
    then show "n \<in> acked bits t \<union> {seq p + int i | i. i < 128 \<and> bit bm i}"
      unfolding c by (auto simp: rs_def algebra_simps intro!: exI [of _ "nat (n - seq p)"])
  next
    fix n assume n: "n \<in> acked bits t \<union> {seq p + int i | i. i < 128 \<and> bit bm i}"
    show "n \<in> acked bits t \<union> {?b + int i | i. nat (max rs 0) \<le> i \<and> i < ?n \<and> ?c i}"
    proof (cases "n < ?b")
      case True
      then show ?thesis by (simp add: acked_def)
    next
      case False
      then show ?thesis using n unfolding c by (auto simp: rs_def algebra_simps intro!: exI [of _ "nat (n - ?b)"])
    qed
  qed
  finally have a: "acked bits ?t = acked bits t \<union> {seq p + int i | i. i < 128 \<and> bit bm i}" .
  have ok': "tracker_ok bits ?t" using ok p(2) a by (auto simp: tracker_ok_def)
  obtain t' where t': "try_advance B ?t = Some (t', if seq (base_psn t') = seq (base_psn ?t) then None else Some (base_psn t'))"
    "tracker_ok bits t'" "acked bits t' = acked bits ?t" "seq (base_psn ?t) \<le> seq (base_psn t')"
    "seq (base_psn t') \<notin> acked bits t'"
    using try_advance_spec [OF L ok'] by blast
  then show ?thesis using that e a by simp
qed

subsection \<open>Histories\<close>

datatype ack_op = Ack_one psn | Ack_before psn | Ack_range psn psn | Ack_bitmap psn "128 word"

fun ack_step :: "('b, 'z) bitvec_ops_scheme \<Rightarrow> 'b psn_tracker \<Rightarrow> ack_op \<Rightarrow> ('b psn_tracker \<times> psn option) option" where
  "ack_step B t (Ack_one p) = ack_one B t p"
| "ack_step B t (Ack_before p) = ack_before B t p"
| "ack_step B t (Ack_range lo hi) = ack_range B t lo hi"
| "ack_step B t (Ack_bitmap p bm) = ack_bitmap B t p bm"

text \<open>What an acknowledgement says was received, and that its numbers are less than half a turn from the base and do not
  reach the end of the turn.\<close>

fun claims :: "'b psn_tracker \<Rightarrow> ack_op \<Rightarrow> int set" where
  "claims t (Ack_one p) = {seq p}"
| "claims t (Ack_before p) = {n. n < seq p}"
| "claims t (Ack_range lo hi) = (if seq lo \<le> seq (base_psn t) then {n. n < seq hi} else {seq lo ..< seq hi})"
| "claims t (Ack_bitmap p bm) = {seq p + int i | i. i < 128 \<and> bit bm i}"

fun in_turn :: "'b psn_tracker \<Rightarrow> ack_op \<Rightarrow> bool" where
  "in_turn t (Ack_one p) \<longleftrightarrow> near t p \<and> seq p + 1 < 2 ^ 24"
| "in_turn t (Ack_before p) \<longleftrightarrow> near t p"
| "in_turn t (Ack_range lo hi) \<longleftrightarrow> near t lo \<and> near t hi \<and> seq hi + 1 < 2 ^ 24"
| "in_turn t (Ack_bitmap p bm) \<longleftrightarrow> near t p \<and> seq p + 128 < 2 ^ 24"

text \<open>
  Where an operation leaves the base and what it reports, for the set \<open>A\<close> of the numbers known to be received after it.
  Acknowledging one number at or above the base, or a bitmap, moves the base to the first number missing and
  reports it if it moved. Acknowledging everything before a number moves the base to that number and no further, and
  reports it even where it was the base already; a range does the same when it starts at or below the base, and
  never moves the base otherwise.
\<close>

fun settles :: "int set \<Rightarrow> psn \<Rightarrow> ack_op \<Rightarrow> psn \<Rightarrow> psn option \<Rightarrow> bool" where
  "settles A b (Ack_one p) b' r \<longleftrightarrow>
     (if seq p < seq b then b' = b else seq b' \<notin> A) \<and> r = (if seq b' = seq b then None else Some b')"
| "settles A b (Ack_before p) b' r \<longleftrightarrow> (if seq p < seq b then b' = b \<and> r = None else b' = p \<and> r = Some p)"
| "settles A b (Ack_range lo hi) b' r \<longleftrightarrow>
     (if seq lo \<le> seq b \<and> seq b \<le> seq hi then b' = hi \<and> r = Some hi else b' = b \<and> r = None)"
| "settles A b (Ack_bitmap p bm) b' r \<longleftrightarrow> seq b' \<notin> A \<and> r = (if seq b' = seq b then None else Some b')"

inductive tracker_run :: "('b, 'z) bitvec_ops_scheme \<Rightarrow> 'b psn_tracker \<Rightarrow> int set \<Rightarrow> 'b psn_tracker \<Rightarrow> bool" for B t0 where
  start: "tracker_run B t0 {} t0"
| step: "tracker_run B t0 S t \<Longrightarrow> in_turn t op \<Longrightarrow> ack_step B t op = Some (t', r) \<Longrightarrow> tracker_run B t0 (S \<union> claims t op) t'"

lemma ack_step_spec:
  assumes "bitvec_laws B bits" "tracker_ok bits t" "in_turn t op"
  shows "\<exists>t' r. ack_step B t op = Some (t', r) \<and> tracker_ok bits t' \<and> acked bits t' = acked bits t \<union> claims t op \<and>
           settles (acked bits t') (base_psn t) op (base_psn t') r"
proof (cases op)
  case (Ack_one p)
  then have "near t p" "seq p + 1 < 2 ^ 24" using assms(3) by auto
  then show ?thesis by (rule ack_one_spec [OF assms(1,2), of p]) (auto simp: Ack_one split: if_splits)
next
  case (Ack_before p)
  then have "near t p" using assms(3) by auto
  then show ?thesis by (rule ack_before_spec [OF assms(1,2), of p]) (simp add: Ack_before)
next
  case (Ack_range lo hi)
  then have "near t lo" "near t hi" "seq hi + 1 < 2 ^ 24" using assms(3) by auto
  then show ?thesis by (rule ack_range_spec [OF assms(1,2), of lo hi]) (simp add: Ack_range)
next
  case (Ack_bitmap p bm)
  then have "near t p" "seq p + 128 < 2 ^ 24" using assms(3) by auto
  then show ?thesis by (rule ack_bitmap_spec [OF assms(1,2), of p bm]) (simp add: Ack_bitmap)
qed

lemma run_acked:
  assumes "tracker_run B t0 S t" "bitvec_laws B bits" "tracker_ok bits t0"
  shows "tracker_ok bits t \<and> acked bits t = acked bits t0 \<union> S"
  using assms
proof (induction rule: tracker_run.induct)
  case (step S t op t' r)
  then show ?case using ack_step_spec [of B bits t op] by (auto simp: Un_assoc)
qed simp

definition new_tracker :: "('b, 'z) bitvec_ops_scheme \<Rightarrow> psn \<Rightarrow> 'b psn_tracker" where
  "new_tracker B b = \<lparr> base_psn = b, inner = bv_new B \<rparr>"

subsection \<open>Properties\<close>



text \<open>
  After the wrap around acknowledgements are lost. When a PSN is ahead of the base on the circle but beyond the wrap around,
  so that its number is smaller than the base, acknowledging it alone or acknowledging everything before it changes
  nothing and reports nothing, although the comparison of PSNs says that it is ahead.
\<close>

theorem wrapped_ack_ignored:
  assumes "valid_psn p" "valid_psn (base_psn t)" "seq p < seq (base_psn t)" "2 ^ 23 < seq (base_psn t) - seq p"
  shows "base_psn t < p \<and> ack_one B t p = Some (t, None) \<and> ack_before B t p = Some (t, None)"
proof -
  have "(seq (base_psn t) - seq p) mod 2 ^ 24 = seq (base_psn t) - seq p"
    using assms seq_range [of p] seq_range [of "base_psn t"] by (intro mod_pos_pos_trivial) auto
  then have "base_psn t < p" using assms(3,4) by (simp add: less_psn_def psn_cmp_seq)
  moreover have "rstart t p < 0" using rstart_value [OF assms(1,2)] assms(3) by simp
  ultimately show ?thesis by (simp add: ack_one_def ack_before_def)
qed

end
