(* ===== verification/Fragmenter.thy ===== *)
theory Fragmenter
  imports RdmaPsn
begin

text \<open>
  How the Rust driver cuts a work request into chunks for the card and into packets for retransmission
  (\<^verbatim>\<open>rdma_utils/fragmenter.rs\<close>, the chunk types of \<^verbatim>\<open>workers/send/types.rs\<close>), and how many PSNs it reserves for it
  (\<^verbatim>\<open>rdma_utils/qp.rs\<close>). Addresses are 64-bit words; additions wrap as in a release build.
\<close>

subsection \<open>Work requests and chunks\<close>

datatype WorkReqOpCode = RdmaWrite | RdmaWriteWithImm | Send | SendWithImm | RdmaRead | AtomicCmpAndSwp | AtomicFetchAndAdd
  | LocalInv | BindMw | SendWithInv | Tso | Driver1 | RdmaReadResp | RdmaAck | Flush | AtomicWrite

datatype ChunkPos = First | Middle | Last | Only

record SendWrBase =
  wb_wr_id :: u64
  wb_send_flags :: u32
  wb_laddr :: u64
  wb_length :: u32
  wb_lkey :: u32
  wb_imm_data :: u32
  wb_opcode :: WorkReqOpCode

record SendWrRdma =
  wr_base :: SendWrBase
  wr_raddr :: u64
  wr_rkey :: u32

record QpParams =
  qp_msn :: u16
  qp_qp_type :: u8
  qp_sqpn :: u32
  qp_mac_addr :: u64
  qp_dqpn :: u32
  qp_dqp_ip :: u32
  qp_pmtu :: u8

record WrChunk =
  ck_opcode :: WorkReqOpCode
  ck_qp_type :: u8
  ck_sqpn :: u32
  ck_mac_addr :: u64
  ck_dqpn :: u32
  ck_dqp_ip :: u32
  ck_pmtu :: u8
  ck_flags :: u8
  ck_raddr :: u64
  ck_rkey :: u32
  ck_total_len :: u32
  ck_lkey :: u32
  ck_imm :: u32
  ck_laddr :: u64
  ck_len :: u32
  ck_is_first :: bool
  ck_is_last :: bool
  ck_msn :: u16
  ck_psn :: psn
  ck_is_retry :: bool
  ck_enable_ecn :: bool

definition default_chunk :: WrChunk where
  "default_chunk = \<lparr> ck_opcode = RdmaWrite, ck_qp_type = 0, ck_sqpn = 0, ck_mac_addr = 0, ck_dqpn = 0, ck_dqp_ip = 0,
     ck_pmtu = 0, ck_flags = 0, ck_raddr = 0, ck_rkey = 0, ck_total_len = 0, ck_lkey = 0, ck_imm = 0, ck_laddr = 0,
     ck_len = 0, ck_is_first = False, ck_is_last = False, ck_msn = 0, ck_psn = Psn 0, ck_is_retry = False, ck_enable_ecn = False \<rparr>"

text \<open>The builder of chunks, one function per step.\<close>

definition new_with_opcode :: "WorkReqOpCode \<Rightarrow> WrChunk" where
  "new_with_opcode opcode = default_chunk\<lparr> ck_opcode := opcode \<rparr>"

definition set_qp_params :: "WrChunk \<Rightarrow> QpParams \<Rightarrow> WrChunk" where
  "set_qp_params c q = c\<lparr> ck_qp_type := qp_qp_type q, ck_sqpn := qp_sqpn q, ck_mac_addr := qp_mac_addr q, ck_dqpn := qp_dqpn q,
     ck_dqp_ip := qp_dqp_ip q, ck_pmtu := qp_pmtu q, ck_msn := qp_msn q \<rparr>"

definition set_ibv_params :: "WrChunk \<Rightarrow> u8 \<Rightarrow> u32 \<Rightarrow> u32 \<Rightarrow> u32 \<Rightarrow> u32 \<Rightarrow> WrChunk" where
  "set_ibv_params c flags rkey total_len lkey imm =
     c\<lparr> ck_flags := flags, ck_rkey := rkey, ck_total_len := total_len, ck_lkey := lkey, ck_imm := imm \<rparr>"

definition set_chunk_meta :: "WrChunk \<Rightarrow> psn \<Rightarrow> u64 \<Rightarrow> u64 \<Rightarrow> u32 \<Rightarrow> ChunkPos \<Rightarrow> WrChunk" where
  "set_chunk_meta c psn laddr raddr len pos = (
     let c = c\<lparr> ck_psn := psn, ck_laddr := laddr, ck_raddr := raddr, ck_len := len \<rparr> in
     case pos of
       First \<Rightarrow> c\<lparr> ck_is_first := True \<rparr>
     | Last \<Rightarrow> c\<lparr> ck_is_last := True \<rparr>
     | Middle \<Rightarrow> c
     | Only \<Rightarrow> c\<lparr> ck_is_first := True, ck_is_last := True \<rparr>)"

definition set_is_retry :: "WrChunk \<Rightarrow> WrChunk" where
  "set_is_retry c = c\<lparr> ck_is_retry := True \<rparr>"

subsection \<open>Fragments of an address range\<close>

definition div_ceil :: "u64 \<Rightarrow> u64 \<Rightarrow> u64" where
  "div_ceil x y = (if x mod y = 0 then x div y else x div y + 1)"

record fragmenter =
  fr_segment_size :: u64
  fr_align :: u64
  fr_base_addr :: u64
  fr_end_addr :: u64

definition fragmenter_new :: "u64 \<Rightarrow> u64 \<Rightarrow> u64 \<Rightarrow> u64 \<Rightarrow> fragmenter" where
  "fragmenter_new segment_size align base_addr len =
     \<lparr> fr_segment_size = segment_size, fr_align = align, fr_base_addr = base_addr, fr_end_addr = base_addr + len \<rparr>"

definition num_segments :: "fragmenter \<Rightarrow> nat" where
  "num_segments self = (
     if fr_base_addr self \<ge> fr_end_addr self then 0
     else
       let first_aligned = (fr_base_addr self + fr_segment_size self) AND NOT (fr_align self - 1);
           remaining_after_first = (if fr_end_addr self \<ge> first_aligned then fr_end_addr self - first_aligned else 0)
       in unat (div_ceil remaining_after_first (fr_segment_size self)) + 1)"

record fragment =
  fg_addr :: u64
  fg_len :: u64
  fg_pos :: ChunkPos

record frag_iter =
  fi_segment_size :: u64
  fi_align :: u64
  fi_current_addr :: u64
  fi_current_pos :: ChunkPos
  fi_end_addr :: u64
  fi_total_segments :: nat
  fi_count :: nat

definition frag_into_iter :: "fragmenter \<Rightarrow> frag_iter" where
  "frag_into_iter self = \<lparr> fi_segment_size = fr_segment_size self, fi_align = fr_align self, fi_current_addr = fr_base_addr self,
     fi_current_pos = (if num_segments self = 1 then Only else First), fi_end_addr = fr_end_addr self,
     fi_total_segments = num_segments self, fi_count = num_segments self \<rparr>"

definition next_pos :: "bool \<Rightarrow> ChunkPos \<Rightarrow> ChunkPos" where
  "next_pos last_left pos = (case pos of
     Only \<Rightarrow> Only
   | Last \<Rightarrow> Last
   | First \<Rightarrow> if last_left then Last else Middle
   | Middle \<Rightarrow> if last_left then Last else Middle)"

definition frag_next :: "frag_iter \<Rightarrow> (fragment \<times> frag_iter) option" where
  "frag_next self = (
     if fi_count self = 0 then None
     else
       let ende = min ((fi_current_addr self + fi_segment_size self) AND NOT (fi_align self - 1)) (fi_end_addr self);
           len = ende - fi_current_addr self;
           count = fi_count self - 1
       in Some (\<lparr> fg_addr = fi_current_addr self, fg_len = len, fg_pos = fi_current_pos self \<rparr>,
                self\<lparr> fi_current_addr := fi_current_addr self + len, fi_count := count,
                      fi_current_pos := next_pos (count = 1) (fi_current_pos self) \<rparr>))"

function fragments :: "frag_iter \<Rightarrow> fragment list" where
  "fragments it = (case frag_next it of None \<Rightarrow> [] | Some (f, it') \<Rightarrow> f # fragments it')"
  by pat_completeness auto

termination
  by (relation "measure fi_count") (auto simp: frag_next_def Let_def split: if_splits)

declare fragments.simps [simp del]

subsection \<open>Chunks and packets of a work request\<close>

definition convert_ibv_mtu_to_u16 :: "u8 \<Rightarrow> u16 option" where
  "convert_ibv_mtu_to_u16 ibv_mtu = (
     if ibv_mtu = 1 then Some 256 else if ibv_mtu = 2 then Some 512 else if ibv_mtu = 3 then Some 1024
     else if ibv_mtu = 4 then Some 2048 else if ibv_mtu = 5 then Some 4096 else None)"

record chunk_iter =
  ci_inner :: frag_iter
  ci_psn :: psn
  ci_builder :: WrChunk
  ci_laddr :: u64
  ci_pmtu :: u64
  ci_is_retry :: bool

definition chunk_next :: "chunk_iter \<Rightarrow> (WrChunk \<times> chunk_iter) option" where
  "chunk_next self = (case frag_next (ci_inner self) of
     None \<Rightarrow> None
   | Some (f, inner) \<Rightarrow>
       let builder = set_chunk_meta (ci_builder self) (ci_psn self) (ci_laddr self) (fg_addr f) (ucast (fg_len f)) (fg_pos f);
           chunk = (if ci_is_retry self then set_is_retry builder else builder);
           num_packets = ucast (div_ceil (fg_len f) (ci_pmtu self))
       in Some (chunk, self\<lparr> ci_inner := inner, ci_psn := psn_add (ci_psn self) num_packets, ci_laddr := ci_laddr self + fg_len f \<rparr>))"

function chunks :: "chunk_iter \<Rightarrow> WrChunk list" where
  "chunks it = (case chunk_next it of None \<Rightarrow> [] | Some (c, it') \<Rightarrow> c # chunks it')"
  by pat_completeness auto

termination
  by (relation "measure (fi_count \<circ> ci_inner)")
    (auto simp: chunk_next_def frag_next_def Let_def split: if_splits option.splits)

declare chunks.simps [simp del]

text \<open>\<open>None\<close> is the panic on a path MTU that is not one of the five of the verbs API.\<close>

definition chunk_fragmenter :: "SendWrRdma \<Rightarrow> QpParams \<Rightarrow> psn \<Rightarrow> u64 \<Rightarrow> bool \<Rightarrow> chunk_iter option" where
  "chunk_fragmenter wr qp base_psn chunk_size is_retry = (
     let b = wr_base wr;
         builder = set_ibv_params (set_qp_params (new_with_opcode (wb_opcode b)) qp)
                     (ucast (wb_send_flags b)) (wr_rkey wr) (wb_length b) (wb_lkey b) (wb_imm_data b)
     in do {
       pmtu \<leftarrow> convert_ibv_mtu_to_u16 (qp_pmtu qp);
       Some \<lparr> ci_inner = frag_into_iter (fragmenter_new chunk_size (ucast pmtu) (wr_raddr wr) (ucast (wb_length b))),
              ci_psn = base_psn, ci_builder = builder, ci_laddr = wb_laddr b, ci_pmtu = ucast pmtu, ci_is_retry = is_retry \<rparr> })"

definition WR_CHUNK_SIZE :: u32 where "WR_CHUNK_SIZE = 0x10000"

definition wr_chunks :: "SendWrRdma \<Rightarrow> QpParams \<Rightarrow> psn \<Rightarrow> WrChunk list option" where
  "wr_chunks wr qp base_psn = map_option chunks (chunk_fragmenter wr qp base_psn (ucast WR_CHUNK_SIZE) False)"

definition wr_packets :: "SendWrRdma \<Rightarrow> QpParams \<Rightarrow> psn \<Rightarrow> WrChunk list option" where
  "wr_packets wr qp base_psn = do {
     pmtu \<leftarrow> convert_ibv_mtu_to_u16 (qp_pmtu qp);
     map_option chunks (chunk_fragmenter wr qp base_psn (ucast pmtu) True) }"

definition num_psn :: "u8 \<Rightarrow> u64 \<Rightarrow> u32 \<Rightarrow> u32 option" where
  "num_psn mtu addr len = do {
     pmtu \<leftarrow> convert_ibv_mtu_to_u16 mtu;
     let pmtu_mask = (ucast (pmtu - 1) :: u64);
     let sum = (if unat addr + unat pmtu_mask < 2 ^ 64 then addr + pmtu_mask else - 1);
     let next_align_addr = sum AND NOT pmtu_mask;
     let gap = (if next_align_addr \<ge> addr then next_align_addr - addr else 0);
     let length_u64 = ucast len;
     let n = div_ceil (if length_u64 \<ge> gap then length_u64 - gap else length_u64) (ucast pmtu);
     (if unat n < 2 ^ 32 then Some (ucast n) else None) }"

subsection \<open>Closed form of the fragments\<close>

definition ceil_div :: "nat \<Rightarrow> nat \<Rightarrow> nat" where
  "ceil_div x y = (x + y - 1) div y"

lemma ceil_div_bounds: "0 < y \<Longrightarrow> x \<le> ceil_div x y * y" "0 < x \<Longrightarrow> 0 < y \<Longrightarrow> (ceil_div x y - 1) * y < x"
proof -
  assume y: "0 < y"
  have e: "(x + y - 1) div y * y + (x + y - 1) mod y = x + y - 1" by simp
  have m: "(x + y - 1) mod y < y" using y by simp
  show "x \<le> ceil_div x y * y" unfolding ceil_div_def using e m by linarith
  assume "0 < x"
  then have "ceil_div x y \<noteq> 0" using y by (auto simp: ceil_div_def div_eq_0_iff)
  then have "(ceil_div x y - 1) * y + y = ceil_div x y * y" by (metis Suc_diff_1 Suc_pred add.commute mult_Suc neq0_conv One_nat_def)
  then show "(ceil_div x y - 1) * y < x" unfolding ceil_div_def using e m \<open>0 < x\<close> by linarith
qed

lemma ceil_div_unique: "0 < y \<Longrightarrow> x \<le> n * y \<Longrightarrow> n * y < x + y \<Longrightarrow> ceil_div x y = n"
proof -
  assume a: "0 < y" "x \<le> n * y" "n * y < x + y"
  then have "x + y - 1 = n * y + (x + y - 1 - n * y)" "x + y - 1 - n * y < y" by linarith+
  then show ?thesis unfolding ceil_div_def using a(1) by (metis add.commute div_less div_mult_self3 add_0 neq0_conv)
qed

lemma unat_div_ceil: "0 < unat y \<Longrightarrow> unat (div_ceil x y) = ceil_div (unat x) (unat y)"
proof -
  assume y: "0 < unat y"
  have e: "unat x div unat y * unat y + unat x mod unat y = unat x" by simp
  have m: "unat x mod unat y < unat y" using y by simp
  show ?thesis
  proof (cases "x mod y = 0")
    case True
    then have "unat x mod unat y = 0" by (metis unat_mod unat_0)
    then have "ceil_div (unat x) (unat y) = unat x div unat y" using e y by (intro ceil_div_unique) linarith+
    then show ?thesis using True by (simp add: div_ceil_def unat_div)
  next
    case False
    then have r: "0 < unat x mod unat y" by (metis unat_mod unat_gt_0)
    have "unat x div unat y + 1 \<le> unat x"
    proof (cases "unat y = 1")
      case True
      then show ?thesis using r by simp
    next
      case F: False
      have "unat x div unat y * 2 \<le> unat x div unat y * unat y" using F y by (intro mult_le_mono) auto
      then show ?thesis using e r by linarith
    qed
    then have "unat x div unat y + 1 < 2 ^ 64" using unat_below [of x] by linarith
    then have "unat (x div y + 1) = unat x div unat y + 1" using unat_succ [of "x div y"] by (simp add: unat_div)
    moreover have "(unat x div unat y + 1) * unat y = unat x div unat y * unat y + unat y" by simp
    then have "ceil_div (unat x) (unat y) = unat x div unat y + 1" using e m r by (intro ceil_div_unique [OF y]) linarith+
    ultimately show ?thesis using False by (simp add: div_ceil_def)
  qed
qed

text \<open>The cutting points: multiples of the segment size counted from the aligned address at or below the start.\<close>

definition cut_point :: "nat \<Rightarrow> nat \<Rightarrow> nat \<Rightarrow> nat \<Rightarrow> nat" where
  "cut_point k seg a i = a div 2 ^ k * 2 ^ k + i * seg"

definition frag_count :: "nat \<Rightarrow> nat \<Rightarrow> nat \<Rightarrow> nat \<Rightarrow> nat" where
  "frag_count k seg a e = (if e \<le> a then 0 else ceil_div (e - a div 2 ^ k * 2 ^ k) seg)"

definition frag_pos :: "nat \<Rightarrow> nat \<Rightarrow> ChunkPos" where
  "frag_pos n i = (if n = 1 then Only else if i = 0 then First else if n \<le> i + 1 then Last else Middle)"

lemma cut_point_range:
  assumes "0 < seg" "a < e"
  shows "i < frag_count k seg a e \<Longrightarrow> cut_point k seg a i < e" "e \<le> cut_point k seg a (frag_count k seg a e)"
    "0 < frag_count k seg a e"
proof -
  let ?d = "a div 2 ^ k * 2 ^ k" and ?n = "frag_count k seg a e"
  have d: "?d \<le> a" by simp
  have n: "?n = ceil_div (e - ?d) seg" using assms by (simp add: frag_count_def)
  have u: "e - ?d \<le> ?n * seg" unfolding n by (rule ceil_div_bounds(1) [OF assms(1)])
  then show "e \<le> cut_point k seg a ?n" by (simp add: cut_point_def)
  show p: "0 < ?n" using u le_less_trans [OF d assms(2)] by (cases ?n) auto
  have l: "(?n - 1) * seg < e - ?d" unfolding n using le_less_trans [OF d assms(2)] assms(1) by (intro ceil_div_bounds(2)) auto
  assume "i < ?n"
  then have "i * seg \<le> (?n - 1) * seg" by (intro mult_le_mono) auto
  then show "cut_point k seg a i < e" using l d assms(2) unfolding cut_point_def by linarith
qed

lemma cut_point_aligned: "2 ^ k dvd seg \<Longrightarrow> 2 ^ k dvd cut_point k seg a i"
  by (simp add: cut_point_def)

lemma cut_point_above: "2 ^ k dvd seg \<Longrightarrow> 0 < seg \<Longrightarrow> 0 < i \<Longrightarrow> a < cut_point k seg a i"
proof -
  assume a: "2 ^ k dvd seg" "0 < seg" "0 < i"
  have "2 ^ k \<le> seg" using a by (intro dvd_imp_le) auto
  also have "seg \<le> i * seg" using a(3) by simp
  finally have "2 ^ k \<le> i * seg" .
  moreover have "a div 2 ^ k * 2 ^ k + a mod 2 ^ k = a" "a mod 2 ^ k < 2 ^ k" by (rule div_mult_mod_eq, simp)
  ultimately show ?thesis unfolding cut_point_def by linarith
qed

lemma cut_point_step:
  assumes "2 ^ k dvd seg" "0 < seg"
  shows "(max a (cut_point k seg a i) + seg) div 2 ^ k * 2 ^ k = cut_point k seg a (Suc i)"
proof (cases "i = 0")
  case True
  obtain q where q: "seg = 2 ^ k * q" using assms by blast
  have "(a + 2 ^ k * q) div 2 ^ k = a div 2 ^ k + q" by simp
  moreover have "max a (a div 2 ^ k * 2 ^ k) = a" by (simp add: max_absorb1)
  ultimately show ?thesis using True q by (simp add: cut_point_def algebra_simps)
next
  case False
  then have "max a (cut_point k seg a i) = cut_point k seg a i" using cut_point_above [OF assms, of i a] by simp
  moreover have "cut_point k seg a i + seg = cut_point k seg a (Suc i)" by (simp add: cut_point_def)
  ultimately show ?thesis using cut_point_aligned [OF assms(1), of a "Suc i"] by (simp add: dvd_div_mult_self)
qed

text \<open>The iterator before its fragment \<open>i\<close>.\<close>

definition iter_at :: "u64 \<Rightarrow> u64 \<Rightarrow> u64 \<Rightarrow> u64 \<Rightarrow> nat \<Rightarrow> nat \<Rightarrow> nat \<Rightarrow> frag_iter" where
  "iter_at seg align a e n k i = \<lparr> fi_segment_size = seg, fi_align = align,
     fi_current_addr = (if i < n then word_of_nat (max (unat a) (cut_point k (unat seg) (unat a) i)) else e),
     fi_current_pos = frag_pos n i, fi_end_addr = e, fi_total_segments = n, fi_count = n - i \<rparr>"

definition frag_at :: "u64 \<Rightarrow> u64 \<Rightarrow> u64 \<Rightarrow> nat \<Rightarrow> nat \<Rightarrow> nat \<Rightarrow> fragment" where
  "frag_at seg a e n k i = (let lo = max (unat a) (cut_point k (unat seg) (unat a) i);
       hi = min (cut_point k (unat seg) (unat a) (Suc i)) (unat e)
     in \<lparr> fg_addr = word_of_nat lo, fg_len = word_of_nat (hi - lo), fg_pos = frag_pos n i \<rparr>)"

lemma unat_small: "n < 2 ^ 64 \<Longrightarrow> unat (word_of_nat n :: u64) = n"
  by (simp add: unat_of_nat)

lemma word_of_nat_eqI: "unat (w :: u64) = n \<Longrightarrow> w = word_of_nat n"
  by auto

lemma frag_next_at:
  assumes al: "unat align = 2 ^ k" "k < 64" "2 ^ k dvd unat seg" "0 < unat seg"
    and r: "a < e" "unat e + unat seg < 2 ^ 64" and n: "n = frag_count k (unat seg) (unat a) (unat e)" "i < n"
  shows "frag_next (iter_at seg align a e n k i) = Some (frag_at seg a e n k i, iter_at seg align a e n k (Suc i))"
proof -
  let ?c = "cut_point k (unat seg) (unat a)"
  have ae: "unat a < unat e" using r(1) by (simp add: word_less_nat_alt)
  define lo where "lo = max (unat a) (?c i)"
  define hi where "hi = min (?c (Suc i)) (unat e)"
  have lo: "lo < unat e" using cut_point_range(1) [OF al(4) ae, of i k] n ae by (simp add: lo_def)
  have b: "lo < 2 ^ 64" "lo + unat seg < 2 ^ 64" using lo r(2) by linarith+
  have "lo \<le> ?c (Suc i)"
    using cut_point_above [OF al(3,4), of "Suc i" "unat a"] by (simp add: lo_def cut_point_def)
  then have lh: "lo \<le> hi" using lo by (simp add: hi_def)
  have hi: "hi < 2 ^ 64" using unat_below [of e] by (simp add: hi_def)
  have "align = word_of_nat (unat align)" by simp
  then have mask: "align - 1 = mask k" using al(1,2) by (simp add: mask_eq_exp_minus_1)
  have "unat (word_of_nat lo + seg) = lo + unat seg" using b by (simp add: unat_word_ariths unat_small)
  then have down: "unat ((word_of_nat lo + seg) AND NOT (align - 1)) = ?c (Suc i)"
    unfolding mask unat_and_not_mask using cut_point_step [OF al(3,4), of "unat a" i] by (simp add: lo_def)
  have end': "min ((word_of_nat lo + seg) AND NOT (align - 1)) e = word_of_nat hi"
    by (rule word_of_nat_eqI) (simp add: hi_def min_def word_le_nat_alt down)
  have len: "word_of_nat hi - word_of_nat lo = (word_of_nat (hi - lo) :: u64)" using lh by (simp add: of_nat_diff)
  have cur: "word_of_nat lo + word_of_nat (hi - lo) = (word_of_nat hi :: u64)" using lh by (simp add: of_nat_add [symmetric] del: of_nat_add)
  have nxt: "word_of_nat hi = (if Suc i < n then word_of_nat (max (unat a) (?c (Suc i))) else e)"
  proof (cases "Suc i < n")
    case True
    then have "?c (Suc i) < unat e" using cut_point_range(1) [OF al(4) ae, of "Suc i" k] n by simp
    moreover have "unat a < ?c (Suc i)" using cut_point_above [OF al(3,4), of "Suc i" "unat a"] by simp
    ultimately show ?thesis using True by (simp add: hi_def)
  next
    case False
    then have "Suc i = n" using n by simp
    then have "unat e \<le> ?c (Suc i)" using cut_point_range(2) [OF al(4) ae, of k] n(1) by simp
    then have "hi = unat e" by (simp add: hi_def)
    then show ?thesis using False by simp
  qed
  have pos: "next_pos (n - i - 1 = 1) (frag_pos n i) = frag_pos n (Suc i)"
    using n(2) by (auto simp: next_pos_def frag_pos_def split: ChunkPos.splits)
  have f: "frag_at seg a e n k i = \<lparr> fg_addr = word_of_nat lo, fg_len = word_of_nat (hi - lo), fg_pos = frag_pos n i \<rparr>"
    by (simp add: frag_at_def Let_def lo_def [symmetric] hi_def [symmetric])
  have s: "iter_at seg align a e n k (Suc i) = \<lparr> fi_segment_size = seg, fi_align = align, fi_current_addr = word_of_nat hi,
      fi_current_pos = frag_pos n (Suc i), fi_end_addr = e, fi_total_segments = n, fi_count = n - Suc i \<rparr>"
    unfolding iter_at_def nxt ..
  have t: "iter_at seg align a e n k i = \<lparr> fi_segment_size = seg, fi_align = align, fi_current_addr = word_of_nat lo,
      fi_current_pos = frag_pos n i, fi_end_addr = e, fi_total_segments = n, fi_count = n - i \<rparr>"
    using n(2) by (simp add: iter_at_def lo_def)
  show ?thesis unfolding f s t using n(2) pos by (simp add: frag_next_def Let_def end' len cur)
qed

lemma fragments_at:
  assumes al: "unat align = 2 ^ k" "k < 64" "2 ^ k dvd unat seg" "0 < unat seg"
    and r: "a < e" "unat e + unat seg < 2 ^ 64" and n: "n = frag_count k (unat seg) (unat a) (unat e)" "i \<le> n"
  shows "fragments (iter_at seg align a e n k i) = map (frag_at seg a e n k) [i..<n]"
  using n(2)
proof (induction "n - i" arbitrary: i)
  case 0
  then show ?case by (subst fragments.simps) (simp add: frag_next_def iter_at_def)
next
  case (Suc m)
  then have "i < n" by simp
  then show ?case using Suc
    by (subst fragments.simps) (simp add: frag_next_at [OF al r n(1)] upt_conv_Cons)
qed

definition frag_lo :: "nat \<Rightarrow> nat \<Rightarrow> nat \<Rightarrow> nat \<Rightarrow> nat" where
  "frag_lo k seg a i = max a (cut_point k seg a i)"

definition frag_hi :: "nat \<Rightarrow> nat \<Rightarrow> nat \<Rightarrow> nat \<Rightarrow> nat \<Rightarrow> nat" where
  "frag_hi k seg a e i = min (cut_point k seg a (Suc i)) e"

lemma frag_bounds:
  assumes "2 ^ k dvd seg" "0 < seg" "a < e" "i < frag_count k seg a e"
  shows "frag_lo k seg a i < frag_hi k seg a e i" "frag_hi k seg a e i \<le> frag_lo k seg a i + seg"
    "frag_hi k seg a e i = (if Suc i < frag_count k seg a e then frag_lo k seg a (Suc i) else e)"
    "0 < i \<Longrightarrow> 2 ^ k dvd frag_lo k seg a i" "frag_hi k seg a e i \<le> e" "frag_lo k seg a 0 = a"
    "0 < i \<Longrightarrow> frag_lo k seg a i = cut_point k seg a i"
proof -
  let ?c = "cut_point k seg a"
  have s: "?c (Suc i) = ?c i + seg" by (simp add: cut_point_def)
  have up: "a < ?c (Suc i)" using cut_point_above [OF assms(1,2)] by simp
  have ci: "?c i < e" using cut_point_range(1) [OF assms(2,3,4)] .
  show "frag_lo k seg a i < frag_hi k seg a e i" using up ci s assms(2,3) by (simp add: frag_lo_def frag_hi_def)
  show "frag_hi k seg a e i \<le> frag_lo k seg a i + seg" using s by (simp add: frag_lo_def frag_hi_def)
  show "frag_hi k seg a e i = (if Suc i < frag_count k seg a e then frag_lo k seg a (Suc i) else e)"
  proof (cases "Suc i < frag_count k seg a e")
    case True
    then show ?thesis using cut_point_range(1) [OF assms(2,3) True] up by (simp add: frag_lo_def frag_hi_def)
  next
    case False
    then have "Suc i = frag_count k seg a e" using assms(4) by simp
    then show ?thesis using cut_point_range(2) [OF assms(2,3), of k] by (simp add: frag_hi_def)
  qed
  show c: "0 < i \<Longrightarrow> frag_lo k seg a i = ?c i"
    using cut_point_above [OF assms(1,2), of i a] by (simp add: frag_lo_def)
  show "0 < i \<Longrightarrow> 2 ^ k dvd frag_lo k seg a i" using c cut_point_aligned [OF assms(1)] by simp
  show "frag_hi k seg a e i \<le> e" by (simp add: frag_hi_def)
  show "frag_lo k seg a 0 = a" by (simp add: frag_lo_def cut_point_def max_absorb1)
qed

lemma frag_lens:
  assumes "2 ^ k dvd seg" "0 < seg" "a < e" "i \<le> frag_count k seg a e"
  shows "a + (\<Sum>j<i. frag_hi k seg a e j - frag_lo k seg a j) = (if i < frag_count k seg a e then frag_lo k seg a i else e)"
  using assms(4)
proof (induction i)
  case 0
  then show ?case using cut_point_range(3) [OF assms(2,3), of k] frag_bounds(6) [OF assms(1-3), of 0] by simp
next
  case (Suc i)
  then have i: "i < frag_count k seg a e" by simp
  then have "a + (\<Sum>j<i. frag_hi k seg a e j - frag_lo k seg a j) = frag_lo k seg a i" using Suc by simp
  then show ?case using frag_bounds(1,3) [OF assms(1-3) i] by (simp add: add.assoc [symmetric])
qed

lemma frag_count_alt:
  assumes "2 ^ k dvd seg" "0 < seg" "a < e"
  shows "ceil_div (e - cut_point k seg a 1) seg + 1 = frag_count k seg a e"
proof -
  let ?d = "a div 2 ^ k * 2 ^ k"
  have d: "?d \<le> a" by simp
  have n: "frag_count k seg a e = ceil_div (e - ?d) seg" using assms(3) by (simp add: frag_count_def)
  have b: "e - ?d - seg \<le> ceil_div (e - ?d - seg) seg * seg" by (rule ceil_div_bounds(1) [OF assms(2)])
  have "ceil_div (e - ?d - seg) seg * seg < e - ?d"
  proof (cases "0 < e - ?d - seg")
    case True
    have "(ceil_div (e - ?d - seg) seg - 1) * seg < e - ?d - seg" using True by (intro ceil_div_bounds(2) [OF _ assms(2)])
    then show ?thesis by (simp add: algebra_simps)
  next
    case False
    then have "ceil_div (e - ?d - seg) seg = 0" using assms(2) by (simp add: ceil_div_def)
    then show ?thesis using le_less_trans [OF d assms(3)] by simp
  qed
  then have "ceil_div (e - ?d) seg = ceil_div (e - ?d - seg) seg + 1"
    using b by (intro ceil_div_unique [OF assms(2)]) (simp_all add: algebra_simps)
  then show ?thesis unfolding n cut_point_def by simp
qed

lemma align_mask: "unat (align :: u64) = 2 ^ k \<Longrightarrow> k < 64 \<Longrightarrow> align - 1 = mask k"
proof -
  assume a: "unat align = 2 ^ k" "k < 64"
  have "align = word_of_nat (unat align)" by simp
  then show ?thesis using a by (simp add: mask_eq_exp_minus_1)
qed

lemma into_iter_at:
  assumes al: "unat align = 2 ^ k" "k < 64" "2 ^ k dvd unat seg" "0 < unat seg"
    and r: "0 < len" "unat a + unat len + unat seg < 2 ^ 64"
  defines "n \<equiv> frag_count k (unat seg) (unat a) (unat a + unat len)"
  shows "frag_into_iter (fragmenter_new seg align a len) = iter_at seg align a (a + len) n k 0" (is ?I)
    and "num_segments (fragmenter_new seg align a len) = n" (is ?N)
proof -
  have e: "unat (a + len) = unat a + unat len" using r(2) by (simp add: unat_word_ariths)
  have l: "0 < unat len" using r(1) by (simp add: word_less_nat_alt)
  have ae: "unat a < unat a + unat len" using l by simp
  have "unat (a + seg) = unat a + unat seg" using r(2) by (simp add: unat_word_ariths)
  then have c: "unat ((a + seg) AND NOT (align - 1)) = cut_point k (unat seg) (unat a) 1"
    unfolding align_mask [OF al(1,2)] unat_and_not_mask using cut_point_step [OF al(3,4), of "unat a" 0]
    by (simp add: cut_point_def max_absorb1)
  let ?f = "(a + seg) AND NOT (align - 1)"
  have rem: "unat (if ?f \<le> a + len then a + len - ?f else 0) = unat a + unat len - cut_point k (unat seg) (unat a) 1"
    using c e by (simp add: word_le_nat_alt unat_sub)
  have "\<not> a + len \<le> a" using e l by (simp add: word_le_nat_alt)
  then show N: ?N unfolding num_segments_def Let_def fragmenter_new_def fragmenter.simps unat_div_ceil [OF al(4)] rem
    using frag_count_alt [OF al(3,4) ae] by (simp add: n_def)
  have "0 < n" unfolding n_def by (rule cut_point_range(3) [OF al(4) ae])
  moreover have "max (unat a) (cut_point k (unat seg) (unat a) 0) = unat a" by (simp add: cut_point_def max_absorb1)
  ultimately show ?I unfolding frag_into_iter_def N by (simp add: fragmenter_new_def iter_at_def frag_pos_def)
qed

text \<open>All fragments of a range.\<close>

lemma fragments_new:
  assumes "unat align = 2 ^ k" "k < 64" "2 ^ k dvd unat seg" "0 < unat seg"
    and "0 < len" "unat a + unat len + unat seg < 2 ^ 64"
  defines "n \<equiv> frag_count k (unat seg) (unat a) (unat a + unat len)"
  shows "fragments (frag_into_iter (fragmenter_new seg align a len)) = map (frag_at seg a (a + len) n k) [0..<n]"
proof -
  have e: "unat (a + len) = unat a + unat len" using assms(6) by (simp add: unat_word_ariths)
  have l: "0 < unat len" using assms(5) by (simp add: word_less_nat_alt)
  have "a < a + len" using e l by (simp add: word_less_nat_alt)
  then show ?thesis unfolding into_iter_at(1) [OF assms(1-6)] n_def
    using e assms(6) by (intro fragments_at [OF assms(1-4)]) simp_all
qed

lemma frag_at_unat:
  assumes "2 ^ k dvd unat seg" "0 < unat seg" "a < e" "n = frag_count k (unat seg) (unat a) (unat e)" "i < n"
  shows "unat (fg_addr (frag_at seg a e n k i)) = frag_lo k (unat seg) (unat a) i"
    "unat (fg_len (frag_at seg a e n k i)) = frag_hi k (unat seg) (unat a) (unat e) i - frag_lo k (unat seg) (unat a) i"
    "fg_pos (frag_at seg a e n k i) = frag_pos n i"
proof -
  have ae: "unat a < unat e" using assms(3) by (simp add: word_less_nat_alt)
  note b = frag_bounds [OF assms(1,2) ae, of i, folded assms(4)]
  have "frag_lo k (unat seg) (unat a) i < 2 ^ 64" "frag_hi k (unat seg) (unat a) (unat e) i < 2 ^ 64"
    using b(1,5) assms(5) unat_below [of e] by linarith+
  then show "unat (fg_addr (frag_at seg a e n k i)) = frag_lo k (unat seg) (unat a) i"
    "unat (fg_len (frag_at seg a e n k i)) = frag_hi k (unat seg) (unat a) (unat e) i - frag_lo k (unat seg) (unat a) i"
    "fg_pos (frag_at seg a e n k i) = frag_pos n i"
    by (simp_all add: frag_at_def Let_def frag_lo_def [symmetric] frag_hi_def [symmetric] unat_small)
qed

text \<open>C23. The fragments of a range tile it: the first starts at the base address, each starts where the one before it ends, and
  the lengths add up to the length of the range. No fragment is empty or longer than a segment, every one but the first starts
  at an aligned address, there are as many as announced, and the position marks say first, middle, last or only.
\<close>

theorem fragmenter_tiles:
  assumes al: "unat align = 2 ^ k" "k < 64" "2 ^ k dvd unat seg" "0 < unat seg"
    and r: "0 < len" "unat a + unat len + unat seg < 2 ^ 64"
  shows "let fs = fragments (frag_into_iter (fragmenter_new seg align a len)) in
     length fs = num_segments (fragmenter_new seg align a len) \<and> fg_addr (fs ! 0) = a \<and>
     (\<Sum>f\<leftarrow>fs. unat (fg_len f)) = unat len \<and>
     (\<forall>i. Suc i < length fs \<longrightarrow> fg_addr (fs ! Suc i) = fg_addr (fs ! i) + fg_len (fs ! i) \<and> 2 ^ k dvd unat (fg_addr (fs ! Suc i))) \<and>
     (\<forall>i<length fs. 0 < fg_len (fs ! i) \<and> fg_len (fs ! i) \<le> seg \<and>
        fg_pos (fs ! i) = (if length fs = 1 then Only else if i = 0 then First else if Suc i = length fs then Last else Middle))"
proof -
  define n where "n = frag_count k (unat seg) (unat a) (unat a + unat len)"
  have e: "unat (a + len) = unat a + unat len" using r(2) by (simp add: unat_word_ariths)
  have l: "0 < unat len" using r(1) by (simp add: word_less_nat_alt)
  then have ae: "unat a < unat a + unat len" and ae': "a < a + len" using e by (simp_all add: word_less_nat_alt)
  note fs = fragments_new [OF al r, folded n_def] and N = into_iter_at(2) [OF al r, folded n_def]
  note u = frag_at_unat [OF al(3,4) ae', where n = n, unfolded e, OF n_def]
  note b = frag_bounds [OF al(3,4) ae, folded n_def]
  have n0: "0 < n" unfolding n_def by (rule cut_point_range(3) [OF al(4) ae])
  let ?f = "frag_at seg a (a + len) n k"
  have "fg_addr (?f 0) = a" using u(1) [OF n0] b(6) [OF n0] by (simp add: word_unat_eq_iff)
  moreover have "unat a + (\<Sum>j<n. unat (fg_len (?f j))) = unat a + unat len"
    using frag_lens [OF al(3,4) ae, of n, folded n_def] by (simp add: u(2))
  then have "(\<Sum>f\<leftarrow>map ?f [0..<n]. unat (fg_len f)) = unat len"
    by (simp add: interv_sum_list_conv_sum_set_nat atLeast0LessThan comp_def)
  moreover have "fg_addr (?f (Suc i)) = fg_addr (?f i) + fg_len (?f i) \<and> 2 ^ k dvd unat (fg_addr (?f i) + fg_len (?f i))" if "Suc i < n" for i
  proof -
    have i: "i < n" using that by simp
    have "unat (fg_addr (?f i) + fg_len (?f i)) = frag_lo k (unat seg) (unat a) (Suc i)"
      using u(1,2) [OF i] b(1,3,5) [OF i] that r(2) by (simp add: unat_word_ariths)
    then show ?thesis using u(1) [OF that] b(4) [OF that] by (simp add: word_unat_eq_iff)
  qed
  moreover have "0 < fg_len (?f i) \<and> fg_len (?f i) \<le> seg" if "i < n" for i
    using u(2) [OF that] b(1,2) [OF that] by (simp add: word_less_nat_alt word_le_nat_alt)
  moreover have "fg_pos (?f i) = (if n = 1 then Only else if i = 0 then First else if Suc i = n then Last else Middle)" if "i < n" for i
    using u(3) [OF that] that by (auto simp: frag_pos_def)
  ultimately show ?thesis unfolding fs N Let_def using n0 by simp
qed

theorem fragmenter_tiles_witness:
  "length (fragments (frag_into_iter (fragmenter_new 0x10000 0x1000 0x1010 0x20000))) = 3"
  using fragmenter_tiles [of "0x1000" 12 "0x10000" "0x20000" "0x1010"]
  by (simp add: Let_def num_segments_def fragmenter_new_def div_ceil_def)

text \<open>Every chunk but the last spans the same number of packets.\<close>

lemma chunk_packets:
  assumes "seg = q * 2 ^ k" "0 < q" "a < e" "Suc i < frag_count k seg a e"
  shows "ceil_div (frag_hi k seg a e i - frag_lo k seg a i) (2 ^ k) = q"
proof -
  have s: "2 ^ k dvd seg" "0 < seg" using assms by auto
  have i: "i < frag_count k seg a e" using assms(4) by simp
  note b = frag_bounds [OF s assms(3) i]
  have h: "frag_hi k seg a e i = cut_point k seg a (Suc i)"
    using b(3) assms(4) frag_bounds(7) [OF s assms(3,4)] by simp
  have "cut_point k seg a (Suc i) = cut_point k seg a i + seg" by (simp add: cut_point_def)
  moreover have "a < cut_point k seg a i + 2 ^ k"
  proof -
    have "a div 2 ^ k * 2 ^ k + a mod 2 ^ k = a" "a mod 2 ^ k < 2 ^ k" by (rule div_mult_mod_eq, simp)
    then show ?thesis unfolding cut_point_def by linarith
  qed
  ultimately have "frag_lo k seg a i < cut_point k seg a i + 2 ^ k" "frag_lo k seg a i \<ge> cut_point k seg a i"
    by (simp_all add: frag_lo_def)
  then show ?thesis unfolding h using assms(1) b(1) [unfolded h] \<open>cut_point k seg a (Suc i) = _\<close>
    by (intro ceil_div_unique) auto
qed

lemma unat_ucast32: "unat (w :: u64) < 2 ^ 32 \<Longrightarrow> unat (ucast w :: u32) = unat w"
  by (simp add: unsigned_ucast_eq take_bit_nat_eq_self)

definition psn_at :: "psn \<Rightarrow> nat \<Rightarrow> psn" where
  "psn_at p i = (if i = 0 then p else psn_add p (word_of_nat i))"

lemma take24_add: "take_bit 24 (take_bit 24 x + w) = take_bit 24 (x + w :: u32)"
proof -
  have m: "unat (take_bit 24 (y + w)) = (unat y + unat w) mod 2 ^ 24" for y :: u32
    unfolding unat_take24 by (simp add: unat_word_ariths mod_mod_cancel)
  show ?thesis unfolding word_unat_eq_iff m unfolding unat_take24 by (simp add: mod_add_left_eq)
qed

lemma psn_add_add: "psn_add (psn_add p v) w = psn_add p (v + w)"
  by (simp add: psn_add_def and_PSN_MASK take24_add add.assoc)

lemma psn_at_add: "0 < unat w \<Longrightarrow> psn_add (psn_at p i) w = psn_at p (i + unat w)"
  by (simp add: psn_at_def psn_add_add)

definition chunk_at :: "WrChunk \<Rightarrow> bool \<Rightarrow> psn \<Rightarrow> u64 \<Rightarrow> u64 \<Rightarrow> u64 \<Rightarrow> u64 \<Rightarrow> nat \<Rightarrow> nat \<Rightarrow> nat \<Rightarrow> nat \<Rightarrow> WrChunk" where
  "chunk_at b retry p laddr seg a e n k q i = (let f = frag_at seg a e n k i;
       c = set_chunk_meta b (psn_at p (i * q)) (laddr + (fg_addr f - a)) (fg_addr f) (ucast (fg_len f)) (fg_pos f)
     in if retry then set_is_retry c else c)"

lemma chunks_at:
  assumes al: "unat m = 2 ^ k" "k < 64" "unat seg = q * 2 ^ k" "0 < q" "q < 2 ^ 32"
    and r: "a < e" "unat e + unat seg < 2 ^ 64" and n: "n = frag_count k (unat seg) (unat a) (unat e)"
    and it: "ci_inner it = iter_at seg m a e n k i" "ci_pmtu it = m" "i \<le> n"
    and cur: "i < n \<Longrightarrow> ci_psn it = psn_at p (i * q) \<and> ci_laddr it = laddr + (fg_addr (frag_at seg a e n k i) - a)"
  shows "chunks it = map (chunk_at (ci_builder it) (ci_is_retry it) p laddr seg a e n k q) [i..<n]"
  using it cur
proof (induction "n - i" arbitrary: i it)
  case 0
  then show ?case by (subst chunks.simps) (simp add: chunk_next_def frag_next_def iter_at_def)
next
  case (Suc d)
  then have i: "i < n" by simp
  have dv: "2 ^ k dvd unat seg" "0 < unat seg" using al by auto
  have ae: "unat a < unat e" using r(1) by (simp add: word_less_nat_alt)
  let ?f = "frag_at seg a e n k"
  have nx: "frag_next (ci_inner it) = Some (?f i, iter_at seg m a e n k (Suc i))"
    unfolding Suc.prems(1) by (rule frag_next_at [OF al(1,2) dv r n i])
  define w :: u32 where "w = ucast (div_ceil (fg_len (?f i)) m)"
  define it' where "it' = it\<lparr> ci_inner := iter_at seg m a e n k (Suc i), ci_psn := psn_add (ci_psn it) w, ci_laddr := ci_laddr it + fg_len (?f i) \<rparr>"
  have step: "chunk_next it = Some (chunk_at (ci_builder it) (ci_is_retry it) p laddr seg a e n k q i, it')"
    unfolding chunk_next_def nx using Suc.prems(2) Suc.prems(4) [OF i] by (simp add: Let_def it'_def chunk_at_def w_def)
  have "ci_psn it' = psn_at p (Suc i * q) \<and> ci_laddr it' = laddr + (fg_addr (?f (Suc i)) - a)" if s: "Suc i < n"
  proof
    note u = frag_at_unat [OF dv r(1) n] and b = frag_bounds [OF dv ae, folded n]
    have "unat (div_ceil (fg_len (?f i)) m) = q"
      using chunk_packets [OF al(3,4) ae, of i, folded n] s al(1) by (simp add: unat_div_ceil u(2) [OF i])
    then have w: "unat w = q" using al(5) by (simp add: w_def unat_ucast32)
    show "ci_psn it' = psn_at p (Suc i * q)" using Suc.prems(4) [OF i] al(4) by (simp add: it'_def psn_at_add w add.commute)
    have "fg_addr (?f (Suc i)) = fg_addr (?f i) + fg_len (?f i)"
      using u(1) [OF s] u(1,2) [OF i] b(1,3,5) [OF i] s r(2) by (simp add: word_unat_eq_iff unat_word_ariths)
    then show "ci_laddr it' = laddr + (fg_addr (?f (Suc i)) - a)" using Suc.prems(4) [OF i] by (simp add: it'_def)
  qed
  then have "chunks it' = map (chunk_at (ci_builder it') (ci_is_retry it') p laddr seg a e n k q) [Suc i..<n]"
    using Suc.hyps(2) Suc.prems i by (intro Suc.hyps(1)) (simp_all add: it'_def)
  then show ?case using i by (subst chunks.simps) (simp add: step it'_def upt_conv_Cons)
qed

subsection \<open>Chunks against packets\<close>

lemma frag_count_iff:
  assumes "0 < seg" "a < e"
  shows "i < frag_count k seg a e \<longleftrightarrow> cut_point k seg a i < e"
proof
  show "i < frag_count k seg a e \<Longrightarrow> cut_point k seg a i < e" by (rule cut_point_range(1) [OF assms])
next
  assume c: "cut_point k seg a i < e"
  show "i < frag_count k seg a e"
  proof (rule ccontr)
    assume "\<not> i < frag_count k seg a e"
    then have "frag_count k seg a e * seg \<le> i * seg" by simp
    then show False using c cut_point_range(2) [OF assms, of k] unfolding cut_point_def by linarith
  qed
qed

lemma frag_count_ceil:
  assumes "0 < seg" "0 < q" "a < e"
  shows "frag_count k (q * seg) a e = ceil_div (frag_count k seg a e) q"
proof -
  let ?c = "frag_count k (q * seg) a e" and ?p = "frag_count k seg a e"
  have s: "0 < q * seg" using assms by simp
  have e: "cut_point k (q * seg) a i = cut_point k seg a (i * q)" for i by (simp add: cut_point_def)
  have "\<not> ?c * q < ?p" using frag_count_iff [OF assms(1,3)] cut_point_range(2) [OF s assms(3), of k, unfolded e] by (simp add: not_less)
  moreover have "(?c - 1) * q < ?p"
    using frag_count_iff [OF s assms(3), of "?c - 1" k, unfolded e] cut_point_range(3) [OF s assms(3), of k]
    by (simp add: frag_count_iff [OF assms(1,3)])
  then have "?c * q < ?p + q" using cut_point_range(3) [OF s assms(3), of k] by (cases ?c) auto
  ultimately show ?thesis by (intro ceil_div_unique [OF assms(2), symmetric]) simp_all
qed

lemma mtu_power:
  assumes "convert_ibv_mtu_to_u16 x = Some m"
  obtains k where "unat m = 2 ^ k" "8 \<le> k" "k \<le> 12"
proof -
  have "m = 256 \<or> m = 512 \<or> m = 1024 \<or> m = 2048 \<or> m = 4096"
    using assms by (auto simp: convert_ibv_mtu_to_u16_def split: if_splits)
  then have "unat m = 2 ^ 8 \<or> unat m = 2 ^ 9 \<or> unat m = 2 ^ 10 \<or> unat m = 2 ^ 11 \<or> unat m = 2 ^ 12" by auto
  then show thesis using that [of 8] that [of 9] that [of 10] that [of 11] that [of 12] by auto
qed

definition wr_builder :: "SendWrRdma \<Rightarrow> QpParams \<Rightarrow> WrChunk" where
  "wr_builder wr qp = (let b = wr_base wr in set_ibv_params (set_qp_params (new_with_opcode (wb_opcode b)) qp)
     (ucast (wb_send_flags b)) (wr_rkey wr) (wb_length b) (wb_lkey b) (wb_imm_data b))"

lemma unat_up [simp]: "unat (ucast (w :: u32) :: u64) = unat w" "unat (ucast (v :: u16) :: u64) = unat v"
  using unsigned_less [of w, where 'a = nat] unsigned_less [of v, where 'a = nat]
  by (simp_all add: unsigned_ucast_eq take_bit_nat_eq_self)

lemma chunk_fragmenter_at:
  fixes wr :: SendWrRdma and seg :: u64
  defines "a \<equiv> wr_raddr wr" and "l \<equiv> wb_length (wr_base wr)"
  assumes m: "convert_ibv_mtu_to_u16 (qp_pmtu qp) = Some m" "unat m = 2 ^ k" "k \<le> 12"
    and s: "unat seg = q * 2 ^ k" "0 < q" "q < 2 ^ 32"
    and r: "0 < l" "unat a + unat l + unat seg < 2 ^ 64"
  defines "n \<equiv> frag_count k (q * 2 ^ k) (unat a) (unat a + unat l)"
  shows "map_option chunks (chunk_fragmenter wr qp p seg retry) =
    Some (map (chunk_at (wr_builder wr qp) retry p (wb_laddr (wr_base wr)) seg a (a + ucast l) n k q) [0..<n])"
proof -
  define len :: u64 where "len = ucast l"
  have len: "unat len = unat l" by (simp add: len_def)
  have e: "unat (a + len) = unat a + unat l" using r(2) len by (simp add: unat_word_ariths)
  have l0: "0 < unat l" using r(1) by (simp add: word_less_nat_alt)
  have lt: "a < a + len" "0 < len" using e l0 len by (simp_all add: word_less_nat_alt)
  have dv: "2 ^ k dvd unat seg" "0 < unat seg" using s by auto
  have mm: "unat (ucast m :: u64) = 2 ^ k" using m(2) by simp
  define it where "it = \<lparr> ci_inner = frag_into_iter (fragmenter_new seg (ucast m) a len), ci_psn = p, ci_builder = wr_builder wr qp,
    ci_laddr = wb_laddr (wr_base wr), ci_pmtu = ucast m, ci_is_retry = retry \<rparr>"
  have it: "chunk_fragmenter wr qp p seg retry = Some it"
    using m(1) by (simp add: chunk_fragmenter_def it_def wr_builder_def Let_def a_def len_def l_def)
  have n: "n = frag_count k (unat seg) (unat a) (unat (a + len))" unfolding n_def e s(1) ..
  have inner: "ci_inner it = iter_at seg (ucast m) a (a + len) n k 0"
    unfolding it_def using into_iter_at(1) [OF mm _ dv lt(2), of a] m(3) r(2) len by (simp add: n e)
  have "fg_addr (frag_at seg a (a + len) n k 0) = a"
    by (simp add: frag_at_def Let_def cut_point_def max_absorb1)
  then have "chunks it = map (chunk_at (ci_builder it) (ci_is_retry it) p (wb_laddr (wr_base wr)) seg a (a + len) n k q) [0..<n]"
    using m(3) r(2) e by (intro chunks_at [OF mm _ s lt(1) _ n inner]) (simp_all add: it_def psn_at_def)
  then show ?thesis unfolding it len_def [symmetric] by (simp add: it_def)
qed

lemma set_chunk_meta_simps:
  "ck_psn (set_chunk_meta c p la ra ln pos) = p" "ck_laddr (set_chunk_meta c p la ra ln pos) = la"
  "ck_raddr (set_chunk_meta c p la ra ln pos) = ra" "ck_len (set_chunk_meta c p la ra ln pos) = ln"
  by (simp_all add: set_chunk_meta_def Let_def split: ChunkPos.splits)

lemma chunk_at_simps:
  fixes b retry p laddr seg a e n k q i
  defines "c \<equiv> chunk_at b retry p laddr seg a e n k q i" and "f \<equiv> frag_at seg a e n k i"
  shows "ck_psn c = psn_at p (i * q)" "ck_laddr c = laddr + (fg_addr f - a)" "ck_raddr c = fg_addr f" "ck_len c = ucast (fg_len f)"
  unfolding c_def f_def chunk_at_def by (simp_all add: Let_def set_is_retry_def set_chunk_meta_simps)

lemma psn_at_at: "psn_at (psn_at p i) j = psn_at p (i + j)"
  by (simp add: psn_at_def psn_add_add)

lemma chunk_at_bounds:
  fixes b retry p laddr a e k q i
  assumes "unat (seg :: u64) = q * 2 ^ k" "0 < q" "a < e" "i < n" "n = frag_count k (q * 2 ^ k) (unat a) (unat e)" "unat seg < 2 ^ 32"
  defines "c \<equiv> chunk_at b retry p laddr seg a e n k q i"
  shows "unat (ck_raddr c) = max (unat a) (cut_point k (2 ^ k) (unat a) (i * q))"
    "unat (ck_raddr c) + unat (ck_len c) = min (cut_point k (2 ^ k) (unat a) (Suc i * q)) (unat e)"
proof -
  have dv: "2 ^ k dvd unat seg" "0 < unat seg" using assms by auto
  have ae: "unat a < unat e" using assms(3) by (simp add: word_less_nat_alt)
  note u = frag_at_unat [OF dv assms(3), of n, unfolded assms(1), OF assms(5,4)]
  note bo = frag_bounds [OF dv ae, of i, unfolded assms(1), folded assms(5), OF assms(4)]
  have "unat (fg_len (frag_at seg a e n k i)) < 2 ^ 32" using u(2) bo(2) assms(6) unfolding assms(1) by linarith
  then have l: "unat (ck_len c) = unat (fg_len (frag_at seg a e n k i))" by (simp add: c_def chunk_at_simps unat_ucast32)
  have r: "unat (ck_raddr c) = frag_lo k (q * 2 ^ k) (unat a) i" by (simp add: c_def chunk_at_simps u(1))
  have cp: "cut_point k (q * 2 ^ k) (unat a) j = cut_point k (2 ^ k) (unat a) (j * q)" for j by (simp add: cut_point_def)
  show "unat (ck_raddr c) = max (unat a) (cut_point k (2 ^ k) (unat a) (i * q))" unfolding r frag_lo_def cp ..
  show "unat (ck_raddr c) + unat (ck_len c) = min (cut_point k (2 ^ k) (unat a) (Suc i * q)) (unat e)"
    unfolding l u(2) r using bo(1) by (simp add: frag_hi_def cp)
qed

lemma cut_point_mono: "i \<le> j \<Longrightarrow> cut_point k s a i \<le> cut_point k s a j"
  by (simp add: cut_point_def)

lemma packet_in_chunk:
  fixes wsz msz laddr :: u64 and b b' :: WrChunk and p :: psn and r r' :: bool
  assumes W: "unat wsz = q * 2 ^ k" and M: "unat msz = 1 * 2 ^ k" and q: "0 < q" and ae: "a < e"
    and nc: "nc = frag_count k (q * 2 ^ k) (unat a) (unat e)" and np: "np = frag_count k (1 * 2 ^ k) (unat a) (unat e)"
    and j: "j < np" and sz: "unat wsz < 2 ^ 32" "unat msz < 2 ^ 32"
  defines "c \<equiv> chunk_at b r p laddr wsz a e nc k q (j div q)" and "x \<equiv> chunk_at b' r' p laddr msz a e np k 1 j"
  shows "ck_psn x = psn_at (ck_psn c) (j mod q) \<and> ck_laddr x - ck_laddr c = ck_raddr x - ck_raddr c \<and> ck_raddr c \<le> ck_raddr x \<and>
    unat (ck_raddr x) + unat (ck_len x) \<le> unat (ck_raddr c) + unat (ck_len c) \<and> j div q < nc"
proof -
  let ?i = "j div q"
  have ae': "unat a < unat e" using ae by (simp add: word_less_nat_alt)
  have d: "?i * q \<le> j" "Suc j \<le> Suc ?i * q" using q by (simp_all add: dividend_less_div_times less_eq_Suc_le [symmetric] Suc_leI)
  have "cut_point k (2 ^ k) (unat a) j < unat e" using j unfolding np by (intro cut_point_range(1) [OF _ ae']) simp_all
  then have "cut_point k (2 ^ k) (unat a) (?i * q) < unat e" using cut_point_mono [OF d(1)] by (rule le_less_trans [rotated])
  moreover have "cut_point k (2 ^ k) (unat a) (?i * q) = cut_point k (q * 2 ^ k) (unat a) ?i" by (simp add: cut_point_def)
  ultimately have i: "?i < nc" unfolding nc using frag_count_iff [of "q * 2 ^ k", OF _ ae'] q by simp
  note pb = chunk_at_bounds [OF M _ ae j np sz(2)] and cb = chunk_at_bounds [OF W q ae i nc sz(1)]
  have "unat (ck_raddr c) \<le> unat (ck_raddr x)"
    unfolding x_def c_def pb(1) [OF zero_less_one] cb(1) mult_1_right by (rule max.mono [OF order_refl cut_point_mono [OF d(1)]])
  moreover have "unat (ck_raddr x) + unat (ck_len x) \<le> unat (ck_raddr c) + unat (ck_len c)"
    unfolding x_def c_def pb(2) [OF zero_less_one] cb(2) mult_1_right by (rule min.mono [OF cut_point_mono [OF d(2)] order_refl])
  moreover have "ck_laddr x - ck_laddr c = ck_raddr x - ck_raddr c" by (simp add: x_def c_def chunk_at_simps(2,3))
  moreover have "ck_psn x = psn_at (ck_psn c) (j mod q)" by (simp add: x_def c_def chunk_at_simps(1) psn_at_at)
  ultimately show ?thesis using i unfolding word_le_nat_alt by blast
qed

text \<open>C24. The chunks handed to the card and the packets rebuilt for a retransmission agree. Each packet lies in the chunk its
  index belongs to, reads the same local bytes for the same remote bytes, and has the PSN that the card reaches by counting
  packets from the PSN of the chunk.
\<close>

theorem packets_within_chunks:
  assumes m: "convert_ibv_mtu_to_u16 (qp_pmtu qp) = Some m"
    and r: "0 < wb_length (wr_base wr)" "unat (wr_raddr wr) + unat (wb_length (wr_base wr)) + 2 ^ 16 < 2 ^ 64"
  shows "\<exists>cs ps. wr_chunks wr qp p = Some cs \<and> wr_packets wr qp p = Some ps \<and>
     (let q = 2 ^ 16 div unat m in length cs = ceil_div (length ps) q \<and>
      (\<forall>j<length ps. let c = cs ! (j div q); k = ps ! j in
         ck_psn k = psn_at (ck_psn c) (j mod q) \<and> ck_laddr k - ck_laddr c = ck_raddr k - ck_raddr c \<and>
         ck_raddr c \<le> ck_raddr k \<and> unat (ck_raddr k) + unat (ck_len k) \<le> unat (ck_raddr c) + unat (ck_len c)))"
proof -
  obtain k where k: "unat m = 2 ^ k" "8 \<le> k" "k \<le> 12" using mtu_power [OF m] .
  define q :: nat where "q = 2 ^ 16 div unat m"
  have qk: "q = 2 ^ (16 - k)" unfolding q_def k(1) using k(3) by (simp only: power_diff [symmetric, of "2 :: nat"])
  have q: "q * 2 ^ k = 2 ^ 16" "0 < q" using k(3) unfolding qk by (simp_all flip: power_add)
  have "q \<le> 2 ^ 16" unfolding q_def by simp
  then have q3: "q < 2 ^ 32" by simp
  define a l where "a = wr_raddr wr" and "l = wb_length (wr_base wr)"
  define e where "e = a + ucast l"
  have e: "unat e = unat a + unat l" using r(2) by (simp add: e_def a_def l_def unat_word_ariths)
  have l0: "0 < unat l" using r(1) by (simp add: l_def word_less_nat_alt)
  have ae: "unat a < unat e" "a < e" using e l0 by (simp_all add: word_less_nat_alt)
  define nc np where "nc = frag_count k (q * 2 ^ k) (unat a) (unat e)" and "np = frag_count k (1 * 2 ^ k) (unat a) (unat e)"
  let ?W = "ucast WR_CHUNK_SIZE :: u64" and ?M = "ucast m :: u64"
  let ?c = "chunk_at (wr_builder wr qp) False p (wb_laddr (wr_base wr)) ?W a e nc k q"
  let ?p = "chunk_at (wr_builder wr qp) True p (wb_laddr (wr_base wr)) ?M a e np k 1"
  have W: "unat ?W = q * 2 ^ k" unfolding q(1) by (simp add: WR_CHUNK_SIZE_def)
  have M: "unat ?M = 1 * 2 ^ k" "unat ?M \<le> 2 ^ 12" using k power_increasing [OF k(3), of "2 :: nat"] by simp_all
  have rr: "0 < l" "unat e + 2 ^ 16 < 2 ^ 64" using r e by (simp_all add: a_def l_def)
  have rW: "unat e + unat ?W < 2 ^ 64" unfolding W q(1) by (rule rr(2))
  have rM: "unat e + unat ?M < 2 ^ 64" using rr(2) M(2) by simp
  note at = chunk_fragmenter_at [OF m k(1,3), of _ _ wr p, folded a_def l_def, folded e_def, folded e]
  have cs: "wr_chunks wr qp p = Some (map ?c [0..<nc])"
    unfolding wr_chunks_def using at [OF W q(2) q3 rr(1) rW, of False, folded nc_def] .
  have ps: "wr_packets wr qp p = Some (map ?p [0..<np])"
    unfolding wr_packets_def m bind.bind_lunit using at [OF M(1) _ _ rr(1) rM, of True, folded np_def] by simp
  have len: "nc = ceil_div np q" unfolding nc_def np_def using frag_count_ceil [OF _ q(2) ae(1)] by simp
  note pic = packet_in_chunk [OF W M(1) q(2) ae(2) nc_def np_def]
  have sz: "unat ?W < 2 ^ 32" "unat ?M < 2 ^ 32" using M(2) W q(1) by simp_all
  show ?thesis unfolding cs ps q_def [symmetric] using len pic [OF _ sz] by (auto simp: Let_def)
qed

theorem packets_within_chunks_witness:
  "let wr = \<lparr> wr_base = \<lparr> wb_wr_id = 0, wb_send_flags = 0, wb_laddr = 0x1000, wb_length = 300, wb_lkey = 0, wb_imm_data = 0,
       wb_opcode = RdmaWrite \<rparr>, wr_raddr = 0x20080, wr_rkey = 0 \<rparr>;
     qp = \<lparr> qp_msn = 0, qp_qp_type = 2, qp_sqpn = 1, qp_mac_addr = 0, qp_dqpn = 2, qp_dqp_ip = 0, qp_pmtu = 1 \<rparr>
   in \<exists>cs ps. wr_chunks wr qp (Psn 0) = Some cs \<and> wr_packets wr qp (Psn 0) = Some ps \<and> length cs = ceil_div (length ps) 256"
proof -
  define wr where "wr = \<lparr> wr_base = \<lparr> wb_wr_id = 0, wb_send_flags = 0, wb_laddr = 0x1000, wb_length = 300, wb_lkey = 0,
    wb_imm_data = 0, wb_opcode = RdmaWrite \<rparr>, wr_raddr = 0x20080, wr_rkey = 0 \<rparr>"
  define qp where "qp = \<lparr> qp_msn = 0, qp_qp_type = 2, qp_sqpn = 1, qp_mac_addr = 0, qp_dqpn = 2, qp_dqp_ip = 0, qp_pmtu = 1 \<rparr>"
  have "convert_ibv_mtu_to_u16 (qp_pmtu qp) = Some 256" by (simp add: qp_def convert_ibv_mtu_to_u16_def)
  from packets_within_chunks [OF this, of wr "Psn 0"] show ?thesis
    unfolding Let_def wr_def [symmetric] qp_def [symmetric] by (auto simp: wr_def)
qed

subsection \<open>PSNs reserved for a request\<close>

lemma align_up:
  assumes "unat (m :: u16) = 2 ^ k" "k \<le> 12" "unat (a :: u64) + 2 ^ k \<le> 2 ^ 64"
  shows "unat ((a + ucast (m - 1)) AND NOT (ucast (m - 1)) :: u64) = (unat a + (2 ^ k - 1)) div 2 ^ k * 2 ^ k"
    "unat (ucast (m - 1) :: u64) = 2 ^ k - 1"
proof -
  have "0 < unat m" using assms(1) by simp
  then have "m \<noteq> 0" by auto
  then have m1: "unat (m - 1) = 2 ^ k - 1" using assms(1) by (simp add: unat_minus_one)
  then show u: "unat (ucast (m - 1) :: u64) = 2 ^ k - 1" by simp
  have um: "unat (ucast m :: u64) = 2 ^ k" using assms(1) by simp
  then have "(ucast m :: u64) \<noteq> 0" by (metis unat_0 power_not_zero zero_neq_numeral)
  then have "unat (ucast m - 1 :: u64) = 2 ^ k - 1" unfolding um [symmetric] by (rule unat_minus_one)
  then have "(ucast (m - 1) :: u64) = ucast m - 1" unfolding word_unat_eq_iff u by simp
  then have mk: "(ucast (m - 1) :: u64) = mask k" using align_mask [OF um] assms(2) by simp
  have "unat (a + ucast (m - 1)) = unat a + (2 ^ k - 1)" using u assms(3) by (simp add: unat_word_ariths)
  then show "unat ((a + ucast (m - 1)) AND NOT (ucast (m - 1)) :: u64) = (unat a + (2 ^ k - 1)) div 2 ^ k * 2 ^ k"
    unfolding mk unat_and_not_mask by simp
qed

lemma gap_nat: "0 < M \<Longrightarrow> (a + (M - 1)) div M * M - a = (if a mod M = 0 then 0 else M - a mod M)" for a M :: nat
proof -
  assume M: "0 < M"
  define d r where "d = a div M" and "r = a mod M"
  have a: "a = d * M + r" and r: "r < M" using M by (simp_all add: d_def r_def)
  have "ceil_div a M = d + (if r = 0 then 0 else 1)" using r unfolding a
    by (intro ceil_div_unique [OF M]) (auto simp: add_mult_distrib)
  then have "(a + (M - 1)) div M = d + (if r = 0 then 0 else 1)" using M by (simp add: ceil_div_def)
  then show ?thesis unfolding r_def [symmetric] using r by (auto simp: a add_mult_distrib)
qed

lemma ceil_div_le: "0 < y \<Longrightarrow> ceil_div x y \<le> x"
proof (cases "x = 0")
  case False
  assume y: "0 < y"
  have "(ceil_div x y - 1) * 1 \<le> (ceil_div x y - 1) * y" using y by (intro mult_le_mono) auto
  also have "\<dots> < x" using False y by (intro ceil_div_bounds(2)) auto
  finally show ?thesis by simp
qed (simp add: ceil_div_def)

lemma ceil_div_off:
  assumes "off < M" "0 < l" "gap = (if off = 0 then 0 else M - off)"
  shows "ceil_div (l + off) M = ceil_div (if gap \<le> l then l - gap else l) M + (if off = 0 \<or> l < M - off then 0 else 1)"
proof (cases "off = 0 \<or> l < M - off")
  case True
  then have "off = 0 \<or> ceil_div (l + off) M = 1 \<and> ceil_div l M = 1"
    using assms(1,2) by (auto intro!: ceil_div_unique)
  then show ?thesis using True assms by auto
next
  case False
  then have e: "l + off = l - gap + M" "gap \<le> l" using assms by auto
  have M: "0 < M" using assms(1) by simp
  have "l - gap + M + M - 1 = l - gap + M - 1 + M" using M by simp
  then have "ceil_div (l + off) M = ceil_div (l - gap) M + 1"
    unfolding e(1) ceil_div_def using div_add_self2 [of M "l - gap + M - 1"] M by simp
  then show ?thesis using False e(2) by simp
qed

lemma num_psn_count:
  assumes m: "convert_ibv_mtu_to_u16 mtu = Some m" "unat m = 2 ^ k" "k \<le> 12"
    and r: "0 < unat l" "unat a + unat l + 2 ^ k < 2 ^ 64"
  shows "\<exists>n. num_psn mtu a l = Some n \<and> frag_count k (2 ^ k) (unat a) (unat a + unat l) =
    unat n + (let off = unat a mod 2 ^ k in if off = 0 \<or> unat l < 2 ^ k - off then 0 else 1)"
proof -
  let ?M = "2 ^ k :: nat" and ?mask = "ucast (m - 1) :: u64" and ?o = "unat a mod 2 ^ k"
  have M: "0 < ?M" by simp
  have b: "unat a + ?M \<le> 2 ^ 64" using r by simp
  note up = align_up [OF m(2,3) b]
  have ns: "unat a + unat ?mask < 2 ^ 64" unfolding up(2) using b by simp
  define nx where "nx = (a + ?mask) AND NOT ?mask"
  have nx: "unat nx - unat a = (if ?o = 0 then 0 else ?M - ?o)" unfolding nx_def up(1) by (rule gap_nat [OF M])
  define gap where "gap = (if a \<le> nx then nx - a else 0)"
  have "unat gap = unat nx - unat a" by (simp add: gap_def word_le_nat_alt unat_sub)
  then have gap: "unat gap = (if ?o = 0 then 0 else ?M - ?o)" unfolding nx .
  define x :: u64 where "x = (if gap \<le> ucast l then ucast l - gap else ucast l)"
  have x: "unat x = (if unat gap \<le> unat l then unat l - unat gap else unat l)" by (simp add: x_def word_le_nat_alt unat_sub)
  have d: "unat (div_ceil x (ucast m)) = ceil_div (unat x) ?M" using unat_div_ceil [of "ucast m" x] m(2) by simp
  have "frag_count k ?M (unat a) (unat a + unat l) = ceil_div (unat l + ?o) ?M"
    using r(1) by (simp add: frag_count_def add.commute minus_div_mult_eq_mod [symmetric] Nat.add_diff_assoc)
  then have c: "frag_count k ?M (unat a) (unat a + unat l) = ceil_div (unat x) ?M + (if ?o = 0 \<or> unat l < ?M - ?o then 0 else 1)"
    using ceil_div_off [OF _ r(1) gap] x by simp
  have "ceil_div (unat x) ?M \<le> unat l" using ceil_div_le [OF M, of "unat x"] x by (simp split: if_splits)
  then have lt: "unat (div_ceil x (ucast m)) < 2 ^ 32" using unsigned_less [of l, where 'a = nat] d by simp
  then have "num_psn mtu a l = Some (ucast (div_ceil x (ucast m)))"
    unfolding num_psn_def m(1) bind.bind_lunit Let_def
    by (simp only: ns if_True nx_def [symmetric] gap_def [symmetric] x_def [symmetric])
  then show ?thesis using c d lt by (simp add: unat_ucast32 Let_def)
qed

text \<open>C25. The number of PSNs reserved for a request is the number of its packets if its remote address is aligned to the path
  MTU or the request ends before the first MTU boundary, and one less in every other case.
\<close>

theorem num_psn_packets:
  assumes m: "convert_ibv_mtu_to_u16 (qp_pmtu qp) = Some m"
    and r: "0 < wb_length (wr_base wr)" "unat (wr_raddr wr) + unat (wb_length (wr_base wr)) + 2 ^ 16 < 2 ^ 64"
  shows "\<exists>ps n. wr_packets wr qp p = Some ps \<and> num_psn (qp_pmtu qp) (wr_raddr wr) (wb_length (wr_base wr)) = Some n \<and>
     length ps = unat n + (let off = unat (wr_raddr wr) mod unat m in
       if off = 0 \<or> unat (wb_length (wr_base wr)) < unat m - off then 0 else 1)"
proof -
  obtain k where k: "unat m = 2 ^ k" "8 \<le> k" "k \<le> 12" using mtu_power [OF m] .
  have m12: "unat m \<le> 2 ^ 12" using k power_increasing [OF k(3), of "2 :: nat"] by simp
  define a l where "a = wr_raddr wr" and "l = wb_length (wr_base wr)"
  have rM: "unat a + unat l + unat (ucast m :: u64) < 2 ^ 64" using r m12 by (simp add: a_def l_def)
  have len: "\<exists>ps. wr_packets wr qp p = Some ps \<and> length ps = frag_count k (2 ^ k) (unat a) (unat a + unat l)"
    using chunk_fragmenter_at [OF m k(1,3), of "ucast m" 1 wr p True, folded a_def l_def] r(1) rM k(1) m
    by (auto simp: wr_packets_def l_def)
  have l0: "0 < unat l" using r(1) by (simp add: l_def word_less_nat_alt)
  show ?thesis using len num_psn_count [OF m k(1,3), of l a] rM l0 k(1) by (auto simp: a_def l_def Let_def)
qed

theorem num_psn_packets_witness:
  "let wr = \<lparr> wr_base = \<lparr> wb_wr_id = 0, wb_send_flags = 0, wb_laddr = 0x1000, wb_length = 128, wb_lkey = 0, wb_imm_data = 0,
       wb_opcode = RdmaWrite \<rparr>, wr_raddr = 0x20080, wr_rkey = 0 \<rparr>;
     qp = \<lparr> qp_msn = 0, qp_qp_type = 2, qp_sqpn = 1, qp_mac_addr = 0, qp_dqpn = 2, qp_dqp_ip = 0, qp_pmtu = 1 \<rparr>
   in \<exists>ps n. wr_packets wr qp (Psn 0) = Some ps \<and> num_psn 1 0x20080 128 = Some n \<and> length ps = unat n + 1"
proof -
  define wr where "wr = \<lparr> wr_base = \<lparr> wb_wr_id = 0, wb_send_flags = 0, wb_laddr = 0x1000, wb_length = 128, wb_lkey = 0,
    wb_imm_data = 0, wb_opcode = RdmaWrite \<rparr>, wr_raddr = 0x20080, wr_rkey = 0 \<rparr>"
  define qp where "qp = \<lparr> qp_msn = 0, qp_qp_type = 2, qp_sqpn = 1, qp_mac_addr = 0, qp_dqpn = 2, qp_dqp_ip = 0, qp_pmtu = 1 \<rparr>"
  have "convert_ibv_mtu_to_u16 (qp_pmtu qp) = Some 256" by (simp add: qp_def convert_ibv_mtu_to_u16_def)
  from num_psn_packets [OF this, of wr "Psn 0"] show ?thesis
    unfolding Let_def wr_def [symmetric] qp_def [symmetric] by (simp add: wr_def qp_def)
qed

end
