(* ===== verification/HandleAlloc.thy ===== *)
theory HandleAlloc
  imports Prelude
begin

text \<open>
  The interface of an allocator of handles: it hands out handles with an index below a capacity, none of which is in use, and
  takes them back. The managers of queue pairs, protection domains and completion queues of the Rust driver promise it.
  The client's lemmas say what any history of allocations and releases keeps.
\<close>

subsection \<open>Histories\<close>

text \<open>\<open>live\<close> has the handles that were returned and not released since.\<close>

inductive handle_run ::
  "('k \<Rightarrow> bool) \<Rightarrow> ('k \<Rightarrow> 's \<Rightarrow> ('s \<times> 'h option) option) \<Rightarrow> ('s \<Rightarrow> 'h \<Rightarrow> ('s \<times> bool) option) \<Rightarrow> 's \<Rightarrow> 's \<Rightarrow> 'h list \<Rightarrow> bool"
  for ok alloc free s0 where
  run_start: "handle_run ok alloc free s0 s0 []"
| run_alloc: "handle_run ok alloc free s0 s live \<Longrightarrow> ok k \<Longrightarrow> alloc k s = Some (s', Some h) \<Longrightarrow> handle_run ok alloc free s0 s' (h # live)"
| run_full: "handle_run ok alloc free s0 s live \<Longrightarrow> ok k \<Longrightarrow> alloc k s = Some (s', None) \<Longrightarrow> handle_run ok alloc free s0 s' live"
| run_free: "handle_run ok alloc free s0 s live \<Longrightarrow> h \<in> set live \<Longrightarrow> free s h = Some (s', r) \<Longrightarrow>
    handle_run ok alloc free s0 s' (remove1 h live)"

subsection \<open>The interface\<close>

locale handle_alloc =
  fixes ok :: "'k \<Rightarrow> bool"
    and alloc :: "'k \<Rightarrow> 's \<Rightarrow> ('s \<times> 'h option) option"
    and free :: "'s \<Rightarrow> 'h \<Rightarrow> ('s \<times> bool) option"
    and index :: "'h \<Rightarrow> nat"
    and used :: "'s \<Rightarrow> nat set"
    and invar :: "'s \<Rightarrow> bool"
    and cap :: nat
  assumes used_below: "invar s \<Longrightarrow> used s \<subseteq> {..<cap}"
    and alloc_some: "invar s \<Longrightarrow> ok k \<Longrightarrow> used s \<noteq> {..<cap} \<Longrightarrow> \<exists>s' h. alloc k s = Some (s', Some h) \<and> invar s' \<and>
          index h < cap \<and> index h \<notin> used s \<and> used s' = insert (index h) (used s)"
    and alloc_full: "invar s \<Longrightarrow> ok k \<Longrightarrow> used s = {..<cap} \<Longrightarrow> alloc k s = Some (s, None)"
    and free_ok: "invar s \<Longrightarrow> index h < cap \<Longrightarrow> \<exists>s'. free s h = Some (s', index h \<in> used s) \<and> invar s' \<and>
          used s' = used s - {index h}"
begin

lemma alloc_step:
  assumes "invar s" "ok k" "alloc k s = Some (s', Some h)"
  shows "invar s' \<and> index h < cap \<and> index h \<notin> used s \<and> used s' = insert (index h) (used s)"
proof -
  have "used s \<noteq> {..<cap}" using alloc_full [OF assms(1,2)] assms(3) by auto
  then show ?thesis using alloc_some [OF assms(1,2)] assms(3) by auto
qed

lemma alloc_full_step: "invar s \<Longrightarrow> ok k \<Longrightarrow> alloc k s = Some (s', None) \<Longrightarrow> s' = s \<and> used s = {..<cap}"
  using alloc_some [of s k] alloc_full [of s k] by fastforce

lemma run_live:
  assumes "handle_run ok alloc free s0 s live" "invar s0"
  shows "invar s \<and> distinct (map index live) \<and> index ` set live \<inter> used s0 = {} \<and> used s = used s0 \<union> index ` set live"
  using assms
proof (induction rule: handle_run.induct)
  case (run_alloc s live k s' h)
  then show ?case using alloc_step [of s k s' h] by auto
next
  case (run_full s live k s')
  then show ?case using alloc_full_step [of s k s'] by auto
next
  case (run_free s live h s' r)
  then have "index h < cap" using used_below [of s] by auto
  then have u: "invar s'" "used s' = used s - {index h}" using free_ok [of s h] run_free by auto
  have d: "distinct (map index live)" using run_free by simp
  then have "index ` set (remove1 h live) = index ` set live - {index h}"
    using run_free(2) by (auto simp: distinct_map inj_on_def distinct_remove1)
  moreover have "distinct (map index (remove1 h live))" using d by (auto simp: distinct_map inj_on_def dest: notin_set_remove1)
  moreover have "index h \<notin> used s0" using run_free by auto
  ultimately show ?case using run_free u by auto
qed simp

text \<open>Allocation fails only when every index that was free at the start belongs to a live handle.\<close>

lemma run_progress:
  assumes "handle_run ok alloc free s0 s live" "invar s0" "ok k"
  shows "\<exists>s' r. alloc k s = Some (s', r) \<and> (r = None \<longleftrightarrow> length live = cap - card (used s0))"
    and "h \<in> set live \<Longrightarrow> \<exists>s'. free s h = Some (s', True)"
proof -
  note l = run_live [OF assms(1,2)]
  have u: "used s0 \<subseteq> {..<cap}" "used s \<subseteq> {..<cap}" using used_below [of s0] used_below [of s] assms(2) l by auto
  then have f: "finite (used s0)" "finite (used s)" using finite_subset by auto
  have "card (index ` set live) = length live" using l by (metis distinct_card image_set length_map)
  then have c: "card (used s) = card (used s0) + length live" using l f by (simp add: card_Un_disjoint Int_commute)
  have k: "card (used s0) \<le> cap" using card_mono [OF finite_lessThan u(1)] by simp
  have "used s = {..<cap} \<longleftrightarrow> card (used s) = cap" using u(2) by (metis card_lessThan card_subset_eq finite_lessThan)
  also have "\<dots> \<longleftrightarrow> length live = cap - card (used s0)" using c k by auto
  finally have e: "used s = {..<cap} \<longleftrightarrow> length live = cap - card (used s0)" .
  show "\<exists>s' r. alloc k s = Some (s', r) \<and> (r = None \<longleftrightarrow> length live = cap - card (used s0))"
  proof (cases "used s = {..<cap}")
    case True
    then show ?thesis using alloc_full [of s k] l assms(3) e by auto
  next
    case False
    then show ?thesis using alloc_some [of s k] l assms(3) e by auto
  qed
  show "h \<in> set live \<Longrightarrow> \<exists>s'. free s h = Some (s', True)" using free_ok [of s h] l u(2) by auto
qed

end

end
