(* ===== verification/RdmaQp.thy ===== *)
theory RdmaQp
  imports RdmaPsn BitVec HandleAlloc
begin

text \<open>
  Queue pair numbers, protection domains and completion queues of the Rust driver, and the send window of a queue pair
  (\<^verbatim>\<open>rdma_utils/qp.rs\<close>, \<^verbatim>\<open>rdma_utils/pd.rs\<close>, \<^verbatim>\<open>CqManager\<close> of \<^verbatim>\<open>workers/completion.rs\<close>). A manager is the bit vector of the indices
  in use; an outer \<open>None\<close> is a panic. The random part of a queue pair number is an argument.
\<close>

subsection \<open>Tables indexed by queue pair number\<close>

definition QPN_KEY_PART_WIDTH :: nat where "QPN_KEY_PART_WIDTH = 8"

definition MAX_QP_CNT :: nat where "MAX_QP_CNT = 1024"

definition MAX_CQ_CNT :: nat where "MAX_CQ_CNT = 1024"

definition MAX_PD_CNT :: nat where "MAX_PD_CNT = 256"

definition qpn_to_index :: "u32 \<Rightarrow> nat" where
  "qpn_to_index qpn = unat (drop_bit QPN_KEY_PART_WIDTH qpn)"

type_synonym 'a qp_table = "'a list"

definition qp_table_new :: "'a \<Rightarrow> 'a qp_table" where
  "qp_table_new x = replicate MAX_QP_CNT x"

definition get_qp :: "'a qp_table \<Rightarrow> u32 \<Rightarrow> 'a option" where
  "get_qp t qpn = (let i = qpn_to_index qpn in if i < length t then Some (t ! i) else None)"

text \<open>Writing through the reference that \<^verbatim>\<open>get_qp_mut\<close> returns.\<close>

definition put_qp :: "'a qp_table \<Rightarrow> u32 \<Rightarrow> 'a \<Rightarrow> 'a qp_table" where
  "put_qp t qpn x = t[qpn_to_index qpn := x]"

definition map_qp_mut :: "'a qp_table \<Rightarrow> u32 \<Rightarrow> ('a \<Rightarrow> 'a \<times> 'r) \<Rightarrow> 'a qp_table \<times> 'r option" where
  "map_qp_mut t qpn f = (case get_qp t qpn of
     Some x \<Rightarrow> (case f x of (y, r) \<Rightarrow> (put_qp t qpn y, Some r))
   | None \<Rightarrow> (t, None))"

definition replace_qp :: "'a qp_table \<Rightarrow> u32 \<Rightarrow> 'a \<Rightarrow> 'a qp_table \<times> 'a option" where
  "replace_qp t qpn x = map_qp_mut t qpn (\<lambda>y. (x, y))"

subsection \<open>Managers\<close>

definition qp_manager_new :: "('b, 'z) bitvec_ops_scheme \<Rightarrow> 'b option" where
  "qp_manager_new B = bv_set B (bv_resize B (bv_new B) MAX_QP_CNT False) 0 True"

definition create_qp :: "('b, 'z) bitvec_ops_scheme \<Rightarrow> u32 \<Rightarrow> 'b \<Rightarrow> ('b \<times> u32 option) option" where
  "create_qp B key bitmap = (case bv_first_zero B bitmap of
     None \<Rightarrow> Some (bitmap, None)
   | Some i \<Rightarrow> do {
       let index = (word_of_nat i :: u32);
       bitmap \<leftarrow> bv_set B bitmap (unat index) True;
       Some (bitmap, Some (push_bit QPN_KEY_PART_WIDTH index OR key)) })"

definition destroy_qp :: "('b, 'z) bitvec_ops_scheme \<Rightarrow> 'b \<Rightarrow> u32 \<Rightarrow> ('b \<times> bool) option" where
  "destroy_qp B bitmap qpn = do {
     let index = qpn_to_index qpn;
     let ret = (bv_get B bitmap index = Some True);
     bitmap \<leftarrow> bv_set B bitmap index False;
     Some (bitmap, ret) }"

definition pd_table_new :: "('b, 'z) bitvec_ops_scheme \<Rightarrow> 'b option" where
  "pd_table_new B = bv_set B (bv_resize B (bv_new B) MAX_PD_CNT False) 0 True"

definition pd_alloc :: "('b, 'z) bitvec_ops_scheme \<Rightarrow> 'b \<Rightarrow> ('b \<times> u32 option) option" where
  "pd_alloc B bitmap = (case bv_first_zero B bitmap of
     None \<Rightarrow> Some (bitmap, None)
   | Some i \<Rightarrow> do {
       let index = (word_of_nat i :: u32);
       bitmap \<leftarrow> bv_set B bitmap (unat index) True;
       Some (bitmap, Some index) })"

definition pd_dealloc :: "('b, 'z) bitvec_ops_scheme \<Rightarrow> 'b \<Rightarrow> u32 \<Rightarrow> ('b \<times> bool) option" where
  "pd_dealloc B bitmap handle = do {
     let index = unat handle;
     let ret = (bv_get B bitmap index = Some True);
     bitmap \<leftarrow> bv_set B bitmap index False;
     Some (bitmap, ret) }"

definition cq_manager_new :: "('b, 'z) bitvec_ops_scheme \<Rightarrow> 'b" where
  "cq_manager_new B = bv_resize B (bv_new B) MAX_CQ_CNT False"

definition create_cq :: "('b, 'z) bitvec_ops_scheme \<Rightarrow> 'b \<Rightarrow> ('b \<times> u32 option) option" where
  "create_cq B bitmap = (case bv_first_zero B bitmap of
     None \<Rightarrow> Some (bitmap, None)
   | Some i \<Rightarrow> do {
       let handle = (word_of_nat i :: u32);
       bitmap \<leftarrow> bv_set B bitmap (unat handle) True;
       Some (bitmap, Some handle) })"

definition destroy_cq :: "('b, 'z) bitvec_ops_scheme \<Rightarrow> 'b \<Rightarrow> u32 \<Rightarrow> ('b \<times> bool) option" where
  "destroy_cq B bitmap handle = do {
     let ret = (bv_get B bitmap (unat handle) = Some True);
     bitmap \<leftarrow> bv_set B bitmap (unat handle) False;
     Some (bitmap, ret) }"

subsection \<open>The send window\<close>

record SendQueueContext =
  sq_msn :: u16
  sq_psn :: psn
  sq_psn_acked :: psn
  sq_msn_acked :: u16

definition sq_default :: SendQueueContext where
  "sq_default = \<lparr> sq_msn = 0, sq_psn = Psn 0, sq_psn_acked = Psn 0, sq_msn_acked = 0 \<rparr>"

definition next_wr :: "SendQueueContext \<Rightarrow> u32 \<Rightarrow> SendQueueContext \<times> (u16 \<times> psn) option" where
  "next_wr self num_psn = (
     let outstanding_num_psn = psn_diff (sq_psn self) (sq_psn_acked self);
         outstanding_num_msn = sq_msn self - sq_msn_acked self
     in if unat (into_inner (psn_add outstanding_num_psn num_psn)) > MAX_PSN_WINDOW \<or> unat outstanding_num_msn \<ge> MAX_SEND_WR
        then (self, None)
        else (self\<lparr> sq_msn := sq_msn self + 1, sq_psn := psn_add (sq_psn self) num_psn \<rparr>, Some (sq_msn self, sq_psn self)))"

definition update_psn_acked :: "SendQueueContext \<Rightarrow> psn \<Rightarrow> SendQueueContext" where
  "update_psn_acked self psn = self\<lparr> sq_psn_acked := psn \<rparr>"

definition update_msn_acked :: "SendQueueContext \<Rightarrow> u16 \<Rightarrow> SendQueueContext" where
  "update_msn_acked self msn = self\<lparr> sq_msn_acked := msn \<rparr>"

subsection \<open>The managers allocate handles\<close>

definition bits_set :: "bool list \<Rightarrow> nat set" where
  "bits_set bs = {i. i < length bs \<and> bs ! i}"

lemma bits_set_update: "i < length bs \<Longrightarrow> bits_set (bs[i := x]) = (if x then insert i (bits_set bs) else bits_set bs - {i})"
  by (auto simp: bits_set_def nth_list_update)

lemma bits_set_full: "bits_set bs = {..<length bs} \<longleftrightarrow> first_false bs = None"
proof
  assume f: "bits_set bs = {..<length bs}"
  show "first_false bs = None"
  proof (rule ccontr)
    assume "first_false bs \<noteq> None"
    then obtain i where i: "i < length bs" "\<not> bs ! i" using first_false_Some by blast
    then have "i \<in> bits_set bs" using f by simp
    then show False using i by (simp add: bits_set_def)
  qed
next
  assume "first_false bs = None"
  then show "bits_set bs = {..<length bs}" using first_false_None by (auto simp: bits_set_def)
qed

text \<open>The scheme that the three managers share.\<close>

lemma bit_manager:
  assumes B: "bitvec_laws B bits" and cap: "cap < 2 ^ 24"
    and al: "\<And>k v. alloc k v = (case bv_first_zero B v of None \<Rightarrow> Some (v, None)
        | Some i \<Rightarrow> do { v \<leftarrow> bv_set B v (unat (word_of_nat i :: u32)) True; Some (v, Some (mk k (word_of_nat i))) })"
    and mk: "\<And>k i. ok k \<Longrightarrow> i < cap \<Longrightarrow> index (mk k (word_of_nat i :: u32)) = i"
    and fr: "\<And>v h. free v h = do { v' \<leftarrow> bv_set B v (index h) False; Some (v', bv_get B v (index h) = Some True) }"
  shows "handle_alloc ok alloc free index (\<lambda>v. bits_set (bits v)) (\<lambda>v. length (bits v) = cap) cap"
proof
  show "length (bits v) = cap \<Longrightarrow> bits_set (bits v) \<subseteq> {..<cap}" for v by (auto simp: bits_set_def)
  show "length (bits v) = cap \<Longrightarrow> ok k \<Longrightarrow> bits_set (bits v) = {..<cap} \<Longrightarrow> alloc k v = Some (v, None)" for v k
    using bits_set_full [of "bits v"] by (simp add: al bitvec_simps [OF B])
  show "\<exists>v' h. alloc k v = Some (v', Some h) \<and> length (bits v') = cap \<and> index h < cap \<and> index h \<notin> bits_set (bits v) \<and>
      bits_set (bits v') = insert (index h) (bits_set (bits v))"
    if v: "length (bits v) = cap" "ok k" "bits_set (bits v) \<noteq> {..<cap}" for v k
  proof -
    obtain i where i: "first_false (bits v) = Some i" "i < cap" "\<not> bits v ! i"
      using v bits_set_full [of "bits v"] first_false_Some by (metis not_None_eq)
    have u: "unat (word_of_nat i :: u32) = i" using i(2) cap by (simp add: unat_of_nat)
    obtain v' where v': "bv_set B v i True = Some v'" "bits v' = (bits v)[i := True]" using bitvec_set [OF B, of i v True] v(1) i(2) by auto
    show ?thesis using i v v' mk [OF v(2) i(2)] by (simp add: al bitvec_simps [OF B] u bits_set_update) (simp add: bits_set_def)
  qed
  show "\<exists>v'. free v h = Some (v', index h \<in> bits_set (bits v)) \<and> length (bits v') = cap \<and> bits_set (bits v') = bits_set (bits v) - {index h}"
    if v: "length (bits v) = cap" "index h < cap" for v h
  proof -
    obtain v' where v': "bv_set B v (index h) False = Some v'" "bits v' = (bits v)[index h := False]"
      using bitvec_set [OF B, of "index h" v False] v by auto
    then show ?thesis using v by (simp add: fr bitvec_simps [OF B] bits_set_update) (simp add: bits_set_def)
  qed
qed

text \<open>The keys that \<^verbatim>\<open>gen_range(0..1 << QPN_KEY_PART_WIDTH)\<close> can return.\<close>

definition key_ok :: "u32 \<Rightarrow> bool" where
  "key_ok k \<longleftrightarrow> unat k < 2 ^ QPN_KEY_PART_WIDTH"

lemma index_of_qpn:
  assumes "key_ok k" "i < 2 ^ 24"
  shows "qpn_to_index (push_bit QPN_KEY_PART_WIDTH (word_of_nat i) OR k) = i"
proof -
  let ?w = "word_of_nat i :: u32"
  have w: "unat ?w = i" using assms(2) by (simp add: unat_of_nat)
  have "drop_bit 8 k = 0" using assms(1) by (simp add: key_ok_def QPN_KEY_PART_WIDTH_def word_unat_eq_iff drop_bit_eq_div unat_div)
  moreover have "drop_bit 8 (push_bit 8 ?w) = ?w"
    using assms(2) w by (simp add: word_unat_eq_iff drop_bit_eq_div push_bit_eq_mult unat_div unat_word_ariths)
  ultimately show ?thesis using w by (simp add: qpn_to_index_def QPN_KEY_PART_WIDTH_def)
qed

lemma qp_manager_handles:
  assumes "bitvec_laws B bits"
  shows "handle_alloc key_ok (create_qp B) (destroy_qp B) qpn_to_index (\<lambda>v. bits_set (bits v)) (\<lambda>v. length (bits v) = MAX_QP_CNT) MAX_QP_CNT"
  by (rule bit_manager [OF assms, where mk = "\<lambda>k i. push_bit QPN_KEY_PART_WIDTH i OR k"])
    (auto simp: MAX_QP_CNT_def create_qp_def destroy_qp_def Let_def intro!: index_of_qpn split: option.splits)

lemma pd_table_handles:
  assumes "bitvec_laws B bits"
  shows "handle_alloc (\<lambda>_ :: unit. True) (\<lambda>_. pd_alloc B) (pd_dealloc B) unat (\<lambda>v. bits_set (bits v)) (\<lambda>v. length (bits v) = MAX_PD_CNT) MAX_PD_CNT"
  by (rule bit_manager [OF assms, where mk = "\<lambda>k i. i"])
    (auto simp: MAX_PD_CNT_def pd_alloc_def pd_dealloc_def Let_def unat_of_nat split: option.splits)

lemma cq_manager_handles:
  assumes "bitvec_laws B bits"
  shows "handle_alloc (\<lambda>_ :: unit. True) (\<lambda>_. create_cq B) (destroy_cq B) unat (\<lambda>v. bits_set (bits v)) (\<lambda>v. length (bits v) = MAX_CQ_CNT) MAX_CQ_CNT"
  by (rule bit_manager [OF assms, where mk = "\<lambda>k i. i"])
    (auto simp: MAX_CQ_CNT_def create_cq_def destroy_cq_def Let_def unat_of_nat split: option.splits)

interpretation qps: handle_alloc key_ok "create_qp list_bitvec" "destroy_qp list_bitvec" qpn_to_index bits_set
  "\<lambda>v. length v = MAX_QP_CNT" MAX_QP_CNT
  by (rule qp_manager_handles [OF list_bitvec_laws])

interpretation pds: handle_alloc "\<lambda>_ :: unit. True" "\<lambda>_. pd_alloc list_bitvec" "pd_dealloc list_bitvec" unat bits_set
  "\<lambda>v. length v = MAX_PD_CNT" MAX_PD_CNT
  by (rule pd_table_handles [OF list_bitvec_laws])

interpretation cqs: handle_alloc "\<lambda>_ :: unit. True" "\<lambda>_. create_cq list_bitvec" "destroy_cq list_bitvec" unat bits_set
  "\<lambda>v. length v = MAX_CQ_CNT" MAX_CQ_CNT
  by (rule cq_manager_handles [OF list_bitvec_laws])

text \<open>The out-of-range index: the flag is computed without a panic, but clearing the bit panics.\<close>

lemma destroy_out_of_range_panics:
  assumes "bitvec_laws B bits" "length (bits v) \<le> qpn_to_index qpn"
  shows "destroy_qp B v qpn = None"
  using bitvec_set_None [OF assms] by (simp add: destroy_qp_def Let_def)

lemma get_put_qp: "qpn_to_index p < length t \<Longrightarrow>
  get_qp (put_qp t p x) q = (if qpn_to_index p = qpn_to_index q then Some x else get_qp t q)"
  by (simp add: get_qp_def put_qp_def Let_def)

lemma put_put_qp: "put_qp (put_qp t p x) p y = put_qp t p y"
  by (simp add: put_qp_def)

lemma get_qp_Some: "get_qp t p = Some x \<Longrightarrow> qpn_to_index p < length t \<and> t ! qpn_to_index p = x"
  by (auto simp: get_qp_def Let_def split: if_splits)

lemma put_qp_same: "get_qp t p = Some x \<Longrightarrow> put_qp t p x = t"
  using get_qp_Some [of t p x] by (auto simp: put_qp_def)

lemma qp_manager_new_bits:
  assumes "bitvec_laws B bits" "qp_manager_new B = Some v"
  shows "length (bits v) = MAX_QP_CNT" "bits_set (bits v) = {0}"
proof -
  let ?v = "bv_resize B (bv_new B) MAX_QP_CNT False"
  have b: "bits ?v = replicate MAX_QP_CNT False" by (simp add: bitvec_simps [OF assms(1)])
  obtain v' where "bv_set B ?v 0 True = Some v'" "bits v' = (bits ?v)[0 := True]"
    using bitvec_set [OF assms(1), of 0 ?v True] b by (auto simp: MAX_QP_CNT_def)
  then have v: "bits v = (replicate MAX_QP_CNT False)[0 := True]" using assms(2) b by (simp add: qp_manager_new_def)
  then show "length (bits v) = MAX_QP_CNT" by simp
  show "bits_set (bits v) = {0}" unfolding v by (auto simp: bits_set_def MAX_QP_CNT_def nth_list_update split: if_splits)
qed

text \<open>C30. Over any history of creations and destructions of queue pairs, the live queue pair numbers have different table
  indices between 1 and 1023, whatever their random parts, so that writing the table entry of one leaves the entries of
  the others as they are. Creation never panics and fails only when 1023 queue pairs are live; destroying a live queue
  pair succeeds.
\<close>

theorem qp_numbers_separate:
  assumes "bitvec_laws B bits" "qp_manager_new B = Some v0" "handle_run key_ok (create_qp B) (destroy_qp B) v0 v live"
  shows "distinct (map qpn_to_index live) \<and> (\<forall>q \<in> set live. 0 < qpn_to_index q \<and> qpn_to_index q < MAX_QP_CNT) \<and>
    (\<forall>t p q x. p \<in> set live \<and> q \<in> set live \<and> p \<noteq> q \<and> length t = MAX_QP_CNT \<longrightarrow> get_qp (put_qp t p x) q = get_qp t q) \<and>
    (\<forall>k. key_ok k \<longrightarrow> (\<exists>v' r. create_qp B k v = Some (v', r) \<and> (r = None \<longleftrightarrow> length live = 1023))) \<and>
    (\<forall>q \<in> set live. \<exists>v'. destroy_qp B v q = Some (v', True))"
proof -
  note H = qp_manager_handles [OF assms(1)] and n = qp_manager_new_bits [OF assms(1,2)]
  note l = handle_alloc.run_live [OF H assms(3) n(1), unfolded n(2)] and pr = handle_alloc.run_progress [OF H assms(3) n(1), unfolded n(2)]
  have u: "bits_set (bits v) \<subseteq> {..<MAX_QP_CNT}" using handle_alloc.used_below [OF H, of v] l by blast
  then have r: "0 < qpn_to_index q \<and> qpn_to_index q < MAX_QP_CNT" if "q \<in> set live" for q using l that by auto
  have d: "qpn_to_index p \<noteq> qpn_to_index q" if "p \<in> set live" "q \<in> set live" "p \<noteq> q" for p q
    using l that by (auto simp: distinct_map inj_on_def)
  have c: "\<exists>v' r. create_qp B k v = Some (v', r) \<and> (r = None \<longleftrightarrow> length live = 1023)" if "key_ok k" for k
    using pr(1) [OF that] by (simp add: MAX_QP_CNT_def)
  have "key_ok 0" by (simp add: key_ok_def QPN_KEY_PART_WIDTH_def)
  from pr(2) [OF this] show ?thesis using l r d c by (auto simp: get_put_qp)
qed

theorem qp_numbers_separate_witness:
  "\<exists>v0 v. qp_manager_new list_bitvec = Some v0 \<and> handle_run key_ok (create_qp list_bitvec) (destroy_qp list_bitvec) v0 v [0x17F] \<and>
     (\<exists>v'. destroy_qp list_bitvec v 0x17F = Some (v', True))"
proof -
  define v0 :: "bool list" where "v0 = (replicate 1024 False)[0 := True]"
  have n: "qp_manager_new list_bitvec = Some v0" by (simp add: v0_def qp_manager_new_def list_bitvec_def MAX_QP_CNT_def)
  have "first_false v0 = Some 1" by (simp add: v0_def first_false_def numeral_eq_Suc)
  then have c: "create_qp list_bitvec 0x7F v0 = Some (v0[1 := True], Some 0x17F)"
    by (simp add: create_qp_def list_bitvec_def v0_def QPN_KEY_PART_WIDTH_def)
  have "handle_run key_ok (create_qp list_bitvec) (destroy_qp list_bitvec) v0 (v0[1 := True]) [0x17F]"
    using handle_run.run_alloc [OF handle_run.run_start, of key_ok "0x7F" "create_qp list_bitvec", OF _ c]
    by (simp add: key_ok_def QPN_KEY_PART_WIDTH_def)
  with qp_numbers_separate [OF list_bitvec_laws n this] n show ?thesis by auto
qed

subsection \<open>The send window\<close>

text \<open>
  Histories of a send queue context, with the counts of packets and messages handed out and acknowledged as unbounded
  numbers beside the words of the context. Refused requests leave the context as it is.
\<close>

definition psn_of :: "nat \<Rightarrow> psn" where
  "psn_of n = Psn (word_of_nat (n mod 2 ^ 24))"

inductive sq_run :: "SendQueueContext \<Rightarrow> nat \<Rightarrow> nat \<Rightarrow> nat \<Rightarrow> nat \<Rightarrow> bool" where
  sq_start: "sq_run sq_default 0 0 0 0"
| sq_next: "sq_run ctx p pa m ma \<Longrightarrow> unat n < MAX_PSN_WINDOW \<Longrightarrow> next_wr ctx n = (ctx', Some r) \<Longrightarrow> sq_run ctx' (p + unat n) pa (m + 1) ma"
| sq_psn_ack: "sq_run ctx p pa m ma \<Longrightarrow> pa \<le> a \<Longrightarrow> a \<le> p \<Longrightarrow> sq_run (update_psn_acked ctx (psn_of a)) p a m ma"
| sq_msn_ack: "sq_run ctx p pa m ma \<Longrightarrow> ma \<le> a \<Longrightarrow> a \<le> m \<Longrightarrow> sq_run (update_msn_acked ctx (word_of_nat a)) p pa m a"

definition sq_inv :: "SendQueueContext \<Rightarrow> nat \<Rightarrow> nat \<Rightarrow> nat \<Rightarrow> nat \<Rightarrow> bool" where
  "sq_inv ctx p pa m ma \<longleftrightarrow> sq_psn ctx = psn_of p \<and> sq_psn_acked ctx = psn_of pa \<and> sq_msn ctx = word_of_nat m \<and>
     sq_msn_acked ctx = word_of_nat ma \<and> pa \<le> p \<and> p - pa \<le> MAX_PSN_WINDOW \<and> ma \<le> m \<and> m - ma \<le> MAX_SEND_WR"

lemma unat_psn_of: "unat (into_inner (psn_of n)) = n mod 2 ^ 24"
  by (simp add: psn_of_def unat_of_nat)

lemma seq_psn_of: "seq (psn_of n) = int (n mod 2 ^ 24)"
  unfolding seq_def unat_psn_of by (simp add: of_nat_mod)

lemma seq_small: "unat (into_inner p) < 2 ^ 24 \<Longrightarrow> seq p = int (unat (into_inner p))"
  unfolding seq_def using of_nat_mod [of "unat (into_inner p)" "2 ^ 24", where 'a = int] by (simp only: mod_less of_nat_power of_nat_numeral)

lemma psn_eqI: "seq p = seq q \<Longrightarrow> unat (into_inner p) < 2 ^ 24 \<Longrightarrow> unat (into_inner q) < 2 ^ 24 \<Longrightarrow> p = q"
  unfolding seq_small of_nat_eq_iff by (cases p; cases q) (simp only: psn.sel word_unat_eq_iff [symmetric])

lemma psn_add_of: "psn_add (psn_of p) w = psn_of (p + unat w)"
proof (rule psn_eqI)
  show "seq (psn_add (psn_of p) w) = seq (psn_of (p + unat w))"
    unfolding seq_add seq_psn_of by (simp add: of_nat_mod mod_add_left_eq)
  show "unat (into_inner (psn_add (psn_of p) w)) < 2 ^ 24" by (simp add: psn_add_def and_PSN_MASK unat_take24)
qed (simp add: unat_psn_of)

lemma psn_diff_of: "pa \<le> p \<Longrightarrow> psn_diff (psn_of p) (psn_of pa) = psn_of (p - pa)"
proof (rule psn_eqI)
  assume "pa \<le> p"
  have "int (unat (into_inner (psn_diff (psn_of p) (psn_of pa)))) = (int p - int pa) mod 2 ^ 24"
    unfolding psn_diff_def psn.sel psn_dist unat_psn_of by (simp add: of_nat_mod mod_diff_eq)
  also have "\<dots> = int ((p - pa) mod 2 ^ 24)" using \<open>pa \<le> p\<close> by (simp add: of_nat_mod of_nat_diff)
  finally show "seq (psn_diff (psn_of p) (psn_of pa)) = seq (psn_of (p - pa))" unfolding seq_def unat_psn_of by simp
qed (simp_all add: unat_psn_of psn_diff_def and_PSN_MASK unat_take24)

lemma psn_of_less_iff: "x < y + 2 ^ 23 \<Longrightarrow> y < x + 2 ^ 23 \<Longrightarrow> psn_of x < psn_of y \<longleftrightarrow> x < y"
proof -
  assume b: "x < y + 2 ^ 23" "y < x + 2 ^ 23"
  have "(seq (psn_of x) - seq (psn_of y)) mod 2 ^ 24 = (int x - int y) mod 2 ^ 24"
    unfolding seq_psn_of by (simp add: of_nat_mod mod_diff_eq)
  then show ?thesis using cmp_of_dist [of "psn_of x" "psn_of y" "int x - int y"] b by (simp add: less_psn_def)
qed

lemma unat_msn_diff: "ma \<le> m \<Longrightarrow> m - ma < 2 ^ 16 \<Longrightarrow> unat (word_of_nat m - word_of_nat ma :: u16) = m - ma"
proof -
  assume a: "ma \<le> m" "m - ma < 2 ^ 16"
  have "word_of_nat m - word_of_nat ma = (word_of_nat (m - ma) :: u16)" using a(1) by simp
  then show ?thesis using a(2) by (simp only: unat_of_nat len_of_numeral_defs) simp
qed

lemma next_wr_inv:
  assumes "sq_inv ctx p pa m ma"
  shows "next_wr ctx n = (if (p - pa + unat n) mod 2 ^ 24 \<le> MAX_PSN_WINDOW \<and> m - ma < MAX_SEND_WR
    then (ctx\<lparr> sq_msn := word_of_nat (m + 1), sq_psn := psn_of (p + unat n) \<rparr>, Some (word_of_nat m, psn_of p)) else (ctx, None))"
proof -
  have c: "sq_psn ctx = psn_of p" "sq_psn_acked ctx = psn_of pa" "sq_msn ctx = word_of_nat m" "sq_msn_acked ctx = word_of_nat ma"
    and b: "pa \<le> p" "ma \<le> m" "m - ma \<le> MAX_SEND_WR" using assms by (auto simp: sq_inv_def)
  have "unat (word_of_nat m - word_of_nat ma :: u16) = m - ma" using b(2,3) by (intro unat_msn_diff) (simp_all add: MAX_SEND_WR_def)
  then show ?thesis using b(1)
    by (simp add: next_wr_def c Let_def psn_diff_of psn_add_of unat_psn_of not_less not_le add.commute)
qed

lemma sq_run_inv: "sq_run ctx p pa m ma \<Longrightarrow> sq_inv ctx p pa m ma"
proof (induction rule: sq_run.induct)
  case sq_start
  then show ?case by (simp add: sq_inv_def sq_default_def psn_of_def)
next
  case (sq_next ctx p pa m ma n ctx' r)
  have "p - pa \<le> 2 ^ 23" "pa \<le> p" "ma \<le> m" using sq_next(4) by (auto simp: sq_inv_def MAX_PSN_WINDOW_def)
  moreover from this have "(p - pa + unat n) mod 2 ^ 24 = p - pa + unat n" using sq_next(2) by (intro mod_less) (simp add: MAX_PSN_WINDOW_def)
  ultimately show ?case using sq_next(3,4) unfolding next_wr_inv [OF sq_next(4)]
    by (auto simp: sq_inv_def split: if_splits)
next
  case (sq_psn_ack ctx p pa m ma a)
  then show ?case by (auto simp: sq_inv_def update_psn_acked_def)
next
  case (sq_msn_ack ctx p pa m ma a)
  then show ?case by (auto simp: sq_inv_def update_msn_acked_def)
qed

text \<open>C27. The send window holds over every history of requests of fewer than 2^23 packets and of acknowledgements that never go back and
  never go beyond what was handed out, also after PSNs and MSNs have wrapped around: at most 2^23 packets and 2^15 messages are
  outstanding. A request of fewer than 2^23 packets is accepted exactly when it fits, and gets the next free PSN and MSN; outstanding
  PSNs less than 2^23 apart compare in the order in which they were handed out. A request of 2^24 packets is outside of this: it is
  accepted and gets numbers already in use, as the next lemma shows.
\<close>

theorem send_window_bounded:
  assumes "sq_run ctx p pa m ma"
  shows "p - pa \<le> MAX_PSN_WINDOW \<and> m - ma \<le> MAX_SEND_WR \<and> unat (sq_msn ctx - sq_msn_acked ctx) = m - ma \<and>
    (\<forall>n. unat n < MAX_PSN_WINDOW \<longrightarrow> snd (next_wr ctx n) =
       (if p - pa + unat n \<le> MAX_PSN_WINDOW \<and> m - ma < MAX_SEND_WR then Some (word_of_nat m, psn_of p) else None)) \<and>
    (\<forall>x y. pa \<le> x \<and> x < y \<and> y \<le> p \<and> y - x < 2 ^ 23 \<longrightarrow> psn_of x < psn_of y)"
proof -
  note i = sq_run_inv [OF assms]
  then have b: "p - pa \<le> 2 ^ 23" "ma \<le> m" "m - ma \<le> 2 ^ 15" by (auto simp: sq_inv_def MAX_PSN_WINDOW_def MAX_SEND_WR_def)
  have "unat (sq_msn ctx - sq_msn_acked ctx) = m - ma" using b(2,3) i by (simp add: sq_inv_def unat_msn_diff)
  moreover have "snd (next_wr ctx n) = (if p - pa + unat n \<le> MAX_PSN_WINDOW \<and> m - ma < MAX_SEND_WR
      then Some (word_of_nat m, psn_of p) else None)" if "unat n < MAX_PSN_WINDOW" for n
  proof -
    have "(p - pa + unat n) mod 2 ^ 24 = p - pa + unat n" using that b(1) by (intro mod_less) (simp add: MAX_PSN_WINDOW_def)
    then show ?thesis by (simp only: next_wr_inv [OF i] if_distrib [of snd] snd_conv)
  qed
  moreover have "psn_of x < psn_of y" if "x < y" "y - x < 2 ^ 23" for x y using that by (simp add: psn_of_less_iff)
  ultimately show ?thesis using i unfolding sq_inv_def by blast
qed

theorem send_window_bounded_witness:
  "\<exists>ctx. sq_run ctx 5 3 1 0 \<and> snd (next_wr ctx 100) = Some (1, psn_of 5)"
proof -
  have "sq_run (fst (next_wr sq_default 5)) 5 0 1 0"
    using sq_next [OF sq_start, of 5 "fst (next_wr sq_default 5)" "the (snd (next_wr sq_default 5))"]
    by (simp add: next_wr_def sq_default_def Let_def psn_diff_def psn_add_def and_PSN_MASK MAX_PSN_WINDOW_def MAX_SEND_WR_def)
  then have r: "sq_run (update_psn_acked (fst (next_wr sq_default 5)) (psn_of 3)) 5 3 1 0" by (rule sq_psn_ack) simp_all
  then show ?thesis using send_window_bounded [OF r] by (auto simp: MAX_PSN_WINDOW_def MAX_SEND_WR_def)
qed

text \<open>A request of 2^24 packets on an idle queue is accepted, and the next request gets the same PSN.\<close>

lemma full_circle_accepted:
  assumes "sq_run ctx p p m ma" "m - ma < MAX_SEND_WR"
  shows "\<exists>ctx'. next_wr ctx (2 ^ 24) = (ctx', Some (word_of_nat m, psn_of p)) \<and> sq_psn ctx' = psn_of p"
proof -
  note i = sq_run_inv [OF assms(1)]
  have "psn_of (p + 2 ^ 24) = psn_of p" by (simp add: psn_of_def)
  then show ?thesis using assms(2) unfolding next_wr_inv [OF i] by (simp add: MAX_PSN_WINDOW_def)
qed

end
