(* ===== verification/RdmaTasks.thy ===== *)
theory RdmaTasks
  imports Fragmenter RdmaQp
begin

text \<open>
  The messages that the workers of the Rust driver send to each other over their channels, and the data in them: completion
  events (\<^verbatim>\<open>workers/completion.rs\<close>), tasks of the timeout, retransmission and write workers (\<^verbatim>\<open>workers/qp_timeout.rs\<close>,
  \<^verbatim>\<open>workers/retransmit.rs\<close>, \<^verbatim>\<open>workers/rdma.rs\<close>), acknowledgements to be sent (\<^verbatim>\<open>workers/ack_responder.rs\<close>), and the attributes of
  a queue pair (\<^verbatim>\<open>rdma_utils/types.rs\<close>). A worker's channel is first in, first out; a worker is a function from its state and
  one task to its new state and the tasks it sends.
\<close>

subsection \<open>Completion events\<close>

record MessageMeta =
  mm_msn :: u16
  mm_end_psn :: psn

datatype SendEventOp = WriteSignaled | SendSignaled | ReadSignaled

record SendEvent =
  se_qpn :: u32
  se_op :: SendEventOp
  se_meta :: MessageMeta
  se_wr_id :: u64

datatype RecvEventOp = Ev_Write | Ev_WriteWithImm u32 | Ev_Recv | Ev_RecvWithImm u32 | Ev_ReadResp | Ev_RecvRead

record RecvEvent =
  re_qpn :: u32
  re_op :: RecvEventOp
  re_meta :: MessageMeta
  re_ack_req :: bool

record PostRecvEvent =
  pr_qpn :: u32
  pr_wr_id :: u64

datatype Event = Event_Send SendEvent | Event_Recv RecvEvent | Event_PostRecv PostRecvEvent

datatype Completion = Comp_Send u64 | Comp_RdmaWrite u64 | Comp_RdmaRead u64 | Comp_Recv u64 "u32 option" | Comp_RecvRdmaWithImm u32

subsection \<open>Tasks\<close>

datatype CompletionTask = Register u32 Event | AckSend u32 psn | AckRecv u32 psn

datatype AckTimeoutTask = NewAckReq (att_qpn: u32) | RecvMeta (att_qpn: u32) | Timeout_Ack (att_qpn: u32)

record SendQueueElem =
  sqe_psn :: psn
  sqe_wr :: SendWrRdma
  sqe_qp_param :: QpParams

datatype PacketRetransmitTask = NewWr (prt_qpn: u32) SendQueueElem | RetransmitRange (prt_qpn: u32) psn psn
  | RetransmitAll (prt_qpn: u32) | Retransmit_Ack (prt_qpn: u32) psn

datatype RdmaWriteTask = Write_Wr u32 SendWrRdma | Write_Ack u32 psn | NewComplete u32 u16

datatype AckResponse = Response_Ack (ar_qpn: u32) u16 psn | Response_Nak (ar_qpn: u32) psn psn

text \<open>What a worker sent while it handled one task, per channel and in order.\<close>

record sent =
  out_completion :: "CompletionTask list"
  out_timeout :: "AckTimeoutTask list"
  out_retransmit :: "PacketRetransmitTask list"
  out_write :: "RdmaWriteTask list"
  out_ack :: "AckResponse list"
  out_chunks :: "WrChunk list"

definition nothing_sent :: sent where
  "nothing_sent = \<lparr> out_completion = [], out_timeout = [], out_retransmit = [], out_write = [], out_ack = [], out_chunks = [] \<rparr>"

definition and_then_sent :: "sent \<Rightarrow> sent \<Rightarrow> sent" where
  "and_then_sent a b = \<lparr> out_completion = out_completion a @ out_completion b, out_timeout = out_timeout a @ out_timeout b,
     out_retransmit = out_retransmit a @ out_retransmit b, out_write = out_write a @ out_write b,
     out_ack = out_ack a @ out_ack b, out_chunks = out_chunks a @ out_chunks b \<rparr>"

lemma and_then_sent_simps [simp]:
  "out_completion (and_then_sent a b) = out_completion a @ out_completion b" "out_timeout (and_then_sent a b) = out_timeout a @ out_timeout b"
  "out_retransmit (and_then_sent a b) = out_retransmit a @ out_retransmit b" "out_write (and_then_sent a b) = out_write a @ out_write b"
  "out_ack (and_then_sent a b) = out_ack a @ out_ack b" "out_chunks (and_then_sent a b) = out_chunks a @ out_chunks b"
  by (simp_all add: and_then_sent_def)

lemma nothing_sent_simps [simp]:
  "out_completion nothing_sent = []" "out_timeout nothing_sent = []" "out_retransmit nothing_sent = []"
  "out_write nothing_sent = []" "out_ack nothing_sent = []" "out_chunks nothing_sent = []"
  "and_then_sent nothing_sent a = a" "and_then_sent a nothing_sent = a"
  by (simp_all add: nothing_sent_def and_then_sent_def)

lemma and_then_sent_assoc: "and_then_sent (and_then_sent a b) c = and_then_sent a (and_then_sent b c)"
  by (simp add: and_then_sent_def)

subsection \<open>Attributes of a queue pair\<close>

record QpAttr =
  qa_qp_type :: u8
  qa_qpn :: u32
  qa_dqpn :: u32
  qa_ip :: u32
  qa_dqp_ip :: u32
  qa_mac_addr :: u64
  qa_pmtu :: u8
  qa_access_flags :: u8
  qa_send_cq :: "u32 option"
  qa_recv_cq :: "u32 option"

definition default_qp_attr :: QpAttr where
  "default_qp_attr = \<lparr> qa_qp_type = 0, qa_qpn = 0, qa_dqpn = 0, qa_ip = 0, qa_dqp_ip = 0, qa_mac_addr = 0, qa_pmtu = 0,
     qa_access_flags = 0, qa_send_cq = None, qa_recv_cq = None \<rparr>"

definition new_with_ip :: "u32 \<Rightarrow> QpAttr" where
  "new_with_ip ip = default_qp_attr\<lparr> qa_ip := ip \<rparr>"

end
