(* ===== verification/Completion.thy ===== *)
theory Completion
  imports RdmaTasks
begin

text \<open>
  The completion worker of the Rust driver (\<^verbatim>\<open>workers/completion.rs\<close>). Events wait in a message tracker, sorted by message
  sequence number, until their last packet is acknowledged; reads also wait for their response. An outer \<open>None\<close> is a panic.
  A completion queue is the list of its entries, oldest first.
\<close>

subsection \<open>Message trackers\<close>

record 'e MessageTracker =
  mt_inner :: "'e list"
  mt_base_psn :: psn

definition mt_default :: "'e MessageTracker" where
  "mt_default = \<lparr> mt_inner = [], mt_base_psn = Psn 0 \<rparr>"

fun position :: "('e \<Rightarrow> bool) \<Rightarrow> 'e list \<Rightarrow> nat option" where
  "position P [] = None"
| "position P (x # xs) = (if P x then Some 0 else map_option Suc (position P xs))"

definition tracker_append :: "('e \<Rightarrow> MessageMeta) \<Rightarrow> 'e MessageTracker \<Rightarrow> 'e \<Rightarrow> 'e MessageTracker" where
  "tracker_append meta self event = (
     let xs = mt_inner self;
         pos = (case position (\<lambda>e. msn_partial_cmp (Msn (mm_msn (meta e))) (Msn (mm_msn (meta event))) = Less) (rev xs) of
           Some p \<Rightarrow> p | None \<Rightarrow> length xs);
         index = length xs - pos
     in if index < length xs \<and> mm_msn (meta (xs ! index)) = mm_msn (meta event) then self
        else self\<lparr> mt_inner := take index xs @ [event] @ drop index xs \<rparr>)"

definition tracker_ack :: "'e MessageTracker \<Rightarrow> psn \<Rightarrow> 'e MessageTracker" where
  "tracker_ack self base_psn = self\<lparr> mt_base_psn := base_psn \<rparr>"

definition tracker_pop :: "('e \<Rightarrow> MessageMeta) \<Rightarrow> 'e MessageTracker \<Rightarrow> 'e MessageTracker \<times> 'e option" where
  "tracker_pop meta self = (case mt_inner self of
     [] \<Rightarrow> (self, None)
   | front # rest \<Rightarrow>
       if mm_end_psn (meta front) \<le> mt_base_psn self then (self\<lparr> mt_inner := rest \<rparr>, Some front) else (self, None))"

subsection \<open>Merging reads with their responses\<close>

record MergeQueue =
  mq_send :: "SendEvent list"
  mq_recv :: "RecvEvent list"
  mq_recv_read_resp :: "RecvEvent list"

definition push_send :: "MergeQueue \<Rightarrow> SendEvent \<Rightarrow> MergeQueue" where
  "push_send self event = self\<lparr> mq_send := mq_send self @ [event] \<rparr>"

definition push_recv :: "MergeQueue \<Rightarrow> RecvEvent \<Rightarrow> MergeQueue" where
  "push_recv self event = (case re_op event of
     Ev_ReadResp \<Rightarrow> self\<lparr> mq_recv_read_resp := mq_recv_read_resp self @ [event] \<rparr>
   | _ \<Rightarrow> self\<lparr> mq_recv := mq_recv self @ [event] \<rparr>)"

definition pop_send :: "MergeQueue \<Rightarrow> MergeQueue \<times> SendEvent option" where
  "pop_send self = (case mq_send self of
     [] \<Rightarrow> (self, None)
   | event # rest \<Rightarrow> (case se_op event of
       ReadSignaled \<Rightarrow> (case mq_recv_read_resp self of
           [] \<Rightarrow> (self, None)
         | _ # resps \<Rightarrow> (self\<lparr> mq_recv_read_resp := resps, mq_send := rest \<rparr>, Some event))
     | _ \<Rightarrow> (self\<lparr> mq_send := rest \<rparr>, Some event)))"

definition pop_recv :: "MergeQueue \<Rightarrow> MergeQueue \<times> RecvEvent option" where
  "pop_recv self = (case mq_recv self of
     [] \<Rightarrow> (self, None)
   | event # rest \<Rightarrow> (self\<lparr> mq_recv := rest \<rparr>, Some event))"

subsection \<open>The tracker of a queue pair\<close>

record QueuePairMessageTracker =
  qt_send :: "SendEvent MessageTracker"
  qt_recv :: "RecvEvent MessageTracker"
  qt_post_recv_queue :: "PostRecvEvent list"
  qt_merge :: MergeQueue

definition qt_default :: QueuePairMessageTracker where
  "qt_default = \<lparr> qt_send = mt_default, qt_recv = mt_default, qt_post_recv_queue = [],
     qt_merge = \<lparr> mq_send = [], mq_recv = [], mq_recv_read_resp = [] \<rparr> \<rparr>"

definition qt_append :: "QueuePairMessageTracker \<Rightarrow> Event \<Rightarrow> QueuePairMessageTracker" where
  "qt_append self event = (case event of
     Event_Send x \<Rightarrow> self\<lparr> qt_send := tracker_append se_meta (qt_send self) x \<rparr>
   | Event_Recv x \<Rightarrow> self\<lparr> qt_recv := tracker_append re_meta (qt_recv self) x \<rparr>
   | Event_PostRecv x \<Rightarrow> self\<lparr> qt_post_recv_queue := qt_post_recv_queue self @ [x] \<rparr>)"

text \<open>The loops that move the acknowledged events to the merge queue.\<close>

function drain_send :: "QueuePairMessageTracker \<Rightarrow> QueuePairMessageTracker" where
  "drain_send self = (case tracker_pop se_meta (qt_send self) of
     (t, None) \<Rightarrow> self
   | (t, Some event) \<Rightarrow> drain_send (self\<lparr> qt_send := t, qt_merge := push_send (qt_merge self) event \<rparr>))"
  by pat_completeness auto

termination
  by (relation "measure (\<lambda>s. length (mt_inner (qt_send s)))") (auto simp: tracker_pop_def split: list.splits if_splits)

function drain_recv :: "QueuePairMessageTracker \<Rightarrow> QueuePairMessageTracker" where
  "drain_recv self = (case tracker_pop re_meta (qt_recv self) of
     (t, None) \<Rightarrow> self
   | (t, Some event) \<Rightarrow> drain_recv (self\<lparr> qt_recv := t, qt_merge := push_recv (qt_merge self) event \<rparr>))"
  by pat_completeness auto

termination
  by (relation "measure (\<lambda>s. length (mt_inner (qt_recv s)))") (auto simp: tracker_pop_def split: list.splits if_splits)

declare drain_send.simps [simp del] drain_recv.simps [simp del]

definition qt_ack_send :: "QueuePairMessageTracker \<Rightarrow> psn \<Rightarrow> QueuePairMessageTracker" where
  "qt_ack_send self psn = drain_send (self\<lparr> qt_send := tracker_ack (qt_send self) psn \<rparr>)"

definition qt_ack_recv :: "QueuePairMessageTracker \<Rightarrow> psn \<Rightarrow> QueuePairMessageTracker" where
  "qt_ack_recv self psn = drain_recv (self\<lparr> qt_recv := tracker_ack (qt_recv self) psn \<rparr>)"

definition send_completion :: "SendEvent \<Rightarrow> Completion" where
  "send_completion event = (case se_op event of
     WriteSignaled \<Rightarrow> Comp_RdmaWrite (se_wr_id event)
   | SendSignaled \<Rightarrow> Comp_Send (se_wr_id event)
   | ReadSignaled \<Rightarrow> Comp_RdmaRead (se_wr_id event))"

definition poll_send_completion :: "QueuePairMessageTracker \<Rightarrow> QueuePairMessageTracker \<times> (SendEvent \<times> Completion) option" where
  "poll_send_completion self = (case pop_send (qt_merge self) of
     (q, None) \<Rightarrow> (self\<lparr> qt_merge := q \<rparr>, None)
   | (q, Some event) \<Rightarrow> (self\<lparr> qt_merge := q \<rparr>, Some (event, send_completion event)))"

text \<open>\<^verbatim>\<open>pop_back\<close> takes the receive posted last.\<close>

definition pop_back :: "'a list \<Rightarrow> ('a list \<times> 'a) option" where
  "pop_back xs = (if xs = [] then None else Some (butlast xs, last xs))"

definition poll_recv_completion ::
  "QueuePairMessageTracker \<Rightarrow> (QueuePairMessageTracker \<times> (RecvEvent \<times> Completion option) option) option" where
  "poll_recv_completion self = (case pop_recv (qt_merge self) of
     (q, None) \<Rightarrow> Some (self, None)
   | (q, Some event) \<Rightarrow>
       let self = self\<lparr> qt_merge := q \<rparr> in
       case re_op event of
         Ev_WriteWithImm imm \<Rightarrow> Some (self, Some (event, Some (Comp_RecvRdmaWithImm imm)))
       | Ev_Recv \<Rightarrow> do {
           (posted, x) \<leftarrow> pop_back (qt_post_recv_queue self);
           Some (self\<lparr> qt_post_recv_queue := posted \<rparr>, Some (event, Some (Comp_Recv (pr_wr_id x) None))) }
       | Ev_RecvWithImm imm \<Rightarrow> do {
           (posted, x) \<leftarrow> pop_back (qt_post_recv_queue self);
           Some (self\<lparr> qt_post_recv_queue := posted \<rparr>, Some (event, Some (Comp_Recv (pr_wr_id x) (Some imm)))) }
       | Ev_ReadResp \<Rightarrow> None
       | _ \<Rightarrow> Some (self, Some (event, None)))"

subsection \<open>The worker\<close>

record CompletionWorker =
  cw_tracker_table :: "QueuePairMessageTracker qp_table"
  cw_cq_table :: "Completion list list"

definition completion_worker_new :: CompletionWorker where
  "completion_worker_new = \<lparr> cw_tracker_table = qp_table_new qt_default, cw_cq_table = replicate MAX_CQ_CNT [] \<rparr>"

definition cq_push_back :: "Completion list list \<Rightarrow> u32 \<Rightarrow> Completion \<Rightarrow> Completion list list" where
  "cq_push_back cqs handle c = cqs[unat handle := cqs ! unat handle @ [c]]"

definition cq_pop_front :: "Completion list list \<Rightarrow> u32 \<Rightarrow> Completion list list \<times> Completion option" where
  "cq_pop_front cqs handle = (case cqs ! unat handle of
     [] \<Rightarrow> (cqs, None)
   | c # cs \<Rightarrow> (cqs[unat handle := cs], Some c))"

text \<open>The loops over the completions that are ready.\<close>

function poll_sends :: "u32 \<Rightarrow> u32 \<Rightarrow> QueuePairMessageTracker \<times> Completion list list \<times> sent \<Rightarrow> QueuePairMessageTracker \<times> Completion list list \<times> sent" where
  "poll_sends qpn handle (tracker, cqs, out) = (case poll_send_completion tracker of
     (tracker', None) \<Rightarrow> (tracker', cqs, out)
   | (tracker', Some (event, completion)) \<Rightarrow>
       poll_sends qpn handle (tracker', cq_push_back cqs handle completion,
         and_then_sent out (nothing_sent\<lparr> out_timeout := [Timeout_Ack qpn], out_write := [NewComplete qpn (mm_msn (se_meta event))] \<rparr>)))"
  by pat_completeness auto

termination
  by (relation "measure (\<lambda>(_, _, t, _). length (mq_send (qt_merge t)))")
    (auto simp: poll_send_completion_def pop_send_def split: list.splits SendEventOp.splits prod.splits option.splits)

lemma poll_recv_shrinks:
  "poll_recv_completion t = Some (t', Some ec) \<Longrightarrow> length (mq_recv (qt_merge t')) < length (mq_recv (qt_merge t))"
  by (auto simp: poll_recv_completion_def pop_recv_def Let_def split: list.splits RecvEventOp.splits prod.splits option.splits Option.bind_splits)

function poll_recvs :: "u32 \<Rightarrow> u32 \<Rightarrow> QueuePairMessageTracker \<times> Completion list list \<times> sent \<Rightarrow> (QueuePairMessageTracker \<times> Completion list list \<times> sent) option" where
  "poll_recvs qpn handle (tracker, cqs, out) = (case poll_recv_completion tracker of
     None \<Rightarrow> None
   | Some (tracker', None) \<Rightarrow> Some (tracker', cqs, out)
   | Some (tracker', Some (event, completion)) \<Rightarrow>
       poll_recvs qpn handle (tracker',
         (case completion of None \<Rightarrow> cqs | Some c \<Rightarrow> cq_push_back cqs handle c),
         (if re_ack_req event then and_then_sent out (nothing_sent\<lparr> out_ack := [Response_Ack qpn (mm_msn (re_meta event)) (mm_end_psn (re_meta event))] \<rparr>) else out)))"
  by pat_completeness auto

termination
  by (relation "measure (\<lambda>(_, _, t, _). length (mq_recv (qt_merge t)))") (auto dest: poll_recv_shrinks)

declare poll_sends.simps [simp del] poll_recvs.simps [simp del]

definition cq_handle :: "Completion list list \<Rightarrow> u32 option \<Rightarrow> u32 option" where
  "cq_handle cqs h = (case h of Some handle \<Rightarrow> if unat handle < length cqs then Some handle else None | None \<Rightarrow> None)"

definition completion_process :: "QpAttr qp_table \<Rightarrow> CompletionWorker \<Rightarrow> CompletionTask \<Rightarrow> (CompletionWorker \<times> sent) option" where
  "completion_process qp_table self task = (
     let qpn = (case task of Register qpn _ \<Rightarrow> qpn | AckSend qpn _ \<Rightarrow> qpn | AckRecv qpn _ \<Rightarrow> qpn) in do {
       tracker \<leftarrow> get_qp (cw_tracker_table self) qpn;
       qp_attr \<leftarrow> get_qp qp_table qpn;
       (case task of
          Register _ event \<Rightarrow>
            Some (self\<lparr> cw_tracker_table := put_qp (cw_tracker_table self) qpn (qt_append tracker event) \<rparr>, nothing_sent)
        | AckSend _ base_psn \<Rightarrow> do {
            send_cq \<leftarrow> cq_handle (cw_cq_table self) (qa_send_cq qp_attr);
            let (tracker, cqs, out) = poll_sends qpn send_cq (qt_ack_send tracker base_psn, cw_cq_table self, nothing_sent);
            Some (self\<lparr> cw_tracker_table := put_qp (cw_tracker_table self) qpn tracker, cw_cq_table := cqs \<rparr>, out) }
        | AckRecv _ base_psn \<Rightarrow> do {
            send_cq \<leftarrow> cq_handle (cw_cq_table self) (qa_send_cq qp_attr);
            recv_cq \<leftarrow> cq_handle (cw_cq_table self) (qa_recv_cq qp_attr);
            (tracker, cqs, out) \<leftarrow> poll_recvs qpn recv_cq
              (poll_sends qpn send_cq (qt_ack_recv tracker base_psn, cw_cq_table self, nothing_sent));
            Some (self\<lparr> cw_tracker_table := put_qp (cw_tracker_table self) qpn tracker, cw_cq_table := cqs \<rparr>, out) }) })"

subsection \<open>Events are kept in message order\<close>

text \<open>The distance of a message sequence number from the first of a window.\<close>

definition msn_off :: "u16 \<Rightarrow> u16 \<Rightarrow> nat" where
  "msn_off b m = unat (m - b)"

lemma msn_off_inj: "msn_off b m = msn_off b n \<longleftrightarrow> m = n"
  by (simp add: msn_off_def flip: word_unat_eq_iff)

lemma msn_window_less:
  assumes "msn_off b m < 2 ^ 15" "msn_off b n < 2 ^ 15"
  shows "msn_partial_cmp (Msn m) (Msn n) = Less \<longleftrightarrow> msn_off b m < msn_off b n"
proof -
  have e: "m - n = (m - b) - (n - b)" by simp
  have k: "msn_off b m < 32768" "msn_off b n < 32768" using assms by simp_all
  have "uint (m - n) = (int (msn_off b m) - int (msn_off b n)) mod 2 ^ 16"
    unfolding e msn_off_def by (simp add: uint_word_ariths mod_diff_eq)
  then have u: "int (unat (m - n)) = (int (msn_off b m) - int (msn_off b n)) mod 2 ^ 16" by simp
  show ?thesis
  proof (cases "msn_off b m < msn_off b n")
    case True
    have "(int (msn_off b m) - int (msn_off b n)) mod 2 ^ 16 = (int (msn_off b m) - int (msn_off b n) + 2 ^ 16) mod 2 ^ 16" by simp
    also have "\<dots> = int (msn_off b m) - int (msn_off b n) + 2 ^ 16" using True assms by (intro mod_pos_pos_trivial) auto
    finally have "int (unat (m - n)) = int (msn_off b m) - int (msn_off b n) + 65536" using u by (simp only:) simp
    then have "unat (m - n) > MAX_SEND_WR" using k unfolding MAX_SEND_WR_def by linarith
    moreover from this have "m - n \<noteq> 0" by auto
    ultimately show ?thesis using True by (simp add: Let_def)
  next
    case False
    then have "(int (msn_off b m) - int (msn_off b n)) mod 2 ^ 16 = int (msn_off b m) - int (msn_off b n)"
      using assms by (intro mod_pos_pos_trivial) auto
    then have "\<not> unat (m - n) > MAX_SEND_WR" using u k unfolding MAX_SEND_WR_def by (simp only:)
    then show ?thesis using False by (simp add: Let_def)
  qed
qed

lemma position_append_None: "\<forall>x \<in> set xs. \<not> P x \<Longrightarrow> position P (xs @ ys) = map_option ((+) (length xs)) (position P ys)"
proof (induction xs)
  case (Cons x xs)
  then show ?case by (cases "position P ys") auto
qed (cases "position P ys"; simp)

lemma tracker_append_split:
  assumes "\<forall>y \<in> set ys. msn_partial_cmp (Msn (mm_msn (meta y))) (Msn (mm_msn (meta e))) = Less"
    and "\<forall>z \<in> set zs. msn_partial_cmp (Msn (mm_msn (meta z))) (Msn (mm_msn (meta e))) \<noteq> Less" and "mt_inner t = ys @ zs"
  shows "tracker_append meta t e = (if zs \<noteq> [] \<and> mm_msn (meta (hd zs)) = mm_msn (meta e) then t else t\<lparr> mt_inner := ys @ e # zs \<rparr>)"
proof -
  let ?P = "\<lambda>x. msn_partial_cmp (Msn (mm_msn (meta x))) (Msn (mm_msn (meta e))) = Less"
  have "position ?P (rev ys) = (if ys = [] then None else Some 0)" using assms(1) by (cases ys rule: rev_cases) auto
  then have "position ?P (rev (ys @ zs)) = (if ys = [] then None else Some (length zs))"
    using position_append_None [of "rev zs" ?P "rev ys"] assms(2) by simp
  then show ?thesis unfolding tracker_append_def Let_def assms(3) by (cases zs) (auto simp: nth_append)
qed

lemma tracker_append_sorted:
  fixes off :: "'e \<Rightarrow> nat"
  assumes off: "off = (\<lambda>x. msn_off b (mm_msn (meta x)))"
    and s: "sorted_wrt (<) (map off (mt_inner t))" and w: "\<forall>x \<in> insert e (set (mt_inner t)). off x < 2 ^ 15"
  shows "sorted_wrt (<) (map off (mt_inner (tracker_append meta t e)))"
    "set (mt_inner (tracker_append meta t e)) = (if off e \<in> off ` set (mt_inner t) then set (mt_inner t) else insert e (set (mt_inner t)))"
proof -
  define ys zs where "ys = takeWhile (\<lambda>x. off x < off e) (mt_inner t)" and "zs = dropWhile (\<lambda>x. off x < off e) (mt_inner t)"
  have xs: "mt_inner t = ys @ zs" by (simp add: ys_def zs_def)
  have l: "msn_partial_cmp (Msn (mm_msn (meta x))) (Msn (mm_msn (meta e))) = Less \<longleftrightarrow> off x < off e" if "x \<in> set (mt_inner t)" for x
    using w that unfolding off by (intro msn_window_less) auto
  have y: "\<forall>x \<in> set ys. off x < off e" unfolding ys_def by (auto dest: set_takeWhileD)
  have sz: "sorted_wrt (<) (map off zs)" "sorted_wrt (<) (map off ys)" "\<forall>x \<in> set ys. \<forall>z \<in> set zs. off x < off z"
    using s unfolding xs by (auto simp: sorted_wrt_append)
  have z: "\<forall>x \<in> set zs. off e \<le> off x"
  proof (cases zs)
    case (Cons z zs')
    have "\<not> off z < off e" using hd_dropWhile [of "\<lambda>x. off x < off e" "mt_inner t"] Cons unfolding zs_def by simp
    then show ?thesis using sz(1) Cons by fastforce
  qed simp
  have eq: "zs \<noteq> [] \<and> mm_msn (meta (hd zs)) = mm_msn (meta e) \<longleftrightarrow> off e \<in> off ` set (mt_inner t)"
  proof
    assume "zs \<noteq> [] \<and> mm_msn (meta (hd zs)) = mm_msn (meta e)"
    then show "off e \<in> off ` set (mt_inner t)" unfolding xs off by (intro image_eqI [of _ _ "hd zs"]) auto
  next
    assume "off e \<in> off ` set (mt_inner t)"
    then obtain x where x: "x \<in> set zs" "off x = off e" using y unfolding xs by auto
    then have "hd zs = x" using z sz(1) by (cases zs) fastforce+
    then show "zs \<noteq> [] \<and> mm_msn (meta (hd zs)) = mm_msn (meta e)" using x msn_off_inj unfolding off by (metis empty_iff empty_set)
  qed
  have a: "tracker_append meta t e = (if off e \<in> off ` set (mt_inner t) then t else t\<lparr> mt_inner := ys @ e # zs \<rparr>)"
    using tracker_append_split [of ys meta e zs t] l y z unfolding xs eq [unfolded xs] by fastforce
  show "set (mt_inner (tracker_append meta t e)) = (if off e \<in> off ` set (mt_inner t) then set (mt_inner t) else insert e (set (mt_inner t)))"
    unfolding a by (auto simp: xs)
  have "off e \<notin> off ` set (mt_inner t) \<Longrightarrow> \<forall>x \<in> set zs. off e < off x" using z unfolding xs by (auto simp: le_less)
  then show "sorted_wrt (<) (map off (mt_inner (tracker_append meta t e)))"
    unfolding a using s y sz by (auto simp: sorted_wrt_append)
qed

subsection \<open>Delivery\<close>

lemma drain_send_form:
  "drain_send self = self\<lparr> qt_send := qt_send self\<lparr> mt_inner := dropWhile (\<lambda>e. mm_end_psn (se_meta e) \<le> mt_base_psn (qt_send self)) (mt_inner (qt_send self)) \<rparr>,
     qt_merge := qt_merge self\<lparr> mq_send := mq_send (qt_merge self) @
       takeWhile (\<lambda>e. mm_end_psn (se_meta e) \<le> mt_base_psn (qt_send self)) (mt_inner (qt_send self)) \<rparr> \<rparr>"
proof (induction "mt_inner (qt_send self)" arbitrary: self)
  case Nil
  then show ?case by (subst drain_send.simps) (simp add: tracker_pop_def)
next
  case (Cons e es)
  then show ?case
    by (subst drain_send.simps) (simp add: tracker_pop_def Cons(2) [symmetric] push_send_def)
qed

text \<open>The events that complete when \<open>r\<close> read responses have arrived: a read without its response holds up those after it.\<close>

fun ready_sends :: "nat \<Rightarrow> SendEvent list \<Rightarrow> SendEvent list" where
  "ready_sends r [] = []"
| "ready_sends r (e # es) = (if se_op e \<noteq> ReadSignaled then e # ready_sends r es
     else if r = 0 then [] else e # ready_sends (r - 1) es)"

definition sends_out :: "u32 \<Rightarrow> SendEvent list \<Rightarrow> sent" where
  "sends_out qpn es = nothing_sent\<lparr> out_timeout := map (\<lambda>_. Timeout_Ack qpn) es, out_write := map (\<lambda>e. NewComplete qpn (mm_msn (se_meta e))) es \<rparr>"

lemma sends_out_Cons:
  "and_then_sent out (sends_out qpn (e # es)) = and_then_sent (and_then_sent out (nothing_sent\<lparr> out_timeout := [Timeout_Ack qpn],
     out_write := [NewComplete qpn (mm_msn (se_meta e))] \<rparr>)) (sends_out qpn es)"
  by (simp add: sends_out_def and_then_sent_def nothing_sent_def)

lemma sends_out_Nil [simp]: "sends_out qpn [] = nothing_sent"
  by (simp add: sends_out_def nothing_sent_def)

lemma cq_push_back_cons: "unat h < length cqs \<Longrightarrow>
  (cq_push_back cqs h c)[unat h := cq_push_back cqs h c ! unat h @ cs] = cqs[unat h := cqs ! unat h @ c # cs]"
  by (simp add: cq_push_back_def)

lemma poll_sends_form:
  assumes "unat h < length cqs"
  shows "\<exists>t'. poll_sends qpn h (t, cqs, out) = (t', cqs[unat h := cqs ! unat h @ map send_completion
      (ready_sends (length (mq_recv_read_resp (qt_merge t))) (mq_send (qt_merge t)))],
      and_then_sent out (sends_out qpn (ready_sends (length (mq_recv_read_resp (qt_merge t))) (mq_send (qt_merge t))))) \<and>
    qt_send t' = qt_send t \<and> qt_recv t' = qt_recv t \<and> qt_post_recv_queue t' = qt_post_recv_queue t \<and>
    mq_recv (qt_merge t') = mq_recv (qt_merge t) \<and>
    mq_send (qt_merge t') = drop (length (ready_sends (length (mq_recv_read_resp (qt_merge t))) (mq_send (qt_merge t)))) (mq_send (qt_merge t))"
  using assms
proof (induction "mq_send (qt_merge t)" arbitrary: t cqs out)
  case Nil
  have "poll_send_completion t = (t, None)" using Nil(1) by (simp add: poll_send_completion_def pop_send_def)
  then show ?case using Nil(1) [symmetric] by (subst poll_sends.simps) simp
next
  case (Cons e es)
  note s = Cons.hyps(2) [symmetric]
  show ?case
  proof (cases "se_op e = ReadSignaled \<and> mq_recv_read_resp (qt_merge t) = []")
    case True
    then have "poll_send_completion t = (t, None)" by (simp add: poll_send_completion_def pop_send_def s)
    then show ?thesis using True s by (subst poll_sends.simps) simp
  next
    case False
    define t1 where "t1 = t\<lparr> qt_merge := fst (pop_send (qt_merge t)) \<rparr>"
    have p: "poll_send_completion t = (t1, Some (e, send_completion e))"
      using False s by (auto simp: poll_send_completion_def pop_send_def t1_def split: SendEventOp.splits list.splits)
    have f: "mq_send (qt_merge t1) = es" "mq_recv_read_resp (qt_merge t1) = (if se_op e = ReadSignaled then tl (mq_recv_read_resp (qt_merge t)) else mq_recv_read_resp (qt_merge t))"
      "qt_send t1 = qt_send t" "qt_recv t1 = qt_recv t" "qt_post_recv_queue t1 = qt_post_recv_queue t" "mq_recv (qt_merge t1) = mq_recv (qt_merge t)"
      using False s by (auto simp: t1_def pop_send_def split: SendEventOp.splits list.splits)
    have r: "ready_sends (length (mq_recv_read_resp (qt_merge t))) (e # es) = e # ready_sends (length (mq_recv_read_resp (qt_merge t1))) es"
      using False by (auto simp: f(2))
    have l: "unat h < length (cq_push_back cqs h (send_completion e))" using Cons.prems by (simp add: cq_push_back_def)
    show ?thesis using Cons.hyps(1) [OF f(1) [symmetric] l, of "and_then_sent out (nothing_sent\<lparr> out_timeout := [Timeout_Ack qpn],
        out_write := [NewComplete qpn (mm_msn (se_meta e))] \<rparr>)"]
      unfolding s r f by (subst poll_sends.simps) (simp add: p sends_out_Cons cq_push_back_cons [OF Cons.prems])
  qed
qed
lemma ready_sends_0: "ready_sends 0 es = takeWhile (\<lambda>e. se_op e \<noteq> ReadSignaled) es"
  by (induction es) auto

fun completion_run :: "QpAttr qp_table \<Rightarrow> CompletionWorker \<Rightarrow> CompletionTask list \<Rightarrow> (CompletionWorker \<times> sent) option" where
  "completion_run attrs w [] = Some (w, nothing_sent)"
| "completion_run attrs w (task # tasks) = do {
     (w, out) \<leftarrow> completion_process attrs w task;
     (w, out') \<leftarrow> completion_run attrs w tasks;
     Some (w, and_then_sent out out') }"

lemma completion_run_append: "completion_run attrs w (xs @ ys) = do {
    (w, out) \<leftarrow> completion_run attrs w xs; (w, out') \<leftarrow> completion_run attrs w ys; Some (w, and_then_sent out out') }"
  by (induction xs arbitrary: w) (auto simp: and_then_sent_assoc split: Option.bind_splits)

lemma register_run:
  assumes "get_qp (cw_tracker_table w) qpn = Some t" "get_qp attrs qpn = Some a"
  shows "completion_run attrs w (map (\<lambda>e. Register qpn (Event_Send e)) es) = Some (w\<lparr> cw_tracker_table := put_qp (cw_tracker_table w) qpn
    (t\<lparr> qt_send := foldl (tracker_append se_meta) (qt_send t) es \<rparr>) \<rparr>, nothing_sent)"
  using assms(1)
proof (induction es arbitrary: w t)
  case Nil
  then show ?case using put_qp_same [OF Nil] by simp
next
  case (Cons e es)
  let ?t = "t\<lparr> qt_send := tracker_append se_meta (qt_send t) e \<rparr>"
  let ?w = "w\<lparr> cw_tracker_table := put_qp (cw_tracker_table w) qpn ?t \<rparr>"
  have "get_qp (cw_tracker_table ?w) qpn = Some ?t" using get_qp_Some [OF Cons.prems] by (simp add: get_put_qp)
  from Cons.IH [OF this] show ?case using Cons.prems assms(2)
    by (simp add: completion_process_def Let_def qt_append_def put_put_qp)
qed

lemma strictly_sorted_unique:
  fixes f :: "'a \<Rightarrow> nat"
  assumes "sorted_wrt (<) (map f xs)" "sorted_wrt (<) (map f ys)" "set xs = set ys"
  shows "xs = ys"
proof -
  have "map f xs = map f ys" using assms by (intro strict_sorted_equal) auto
  moreover have "inj_on f (set xs \<union> set ys)" using assms(1,3) by (simp add: strict_sorted_iff distinct_map)
  ultimately show ?thesis by (simp add: inj_on_map_eq_map)
qed

text \<open>The events that are registered first for their key.\<close>

definition firsts :: "('e \<Rightarrow> 'k) \<Rightarrow> 'e list \<Rightarrow> 'e list" where
  "firsts key es = foldl (\<lambda>acc e. if key e \<in> key ` set acc then acc else acc @ [e]) [] es"

lemma firsts_distinct: "distinct (map key (firsts key es))"
  by (induction es rule: rev_induct) (auto simp: firsts_def)

lemma firsts_subset: "set (firsts key es) \<subseteq> set es"
  by (induction es rule: rev_induct) (auto simp: firsts_def)

lemma firsts_inj: "(\<And>x y. f x = f y \<longleftrightarrow> g x = g y) \<Longrightarrow> firsts f es = firsts g es"
proof (induction es rule: rev_induct)
  case (snoc e es)
  then have "f e \<in> f ` set acc \<longleftrightarrow> g e \<in> g ` set acc" for acc by (auto simp: image_iff)
  with snoc show ?case by (simp add: firsts_def)
qed (simp add: firsts_def)

lemma appended_sorted:
  fixes off :: "'e \<Rightarrow> nat"
  assumes off: "off = (\<lambda>x. msn_off b (mm_msn (meta x)))" and "\<forall>e \<in> set es. off e < 2 ^ 15"
  shows "mt_inner (foldl (tracker_append meta) mt_default es) = sort_key off (firsts off es)"
proof -
  have "sorted_wrt (<) (map off (mt_inner (foldl (tracker_append meta) mt_default es))) \<and>
      set (mt_inner (foldl (tracker_append meta) mt_default es)) = set (firsts off es)"
    using assms(2)
  proof (induction es rule: rev_induct)
    case Nil
    then show ?case by (simp add: mt_default_def firsts_def)
  next
    case (snoc e es)
    let ?t = "foldl (tracker_append meta) mt_default es"
    have i: "sorted_wrt (<) (map off (mt_inner ?t))" "set (mt_inner ?t) = set (firsts off es)" using snoc by auto
    have w: "\<forall>x \<in> insert e (set (mt_inner ?t)). off x < 2 ^ 15" using snoc.prems i(2) firsts_subset [of off es] by auto
    show ?case using tracker_append_sorted [OF off i(1) w] i(2) by (auto simp: firsts_def)
  qed
  moreover have "sorted_wrt (<) (map off (sort_key off (firsts off es)))" using firsts_distinct [of off es]
    by (simp add: strict_sorted_iff distinct_map)
  ultimately show ?thesis by (intro strictly_sorted_unique) auto
qed

text \<open>C29. Completions of send requests are delivered once and in message order, whatever the order in which the requests were
  registered and however often. Registering requests of a queue pair, with message numbers within half a circle, in any order and with
  repetitions, of which the first counts, and then acknowledging the packets before a PSN puts into the send
  completion queue exactly the completions of the leading requests, by message number, that are acknowledged, up to the
  first read: a read waits for its response, and it and all requests after it stay. For each request completed
  the timeout worker and the write worker get one message.
\<close>

theorem completions_in_message_order:
  assumes "get_qp attrs qpn = Some a" "qpn_to_index qpn < MAX_QP_CNT" "qa_send_cq a = Some h" "unat h < MAX_CQ_CNT"
    and "\<forall>e \<in> set es. msn_off b (mm_msn (se_meta e)) < 2 ^ 15"
  shows "\<exists>w out. completion_run attrs completion_worker_new (map (\<lambda>e. Register qpn (Event_Send e)) es @ [AckSend qpn base]) = Some (w, out) \<and>
    (let ready = takeWhile (\<lambda>e. se_op e \<noteq> ReadSignaled) (takeWhile (\<lambda>e. mm_end_psn (se_meta e) \<le> base)
           (sort_key (\<lambda>e. msn_off b (mm_msn (se_meta e))) (firsts (\<lambda>e. mm_msn (se_meta e)) es)))
     in cw_cq_table w ! unat h = map send_completion ready \<and> out_timeout out = replicate (length ready) (Timeout_Ack qpn) \<and>
        out_write out = map (\<lambda>e. NewComplete qpn (mm_msn (se_meta e))) ready)"
proof -
  let ?off = "\<lambda>e. msn_off b (mm_msn (se_meta e))" and ?w = completion_worker_new
  let ?m = "foldl (tracker_append se_meta) mt_default es" and ?t = qt_default
  define fs where "fs = firsts (\<lambda>e. mm_msn (se_meta e)) es"
  have "firsts ?off es = fs" unfolding fs_def by (rule firsts_inj) (simp add: msn_off_inj)
  then have m: "mt_inner ?m = sort_key ?off fs" using appended_sorted [OF refl assms(5)] by simp
  have "get_qp (cw_tracker_table ?w) qpn = Some ?t"
    using assms(2) by (simp add: completion_worker_new_def qp_table_new_def get_qp_def)
  note r = register_run [OF this assms(1), of es]
  define t where "t = ?t\<lparr> qt_send := foldl (tracker_append se_meta) (qt_send ?t) es \<rparr>"
  define w where "w = ?w\<lparr> cw_tracker_table := put_qp (cw_tracker_table ?w) qpn t \<rparr>"
  have gw: "get_qp (cw_tracker_table w) qpn = Some t" "cw_cq_table w = replicate MAX_CQ_CNT []"
    using assms(2) by (simp_all add: w_def get_put_qp completion_worker_new_def qp_table_new_def)
  define ready where "ready = takeWhile (\<lambda>e. se_op e \<noteq> ReadSignaled) (takeWhile (\<lambda>e. mm_end_psn (se_meta e) \<le> base) (sort_key ?off fs))"
  have q: "mq_send (qt_merge (qt_ack_send t base)) = takeWhile (\<lambda>e. mm_end_psn (se_meta e) \<le> base) (sort_key ?off fs)"
    "mq_recv_read_resp (qt_merge (qt_ack_send t base)) = []"
    by (simp_all add: qt_ack_send_def drain_send_form t_def qt_default_def tracker_ack_def m)
  have c: "cq_handle (cw_cq_table w) (qa_send_cq a) = Some h" "unat h < length (cw_cq_table w)"
    using assms(3,4) gw(2) by (simp_all add: cq_handle_def)
  obtain t' where "poll_sends qpn h (qt_ack_send t base, cw_cq_table w, nothing_sent) =
      (t', (cw_cq_table w)[unat h := cw_cq_table w ! unat h @ map send_completion ready], sends_out qpn ready)"
    using poll_sends_form [OF c(2), of qpn "qt_ack_send t base" nothing_sent] by (auto simp: q ready_sends_0 ready_def)
  then have "completion_run attrs w [AckSend qpn base] = Some (w\<lparr> cw_tracker_table := put_qp (cw_tracker_table w) qpn t',
      cw_cq_table := (cw_cq_table w)[unat h := map send_completion ready] \<rparr>, sends_out qpn ready)"
    using assms(1,4) gw c by (simp add: completion_process_def Let_def)
  then show ?thesis unfolding completion_run_append using r c(2)
    by (simp add: t_def w_def ready_def [symmetric] fs_def [symmetric] sends_out_def map_replicate_const)
qed

theorem completions_in_message_order_witness:
  "\<exists>w out. completion_run (qp_table_new (default_qp_attr\<lparr> qa_send_cq := Some 3 \<rparr>)) completion_worker_new
     [Register 0x100 (Event_Send \<lparr> se_qpn = 0x100, se_op = SendSignaled, se_meta = \<lparr> mm_msn = 1, mm_end_psn = Psn 8 \<rparr>, se_wr_id = 71 \<rparr>),
      Register 0x100 (Event_Send \<lparr> se_qpn = 0x100, se_op = WriteSignaled, se_meta = \<lparr> mm_msn = 0, mm_end_psn = Psn 5 \<rparr>, se_wr_id = 70 \<rparr>),
      Register 0x100 (Event_Send \<lparr> se_qpn = 0x100, se_op = WriteSignaled, se_meta = \<lparr> mm_msn = 0, mm_end_psn = Psn 5 \<rparr>, se_wr_id = 70 \<rparr>),
      AckSend 0x100 (Psn 6)] = Some (w, out) \<and> cw_cq_table w ! 3 = [Comp_RdmaWrite 70]"
proof -
  let ?a = "default_qp_attr\<lparr> qa_send_cq := Some 3 \<rparr>"
  let ?e1 = "\<lparr> se_qpn = 0x100, se_op = SendSignaled, se_meta = \<lparr> mm_msn = 1, mm_end_psn = Psn 8 \<rparr>, se_wr_id = 71 \<rparr>"
  let ?e0 = "\<lparr> se_qpn = 0x100, se_op = WriteSignaled, se_meta = \<lparr> mm_msn = 0, mm_end_psn = Psn 5 \<rparr>, se_wr_id = 70 \<rparr>"
  have i: "qpn_to_index 0x100 = 1" by (simp add: qpn_to_index_def QPN_KEY_PART_WIDTH_def)
  have "get_qp (qp_table_new ?a) 0x100 = Some ?a" by (simp add: get_qp_def qp_table_new_def i MAX_QP_CNT_def)
  note t = completions_in_message_order [OF this, of 3 "[?e1, ?e0, ?e0]" 0 "Psn 6"]
  have "Psn 5 \<le> Psn 6" "\<not> Psn 8 \<le> Psn 6" by (simp_all add: near_less seq_def)
  then show ?thesis using t
    by (simp add: i MAX_QP_CNT_def MAX_CQ_CNT_def msn_off_def Let_def firsts_def send_completion_def del: completion_run.simps) blast
qed

subsection \<open>Receives\<close>

lemma drain_recv_form:
  assumes "\<forall>e \<in> set (mt_inner (qt_recv self)). re_op e \<noteq> Ev_ReadResp \<and> mm_end_psn (re_meta e) \<le> mt_base_psn (qt_recv self)"
  shows "drain_recv self = self\<lparr> qt_recv := qt_recv self\<lparr> mt_inner := [] \<rparr>,
     qt_merge := qt_merge self\<lparr> mq_recv := mq_recv (qt_merge self) @ mt_inner (qt_recv self) \<rparr> \<rparr>"
  using assms
proof (induction "mt_inner (qt_recv self)" arbitrary: self)
  case Nil
  then show ?case by (subst drain_recv.simps) (simp add: tracker_pop_def)
next
  case (Cons e es)
  have "push_recv (qt_merge self) e = qt_merge self\<lparr> mq_recv := mq_recv (qt_merge self) @ [e] \<rparr>"
    using Cons.prems Cons.hyps(2) [symmetric] by (auto simp: push_recv_def split: RecvEventOp.splits)
  then show ?case using Cons.prems Cons.hyps(2) [symmetric] Cons.hyps(1) [of "self\<lparr> qt_recv := qt_recv self\<lparr> mt_inner := es \<rparr>,
      qt_merge := push_recv (qt_merge self) e \<rparr>"]
    by (subst drain_recv.simps) (simp add: tracker_pop_def)
qed

definition acks_out :: "u32 \<Rightarrow> RecvEvent list \<Rightarrow> sent" where
  "acks_out qpn es = nothing_sent\<lparr> out_ack := map (\<lambda>e. Response_Ack qpn (mm_msn (re_meta e)) (mm_end_psn (re_meta e))) (filter re_ack_req es) \<rparr>"

lemma poll_recvs_lifo:
  assumes "unat h < length cqs" "\<forall>e \<in> set (mq_recv (qt_merge t)). re_op e = Ev_Recv"
    "length (mq_recv (qt_merge t)) \<le> length (qt_post_recv_queue t)"
  shows "\<exists>t'. poll_recvs qpn h (t, cqs, out) = Some (t', cqs[unat h := cqs ! unat h @
      map (\<lambda>p. Comp_Recv (pr_wr_id p) None) (take (length (mq_recv (qt_merge t))) (rev (qt_post_recv_queue t)))],
      and_then_sent out (acks_out qpn (mq_recv (qt_merge t))))"
  using assms
proof (induction "mq_recv (qt_merge t)" arbitrary: t cqs out)
  case Nil
  have "poll_recv_completion t = Some (t, None)" using Nil(1) by (simp add: poll_recv_completion_def pop_recv_def)
  then show ?case using Nil(1) [symmetric] by (subst poll_recvs.simps) (simp add: acks_out_def)
next
  case (Cons e es)
  note s = Cons.hyps(2) [symmetric]
  obtain ps p where ps: "qt_post_recv_queue t = ps @ [p]" using Cons.prems(3) s by (cases "qt_post_recv_queue t" rule: rev_cases) auto
  define t1 where "t1 = t\<lparr> qt_merge := qt_merge t\<lparr> mq_recv := es \<rparr>, qt_post_recv_queue := ps \<rparr>"
  let ?out = "if re_ack_req e then and_then_sent out (nothing_sent\<lparr> out_ack := [Response_Ack qpn (mm_msn (re_meta e)) (mm_end_psn (re_meta e))] \<rparr>) else out"
  have p: "poll_recv_completion t = Some (t1, Some (e, Some (Comp_Recv (pr_wr_id p) None)))"
    using Cons.prems(2) s by (simp add: poll_recv_completion_def pop_recv_def t1_def ps pop_back_def)
  have o: "and_then_sent ?out (acks_out qpn es) = and_then_sent out (acks_out qpn (e # es))"
    by (simp add: acks_out_def and_then_sent_def nothing_sent_def)
  have h: "\<forall>e \<in> set (mq_recv (qt_merge t1)). re_op e = Ev_Recv" "length (mq_recv (qt_merge t1)) \<le> length (qt_post_recv_queue t1)"
    "es = mq_recv (qt_merge t1)" "unat h < length (cq_push_back cqs h (Comp_Recv (pr_wr_id p) None))"
    using Cons.prems s ps by (auto simp: t1_def cq_push_back_def)
  have post: "qt_post_recv_queue t1 = ps" by (simp add: t1_def)
  show ?case using Cons.hyps(1) [OF h(3,4,1,2), of ?out] unfolding s h(3) [symmetric] post o
    by (subst poll_recvs.simps) (simp add: p ps cq_push_back_cons [OF Cons.prems(1)])
qed

text \<open>C31. Receives complete in the reverse of the order in which they were posted: when the packets of some messages that
  consume a receive are acknowledged, the completions carry the identifiers of the receives posted last, the last one
  first. The verbs interface promises the order of posting.
\<close>

theorem receives_complete_in_reverse:
  assumes "get_qp attrs qpn = Some a" "get_qp (cw_tracker_table w) qpn = Some t"
    and "qa_send_cq a = Some s" "unat s < length (cw_cq_table w)" "qa_recv_cq a = Some h" "unat h < length (cw_cq_table w)"
    and "qt_merge t = \<lparr> mq_send = [], mq_recv = [], mq_recv_read_resp = [] \<rparr>"
    and "\<forall>e \<in> set (mt_inner (qt_recv t)). re_op e = Ev_Recv \<and> mm_end_psn (re_meta e) \<le> base"
    and "length (mt_inner (qt_recv t)) \<le> length (qt_post_recv_queue t)"
  shows "\<exists>w' out. completion_process attrs w (AckRecv qpn base) = Some (w', out) \<and>
    cw_cq_table w' ! unat h = cw_cq_table w ! unat h @
      map (\<lambda>p. Comp_Recv (pr_wr_id p) None) (take (length (mt_inner (qt_recv t))) (rev (qt_post_recv_queue t)))"
proof -
  let ?t = "t\<lparr> qt_recv := tracker_ack (qt_recv t) base \<rparr>"
  have "\<forall>e \<in> set (mt_inner (qt_recv ?t)). re_op e \<noteq> Ev_ReadResp \<and> mm_end_psn (re_meta e) \<le> mt_base_psn (qt_recv ?t)"
    using assms(8) by (auto simp: tracker_ack_def)
  note d = drain_recv_form [OF this, folded qt_ack_recv_def]
  define t1 where "t1 = qt_ack_recv t base"
  have t1: "mq_recv (qt_merge t1) = mt_inner (qt_recv t)" "mq_send (qt_merge t1) = []" "qt_post_recv_queue t1 = qt_post_recv_queue t"
    unfolding t1_def d using assms(7) by (simp_all add: tracker_ack_def)
  have p: "poll_sends qpn s (t1, cw_cq_table w, nothing_sent) = (t1, cw_cq_table w, nothing_sent)"
    using t1(2) by (subst poll_sends.simps) (simp add: poll_send_completion_def pop_send_def)
  obtain t2 where r: "poll_recvs qpn h (t1, cw_cq_table w, nothing_sent) = Some (t2, (cw_cq_table w)[unat h := cw_cq_table w ! unat h @
      map (\<lambda>p. Comp_Recv (pr_wr_id p) None) (take (length (mt_inner (qt_recv t))) (rev (qt_post_recv_queue t)))],
      acks_out qpn (mt_inner (qt_recv t)))"
    using poll_recvs_lifo [OF assms(6), of t1 qpn nothing_sent] assms(8,9) t1 by auto
  show ?thesis using assms(1-6) r p by (simp add: completion_process_def Let_def cq_handle_def t1_def)
qed

theorem receives_complete_in_reverse_witness:
  "let a = default_qp_attr\<lparr> qa_send_cq := Some 3, qa_recv_cq := Some 4 \<rparr>;
       ev = \<lambda>m. \<lparr> re_qpn = 0x100, re_op = Ev_Recv, re_meta = \<lparr> mm_msn = m, mm_end_psn = Psn 5 \<rparr>, re_ack_req = False \<rparr>;
       t = qt_default\<lparr> qt_recv := mt_default\<lparr> mt_inner := [ev 0, ev 1] \<rparr>,
             qt_post_recv_queue := [\<lparr> pr_qpn = 0x100, pr_wr_id = 70 \<rparr>, \<lparr> pr_qpn = 0x100, pr_wr_id = 71 \<rparr>] \<rparr>
   in \<exists>w' out. completion_process (qp_table_new a) (completion_worker_new\<lparr> cw_tracker_table := qp_table_new t \<rparr>) (AckRecv 0x100 (Psn 6)) = Some (w', out) \<and>
     cw_cq_table w' ! 4 = [Comp_Recv 71 None, Comp_Recv 70 None]"
proof -
  have i: "qpn_to_index 0x100 = 1" by (simp add: qpn_to_index_def QPN_KEY_PART_WIDTH_def)
  have g: "get_qp (qp_table_new x) 0x100 = Some x" for x :: 'x by (simp add: get_qp_def qp_table_new_def i MAX_QP_CNT_def)
  define ev where "ev = (\<lambda>m. \<lparr> re_qpn = 0x100, re_op = Ev_Recv, re_meta = \<lparr> mm_msn = m, mm_end_psn = Psn 5 \<rparr>, re_ack_req = False \<rparr>)"
  define t where "t = qt_default\<lparr> qt_recv := mt_default\<lparr> mt_inner := [ev 0, ev 1] \<rparr>,
    qt_post_recv_queue := [\<lparr> pr_qpn = 0x100, pr_wr_id = 70 \<rparr>, \<lparr> pr_qpn = 0x100, pr_wr_id = 71 \<rparr>] \<rparr>"
  have gt: "get_qp (cw_tracker_table (completion_worker_new\<lparr> cw_tracker_table := qp_table_new t \<rparr>)) 0x100 = Some t" by (simp add: g)
  have "Psn 5 \<le> Psn 6" by (simp add: near_less seq_def)
  with receives_complete_in_reverse [OF g [of "default_qp_attr\<lparr> qa_send_cq := Some 3, qa_recv_cq := Some 4 \<rparr>"] gt, of 3 4 "Psn 6"]
  show ?thesis unfolding Let_def ev_def [symmetric] t_def [symmetric]
    by (simp add: completion_worker_new_def MAX_CQ_CNT_def t_def qt_default_def mt_default_def ev_def)
qed

end
