(* ===== verification/QpTimeout.thy ===== *)
theory QpTimeout
  imports RdmaTasks
begin

text \<open>
  The acknowledgement timeout worker of the Rust driver (\<^verbatim>\<open>workers/qp_timeout.rs\<close>). The clock is an argument: an instant is a
  number of nanoseconds. Counters and shifts wrap as in a release build; \<open>None\<close> is a panic.
\<close>

subsection \<open>Timers\<close>

record AckTimeoutConfig =
  check_duration_exp :: u8
  local_ack_timeout_exp :: u8
  init_retry_count :: nat

definition default_timeout_config :: AckTimeoutConfig where
  "default_timeout_config = \<lparr> check_duration_exp = 8, local_ack_timeout_exp = 50, init_retry_count = 5 \<rparr>"

record TransportTimer =
  tt_timeout_interval :: "nat option"
  tt_last_start :: "nat option"
  tt_init_retry_counter :: nat
  tt_current_retry_counter :: nat

datatype TimerResult = Timer_Ok | Timeout | RetryLimitExceeded

definition timer_new :: "u8 \<Rightarrow> nat \<Rightarrow> TransportTimer" where
  "timer_new local_ack_timeout init_retry_counter = \<lparr>
     tt_timeout_interval = (if local_ack_timeout = 0 then None else Some (unat (push_bit (unat local_ack_timeout mod 64) (4096 :: u64)))),
     tt_last_start = None, tt_init_retry_counter = init_retry_counter, tt_current_retry_counter = init_retry_counter \<rparr>"

definition timer_stop :: "TransportTimer \<Rightarrow> TransportTimer" where
  "timer_stop self = self\<lparr> tt_last_start := None \<rparr>"

definition timer_restart :: "nat \<Rightarrow> TransportTimer \<Rightarrow> TransportTimer" where
  "timer_restart now self = self\<lparr> tt_current_retry_counter := tt_init_retry_counter self, tt_last_start := Some now \<rparr>"

definition timer_reset :: "nat \<Rightarrow> TransportTimer \<Rightarrow> TransportTimer" where
  "timer_reset now self = self\<lparr> tt_last_start := Some now \<rparr>"

definition check_timeout :: "nat \<Rightarrow> TransportTimer \<Rightarrow> TransportTimer \<times> TimerResult" where
  "check_timeout now self = (case tt_timeout_interval self of
     None \<Rightarrow> (self, Timer_Ok)
   | Some timeout_interval \<Rightarrow> (case tt_last_start self of
       None \<Rightarrow> (self, Timer_Ok)
     | Some start_time \<Rightarrow>
         if now - start_time < timeout_interval then (self, Timer_Ok)
         else if tt_current_retry_counter self = 0 then (self, RetryLimitExceeded)
         else (timer_reset now (self\<lparr> tt_current_retry_counter := tt_current_retry_counter self - 1 \<rparr>), Timeout)))"

subsection \<open>The worker\<close>

record QpAckTimeoutWorker =
  tw_timer_table :: "TransportTimer qp_table"
  tw_outstanding_ack_req_cnt :: "u64 qp_table"

definition timeout_worker_new :: "AckTimeoutConfig \<Rightarrow> QpAckTimeoutWorker" where
  "timeout_worker_new config = \<lparr> tw_timer_table = qp_table_new (timer_new (local_ack_timeout_exp config) (init_retry_count config)),
     tw_outstanding_ack_req_cnt = qp_table_new 0 \<rparr>"

definition on_timer :: "QpAckTimeoutWorker \<Rightarrow> u32 \<Rightarrow> (TransportTimer \<Rightarrow> TransportTimer) \<Rightarrow> QpAckTimeoutWorker" where
  "on_timer self qpn f = self\<lparr> tw_timer_table := fst (map_qp_mut (tw_timer_table self) qpn (\<lambda>t. (f t, ()))) \<rparr>"

definition timeout_process :: "nat \<Rightarrow> QpAckTimeoutWorker \<Rightarrow> AckTimeoutTask \<Rightarrow> QpAckTimeoutWorker" where
  "timeout_process now self task = (case task of
     NewAckReq qpn \<Rightarrow>
       let (cnt, _) = map_qp_mut (tw_outstanding_ack_req_cnt self) qpn (\<lambda>x. (x + 1, ()))
       in on_timer (self\<lparr> tw_outstanding_ack_req_cnt := cnt \<rparr>) qpn (timer_restart now)
   | RecvMeta qpn \<Rightarrow> on_timer self qpn (timer_restart now)
   | Timeout_Ack qpn \<Rightarrow>
       let (cnt, r) = map_qp_mut (tw_outstanding_ack_req_cnt self) qpn (\<lambda>x. (x - 1, x - 1 = 0));
           self = self\<lparr> tw_outstanding_ack_req_cnt := cnt \<rparr>
       in if r = Some True then on_timer self qpn timer_stop else self)"

fun check_timers :: "nat \<Rightarrow> nat \<Rightarrow> TransportTimer list \<Rightarrow> (TransportTimer list \<times> PacketRetransmitTask list) option" where
  "check_timers now index [] = Some ([], [])"
| "check_timers now index (timer # timers) = (case check_timeout now timer of
     (timer, Timer_Ok) \<Rightarrow> do {
       (timers, out) \<leftarrow> check_timers now (index + 1) timers;
       Some (timer # timers, out) }
   | (timer, Timeout) \<Rightarrow> do {
       (timers, out) \<leftarrow> check_timers now (index + 1) timers;
       Some (timer # timers, RetransmitAll (word_of_nat (index * 2 ^ QPN_KEY_PART_WIDTH)) # out) }
   | (timer, RetryLimitExceeded) \<Rightarrow> None)"

definition timeout_maintainance :: "nat \<Rightarrow> QpAckTimeoutWorker \<Rightarrow> (QpAckTimeoutWorker \<times> sent) option" where
  "timeout_maintainance now self = do {
     (timers, out) \<leftarrow> check_timers now 0 (tw_timer_table self);
     Some (self\<lparr> tw_timer_table := timers \<rparr>, nothing_sent\<lparr> out_retransmit := out \<rparr>) }"

subsection \<open>Timers expire on schedule\<close>

fun maintain_run :: "QpAckTimeoutWorker \<Rightarrow> nat list \<Rightarrow> (QpAckTimeoutWorker \<times> sent) option" where
  "maintain_run w [] = Some (w, nothing_sent)"
| "maintain_run w (now # nows) = do {
     (w, out) \<leftarrow> timeout_maintainance now w;
     (w, out') \<leftarrow> maintain_run w nows;
     Some (w, and_then_sent out out') }"

lemma check_timers_append:
  "check_timers now i (xs @ ys) = do {
     (xs', o1) \<leftarrow> check_timers now i xs;
     (ys', o2) \<leftarrow> check_timers now (i + length xs) ys;
     Some (xs' @ ys', o1 @ o2) }"
  by (induction xs arbitrary: i)
    (auto split: prod.splits TimerResult.splits Option.bind_splits)

definition idle :: "TransportTimer \<Rightarrow> bool" where
  "idle t \<longleftrightarrow> tt_timeout_interval t = None \<or> tt_last_start t = None"

lemma check_timers_idle: "\<forall>t \<in> set ts. idle t \<Longrightarrow> check_timers now i ts = Some (ts, [])"
  by (induction ts arbitrary: i) (auto simp: check_timeout_def idle_def split: option.splits)

text \<open>A pass over a table in which only the timer at one index is running.\<close>

lemma maintainance_one:
  assumes "i < length ts" "\<forall>j < length ts. j \<noteq> i \<longrightarrow> idle (ts ! j)" "tw_timer_table w = ts"
  shows "timeout_maintainance now w = (case check_timeout now (ts ! i) of
     (t, Timer_Ok) \<Rightarrow> Some (w\<lparr> tw_timer_table := ts[i := t] \<rparr>, nothing_sent)
   | (t, Timeout) \<Rightarrow> Some (w\<lparr> tw_timer_table := ts[i := t] \<rparr>, nothing_sent\<lparr> out_retransmit := [RetransmitAll (word_of_nat (i * 2 ^ QPN_KEY_PART_WIDTH))] \<rparr>)
   | (t, RetryLimitExceeded) \<Rightarrow> None)"
proof -
  have e: "ts = take i ts @ ts ! i # drop (Suc i) ts" using assms(1) by (simp add: id_take_nth_drop)
  have "idle t" if "t \<in> set (take i ts)" for t
    using that assms(1,2) by (auto simp: in_set_conv_nth)
  moreover have "idle t" if t: "t \<in> set (drop (Suc i) ts)" for t
  proof -
    obtain j where "j < length (drop (Suc i) ts)" "t = drop (Suc i) ts ! j" using t unfolding in_set_conv_nth by blast
    then show ?thesis using assms(1,2) by simp
  qed
  ultimately have "check_timers now 0 ts = (case check_timeout now (ts ! i) of
      (t, Timer_Ok) \<Rightarrow> Some (ts[i := t], [])
    | (t, Timeout) \<Rightarrow> Some (ts[i := t], [RetransmitAll (word_of_nat (i * 2 ^ QPN_KEY_PART_WIDTH))])
    | (t, RetryLimitExceeded) \<Rightarrow> None)"
    using assms(1) by (subst e, subst check_timers_append)
      (auto simp: check_timers_idle upd_conv_take_nth_drop min_def split: prod.splits TimerResult.splits)
  then show ?thesis using assms(3)
    by (auto simp: timeout_maintainance_def nothing_sent_def split: prod.splits TimerResult.splits)
qed

definition retransmits :: "nat \<Rightarrow> nat \<Rightarrow> sent" where
  "retransmits n index = nothing_sent\<lparr> out_retransmit := replicate n (RetransmitAll (word_of_nat (index * 2 ^ QPN_KEY_PART_WIDTH))) \<rparr>"

lemma retransmits_Suc: "and_then_sent (nothing_sent\<lparr> out_retransmit := [RetransmitAll (word_of_nat (i * 2 ^ QPN_KEY_PART_WIDTH))] \<rparr>) (retransmits n i) = retransmits (Suc n) i"
  by (simp add: retransmits_def and_then_sent_def nothing_sent_def)

lemma maintain_retries:
  assumes "i < length (tw_timer_table w)" "\<forall>j < length (tw_timer_table w). j \<noteq> i \<longrightarrow> idle (tw_timer_table w ! j)"
    and "tw_timer_table w ! i = t" "tt_timeout_interval t = Some d" "tt_last_start t = Some s" "tt_current_retry_counter t = n"
  shows "\<exists>w'. maintain_run w (map (\<lambda>k. s + Suc k * d) [0..<n]) = Some (w', retransmits n i) \<and> timeout_maintainance (s + Suc n * d) w' = None"
  using assms
proof (induction n arbitrary: w t s)
  case 0
  have "timeout_maintainance (s + d) w = None"
    using maintainance_one [OF 0(1,2) refl] 0 by (simp add: check_timeout_def)
  then show ?case by (simp add: retransmits_def nothing_sent_def)
next
  case (Suc n)
  define t' where "t' = timer_reset (s + d) (t\<lparr> tt_current_retry_counter := n \<rparr>)"
  define w' where "w' = w\<lparr> tw_timer_table := (tw_timer_table w)[i := t'] \<rparr>"
  have m: "timeout_maintainance (s + d) w = Some (w', nothing_sent\<lparr> out_retransmit := [RetransmitAll (word_of_nat (i * 2 ^ QPN_KEY_PART_WIDTH))] \<rparr>)"
    using maintainance_one [OF Suc.prems(1,2) refl] Suc.prems by (simp add: check_timeout_def t'_def w'_def)
  have "\<exists>w''. maintain_run w' (map (\<lambda>k. (s + d) + Suc k * d) [0..<n]) = Some (w'', retransmits n i) \<and>
      timeout_maintainance ((s + d) + Suc n * d) w'' = None"
    by (rule Suc.IH [where t = t']) (use Suc.prems in \<open>auto simp: w'_def t'_def timer_reset_def nth_list_update\<close>)
  then obtain w'' where w'': "maintain_run w' (map (\<lambda>k. (s + d) + Suc k * d) [0..<n]) = Some (w'', retransmits n i)"
    "timeout_maintainance ((s + d) + Suc n * d) w'' = None" by blast
  have l: "map (\<lambda>k. s + Suc k * d) [0..<Suc n] = (s + d) # map (\<lambda>k. (s + d) + Suc k * d) [0..<n]"
    by (simp add: upt_conv_Cons map_Suc_upt [symmetric] algebra_simps del: upt_Suc)
  have e: "s + Suc (Suc n) * d = (s + d) + Suc n * d" by simp
  show ?case unfolding l e using w'' by (simp only: maintain_run.simps m bind.bind_lunit prod.case retransmits_Suc) blast
qed

text \<open>C32. A message from the card starts the timer of its queue pair although no acknowledgement is awaited, and nothing stops it:
  on a queue pair that is otherwise idle the worker asks for a retransmission after every timeout interval, as often as
  the retry limit says, and panics after one interval more.
\<close>

theorem idle_queue_pair_panics:
  assumes "qpn_to_index q < MAX_QP_CNT" "local_ack_timeout_exp c \<noteq> 0"
  shows "let d = unat (push_bit (unat (local_ack_timeout_exp c) mod 64) (4096 :: u64)); n = init_retry_count c;
      w = timeout_process s (timeout_worker_new c) (RecvMeta q)
    in get_qp (tw_outstanding_ack_req_cnt w) q = Some 0 \<and>
       (\<exists>w'. maintain_run w (map (\<lambda>k. s + Suc k * d) [0..<n]) = Some (w', retransmits n (qpn_to_index q)) \<and>
          timeout_maintainance (s + Suc n * d) w' = None)"
proof -
  define w where "w = timeout_process s (timeout_worker_new c) (RecvMeta q)"
  let ?t = "timer_new (local_ack_timeout_exp c) (init_retry_count c)"
  have tt: "tw_timer_table w = (qp_table_new ?t)[qpn_to_index q := timer_restart s ?t]"
    using assms(1) by (simp add: w_def timeout_process_def on_timer_def timeout_worker_new_def map_qp_mut_def get_qp_def put_qp_def qp_table_new_def)
  have "get_qp (tw_outstanding_ack_req_cnt w) q = Some 0"
    using assms(1) by (simp add: w_def timeout_process_def on_timer_def timeout_worker_new_def get_qp_def qp_table_new_def)
  moreover have "\<exists>w'. maintain_run w (map (\<lambda>k. s + Suc k * unat (push_bit (unat (local_ack_timeout_exp c) mod 64) (4096 :: u64))) [0..<init_retry_count c]) =
      Some (w', retransmits (init_retry_count c) (qpn_to_index q)) \<and>
      timeout_maintainance (s + Suc (init_retry_count c) * unat (push_bit (unat (local_ack_timeout_exp c) mod 64) (4096 :: u64))) w' = None"
    by (rule maintain_retries [where t = "timer_restart s ?t"])
      (use assms in \<open>auto simp: tt qp_table_new_def timer_restart_def timer_new_def idle_def\<close>)
  ultimately show ?thesis unfolding Let_def w_def [symmetric] by blast
qed

theorem idle_queue_pair_panics_witness:
  "let w = timeout_process 0 (timeout_worker_new (default_timeout_config\<lparr> local_ack_timeout_exp := 1, init_retry_count := 1 \<rparr>)) (RecvMeta 0x100)
   in \<exists>w'. maintain_run w [8192] = Some (w', retransmits 1 1) \<and> timeout_maintainance 16384 w' = None"
  using idle_queue_pair_panics [of "0x100" "default_timeout_config\<lparr> local_ack_timeout_exp := 1, init_retry_count := 1 \<rparr>" 0]
  by (simp add: Let_def qpn_to_index_def QPN_KEY_PART_WIDTH_def MAX_QP_CNT_def default_timeout_config_def del: maintain_run.simps)

text \<open>Acknowledgements in excess of the requests wrap the counter around, and the timer is not stopped.\<close>

lemma surplus_ack_wraps:
  assumes "get_qp (tw_outstanding_ack_req_cnt w) q = Some 0"
  shows "get_qp (tw_outstanding_ack_req_cnt (timeout_process now w (Timeout_Ack q))) q = Some (- 1) \<and>
    tw_timer_table (timeout_process now w (Timeout_Ack q)) = tw_timer_table w"
  using assms by (auto simp: timeout_process_def map_qp_mut_def get_qp_def put_qp_def Let_def split: if_splits)

end
