(* ===== verification/Retransmit.thy ===== *)
theory Retransmit
  imports RdmaTasks
begin

text \<open>
  The retransmission worker of the Rust driver (\<^verbatim>\<open>workers/retransmit.rs\<close>). It keeps the work requests of a queue pair that are
  not acknowledged yet, in the order of their PSNs, and rebuilds their packets on demand. \<open>None\<close> is a panic.
\<close>

subsection \<open>The queue of unacknowledged requests\<close>

record IbvSendQueue =
  ibq_inner :: "SendQueueElem list"
  ibq_base_psn :: psn

definition ibq_default :: IbvSendQueue where
  "ibq_default = \<lparr> ibq_inner = [], ibq_base_psn = Psn 0 \<rparr>"

text \<open>
  \<^verbatim>\<open>VecDeque::partition_point\<close> on a sequence whose elements with the property come first, which is what the library
  requires of its caller.
\<close>

definition partition_point :: "('a \<Rightarrow> bool) \<Rightarrow> 'a list \<Rightarrow> nat" where
  "partition_point P xs = length (takeWhile P xs)"

definition ibq_push :: "IbvSendQueue \<Rightarrow> SendQueueElem \<Rightarrow> IbvSendQueue" where
  "ibq_push self elem = self\<lparr> ibq_inner := ibq_inner self @ [elem] \<rparr>"

definition pop_until :: "IbvSendQueue \<Rightarrow> psn \<Rightarrow> IbvSendQueue" where
  "pop_until self psn = (
     let a = partition_point (\<lambda>x. sqe_psn x < psn) (ibq_inner self)
     in self\<lparr> ibq_inner := drop (a - 1) (ibq_inner self), ibq_base_psn := psn \<rparr>)"

definition ibq_range :: "IbvSendQueue \<Rightarrow> psn \<Rightarrow> psn \<Rightarrow> SendQueueElem list" where
  "ibq_range self psn_low psn_high = (
     let a = partition_point (\<lambda>x. sqe_psn x < psn_low) (ibq_inner self);
         b = partition_point (\<lambda>x. sqe_psn x < psn_high) (ibq_inner self)
     in if b \<le> a then [] else take (b - a) (drop a (ibq_inner self)))"

subsection \<open>The worker\<close>

text \<open>
  The packets of some requests, one request after the other. The iterators are lazy: the flag says that making the packets
  after those of the list panics.
\<close>

fun flat_packets :: "SendQueueElem list \<Rightarrow> WrChunk list \<times> bool" where
  "flat_packets [] = ([], False)"
| "flat_packets (sqe # sqes) = (case wr_packets (sqe_wr sqe) (sqe_qp_param sqe) (sqe_psn sqe) of
     None \<Rightarrow> ([], True)
   | Some ps \<Rightarrow> (case flat_packets sqes of (qs, panic) \<Rightarrow> (ps @ qs, panic)))"

definition retransmit_process :: "IbvSendQueue qp_table \<Rightarrow> PacketRetransmitTask \<Rightarrow> (IbvSendQueue qp_table \<times> sent) option" where
  "retransmit_process table task = (case get_qp table (prt_qpn task) of
     None \<Rightarrow> Some (table, nothing_sent)
   | Some sq \<Rightarrow> (case task of
       NewWr qpn wr \<Rightarrow> Some (put_qp table qpn (ibq_push sq wr), nothing_sent)
     | RetransmitRange qpn psn_low psn_high \<Rightarrow>
         let (all, panic) = flat_packets (ibq_range sq psn_low psn_high);
             from_low = dropWhile (\<lambda>x. ck_psn x < psn_low) all;
             packets = takeWhile (\<lambda>x. ck_psn x < psn_high) from_low
         in if panic \<and> packets = from_low then None
            else Some (table, nothing_sent\<lparr> out_chunks := map set_is_retry packets \<rparr>)
     | RetransmitAll qpn \<Rightarrow>
         let (all, panic) = flat_packets (ibq_inner sq);
             packets = dropWhile (\<lambda>x. ck_psn x < ibq_base_psn sq) all
         in if panic then None else Some (table, nothing_sent\<lparr> out_chunks := map set_is_retry packets \<rparr>)
     | Retransmit_Ack qpn psn \<Rightarrow> Some (put_qp table qpn (pop_until sq psn), nothing_sent)))"

subsection \<open>Queues of consecutive requests\<close>

text \<open>Requests whose packets the fragmenter numbers one by one.\<close>

definition wr_ok :: "SendQueueElem \<Rightarrow> bool" where
  "wr_ok x \<longleftrightarrow> convert_ibv_mtu_to_u16 (qp_pmtu (sqe_qp_param x)) \<noteq> None \<and> 0 < wb_length (wr_base (sqe_wr x)) \<and>
     unat (wr_raddr (sqe_wr x)) + unat (wb_length (wr_base (sqe_wr x))) + 2 ^ 16 < 2 ^ 64"

definition packet_count :: "SendQueueElem \<Rightarrow> nat" where
  "packet_count x = length (the (wr_packets (sqe_wr x) (sqe_qp_param x) (sqe_psn x)))"

text \<open>The packets of the requests have the numbers from \<open>p\<close> up to \<open>e\<close>, counted without wrapping around.\<close>

fun consecutive :: "nat \<Rightarrow> SendQueueElem list \<Rightarrow> nat \<Rightarrow> bool" where
  "consecutive p [] e \<longleftrightarrow> p = e"
| "consecutive p (x # xs) e \<longleftrightarrow> wr_ok x \<and> sqe_psn x = psn_of p \<and> consecutive (p + packet_count x) xs e"

lemma wr_packets_numbered:
  assumes "convert_ibv_mtu_to_u16 (qp_pmtu qp) \<noteq> None" "0 < wb_length (wr_base wr)"
    "unat (wr_raddr wr) + unat (wb_length (wr_base wr)) + 2 ^ 16 < 2 ^ 64"
  shows "\<exists>ps. wr_packets wr qp p = Some ps \<and> ps \<noteq> [] \<and> map ck_psn ps = map (psn_at p) [0..<length ps]"
proof -
  obtain m where m: "convert_ibv_mtu_to_u16 (qp_pmtu qp) = Some m" using assms(1) by blast
  obtain k where k: "unat m = 2 ^ k" "8 \<le> k" "k \<le> 12" using mtu_power [OF m] .
  have m12: "unat m \<le> 2 ^ 12" using k power_increasing [OF k(3), of "2 :: nat"] by simp
  let ?a = "wr_raddr wr" and ?l = "wb_length (wr_base wr)"
  let ?n = "frag_count k (1 * 2 ^ k) (unat ?a) (unat ?a + unat ?l)"
  have "0 < unat ?l" using assms(2) by (simp add: word_less_nat_alt)
  then have "0 < ?n" by (intro cut_point_range(3)) simp_all
  have "unat ?a + unat ?l + unat (ucast m :: u64) < 2 ^ 64" using assms(3) m12 by simp
  then have "wr_packets wr qp p = Some (map (chunk_at (wr_builder wr qp) True p (wb_laddr (wr_base wr)) (ucast m) ?a (?a + ucast ?l) ?n k 1) [0..<?n])"
    unfolding wr_packets_def m bind.bind_lunit using assms(2) k(1) by (intro chunk_fragmenter_at [OF m k(1,3)]) simp_all
  then show ?thesis using \<open>0 < ?n\<close> by (simp add: chunk_at_simps comp_def)
qed

lemma wr_packets_count:
  assumes "convert_ibv_mtu_to_u16 (qp_pmtu qp) = Some m" "unat m = 2 ^ k" "k \<le> 12" "0 < wb_length (wr_base wr)"
    "unat (wr_raddr wr) + unat (wb_length (wr_base wr)) + 2 ^ 16 < 2 ^ 64"
  shows "length (the (wr_packets wr qp p)) = frag_count k (2 ^ k) (unat (wr_raddr wr)) (unat (wr_raddr wr) + unat (wb_length (wr_base wr)))"
proof -
  have "unat m \<le> 2 ^ 12" using assms(2) power_increasing [OF assms(3), of "2 :: nat"] by simp
  then have "unat (wr_raddr wr) + unat (wb_length (wr_base wr)) + unat (ucast m :: u64) < 2 ^ 64" using assms(5) by simp
  then show ?thesis using chunk_fragmenter_at [OF assms(1-3), of "ucast m" 1 wr p True] assms(1,2,4) by (auto simp: wr_packets_def)
qed

lemma psn_at_of: "psn_at (psn_of p) j = psn_of (p + j)"
proof -
  have "(p + j mod 2 ^ 32) mod 2 ^ 24 = (p + j) mod 2 ^ 24"
    using mod_add_right_eq [of p "j mod 2 ^ 32" "2 ^ 24"] mod_add_right_eq [of p j "2 ^ 24"]
    by (simp add: mod_mod_cancel)
  then have "psn_of (p + j mod 2 ^ 32) = psn_of (p + j)" by (simp add: psn_of_def)
  then show ?thesis by (simp add: psn_at_def psn_add_of unat_of_nat)
qed

lemma upt_split: "i \<le> j \<Longrightarrow> j \<le> k \<Longrightarrow> [i..<k] = [i..<j] @ [j..<k]"
  using upt_add_eq_append [of i j "k - j"] by simp

lemma flat_consecutive:
  "consecutive p xs e \<Longrightarrow> p \<le> e \<and> (\<exists>ps. flat_packets xs = (ps, False) \<and> map ck_psn ps = map psn_of [p..<e])"
proof (induction xs arbitrary: p)
  case (Cons x xs)
  obtain ps where ps: "wr_packets (sqe_wr x) (sqe_qp_param x) (sqe_psn x) = Some ps" "map ck_psn ps = map (psn_at (sqe_psn x)) [0..<length ps]"
    using wr_packets_numbered [of "sqe_qp_param x" "sqe_wr x" "sqe_psn x"] Cons.prems by (auto simp: wr_ok_def)
  have n: "packet_count x = length ps" by (simp add: packet_count_def ps)
  have "map (psn_at (sqe_psn x)) [0..<length ps] = map psn_of [p..<p + length ps]"
    using Cons.prems by (intro nth_equalityI) (simp_all add: psn_at_of)
  moreover obtain qs where le: "p + length ps \<le> e" and "flat_packets xs = (qs, False)" "map ck_psn qs = map psn_of [p + length ps..<e]"
    using Cons.IH [of "p + packet_count x"] Cons.prems n by auto
  moreover have "[p..<e] = [p..<p + length ps] @ [p + length ps..<e]" using le by (intro upt_split) simp_all
  ultimately show ?case using ps le by auto
qed simp

lemma consecutive_append: "consecutive p (xs @ ys) e \<longleftrightarrow> (\<exists>m. consecutive p xs m \<and> consecutive m ys e)"
  by (induction xs arbitrary: p) auto

lemma consecutive_starts: "consecutive p xs e \<Longrightarrow> x \<in> set xs \<Longrightarrow> \<exists>s. sqe_psn x = psn_of s \<and> p \<le> s \<and> s < e"
proof (induction xs arbitrary: p)
  case (Cons y ys)
  have "p + packet_count y \<le> e" using flat_consecutive [of "p + packet_count y" ys e] Cons.prems(1) by simp
  moreover have "0 < packet_count y"
    using wr_packets_numbered [of "sqe_qp_param y" "sqe_wr y" "sqe_psn y"] Cons.prems(1) by (auto simp: wr_ok_def packet_count_def)
  ultimately show ?case using Cons.IH [of "p + packet_count y"] Cons.prems by fastforce
qed simp

lemma takeWhile_psns:
  assumes "p \<le> b" "b < p + 2 ^ 23" "e < p + 2 ^ 23"
  shows "takeWhile (\<lambda>q. q < psn_of b) (map psn_of [p..<e]) = map psn_of [p..<min b e]"
proof (cases "b \<le> e")
  case True
  have "[p..<e] = [p..<b] @ [b..<e]" using assms True by (intro upt_split)
  moreover have "\<forall>q \<in> set (map psn_of [p..<b]). q < psn_of b" using assms by (auto simp: psn_of_less_iff)
  moreover have "takeWhile (\<lambda>q. q < psn_of b) (map psn_of [b..<e]) = []"
    using assms True by (cases "b < e") (auto simp: upt_conv_Cons psn_of_less_iff)
  ultimately show ?thesis
    using True takeWhile_append2 [of "map psn_of [p..<b]" "\<lambda>q. q < psn_of b" "map psn_of [b..<e]"] by (auto simp: min_def)
next
  case False
  then have "\<forall>q \<in> set (map psn_of [p..<e]). q < psn_of b" using assms by (auto simp: psn_of_less_iff)
  then show ?thesis using False takeWhile_eq_all_conv [of "\<lambda>q. q < psn_of b" "map psn_of [p..<e]"] by (simp add: min_def)
qed

lemma retry_marks: "ck_psn \<circ> set_is_retry = ck_psn" "list_all ck_is_retry (map set_is_retry xs)"
  by (simp_all add: set_is_retry_def list_all_iff fun_eq_iff)

lemma starts_before:
  assumes "consecutive p us s" "s \<le> b" "b < p + 2 ^ 23"
  shows "\<forall>u \<in> set us. sqe_psn u < psn_of b"
proof
  fix u assume "u \<in> set us"
  then obtain t where "sqe_psn u = psn_of t" "p \<le> t" "t < s" using consecutive_starts [OF assms(1)] by blast
  then show "sqe_psn u < psn_of b" using assms(2,3) by (simp add: psn_of_less_iff)
qed

text \<open>A queue with one write of two packets.\<close>

definition demo_elem :: SendQueueElem where
  "demo_elem = \<lparr> sqe_psn = psn_of 0,
     sqe_wr = \<lparr> wr_base = \<lparr> wb_wr_id = 0, wb_send_flags = 0, wb_laddr = 0x1000, wb_length = 512, wb_lkey = 0, wb_imm_data = 0, wb_opcode = RdmaWrite \<rparr>,
       wr_raddr = 0x1000, wr_rkey = 0 \<rparr>,
     sqe_qp_param = \<lparr> qp_msn = 0, qp_qp_type = 2, qp_sqpn = 1, qp_mac_addr = 0, qp_dqpn = 2, qp_dqp_ip = 0, qp_pmtu = 1 \<rparr> \<rparr>"

definition demo_queues :: "IbvSendQueue qp_table" where
  "demo_queues = qp_table_new \<lparr> ibq_inner = [demo_elem], ibq_base_psn = psn_of 0 \<rparr>"

lemma demo_facts:
  "get_qp demo_queues 0x100 = Some \<lparr> ibq_inner = [demo_elem], ibq_base_psn = psn_of 0 \<rparr>" "packet_count demo_elem = 2" "consecutive 0 [demo_elem] 2"
proof -
  show "get_qp demo_queues 0x100 = Some \<lparr> ibq_inner = [demo_elem], ibq_base_psn = psn_of 0 \<rparr>"
    by (simp add: demo_queues_def qp_table_new_def get_qp_def qpn_to_index_def QPN_KEY_PART_WIDTH_def MAX_QP_CNT_def)
  have m: "convert_ibv_mtu_to_u16 (qp_pmtu (sqe_qp_param demo_elem)) = Some 256" by (simp add: demo_elem_def convert_ibv_mtu_to_u16_def)
  show c: "packet_count demo_elem = 2"
    using wr_packets_count [OF m, of 8 "sqe_wr demo_elem" "sqe_psn demo_elem"]
    by (simp add: packet_count_def demo_elem_def frag_count_def ceil_div_def)
  show "consecutive 0 [demo_elem] 2" using m c by (simp add: wr_ok_def) (simp add: demo_elem_def)
qed

lemma range_form:
  assumes "ibq_inner sq = us @ zs" "\<forall>u \<in> set us. sqe_psn u < low \<and> sqe_psn u < high" "zs = [] \<or> \<not> sqe_psn (hd zs) < low"
  shows "ibq_range sq low high = takeWhile (\<lambda>x. sqe_psn x < high) zs"
proof -
  have a: "takeWhile (\<lambda>x. sqe_psn x < low) (us @ zs) = us"
    using assms(2,3) takeWhile_append2 [of us "\<lambda>x. sqe_psn x < low" zs] by (cases zs) auto
  have b: "takeWhile (\<lambda>x. sqe_psn x < high) (us @ zs) = us @ takeWhile (\<lambda>x. sqe_psn x < high) zs"
    using assms(2) by (intro takeWhile_append2) auto
  show ?thesis unfolding ibq_range_def partition_point_def assms(1) a b Let_def by (simp add: takeWhile_eq_take [symmetric])
qed

lemma takeWhile_consecutive:
  assumes "consecutive x zs e" "h < x + 2 ^ 23" "x < h + 2 ^ 23" "e < h + 2 ^ 23"
  shows "\<exists>y. consecutive x (takeWhile (\<lambda>z. sqe_psn z < psn_of h) zs) y \<and> (y = e \<or> h \<le> y \<and> y \<le> e) \<and> (h < x \<longrightarrow> y = x)"
  using assms
proof (induction zs arbitrary: x)
  case (Cons z zs)
  let ?q = "x + packet_count z"
  have q: "consecutive ?q zs e" "sqe_psn z = psn_of x" "wr_ok z" "?q \<le> e" using Cons.prems(1) flat_consecutive [of ?q zs e] by auto
  then have i: "sqe_psn z < psn_of h \<longleftrightarrow> x < h" using Cons.prems by (simp add: psn_of_less_iff)
  show ?case
  proof (cases "x < h")
    case True
    obtain y where "consecutive ?q (takeWhile (\<lambda>z. sqe_psn z < psn_of h) zs) y" "y = e \<or> h \<le> y \<and> y \<le> e"
      using Cons.IH [OF q(1)] Cons.prems q(4) by auto
    then show ?thesis using True i q by auto
  next
    case False
    then show ?thesis using i q(4) by auto
  qed
qed auto

lemma range_packets:
  assumes "get_qp table qpn = Some sq" "ibq_range sq (psn_of low) (psn_of high) = takeWhile (\<lambda>z. sqe_psn z < psn_of high) zs"
    and "consecutive x zs e" "low \<le> x" "low \<le> high" "e < low + 2 ^ 23" "high < low + 2 ^ 23"
  shows "\<exists>out. retransmit_process table (RetransmitRange qpn (psn_of low) (psn_of high)) = Some (table, out) \<and>
    map ck_psn (out_chunks out) = map psn_of [x..<min high e]"
proof -
  have xe: "x \<le> e" using flat_consecutive [OF assms(3)] by simp
  obtain y where y: "consecutive x (takeWhile (\<lambda>z. sqe_psn z < psn_of high) zs) y" "y = e \<or> high \<le> y \<and> y \<le> e" "high < x \<longrightarrow> y = x"
    using takeWhile_consecutive [OF assms(3), of high] assms(4-7) xe by auto
  obtain ps where ps: "flat_packets (takeWhile (\<lambda>z. sqe_psn z < psn_of high) zs) = (ps, False)" "map ck_psn ps = map psn_of [x..<y]"
    using flat_consecutive [OF y(1)] by blast
  have "dropWhile (\<lambda>q. q < psn_of low) (map psn_of [x..<y]) = map psn_of [x..<y]"
    using assms(4,6) y(2) xe by (cases "x < y") (auto simp: upt_conv_Cons psn_of_less_iff)
  then have d: "map ck_psn (dropWhile (\<lambda>x. ck_psn x < psn_of low) ps) = map psn_of [x..<y]"
    using dropWhile_map [of "\<lambda>q. q < psn_of low" ck_psn ps] ps(2) by (simp add: comp_def)
  have "takeWhile (\<lambda>q. q < psn_of high) (map psn_of [x..<y]) = map psn_of [x..<min high e]"
  proof (cases "x \<le> high")
    case True
    have "min high y = min high e" using y(2) by auto
    then show ?thesis using True assms(4-7) y(2) takeWhile_psns [of x high y] by auto
  next
    case False
    then show ?thesis using y(3) by (simp add: min_def)
  qed
  then have "map ck_psn (takeWhile (\<lambda>x. ck_psn x < psn_of high) (dropWhile (\<lambda>x. ck_psn x < psn_of low) ps)) = map psn_of [x..<min high e]"
    using takeWhile_map [of "\<lambda>q. q < psn_of high" ck_psn] d by (metis (no_types, lifting) comp_def takeWhile_cong)
  then show ?thesis using assms(1) by (simp add: retransmit_process_def assms(2) ps Let_def retry_marks)
qed

text \<open>C33. A retransmission of a range loses packets. If the range starts inside a request, no packet of that request is sent
  again: what is sent are the packets from the next request on, up to the end of the range. Only if the range starts with the
  first packet of a request is all of it sent.
\<close>

theorem range_skips_first_request:
  assumes "get_qp table qpn = Some sq" "ibq_inner sq = us @ u # vs" "consecutive p us s" "consecutive s (u # vs) e"
    and "s \<le> low" "low < s + packet_count u" "low \<le> high" "high < p + 2 ^ 23" "e < p + 2 ^ 23"
  shows "\<exists>out. retransmit_process table (RetransmitRange qpn (psn_of low) (psn_of high)) = Some (table, out) \<and>
    map ck_psn (out_chunks out) = map psn_of [(if s = low then low else s + packet_count u)..<min high e]"
proof -
  let ?x = "s + packet_count u"
  have u: "sqe_psn u = psn_of s" "consecutive ?x vs e" using assms(4) by auto
  have pe: "p \<le> s" "?x \<le> e" using flat_consecutive [OF assms(3)] flat_consecutive [OF u(2)] by auto
  note us = starts_before [OF assms(3)]
  show ?thesis
  proof (cases "s = low")
    case True
    have "ibq_range sq (psn_of low) (psn_of high) = takeWhile (\<lambda>z. sqe_psn z < psn_of high) (u # vs)"
      by (rule range_form [OF assms(2)]) (use us assms(5-9) u True in \<open>auto simp: psn_of_less_iff\<close>)
    from range_packets [OF assms(1) this assms(4)] show ?thesis using True assms pe by auto
  next
    case False
    have q: "ibq_inner sq = (us @ [u]) @ vs" using assms(2) by simp
    have "ibq_range sq (psn_of low) (psn_of high) = takeWhile (\<lambda>z. sqe_psn z < psn_of high) vs"
    proof (rule range_form [OF q])
      show "\<forall>x \<in> set (us @ [u]). sqe_psn x < psn_of low \<and> sqe_psn x < psn_of high"
        using us assms(5-9) u pe False by (auto simp: psn_of_less_iff)
      show "vs = [] \<or> \<not> sqe_psn (hd vs) < psn_of low"
        using u(2) assms(5-9) pe by (cases vs) (auto simp: psn_of_less_iff)
    qed
    from range_packets [OF assms(1) this u(2)] show ?thesis using False assms pe by auto
  qed
qed

theorem range_skips_first_request_witness:
  "\<exists>out. retransmit_process demo_queues (RetransmitRange 0x100 (psn_of 1) (psn_of 2)) = Some (demo_queues, out) \<and> out_chunks out = []"
proof -
  have "consecutive 0 [] 0" "ibq_inner \<lparr> ibq_inner = [demo_elem], ibq_base_psn = psn_of 0 \<rparr> = [] @ demo_elem # []" by simp_all
  from range_skips_first_request [OF demo_facts(1) this(2,1) demo_facts(3), of 1 2] show ?thesis by (auto simp: demo_facts(2))
qed

end
