(* ===== verification/RdmaWrite.thy ===== *)
theory RdmaWrite
  imports RdmaTasks
begin

text \<open>
  The worker of the Rust driver that turns work requests into chunks for the card (\<^verbatim>\<open>workers/rdma.rs\<close>). Its state is the table of
  send queue contexts; the table of queue pair attributes is shared with the other workers and an argument. The result of a
  request is what the source returns as \<^verbatim>\<open>io::Result\<close>; an outer \<open>None\<close> is a panic.
\<close>

datatype io_result = Io_Ok | InvalidInput | Unsupported

abbreviation IBV_SEND_SIGNALED :: u32 where "IBV_SEND_SIGNALED \<equiv> 2"
abbreviation IBV_SEND_SOLICITED :: u32 where "IBV_SEND_SOLICITED \<equiv> 4"

definition qp_params_of :: "QpAttr \<Rightarrow> u16 \<Rightarrow> QpParams" where
  "qp_params_of qp msn = \<lparr> qp_msn = msn, qp_qp_type = qa_qp_type qp, qp_sqpn = qa_qpn qp, qp_mac_addr = qa_mac_addr qp,
     qp_dqpn = qa_dqpn qp, qp_dqp_ip = qa_dqp_ip qp, qp_pmtu = qa_pmtu qp \<rparr>"

text \<open>\<^verbatim>\<open>get_qp_mut(qpn).and_then(|ctx| ctx.next_wr(num_psn))\<close>\<close>

definition reserve :: "SendQueueContext qp_table \<Rightarrow> u32 \<Rightarrow> u32 \<Rightarrow> SendQueueContext qp_table \<times> (u16 \<times> psn) option" where
  "reserve table qpn n = (case get_qp table qpn of
     None \<Rightarrow> (table, None)
   | Some ctx \<Rightarrow> (case next_wr ctx n of (ctx, r) \<Rightarrow> (put_qp table qpn ctx, r)))"

definition rdma_read :: "QpAttr qp_table \<Rightarrow> SendQueueContext qp_table \<Rightarrow> u32 \<Rightarrow> SendWrRdma \<Rightarrow> SendQueueContext qp_table \<times> sent \<times> io_result" where
  "rdma_read qp_attr_table table qpn wr = (case get_qp qp_attr_table qpn of
     None \<Rightarrow> (table, nothing_sent, InvalidInput)
   | Some qp \<Rightarrow> (case reserve table qpn 1 of
       (table, None) \<Rightarrow> (table, nothing_sent, InvalidInput)
     | (table, Some (msn, psn)) \<Rightarrow>
         let b = wr_base wr;
             end_psn = psn_add psn 1;
             qp_params = qp_params_of qp msn;
             chunk = set_chunk_meta (set_ibv_params (set_qp_params (new_with_opcode RdmaRead) qp_params)
               (ucast (wb_send_flags b)) (wr_rkey wr) (wb_length b) (wb_lkey b) (wb_imm_data b)) psn (wb_laddr b) (wr_raddr wr) (wb_length b) Only;
             rest = nothing_sent\<lparr> out_retransmit := [NewWr qpn \<lparr> sqe_psn = psn, sqe_wr = wr, sqe_qp_param = qp_params \<rparr>], out_chunks := [chunk] \<rparr>
         in if wb_send_flags b AND IBV_SEND_SIGNALED \<noteq> 0 then
              (case qa_send_cq qp of
                 None \<Rightarrow> (table, nothing_sent, InvalidInput)
               | Some _ \<Rightarrow> (table, and_then_sent (nothing_sent\<lparr>
                   out_completion := [Register qpn (Event_Send \<lparr> se_qpn = qpn, se_op = ReadSignaled, se_meta = \<lparr> mm_msn = msn, mm_end_psn = end_psn \<rparr>, se_wr_id = wb_wr_id b \<rparr>)],
                   out_timeout := [NewAckReq qpn] \<rparr>) rest, Io_Ok))
            else (table, rest, Io_Ok)))"

definition send_event_op :: "WorkReqOpCode \<Rightarrow> SendEventOp option" where
  "send_event_op opcode = (case opcode of
     RdmaWrite \<Rightarrow> Some WriteSignaled | RdmaWriteWithImm \<Rightarrow> Some WriteSignaled
   | Send \<Rightarrow> Some SendSignaled | SendWithImm \<Rightarrow> Some SendSignaled
   | RdmaRead \<Rightarrow> Some ReadSignaled
   | _ \<Rightarrow> None)"

text \<open>The end of \<^verbatim>\<open>write\<close>: the request is recorded for retransmission and its chunks go to the card.\<close>

definition write_chunks :: "SendQueueContext qp_table \<Rightarrow> u32 \<Rightarrow> SendWrRdma \<Rightarrow> QpParams \<Rightarrow> psn \<Rightarrow> sent \<Rightarrow> (SendQueueContext qp_table \<times> sent \<times> io_result) option" where
  "write_chunks table qpn wr qp_params psn out = do {
     cs \<leftarrow> wr_chunks wr qp_params psn;
     Some (table, and_then_sent out (nothing_sent\<lparr>
       out_retransmit := [NewWr qpn \<lparr> sqe_psn = psn, sqe_wr = wr, sqe_qp_param = qp_params \<rparr>], out_chunks := cs \<rparr>), Io_Ok) }"

definition rdma_write :: "QpAttr qp_table \<Rightarrow> SendQueueContext qp_table \<Rightarrow> u32 \<Rightarrow> SendWrRdma \<Rightarrow> (SendQueueContext qp_table \<times> sent \<times> io_result) option" where
  "rdma_write qp_attr_table table qpn wr = (case get_qp qp_attr_table qpn of
     None \<Rightarrow> Some (table, nothing_sent, InvalidInput)
   | Some qp \<Rightarrow> (case num_psn (qa_pmtu qp) (wr_raddr wr) (wb_length (wr_base wr)) of
       None \<Rightarrow> Some (table, nothing_sent, InvalidInput)
     | Some n \<Rightarrow> (case reserve table qpn n of
         (table, None) \<Rightarrow> Some (table, nothing_sent, InvalidInput)
       | (table, Some (msn, psn)) \<Rightarrow>
           let b = wr_base wr;
               end_psn = psn_add psn n;
               qp_params = qp_params_of qp msn
           in if wb_send_flags b AND IBV_SEND_SIGNALED \<noteq> 0 then
                (case qa_send_cq qp of
                   None \<Rightarrow> Some (table, nothing_sent, InvalidInput)
                 | Some _ \<Rightarrow> (case send_event_op (wb_opcode b) of
                     None \<Rightarrow> Some (table, nothing_sent, Unsupported)
                   | Some op \<Rightarrow>
                       let out = nothing_sent\<lparr> out_completion := [Register qpn (Event_Send
                             \<lparr> se_qpn = qpn, se_op = op, se_meta = \<lparr> mm_msn = msn, mm_end_psn = end_psn \<rparr>, se_wr_id = wb_wr_id b \<rparr>)] \<rparr>
                       in do {
                         ps \<leftarrow> wr_packets wr qp_params psn;
                         (if ps = [] then Some (table, out, Io_Ok)
                          else write_chunks table qpn wr qp_params psn (out\<lparr> out_timeout := [NewAckReq qpn] \<rparr>)) }))
              else write_chunks table qpn wr qp_params psn nothing_sent)))"

definition rdma_process :: "QpAttr qp_table \<Rightarrow> SendQueueContext qp_table \<Rightarrow> RdmaWriteTask \<Rightarrow> (SendQueueContext qp_table \<times> sent) option" where
  "rdma_process qp_attr_table table task = (case task of
     Write_Wr qpn wr \<Rightarrow>
       (if wb_opcode (wr_base wr) \<in> {RdmaWrite, RdmaWriteWithImm, Send, SendWithImm, RdmaReadResp} then
          (case rdma_write qp_attr_table table qpn wr of None \<Rightarrow> None | Some (table, out, _) \<Rightarrow> Some (table, out))
        else if wb_opcode (wr_base wr) = RdmaRead then
          (case rdma_read qp_attr_table table qpn wr of (table, out, _) \<Rightarrow> Some (table, out))
        else None)
   | Write_Ack qpn base_psn \<Rightarrow> do {
       ctx \<leftarrow> get_qp table qpn;
       Some (put_qp table qpn (update_psn_acked ctx base_psn), nothing_sent) }
   | NewComplete qpn msn \<Rightarrow> do {
       ctx \<leftarrow> get_qp table qpn;
       Some (put_qp table qpn (update_msn_acked ctx msn), nothing_sent) })"

end
