(* ===== verification/MetaHandler.thy ===== *)
theory MetaHandler
  imports RdmaWrite PsnTracker
begin

text \<open>
  The worker of the Rust driver that handles what the card reports about received packets (\<^verbatim>\<open>workers/meta_report/worker.rs\<close>, the
  types of \<^verbatim>\<open>workers/meta_report/types.rs\<close>). Its state is the two tables of acknowledgement trackers; it tells the other
  workers what was acknowledged. A handler returns the new state, the tasks it sent and whether the source returns \<^verbatim>\<open>Some(())\<close>; an
  outer \<open>None\<close> is a panic.
\<close>

subsection \<open>Reports\<close>

datatype PacketPos = Pos_First | Pos_Middle | Pos_Last | Pos_Only

datatype HeaderType = Header_Write | Header_WriteWithImm | Header_Send | Header_SendWithImm | Header_ReadResp

record HeaderWriteMeta =
  hw_pos :: PacketPos
  hw_msn :: u16
  hw_psn :: psn
  hw_solicited :: bool
  hw_ack_req :: bool
  hw_is_retry :: bool
  hw_dqpn :: u32
  hw_total_len :: u32
  hw_raddr :: u64
  hw_rkey :: u32
  hw_imm :: u32
  hw_header_type :: HeaderType

record HeaderReadMeta =
  hr_msn :: u16
  hr_psn :: psn
  hr_dqpn :: u32
  hr_raddr :: u64
  hr_rkey :: u32
  hr_total_len :: u32
  hr_laddr :: u64
  hr_lkey :: u32
  hr_ack_req :: bool

record AckMetaLocalHw =
  al_qpn :: u32
  al_psn_now :: psn
  al_now_bitmap :: "128 word"

record AckMetaRemoteDriver =
  ad_qpn :: u32
  ad_psn_now :: psn

record NakMetaHw =
  nh_qpn :: u32
  nh_msn :: u16
  nh_psn_now :: psn
  nh_now_bitmap :: "128 word"
  nh_psn_pre :: psn
  nh_pre_bitmap :: "128 word"

record NakMetaRemoteDriver =
  nd_qpn :: u32
  nd_psn_now :: psn
  nd_psn_pre :: psn

record CnpMeta =
  cnp_qpn :: u32

datatype ReportMeta = HeaderWrite HeaderWriteMeta | HeaderRead HeaderReadMeta | AckLocalHw AckMetaLocalHw
  | AckRemoteDriver AckMetaRemoteDriver | NakLocalHw NakMetaHw | NakRemoteHw NakMetaHw | NakRemoteDriver NakMetaRemoteDriver | Cnp CnpMeta

fun report_qpn :: "ReportMeta \<Rightarrow> u32" where
  "report_qpn (HeaderWrite x) = hw_dqpn x"
| "report_qpn (HeaderRead x) = hr_dqpn x"
| "report_qpn (AckLocalHw x) = al_qpn x"
| "report_qpn (AckRemoteDriver x) = ad_qpn x"
| "report_qpn (NakLocalHw x) = nh_qpn x"
| "report_qpn (NakRemoteHw x) = nh_qpn x"
| "report_qpn (NakRemoteDriver x) = nd_qpn x"
| "report_qpn (Cnp x) = cnp_qpn x"

subsection \<open>The handlers\<close>

record 'b MetaHandler =
  mh_send_table :: "'b remote_ack_tracker qp_table"
  mh_recv_table :: "'b local_ack_tracker qp_table"

definition meta_handler_new :: "('b, 'z) bitvec_ops_scheme \<Rightarrow> 'b MetaHandler" where
  "meta_handler_new B = (let t = new_tracker B (Psn 0) in
     \<lparr> mh_send_table = qp_table_new \<lparr> ra_tracker = t, ra_msn_pre = 0, ra_psn_pre = Psn 0 \<rparr>,
       mh_recv_table = qp_table_new \<lparr> la_tracker = t, la_psn_pre = Psn 0 \<rparr> \<rparr>)"

definition sender_updates :: "u32 \<Rightarrow> psn \<Rightarrow> sent" where
  "sender_updates qpn base = nothing_sent\<lparr> out_completion := [AckSend qpn base], out_retransmit := [Retransmit_Ack qpn base],
     out_write := [Write_Ack qpn base] \<rparr>"

definition receiver_updates :: "u32 \<Rightarrow> psn \<Rightarrow> sent" where
  "receiver_updates qpn base = nothing_sent\<lparr> out_completion := [AckRecv qpn base], out_retransmit := [Retransmit_Ack qpn base] \<rparr>"

type_synonym 'b handled = "('b MetaHandler \<times> sent \<times> bool) option"

text \<open>Updating the tracker of a queue pair, if there is one, and telling the others when its base is reported.\<close>

definition on_send_tracker :: "'b MetaHandler \<Rightarrow> u32 \<Rightarrow> ('b remote_ack_tracker \<Rightarrow> ('b remote_ack_tracker \<times> psn option) option) \<Rightarrow> sent \<Rightarrow> 'b handled" where
  "on_send_tracker self qpn f after = (case get_qp (mh_send_table self) qpn of
     None \<Rightarrow> Some (self, nothing_sent, False)
   | Some tracker \<Rightarrow> do {
       (tracker, r) \<leftarrow> f tracker;
       Some (self\<lparr> mh_send_table := put_qp (mh_send_table self) qpn tracker \<rparr>,
         and_then_sent (case r of Some psn \<Rightarrow> sender_updates qpn psn | None \<Rightarrow> nothing_sent) after, True) })"

definition on_recv_tracker :: "'b MetaHandler \<Rightarrow> u32 \<Rightarrow> ('b local_ack_tracker \<Rightarrow> ('b local_ack_tracker \<times> psn option) option) \<Rightarrow> 'b handled" where
  "on_recv_tracker self qpn f = (case get_qp (mh_recv_table self) qpn of
     None \<Rightarrow> Some (self, nothing_sent, False)
   | Some tracker \<Rightarrow> do {
       (tracker, r) \<leftarrow> f tracker;
       Some (self\<lparr> mh_recv_table := put_qp (mh_recv_table self) qpn tracker \<rparr>,
         (case r of Some psn \<Rightarrow> receiver_updates qpn psn | None \<Rightarrow> nothing_sent), True) })"

definition handle_ack_local_hw :: "('b, 'z) bitvec_ops_scheme \<Rightarrow> 'b MetaHandler \<Rightarrow> AckMetaLocalHw \<Rightarrow> 'b handled" where
  "handle_ack_local_hw B self meta = on_recv_tracker self (al_qpn meta) (\<lambda>t. local_ack_bitmap B t (al_psn_now meta) (al_now_bitmap meta))"

definition handle_ack_remote_driver :: "('b, 'z) bitvec_ops_scheme \<Rightarrow> 'b MetaHandler \<Rightarrow> AckMetaRemoteDriver \<Rightarrow> 'b handled" where
  "handle_ack_remote_driver B self meta = on_send_tracker self (ad_qpn meta) (\<lambda>t. remote_ack_before B t (ad_psn_now meta)) nothing_sent"

definition handle_nak_local_hw :: "('b, 'z) bitvec_ops_scheme \<Rightarrow> 'b MetaHandler \<Rightarrow> NakMetaHw \<Rightarrow> 'b handled" where
  "handle_nak_local_hw B self meta = on_recv_tracker self (nh_qpn meta)
     (\<lambda>t. local_nak_bitmap B t (nh_psn_pre meta) (nh_pre_bitmap meta) (nh_psn_now meta) (nh_now_bitmap meta))"

definition handle_nak_remote_hw :: "('b, 'z) bitvec_ops_scheme \<Rightarrow> 'b MetaHandler \<Rightarrow> NakMetaHw \<Rightarrow> 'b handled" where
  "handle_nak_remote_hw B self meta = on_send_tracker self (nh_qpn meta)
     (\<lambda>t. remote_nak_bitmap B t (nh_msn meta) (nh_psn_pre meta) (nh_pre_bitmap meta) (nh_psn_now meta) (nh_now_bitmap meta))
     (nothing_sent\<lparr> out_retransmit := [RetransmitRange (nh_qpn meta) (nh_psn_pre meta) (psn_add (nh_psn_now meta) 128)] \<rparr>)"

definition handle_nak_remote_driver :: "('b, 'z) bitvec_ops_scheme \<Rightarrow> 'b MetaHandler \<Rightarrow> NakMetaRemoteDriver \<Rightarrow> 'b handled" where
  "handle_nak_remote_driver B self meta = on_send_tracker self (nd_qpn meta) (\<lambda>t. remote_ack_before B t (nd_psn_pre meta))
     (nothing_sent\<lparr> out_retransmit := [RetransmitRange (nd_qpn meta) (nd_psn_pre meta) (nd_psn_now meta)] \<rparr>)"

text \<open>Acknowledging one received packet.\<close>

definition ack_received :: "('b, 'z) bitvec_ops_scheme \<Rightarrow> 'b MetaHandler \<Rightarrow> u32 \<Rightarrow> 'b local_ack_tracker \<Rightarrow> psn \<Rightarrow> ('b MetaHandler \<times> 'b local_ack_tracker \<times> sent) option" where
  "ack_received B self qpn tracker psn = do {
     (tracker, r) \<leftarrow> local_ack_one B tracker psn;
     Some (self\<lparr> mh_recv_table := put_qp (mh_recv_table self) qpn tracker \<rparr>, tracker,
       (case r of Some base \<Rightarrow> nothing_sent\<lparr> out_completion := [AckRecv qpn base] \<rparr> | None \<Rightarrow> nothing_sent)) }"

definition handle_header_read :: "('b, 'z) bitvec_ops_scheme \<Rightarrow> 'b MetaHandler \<Rightarrow> HeaderReadMeta \<Rightarrow> 'b handled" where
  "handle_header_read B self meta = (
     let qpn = hr_dqpn meta;
         flags = (if hr_ack_req meta then IBV_SEND_SOLICITED else 0);
         base = \<lparr> wb_wr_id = 0, wb_send_flags = flags, wb_laddr = hr_raddr meta, wb_length = hr_total_len meta, wb_lkey = hr_rkey meta,
           wb_imm_data = 0, wb_opcode = RdmaReadResp \<rparr>;
         send_wr = \<lparr> wr_base = base, wr_raddr = hr_laddr meta, wr_rkey = hr_lkey meta \<rparr>;
         after = nothing_sent\<lparr> out_write := [Write_Wr qpn send_wr] \<rparr>
     in if hr_ack_req meta then
          let event = Event_Recv \<lparr> re_qpn = qpn, re_op = Ev_RecvRead,
                re_meta = \<lparr> mm_msn = hr_msn meta, mm_end_psn = psn_add (hr_psn meta) 1 \<rparr>, re_ack_req = True \<rparr>;
              out = nothing_sent\<lparr> out_completion := [Register qpn event] \<rparr>
          in (case get_qp (mh_recv_table self) qpn of
                None \<Rightarrow> Some (self, out, False)
              | Some tracker \<Rightarrow> do {
                  (self, _, out') \<leftarrow> ack_received B self qpn tracker (hr_psn meta);
                  Some (self, and_then_sent out (and_then_sent out' after), True) })
        else Some (self, after, True))"

definition recv_event_op :: "HeaderType \<Rightarrow> u32 \<Rightarrow> RecvEventOp" where
  "recv_event_op header_type imm = (case header_type of
     Header_Write \<Rightarrow> Ev_Write
   | Header_WriteWithImm \<Rightarrow> Ev_WriteWithImm imm
   | Header_Send \<Rightarrow> Ev_Recv
   | Header_SendWithImm \<Rightarrow> Ev_RecvWithImm imm
   | Header_ReadResp \<Rightarrow> Ev_ReadResp)"

definition handle_header_write :: "('b, 'z) bitvec_ops_scheme \<Rightarrow> 'b MetaHandler \<Rightarrow> HeaderWriteMeta \<Rightarrow> 'b handled" where
  "handle_header_write B self meta = (
     let qpn = hw_dqpn meta; psn = hw_psn meta; ends = (hw_pos meta = Pos_Last \<or> hw_pos meta = Pos_Only) in
     case get_qp (mh_recv_table self) qpn of
       None \<Rightarrow> Some (self, nothing_sent, False)
     | Some tracker \<Rightarrow>
         let event = Event_Recv \<lparr> re_qpn = qpn, re_op = recv_event_op (hw_header_type meta) (hw_imm meta),
               re_meta = \<lparr> mm_msn = hw_msn meta, mm_end_psn = psn_add psn 1 \<rparr>, re_ack_req = hw_ack_req meta \<rparr>;
             out = (if ends then nothing_sent\<lparr> out_completion := [Register qpn event] \<rparr> else nothing_sent)
         in do {
           (self, tracker, out') \<leftarrow> ack_received B self qpn tracker psn;
           let nak = (if ends \<and> hw_is_retry meta \<and> hw_ack_req meta
             then nothing_sent\<lparr> out_ack := [Response_Nak qpn (base_psn (la_tracker tracker)) (psn_sub psn 1)] \<rparr> else nothing_sent);
           Some (self, and_then_sent out (and_then_sent out' nak), True) })"

text \<open>Every report restarts the timer of its queue pair. Congestion notifications are not handled and panic.\<close>

definition handle_meta :: "('b, 'z) bitvec_ops_scheme \<Rightarrow> 'b MetaHandler \<Rightarrow> ReportMeta \<Rightarrow> 'b handled" where
  "handle_meta B self meta = do {
     (self, out, ok) \<leftarrow> (case meta of
         HeaderWrite x \<Rightarrow> handle_header_write B self x
       | HeaderRead x \<Rightarrow> handle_header_read B self x
       | AckLocalHw x \<Rightarrow> handle_ack_local_hw B self x
       | AckRemoteDriver x \<Rightarrow> handle_ack_remote_driver B self x
       | NakLocalHw x \<Rightarrow> handle_nak_local_hw B self x
       | NakRemoteHw x \<Rightarrow> handle_nak_remote_hw B self x
       | NakRemoteDriver x \<Rightarrow> handle_nak_remote_driver B self x
       | Cnp _ \<Rightarrow> None);
     Some (self, and_then_sent (nothing_sent\<lparr> out_timeout := [RecvMeta (report_qpn meta)] \<rparr>) out, ok) }"

subsection \<open>What the receiver reports\<close>

text \<open>The worker's loop over a list of reports.\<close>

fun handle_all :: "('b, 'z) bitvec_ops_scheme \<Rightarrow> 'b MetaHandler \<Rightarrow> ReportMeta list \<Rightarrow> ('b MetaHandler \<times> sent) option" where
  "handle_all B self [] = Some (self, nothing_sent)"
| "handle_all B self (m # ms) = do {
     (self, out, _) \<leftarrow> handle_meta B self m;
     (self, out') \<leftarrow> handle_all B self ms;
     Some (self, and_then_sent out out') }"

text \<open>The packet that a report says has arrived.\<close>

fun received :: "ReportMeta \<Rightarrow> (u32 \<times> psn) option" where
  "received (HeaderWrite x) = Some (hw_dqpn x, hw_psn x)"
| "received (HeaderRead x) = Some (hr_dqpn x, hr_psn x)"
| "received _ = None"

text \<open>A header of a write, or of a read that requests an acknowledgement.\<close>

fun acked_header :: "ReportMeta \<Rightarrow> bool" where
  "acked_header (HeaderWrite x) = True"
| "acked_header (HeaderRead x) = hr_ack_req x"
| "acked_header _ = False"

definition received_set :: "u32 \<Rightarrow> ReportMeta list \<Rightarrow> int set" where
  "received_set q ms = {seq p | p. \<exists>m \<in> set ms. received m = Some (q, p)}"

definition recv_acks :: "u32 \<Rightarrow> sent \<Rightarrow> psn list" where
  "recv_acks q out = concat (map (\<lambda>t. case t of AckRecv q' b \<Rightarrow> (if q' = q then [b] else []) | _ \<Rightarrow> []) (out_completion out))"

lemma recv_acks_append [simp]: "recv_acks q (and_then_sent a b) = recv_acks q a @ recv_acks q b"
  by (simp add: recv_acks_def)

lemma recv_acks_none [simp]: "recv_acks q nothing_sent = []"
  by (simp add: recv_acks_def)

lemma received_set_simps [simp]: "received_set q [] = {}"
  "received_set q (m # ms) = (case received m of Some (q', p) \<Rightarrow> (if q' = q then {seq p} else {}) | None \<Rightarrow> {}) \<union> received_set q ms"
  by (auto simp: received_set_def split: option.splits)

text \<open>Every tracker of the receiver is in the first half of the circle and its base is the first number not received.\<close>

definition recv_ok :: "('b \<Rightarrow> bool list) \<Rightarrow> 'b MetaHandler \<Rightarrow> bool" where
  "recv_ok bits self \<longleftrightarrow> length (mh_recv_table self) = MAX_QP_CNT \<and>
     (\<forall>t \<in> set (mh_recv_table self). let p = la_tracker t in
        tracker_ok bits p \<and> seq (base_psn p) \<notin> acked bits p \<and> (\<forall>n \<in> acked bits p. n + 1 < 2 ^ 23))"

definition tracker_at :: "'b MetaHandler \<Rightarrow> u32 \<Rightarrow> 'b psn_tracker" where
  "tracker_at self q = la_tracker (mh_recv_table self ! qpn_to_index q)"

text \<open>
  The reports of the hypothesis: headers of writes and of reads with an acknowledgement request, for valid queue pairs,
  numbered in the first half of the circle.
\<close>

definition header_report :: "ReportMeta \<Rightarrow> bool" where
  "header_report m \<longleftrightarrow> acked_header m \<and> (case received m of None \<Rightarrow> True
     | Some (q, p) \<Rightarrow> qpn_to_index q < MAX_QP_CNT \<and> valid_psn p \<and> seq p + 1 < 2 ^ 23)"

lemma ack_received_spec:
  assumes L: "bitvec_laws B bits" and ok: "recv_ok bits self" and q: "qpn_to_index q < MAX_QP_CNT"
    and p: "valid_psn p" "seq p + 1 < 2 ^ 23"
  obtains self' t out where "ack_received B self q (mh_recv_table self ! qpn_to_index q) p = Some (self', t, out)" "recv_ok bits self'"
    "acked bits (tracker_at self' q) = acked bits (tracker_at self q) \<union> {seq p}"
    "\<forall>q'. qpn_to_index q' \<noteq> qpn_to_index q \<longrightarrow> tracker_at self' q' = tracker_at self q' \<and> recv_acks q' out = []"
    "last (base_psn (tracker_at self q) # recv_acks q out) = base_psn (tracker_at self' q)"
proof -
  let ?i = "qpn_to_index q"
  let ?l = "mh_recv_table self ! ?i"
  let ?t = "la_tracker ?l"
  have "?l \<in> set (mh_recv_table self)" using ok q by (simp add: recv_ok_def)
  then have o: "tracker_ok bits ?t" "seq (base_psn ?t) \<notin> acked bits ?t" "\<forall>n \<in> acked bits ?t. n + 1 < 2 ^ 23"
    using ok by (auto simp: recv_ok_def Let_def)
  have "seq (base_psn ?t) - 1 \<in> acked bits ?t" by (simp add: acked_def)
  then have "seq (base_psn ?t) < 2 ^ 23" using o(3) by fastforce
  then have n: "near ?t p" "seq p + 1 < 2 ^ 24" using p seq_range [of p] seq_range [of "base_psn ?t"] by (auto simp: near_def)
  obtain t' r where r: "ack_one B ?t p = Some (t', r)" "tracker_ok bits t'" "acked bits t' = acked bits ?t \<union> {seq p}"
    "r = (if seq (base_psn t') = seq (base_psn ?t) then None else Some (base_psn t'))"
    "seq (base_psn ?t) \<notin> acked bits ?t \<longrightarrow> seq (base_psn t') \<notin> acked bits t'"
    by (rule ack_one_spec [OF L o(1) n])
  have same: "base_psn t' = base_psn ?t" if "seq (base_psn t') = seq (base_psn ?t)"
    using that r(2) o(1) by (intro psn.expand) (auto simp: seq_valid tracker_ok_def word_uint_eq_iff)
  let ?l' = "?l\<lparr> la_tracker := t' \<rparr>"
  let ?self = "self\<lparr> mh_recv_table := put_qp (mh_recv_table self) q ?l' \<rparr>"
  let ?out = "case r of Some base \<Rightarrow> nothing_sent\<lparr> out_completion := [AckRecv q base] \<rparr> | None \<Rightarrow> nothing_sent"
  have e: "ack_received B self q ?l p = Some (?self, ?l', ?out)" by (simp add: ack_received_def local_ack_one_def r(1))
  have at: "tracker_at ?self q = t'" using ok q by (simp add: tracker_at_def put_qp_def recv_ok_def)
  have "recv_ok bits ?self" using ok r o p by (auto simp: recv_ok_def put_qp_def Let_def dest!: set_update_subset_insert [THEN subsetD])
  moreover have "\<forall>q'. qpn_to_index q' \<noteq> ?i \<longrightarrow> tracker_at ?self q' = tracker_at self q' \<and> recv_acks q' ?out = []"
    by (auto simp: tracker_at_def put_qp_def recv_acks_def split: option.splits)
  moreover have "last (base_psn (tracker_at self q) # recv_acks q ?out) = base_psn (tracker_at ?self q)"
    unfolding at using same by (auto simp: r(4) recv_acks_def tracker_at_def)
  ultimately show ?thesis using that [OF e] at r(3) by (simp add: tracker_at_def)
qed


lemma handle_header_spec:
  assumes L: "bitvec_laws B bits" and ok: "recv_ok bits self" and m: "header_report m"
  obtains self' out b where "handle_meta B self m = Some (self', out, b)" "recv_ok bits self'"
    "\<forall>q p. received m = Some (q, p) \<longrightarrow> acked bits (tracker_at self' q) = acked bits (tracker_at self q) \<union> {seq p} \<and>
       last (base_psn (tracker_at self q) # recv_acks q out) = base_psn (tracker_at self' q)"
    "\<forall>q'. (case received m of None \<Rightarrow> True | Some (q, p) \<Rightarrow> qpn_to_index q \<noteq> qpn_to_index q') \<longrightarrow>
       tracker_at self' q' = tracker_at self q' \<and> recv_acks q' out = []"
proof (cases "received m")
  case None
  then show ?thesis using m by (cases m) (simp_all add: header_report_def)
next
  case (Some qp)
  then obtain q p where r: "received m = Some (q, p)" by (cases qp) simp
  then have h: "qpn_to_index q < MAX_QP_CNT" "valid_psn p" "seq p + 1 < 2 ^ 23" using m by (auto simp: header_report_def)
  obtain self' t out where a: "ack_received B self q (mh_recv_table self ! qpn_to_index q) p = Some (self', t, out)"
    "recv_ok bits self'" "acked bits (tracker_at self' q) = acked bits (tracker_at self q) \<union> {seq p}"
    "\<forall>q'. qpn_to_index q' \<noteq> qpn_to_index q \<longrightarrow> tracker_at self' q' = tracker_at self q' \<and> recv_acks q' out = []"
    "last (base_psn (tracker_at self q) # recv_acks q out) = base_psn (tracker_at self' q)"
    by (rule ack_received_spec [OF L ok h])
  have g: "get_qp (mh_recv_table self) q = Some (mh_recv_table self ! qpn_to_index q)" using ok h(1) by (simp add: get_qp_def recv_ok_def)
  have "\<exists>out' b. handle_meta B self m = Some (self', out', b) \<and> (\<forall>q'. recv_acks q' out' = recv_acks q' out)"
  proof (cases m)
    case (HeaderWrite x)
    then show ?thesis using r a(1) g by (auto simp: handle_meta_def handle_header_write_def Let_def recv_acks_def)
  next
    case (HeaderRead x)
    then have "hr_ack_req x" using m by (simp add: header_report_def)
    with HeaderRead show ?thesis using r a(1) g by (auto simp: handle_meta_def handle_header_read_def Let_def recv_acks_def)
  qed (use r in auto)
  then obtain out' b where "handle_meta B self m = Some (self', out', b)" "\<forall>q'. recv_acks q' out' = recv_acks q' out" by blast
  then show ?thesis using that [of self' out' b] a(2-5) r by auto
qed

lemma handle_all_spec:
  assumes "bitvec_laws B bits" "recv_ok bits self" "\<forall>m \<in> set ms. header_report m"
    "\<forall>m \<in> set ms. \<forall>q' p. received m = Some (q', p) \<and> qpn_to_index q' = qpn_to_index q \<longrightarrow> q' = q"
  shows "\<exists>self' out. handle_all B self ms = Some (self', out) \<and> recv_ok bits self' \<and>
    acked bits (tracker_at self' q) = acked bits (tracker_at self q) \<union> received_set q ms \<and>
    last (base_psn (tracker_at self q) # recv_acks q out) = base_psn (tracker_at self' q)"
  using assms(2-)
proof (induction ms arbitrary: self)
  case (Cons m ms)
  have m: "header_report m" using Cons.prems(2) by simp
  obtain s1 o1 b where h: "handle_meta B self m = Some (s1, o1, b)" "recv_ok bits s1"
    and u: "\<forall>q p. received m = Some (q, p) \<longrightarrow> acked bits (tracker_at s1 q) = acked bits (tracker_at self q) \<union> {seq p} \<and>
       last (base_psn (tracker_at self q) # recv_acks q o1) = base_psn (tracker_at s1 q)"
    and k: "\<forall>q'. (case received m of None \<Rightarrow> True | Some (q, p) \<Rightarrow> qpn_to_index q \<noteq> qpn_to_index q') \<longrightarrow>
       tracker_at s1 q' = tracker_at self q' \<and> recv_acks q' o1 = []"
    by (rule handle_header_spec [OF assms(1) Cons.prems(1) m])
  have s: "acked bits (tracker_at s1 q) = acked bits (tracker_at self q) \<union> received_set q [m] \<and>
    last (base_psn (tracker_at self q) # recv_acks q o1) = base_psn (tracker_at s1 q)"
  proof (cases "\<exists>p. received m = Some (q, p)")
    case True
    then obtain p where p: "received m = Some (q, p)" by blast
    then have "received_set q [m] = {seq p}" by simp
    then show ?thesis using u [rule_format, OF p] by simp
  next
    case False
    then have "received_set q [m] = {}" by (simp split: option.splits)
    moreover have "case received m of None \<Rightarrow> True | Some (q', p) \<Rightarrow> qpn_to_index q' \<noteq> qpn_to_index q"
      using False Cons.prems(3) by (auto split: option.splits)
    ultimately show ?thesis using k [rule_format, of q] by simp
  qed
  obtain s2 o2 where t: "handle_all B s1 ms = Some (s2, o2)" "recv_ok bits s2"
    "acked bits (tracker_at s2 q) = acked bits (tracker_at s1 q) \<union> received_set q ms"
    "last (base_psn (tracker_at s1 q) # recv_acks q o2) = base_psn (tracker_at s2 q)"
    using Cons.IH [OF h(2)] Cons.prems(2,3) by auto
  have "last (base_psn (tracker_at self q) # recv_acks q (and_then_sent o1 o2)) = base_psn (tracker_at s2 q)"
    using s t(4) by (cases "recv_acks q o2") (auto simp: last_append split: if_splits)
  then show ?case using h(1) t(1-3) s by (auto simp: Un_assoc split: if_splits)
qed simp


lemma recv_ok_new: "bitvec_laws B bits \<Longrightarrow> recv_ok bits (meta_handler_new B)"
  by (auto simp: recv_ok_def meta_handler_new_def Let_def qp_table_new_def new_tracker_def tracker_ok_def valid_psn_def acked_def
    seq_def bitvec_simps)

lemma tracker_at_new: "qpn_to_index q < MAX_QP_CNT \<Longrightarrow> tracker_at (meta_handler_new B) q = new_tracker B (Psn 0)"
  by (simp add: tracker_at_def meta_handler_new_def qp_table_new_def Let_def)

lemma silent_read_not_recorded:
  "\<not> hr_ack_req x \<Longrightarrow> \<exists>out. handle_meta B self (HeaderRead x) = Some (self, out, True) \<and> recv_acks q out = []"
  by (simp add: handle_meta_def handle_header_read_def Let_def recv_acks_def)

text \<open>C26. The receiver reports the first missing packet. Let the card report received packets of any queue pairs, in any order and
  with repetitions, numbered from zero and within the first half of the circle, of writes and of reads that request
  an acknowledgement, no two queue pairs sharing an entry of the table. Then the worker does not panic, and for every
  queue pair the base of its tracker is the least number not received: all before it were received and it was not. The last
  acknowledgement sent to the completion worker for that queue pair carries exactly this number, whatever the other queue
  pairs received in between, and none is sent while packet zero is missing. The report of a read that requests no
  acknowledgement changes no tracker and sends none, so the number of such a read stays missing for good.
\<close>

theorem receiver_reports_first_missing:
  assumes "bitvec_laws B bits" "\<forall>m \<in> set ms. header_report m" "qpn_to_index q < MAX_QP_CNT"
    "\<forall>m \<in> set ms. \<forall>q' p. received m = Some (q', p) \<and> qpn_to_index q' = qpn_to_index q \<longrightarrow> q' = q"
  shows "\<exists>self out. handle_all B (meta_handler_new B) ms = Some (self, out) \<and>
    (let b = base_psn (tracker_at self q) in {0 ..< seq b} \<subseteq> received_set q ms \<and> seq b \<notin> received_set q ms \<and>
       last (Psn 0 # recv_acks q out) = b) \<and>
    (\<forall>x. \<not> hr_ack_req x \<longrightarrow> (\<exists>o'. handle_meta B self (HeaderRead x) = Some (self, o', True) \<and> recv_acks q o' = []))"
proof -
  let ?new = "meta_handler_new B"
  obtain self out where r: "handle_all B ?new ms = Some (self, out)" "recv_ok bits self"
    "acked bits (tracker_at self q) = acked bits (tracker_at ?new q) \<union> received_set q ms"
    "last (base_psn (tracker_at ?new q) # recv_acks q out) = base_psn (tracker_at self q)"
    using handle_all_spec [OF assms(1) recv_ok_new [OF assms(1)] assms(2,4)] by blast
  have n: "acked bits (tracker_at ?new q) = {n. n < 0}" "base_psn (tracker_at ?new q) = Psn 0"
    using assms(3) by (auto simp: tracker_at_new acked_def new_tracker_def seq_def bitvec_simps [OF assms(1)])
  have "mh_recv_table self ! qpn_to_index q \<in> set (mh_recv_table self)" using r(2) assms(3) by (simp add: recv_ok_def)
  then have "seq (base_psn (tracker_at self q)) \<notin> acked bits (tracker_at self q)" using r(2) by (auto simp: recv_ok_def tracker_at_def Let_def)
  moreover have "{0 ..< seq (base_psn (tracker_at self q))} \<subseteq> acked bits (tracker_at self q)" by (auto simp: acked_def)
  ultimately show ?thesis using r(1,3,4) n silent_read_not_recorded [of _ B self q] by (auto simp: Let_def)
qed

definition demo_packet :: "u32 \<Rightarrow> u32 \<Rightarrow> ReportMeta" where
  "demo_packet q n = HeaderWrite \<lparr> hw_pos = Pos_Middle, hw_msn = 0, hw_psn = Psn n, hw_solicited = False, hw_ack_req = False,
     hw_is_retry = False, hw_dqpn = q, hw_total_len = 4096, hw_raddr = 0, hw_rkey = 0, hw_imm = 0, hw_header_type = Header_Write \<rparr>"

theorem receiver_reports_first_missing_witness:
  "\<exists>self out. handle_all list_bitvec (meta_handler_new list_bitvec)
       [demo_packet 0x100 1, demo_packet 0x200 0, demo_packet 0x100 0, demo_packet 0x100 3] = Some (self, out) \<and>
     seq (base_psn (tracker_at self 0x100)) = 2 \<and> last (Psn 0 # recv_acks 0x100 out) = base_psn (tracker_at self 0x100)"
proof -
  let ?ms = "[demo_packet 0x100 1, demo_packet 0x200 0, demo_packet 0x100 0, demo_packet 0x100 3]"
  have i: "qpn_to_index 0x100 = 1" "qpn_to_index 0x200 = 2" by code_simp+
  have "\<forall>m \<in> set ?ms. header_report m" using i by (simp add: header_report_def demo_packet_def valid_psn_def seq_def MAX_QP_CNT_def)
  moreover have "\<forall>m \<in> set ?ms. \<forall>q' p. received m = Some (q', p) \<and> qpn_to_index q' = qpn_to_index 0x100 \<longrightarrow> q' = 0x100"
    using i by (auto simp: demo_packet_def)
  ultimately obtain self out where r: "handle_all list_bitvec (meta_handler_new list_bitvec) ?ms = Some (self, out)"
    "{0 ..< seq (base_psn (tracker_at self 0x100))} \<subseteq> received_set 0x100 ?ms"
    "seq (base_psn (tracker_at self 0x100)) \<notin> received_set 0x100 ?ms"
    "last (Psn 0 # recv_acks 0x100 out) = base_psn (tracker_at self 0x100)"
    using receiver_reports_first_missing [OF list_bitvec_laws, of ?ms "0x100"] i by (auto simp: Let_def MAX_QP_CNT_def)
  have s: "received_set 0x100 ?ms = {0, 1, 3}" by (auto simp: demo_packet_def seq_def)
  define b where "b = seq (base_psn (tracker_at self 0x100))"
  have b: "{0 ..< b} \<subseteq> {0, 1, 3}" "b \<notin> {0, 1, 3}" "0 \<le> b"
    using r(2,3) seq_range [of "base_psn (tracker_at self 0x100)"] unfolding s b_def by auto
  have "\<not> 2 < b" using subsetD [OF b(1), of 2] by auto
  then have "b = 2" using b(2,3) by auto
  then show ?thesis using r(1,4) by (auto simp: b_def)
qed

end
