(* ===== verification/RdmaTypes.thy ===== *)
theory RdmaTypes
  imports RdmaTasks
begin

text \<open>
  Conversions at the boundary of the Rust driver (\<^verbatim>\<open>rdma_utils/types.rs\<close>, \<^verbatim>\<open>error.rs\<close>): work requests and queue pair
  attributes of the verbs interface, and receive requests as the bytes that the responder sends to the initiator. The C
  structures of the verbs interface are records; a list of scatter elements stands for the array its pointer points to, and
  a \<open>None\<close> result for reading past that array.
\<close>

subsection \<open>Errors\<close>

datatype RdmaError = DeviceError | Err_InvalidInput | NotFound | ResourceExhausted | ConnectionError | MemoryError | QpError
  | CqError | Err_Timeout | IoError "int option" | AddrParseError | SerdeError | Unimplemented | Err_Config

text \<open>The errno values of the C library on Linux; an I/O error carries its errno if it has one.\<close>

definition to_errno :: "RdmaError \<Rightarrow> int" where
  "to_errno e = (case e of
     Err_InvalidInput \<Rightarrow> 22
   | NotFound \<Rightarrow> 2
   | ResourceExhausted \<Rightarrow> 28
   | ConnectionError \<Rightarrow> 111
   | MemoryError \<Rightarrow> 12
   | Err_Timeout \<Rightarrow> 110
   | IoError os \<Rightarrow> (case os of Some n \<Rightarrow> n | None \<Rightarrow> 5)
   | _ \<Rightarrow> 5)"

subsection \<open>Work requests\<close>

record ibv_sge =
  sge_addr :: u64
  sge_length :: u32
  sge_lkey :: u32

record ibv_send_wr =
  isw_wr_id :: u64
  isw_sg_list :: "ibv_sge list"
  isw_num_sge :: u32
  isw_opcode :: u32
  isw_send_flags :: u32
  isw_imm_data :: u32
  isw_remote_addr :: u64
  isw_rkey :: u32

record ibv_recv_wr =
  irw_wr_id :: u64
  irw_sg_list :: "ibv_sge list"
  irw_num_sge :: u32

definition IBV_WR_RDMA_WRITE :: u32 where "IBV_WR_RDMA_WRITE = 0"

definition IBV_WR_RDMA_WRITE_WITH_IMM :: u32 where "IBV_WR_RDMA_WRITE_WITH_IMM = 1"

definition IBV_WR_SEND :: u32 where "IBV_WR_SEND = 2"

definition IBV_WR_SEND_WITH_IMM :: u32 where "IBV_WR_SEND_WITH_IMM = 3"

definition IBV_WR_RDMA_READ :: u32 where "IBV_WR_RDMA_READ = 4"

lemmas ibv_wr_opcodes = IBV_WR_RDMA_WRITE_def IBV_WR_RDMA_WRITE_WITH_IMM_def IBV_WR_SEND_def IBV_WR_SEND_WITH_IMM_def IBV_WR_RDMA_READ_def

datatype SendWr = SendWr_Rdma SendWrRdma | SendWr_Send SendWrBase

definition wr_opcode_of :: "u32 \<Rightarrow> WorkReqOpCode option" where
  "wr_opcode_of opcode =
     (if opcode = IBV_WR_RDMA_WRITE then Some RdmaWrite
      else if opcode = IBV_WR_RDMA_WRITE_WITH_IMM then Some RdmaWriteWithImm
      else if opcode = IBV_WR_RDMA_READ then Some RdmaRead
      else if opcode = IBV_WR_SEND then Some Send
      else if opcode = IBV_WR_SEND_WITH_IMM then Some SendWithImm
      else None)"

definition send_wr_new :: "ibv_send_wr \<Rightarrow> (RdmaError + SendWr) option" where
  "send_wr_new wr =
     (if sint (isw_num_sge wr) < 0 then Some (Inl Err_InvalidInput)
      else if isw_num_sge wr \<noteq> 1 then Some (Inl Unimplemented)
      else (case isw_sg_list wr of
         [] \<Rightarrow> None
       | sge # _ \<Rightarrow> (case wr_opcode_of (isw_opcode wr) of
           None \<Rightarrow> Some (Inl Unimplemented)
         | Some opcode \<Rightarrow>
             let base = \<lparr> wb_wr_id = isw_wr_id wr, wb_send_flags = isw_send_flags wr, wb_laddr = sge_addr sge, wb_length = sge_length sge,
                   wb_lkey = sge_lkey sge, wb_imm_data = isw_imm_data wr, wb_opcode = opcode \<rparr>
             in Some (
               if isw_opcode wr = IBV_WR_RDMA_WRITE \<or> isw_opcode wr = IBV_WR_RDMA_WRITE_WITH_IMM \<or> isw_opcode wr = IBV_WR_RDMA_READ then
                 Inr (SendWr_Rdma \<lparr> wr_base = base, wr_raddr = isw_remote_addr wr, wr_rkey = isw_rkey wr \<rparr>)
               else if isw_opcode wr = IBV_WR_SEND \<or> isw_opcode wr = IBV_WR_SEND_WITH_IMM then Inr (SendWr_Send base)
               else Inl Unimplemented))))"

definition new_from_base :: "SendWrBase \<Rightarrow> u64 \<Rightarrow> u32 \<Rightarrow> SendWrRdma" where
  "new_from_base base raddr rkey = \<lparr> wr_base = base, wr_raddr = raddr, wr_rkey = rkey \<rparr>"

record RecvWr =
  rw_wr_id :: u64
  rw_addr :: u64
  rw_length :: u32
  rw_lkey :: u32

definition recv_wr_new :: "ibv_recv_wr \<Rightarrow> RecvWr option option" where
  "recv_wr_new wr =
     (if sint (irw_num_sge wr) < 0 then Some None
      else if irw_num_sge wr \<noteq> 1 then Some None
      else (case irw_sg_list wr of
         [] \<Rightarrow> None
       | sge # _ \<Rightarrow> Some (Some \<lparr> rw_wr_id = irw_wr_id wr, rw_addr = sge_addr sge, rw_length = sge_length sge, rw_lkey = sge_lkey sge \<rparr>)))"

text \<open>Big-endian bytes of a word of \<open>n\<close> bytes.\<close>

definition to_be_bytes :: "nat \<Rightarrow> 'a :: len word \<Rightarrow> u8 list" where
  "to_be_bytes n w = map (\<lambda>i. ucast (drop_bit (8 * (n - 1 - i)) w)) [0..<n]"

definition from_be_bytes :: "u8 list \<Rightarrow> 'a :: len word" where
  "from_be_bytes bs = foldl (\<lambda>w b. push_bit 8 w OR ucast b) 0 bs"

definition recv_wr_to_bytes :: "RecvWr \<Rightarrow> u8 list" where
  "recv_wr_to_bytes self = to_be_bytes 8 (rw_wr_id self) @ to_be_bytes 8 (rw_addr self) @ to_be_bytes 4 (rw_length self) @ to_be_bytes 4 (rw_lkey self)"

definition recv_wr_from_bytes :: "u8 list \<Rightarrow> RecvWr" where
  "recv_wr_from_bytes bytes = \<lparr> rw_wr_id = from_be_bytes (take 8 bytes), rw_addr = from_be_bytes (take 8 (drop 8 bytes)),
     rw_length = from_be_bytes (take 4 (drop 16 bytes)), rw_lkey = from_be_bytes (take 4 (drop 20 bytes)) \<rparr>"

subsection \<open>Queue pair attributes\<close>

record IbvQpInitAttr =
  ia_qp_type :: u8
  ia_send_cq :: "u32 option"
  ia_recv_cq :: "u32 option"

text \<open>The completion queues are the handles of the objects the two pointers point to, \<open>None\<close> for null pointers.\<close>

record ibv_qp_init_attr =
  iqi_qp_type :: u32
  iqi_send_cq :: "u32 option"
  iqi_recv_cq :: "u32 option"

definition qp_init_attr_new :: "ibv_qp_init_attr \<Rightarrow> IbvQpInitAttr" where
  "qp_init_attr_new attr = \<lparr> ia_qp_type = ucast (iqi_qp_type attr), ia_send_cq = iqi_send_cq attr, ia_recv_cq = iqi_recv_cq attr \<rparr>"

record ibv_qp_cap =
  cap_max_send_wr :: u32
  cap_max_recv_wr :: u32
  cap_max_send_sge :: u32
  cap_max_recv_sge :: u32
  cap_max_inline_data :: u32

text \<open>Of an address handle only the destination GID, 16 bytes, is read.\<close>

record ibv_ah_attr =
  ah_dgid :: "u8 list"

record ibv_qp_attr =
  iqa_qp_state :: u32
  iqa_cur_qp_state :: u32
  iqa_path_mtu :: u32
  iqa_path_mig_state :: u32
  iqa_qkey :: u32
  iqa_rq_psn :: u32
  iqa_sq_psn :: u32
  iqa_dest_qp_num :: u32
  iqa_qp_access_flags :: u32
  iqa_cap :: ibv_qp_cap
  iqa_ah_attr :: ibv_ah_attr
  iqa_alt_ah_attr :: ibv_ah_attr
  iqa_pkey_index :: u16
  iqa_alt_pkey_index :: u16
  iqa_en_sqd_async_notify :: u8
  iqa_max_rd_atomic :: u8
  iqa_max_dest_rd_atomic :: u8
  iqa_min_rnr_timer :: u8
  iqa_port_num :: u8
  iqa_timeout :: u8
  iqa_retry_cnt :: u8
  iqa_rnr_retry :: u8
  iqa_alt_port_num :: u8
  iqa_alt_timeout :: u8
  iqa_rate_limit :: u32

record IbvQpAttr =
  qpa_qp_state :: "u32 option"
  qpa_cur_qp_state :: "u32 option"
  qpa_path_mtu :: "u32 option"
  qpa_path_mig_state :: "u32 option"
  qpa_qkey :: "u32 option"
  qpa_rq_psn :: "u32 option"
  qpa_sq_psn :: "u32 option"
  qpa_dest_qp_num :: "u32 option"
  qpa_qp_access_flags :: "u32 option"
  qpa_cap :: "ibv_qp_cap option"
  qpa_ah_attr :: "ibv_ah_attr option"
  qpa_alt_ah_attr :: "ibv_ah_attr option"
  qpa_pkey_index :: "u16 option"
  qpa_alt_pkey_index :: "u16 option"
  qpa_en_sqd_async_notify :: "u8 option"
  qpa_max_rd_atomic :: "u8 option"
  qpa_max_dest_rd_atomic :: "u8 option"
  qpa_min_rnr_timer :: "u8 option"
  qpa_port_num :: "u8 option"
  qpa_timeout :: "u8 option"
  qpa_retry_cnt :: "u8 option"
  qpa_rnr_retry :: "u8 option"
  qpa_alt_port_num :: "u8 option"
  qpa_alt_timeout :: "u8 option"
  qpa_rate_limit :: "u32 option"
  qpa_dest_qp_ip :: "u32 option"

text \<open>\<^verbatim>\<open>(attr_mask & bit != 0).then_some(x)\<close>, with the bits of the verbs interface.\<close>

definition if_masked :: "u32 \<Rightarrow> nat \<Rightarrow> 'a \<Rightarrow> 'a option" where
  "if_masked attr_mask k x = (if attr_mask AND push_bit k 1 \<noteq> 0 then Some x else None)"

abbreviation IBV_QP_AV :: nat where "IBV_QP_AV \<equiv> 7"
abbreviation IBV_QP_PATH_MTU :: nat where "IBV_QP_PATH_MTU \<equiv> 8"
abbreviation IBV_QP_ALT_PATH :: nat where "IBV_QP_ALT_PATH \<equiv> 14"
abbreviation IBV_QP_DEST_QPN :: nat where "IBV_QP_DEST_QPN \<equiv> 20"

text \<open>An IPv4 address is the number its four bytes spell, the first one highest.\<close>

definition gid_ipv4 :: "u8 list \<Rightarrow> u32 option" where
  "gid_ipv4 gid =
     (if list_all (\<lambda>x. x = 0) (take 10 gid) \<and> gid ! 10 = 0xFF \<and> gid ! 11 = 0xFF
      then Some (from_be_bytes [gid ! 12, gid ! 13, gid ! 14, gid ! 15]) else None)"

definition qp_attr_new :: "ibv_qp_attr \<Rightarrow> u32 \<Rightarrow> IbvQpAttr" where
  "qp_attr_new attr attr_mask = \<lparr>
     qpa_qp_state = if_masked attr_mask 0 (iqa_qp_state attr),
     qpa_cur_qp_state = if_masked attr_mask 1 (iqa_cur_qp_state attr),
     qpa_path_mtu = if_masked attr_mask IBV_QP_PATH_MTU (iqa_path_mtu attr),
     qpa_path_mig_state = if_masked attr_mask 18 (iqa_path_mig_state attr),
     qpa_qkey = if_masked attr_mask 6 (iqa_qkey attr),
     qpa_rq_psn = if_masked attr_mask 12 (iqa_rq_psn attr),
     qpa_sq_psn = if_masked attr_mask 16 (iqa_sq_psn attr),
     qpa_dest_qp_num = if_masked attr_mask IBV_QP_DEST_QPN (iqa_dest_qp_num attr),
     qpa_qp_access_flags = if_masked attr_mask 3 (iqa_qp_access_flags attr),
     qpa_cap = if_masked attr_mask 19 (iqa_cap attr),
     qpa_ah_attr = if_masked attr_mask IBV_QP_AV (iqa_ah_attr attr),
     qpa_alt_ah_attr = if_masked attr_mask IBV_QP_ALT_PATH (iqa_alt_ah_attr attr),
     qpa_pkey_index = if_masked attr_mask 4 (iqa_pkey_index attr),
     qpa_alt_pkey_index = if_masked attr_mask IBV_QP_ALT_PATH (iqa_alt_pkey_index attr),
     qpa_en_sqd_async_notify = if_masked attr_mask 2 (iqa_en_sqd_async_notify attr),
     qpa_max_rd_atomic = if_masked attr_mask 13 (iqa_max_rd_atomic attr),
     qpa_max_dest_rd_atomic = if_masked attr_mask 17 (iqa_max_dest_rd_atomic attr),
     qpa_min_rnr_timer = if_masked attr_mask 15 (iqa_min_rnr_timer attr),
     qpa_port_num = if_masked attr_mask 5 (iqa_port_num attr),
     qpa_timeout = if_masked attr_mask 9 (iqa_timeout attr),
     qpa_retry_cnt = if_masked attr_mask 10 (iqa_retry_cnt attr),
     qpa_rnr_retry = if_masked attr_mask 11 (iqa_rnr_retry attr),
     qpa_alt_port_num = if_masked attr_mask IBV_QP_ALT_PATH (iqa_alt_port_num attr),
     qpa_alt_timeout = if_masked attr_mask IBV_QP_ALT_PATH (iqa_alt_timeout attr),
     qpa_rate_limit = if_masked attr_mask 25 (iqa_rate_limit attr),
     qpa_dest_qp_ip = (case if_masked attr_mask IBV_QP_AV () of Some _ \<Rightarrow> gid_ipv4 (ah_dgid (iqa_ah_attr attr)) | None \<Rightarrow> None) \<rparr>"

subsection \<open>Receive requests survive the wire\<close>

lemma from_be_snoc: "from_be_bytes (bs @ [b]) = push_bit 8 (from_be_bytes bs) OR ucast b"
  by (simp add: from_be_bytes_def)

lemma bit_from_be:
  "bit (from_be_bytes bs :: 'a :: len word) i \<longleftrightarrow> i < LENGTH('a) \<and> i < 8 * length bs \<and> bit (bs ! (length bs - 1 - i div 8)) (i mod 8)"
proof (induction bs arbitrary: i rule: rev_induct)
  case Nil
  then show ?case by (simp add: from_be_bytes_def)
next
  case (snoc b bs)
  show ?case
  proof (cases "i < 8")
    case True
    then show ?thesis by (auto simp: from_be_snoc bit_simps nth_append)
  next
    case False
    define j where "j = i - 8"
    have i: "i = j + 8" using False by (simp add: j_def)
    have "\<not> bit b i" using False by (auto dest: bit_imp_le_length)
    then show ?thesis unfolding from_be_snoc by (auto simp: bit_simps snoc i nth_append div_add_self2 dest: bit_imp_le_length)
  qed
qed

lemma from_to_be: "LENGTH('a) = 8 * n \<Longrightarrow> from_be_bytes (to_be_bytes n w) = (w :: 'a :: len word)"
proof (rule bit_word_eqI)
  fix i assume a: "LENGTH('a) = 8 * n" "i < LENGTH('a)"
  then have "i div 8 < n" by (simp add: less_mult_imp_div_less mult.commute)
  then have "to_be_bytes n w ! (n - 1 - i div 8) = ucast (drop_bit (8 * (i div 8)) w)" by (simp add: to_be_bytes_def)
  moreover have "8 * (i div 8) + i mod 8 = i" by simp
  ultimately show "bit (from_be_bytes (to_be_bytes n w) :: 'a word) i = bit w i"
    using a by (simp add: bit_from_be to_be_bytes_def bit_simps)
qed

lemma to_from_be:
  assumes "LENGTH('a) = 8 * n" "length bs = n"
  shows "to_be_bytes n (from_be_bytes bs :: 'a :: len word) = bs"
proof (rule nth_equalityI)
  fix i assume i: "i < length (to_be_bytes n (from_be_bytes bs :: 'a word))"
  then have i: "i < n" by (simp add: to_be_bytes_def)
  show "to_be_bytes n (from_be_bytes bs :: 'a word) ! i = bs ! i"
  proof (rule bit_word_eqI)
    fix k assume k: "k < LENGTH(8)"
    have d: "(8 * (n - 1 - i) + k) div 8 = n - 1 - i" "(8 * (n - 1 - i) + k) mod 8 = k" using k by simp_all
    have "8 * (n - 1 - i) + k < 8 * n" using i k by simp
    then show "bit (to_be_bytes n (from_be_bytes bs :: 'a word) ! i) k = bit (bs ! i) k"
      using i k assms by (simp add: to_be_bytes_def bit_simps bit_from_be d)
  qed
qed (simp add: to_be_bytes_def assms)

text \<open>C36. A receive request arrives at the initiator as the responder posted it: its bytes fill the 24 bytes of the message and decode
  to the request itself, and every message of 24 bytes is the encoding of what it decodes to.
\<close>

theorem recv_wr_roundtrip:
  "length (recv_wr_to_bytes wr) = 24 \<and> recv_wr_from_bytes (recv_wr_to_bytes wr) = wr \<and>
   (\<forall>bytes. length bytes = 24 \<longrightarrow> recv_wr_to_bytes (recv_wr_from_bytes bytes) = bytes)"
proof (intro conjI allI impI)
  have l: "length (to_be_bytes n w) = n" for n and w :: "'c :: len word" by (simp add: to_be_bytes_def)
  show "length (recv_wr_to_bytes wr) = 24" by (simp add: recv_wr_to_bytes_def l)
  show "recv_wr_from_bytes (recv_wr_to_bytes wr) = wr" by (simp add: recv_wr_from_bytes_def recv_wr_to_bytes_def l from_to_be)
  fix bytes :: "u8 list" assume b: "length bytes = 24"
  have "recv_wr_to_bytes (recv_wr_from_bytes bytes) = take 8 bytes @ take 8 (drop 8 bytes) @ take 4 (drop 16 bytes) @ take 4 (drop 20 bytes)"
    by (simp add: recv_wr_from_bytes_def recv_wr_to_bytes_def to_from_be b)
  also have "\<dots> = bytes"
    using b append_take_drop_id [of 8 bytes] append_take_drop_id [of 8 "drop 8 bytes"] append_take_drop_id [of 4 "drop 16 bytes"] by simp
  finally show "recv_wr_to_bytes (recv_wr_from_bytes bytes) = bytes" .
qed

theorem recv_wr_roundtrip_witness:
  "recv_wr_to_bytes (recv_wr_from_bytes (replicate 24 7)) = replicate 24 7"
  using recv_wr_roundtrip by (metis length_replicate)

end
