(* ===== verification/Mtt.thy ===== *)
theory Mtt
  imports RdmaTypes
begin

text \<open>
  The memory translation table of the Rust driver (\<^verbatim>\<open>rdma_utils/mtt.rs\<close>): keys of memory regions from a free list and ranges
  of page table entries from a bit array. The bit array is the one of the bitvec crate, an argument; the random part of
  a key is an argument; \<open>dbg\<close> says whether debug assertions are compiled in. An outer \<open>None\<close> is a panic.
\<close>

subsection \<open>Definitions\<close>

definition MAX_MR_CNT :: nat where "MAX_MR_CNT = 8192"

definition LR_KEY_KEY_PART_WIDTH :: nat where "LR_KEY_KEY_PART_WIDTH = 8"

definition PGT_LEN :: nat where "PGT_LEN = 0x20000"

record PgtEntry =
  pe_index :: u32
  pe_count :: u32

definition mr_table_new :: "u32 list" where
  "mr_table_new = map word_of_nat [0..<MAX_MR_CNT]"

definition alloc_mr_key_idx :: "u32 list \<Rightarrow> u32 list \<times> u32 option" where
  "alloc_mr_key_idx free_list = (if free_list = [] then ([], None) else (butlast free_list, Some (last free_list)))"

definition dealloc_mr_key :: "u32 list \<Rightarrow> u32 \<Rightarrow> u32 list" where
  "dealloc_mr_key free_list key = free_list @ [key]"

definition pgt_new :: "('b, 'z) bitvec_ops_scheme \<Rightarrow> 'b" where
  "pgt_new B = bv_resize B (bv_new B) PGT_LEN False"

text \<open>The loop over the entries of the page table, from index \<open>i\<close>, with the run of free entries found so far.\<close>

fun pgt_scan :: "('b, 'z) bitvec_ops_scheme \<Rightarrow> 'b \<Rightarrow> nat \<Rightarrow> nat list \<Rightarrow> nat \<Rightarrow> nat \<Rightarrow> nat option option" where
  "pgt_scan B v len [] count start = Some None"
| "pgt_scan B v len (i # is) count start = do {
     b \<leftarrow> bv_get B v i;
     if b then pgt_scan B v len is 0 start
     else
       let start = (if count = 0 then i else start); count = count + 1
       in if count = len then Some (Some start) else pgt_scan B v len is count start }"

text \<open>Filling a slice sets its bits one by one.\<close>

fun fill_slice :: "('b, 'z) bitvec_ops_scheme \<Rightarrow> 'b \<Rightarrow> nat list \<Rightarrow> bool \<Rightarrow> 'b option" where
  "fill_slice B v [] x = Some v"
| "fill_slice B v (i # is) x = do { v \<leftarrow> bv_set B v i x; fill_slice B v is x }"

definition pgt_alloc :: "('b, 'z) bitvec_ops_scheme \<Rightarrow> 'b \<Rightarrow> nat \<Rightarrow> ('b \<times> nat option) option" where
  "pgt_alloc B v len = do {
     r \<leftarrow> pgt_scan B v len [0..<bv_len B v] 0 0;
     (case r of
        None \<Rightarrow> Some (v, None)
      | Some start \<Rightarrow> do { v \<leftarrow> fill_slice B v [start..<start + len] True; Some (v, Some start) }) }"

definition pgt_dealloc :: "('b, 'z) bitvec_ops_scheme \<Rightarrow> 'b \<Rightarrow> nat \<Rightarrow> nat \<Rightarrow> ('b \<times> bool) option" where
  "pgt_dealloc B v index len =
     (if index + len < 2 ^ 64 \<and> index + len \<le> bv_len B v then do { v \<leftarrow> fill_slice B v [index..<index + len] False; Some (v, True) }
      else Some (v, False))"

record 'b mtt_allocator =
  ta_mr :: "u32 list"
  ta_pgt :: 'b

definition alloc_mr_key :: "'b mtt_allocator \<Rightarrow> u32 \<Rightarrow> 'b mtt_allocator \<times> u32 option" where
  "alloc_mr_key self key = (case alloc_mr_key_idx (ta_mr self) of
     (mr, None) \<Rightarrow> (self\<lparr> ta_mr := mr \<rparr>, None)
   | (mr, Some idx) \<Rightarrow> (self\<lparr> ta_mr := mr \<rparr>, Some (push_bit LR_KEY_KEY_PART_WIDTH idx OR key)))"

definition alloc_pgt :: "('b, 'z) bitvec_ops_scheme \<Rightarrow> 'b mtt_allocator \<Rightarrow> nat \<Rightarrow> ('b mtt_allocator \<times> PgtEntry option) option" where
  "alloc_pgt B self num_pages = do {
     (pgt, r) \<leftarrow> pgt_alloc B (ta_pgt self) num_pages;
     Some (self\<lparr> ta_pgt := pgt \<rparr>, map_option (\<lambda>i. \<lparr> pe_index = word_of_nat i, pe_count = word_of_nat num_pages \<rparr>) r) }"

definition alloc_region :: "('b, 'z) bitvec_ops_scheme \<Rightarrow> 'b mtt_allocator \<Rightarrow> u32 \<Rightarrow> nat \<Rightarrow> ('b mtt_allocator \<times> (u32 \<times> PgtEntry) option) option" where
  "alloc_region B self key num_pages = (case alloc_mr_key self key of
     (self, None) \<Rightarrow> Some (self, None)
   | (self, Some x) \<Rightarrow> do {
       (self, r) \<leftarrow> alloc_pgt B self num_pages;
       Some (self, map_option (\<lambda>y. (x, y)) r) })"

definition dealloc_region :: "('b, 'z) bitvec_ops_scheme \<Rightarrow> 'b mtt_allocator \<Rightarrow> u32 \<Rightarrow> nat \<Rightarrow> nat \<Rightarrow> ('b mtt_allocator \<times> bool) option" where
  "dealloc_region B self mr_key mr_index len = do {
     let mr = dealloc_mr_key (ta_mr self) (drop_bit LR_KEY_KEY_PART_WIDTH mr_key);
     (pgt, r) \<leftarrow> pgt_dealloc B (ta_pgt self) mr_index len;
     Some (self\<lparr> ta_mr := mr, ta_pgt := pgt \<rparr>, r) }"

record 'b Mtt =
  mtt_alloc :: "'b mtt_allocator"
  mtt_mrkey_map :: "u32 \<rightharpoonup> PgtEntry"

definition mtt_new :: "('b, 'z) bitvec_ops_scheme \<Rightarrow> 'b Mtt" where
  "mtt_new B = \<lparr> mtt_alloc = \<lparr> ta_mr = mr_table_new, ta_pgt = pgt_new B \<rparr>, mtt_mrkey_map = Map.empty \<rparr>"

text \<open>The insertion into the map is the argument of \<^verbatim>\<open>debug_assert!\<close> and so happens only when \<open>dbg\<close> holds.\<close>

definition mtt_register :: "bool \<Rightarrow> ('b, 'z) bitvec_ops_scheme \<Rightarrow> 'b Mtt \<Rightarrow> u32 \<Rightarrow> nat \<Rightarrow> ('b Mtt \<times> (u32 \<times> PgtEntry) option) option" where
  "mtt_register dbg B self key num_pages = do {
     (a, r) \<leftarrow> alloc_region B (mtt_alloc self) key num_pages;
     (case r of
        None \<Rightarrow> Some (self\<lparr> mtt_alloc := a \<rparr>, None)
      | Some (mr_key, pgt_entry) \<Rightarrow>
          if dbg then
            (if mtt_mrkey_map self mr_key = None
             then Some (self\<lparr> mtt_alloc := a, mtt_mrkey_map := (mtt_mrkey_map self)(mr_key \<mapsto> pgt_entry) \<rparr>, Some (mr_key, pgt_entry))
             else None)
          else Some (self\<lparr> mtt_alloc := a \<rparr>, Some (mr_key, pgt_entry))) }"

definition mtt_deregister :: "('b, 'z) bitvec_ops_scheme \<Rightarrow> 'b Mtt \<Rightarrow> u32 \<Rightarrow> ('b Mtt \<times> RdmaError option) option" where
  "mtt_deregister B self mr_key = (case mtt_mrkey_map self mr_key of
     None \<Rightarrow> Some (self, Some Err_InvalidInput)
   | Some entry \<Rightarrow> do {
       (a, ok) \<leftarrow> dealloc_region B (mtt_alloc self) mr_key (unat (pe_index entry)) (unat (pe_count entry));
       Some (self\<lparr> mtt_alloc := a, mtt_mrkey_map := (mtt_mrkey_map self)(mr_key := None) \<rparr>, if ok then None else Some Err_InvalidInput) })"

text \<open>The number of pages a region spans (\<^verbatim>\<open>mem/utils.rs\<close>); \<open>page_size\<close> is the configured size of a page.\<close>

definition saturating_add64 :: "u64 \<Rightarrow> u64 \<Rightarrow> u64" where
  "saturating_add64 a b = (if unat a + unat b < 2 ^ 64 then a + b else - 1)"

definition saturating_sub64 :: "u64 \<Rightarrow> u64 \<Rightarrow> u64" where
  "saturating_sub64 a b = (if b \<le> a then a - b else 0)"

definition get_num_page :: "u64 \<Rightarrow> u64 \<Rightarrow> u64 \<Rightarrow> u64" where
  "get_num_page page_size addr len =
     (if len = 0 then 0
      else
        let end_addr = saturating_sub64 (saturating_add64 addr len) 1;
            start_page = addr div page_size;
            end_page = end_addr div page_size
        in saturating_sub64 end_page start_page + 1)"

subsection \<open>The page table allocator\<close>

definition free_run :: "bool list \<Rightarrow> nat \<Rightarrow> nat \<Rightarrow> bool" where
  "free_run bs s len \<longleftrightarrow> s + len \<le> length bs \<and> (\<forall>j. s \<le> j \<and> j < s + len \<longrightarrow> \<not> bs ! j)"

lemma pgt_scan_spec:
  assumes L: "bitvec_laws B bits" and "count < len" "i \<le> length (bits v)"
    "s0 = (if count = 0 then i else start)" "s0 + count = i" "\<forall>j. s0 \<le> j \<and> j < i \<longrightarrow> \<not> bits v ! j"
    "\<forall>s < s0. \<not> free_run (bits v) s len"
  shows "\<exists>r. pgt_scan B v len [i..<length (bits v)] count start = Some r \<and>
    (case r of None \<Rightarrow> \<forall>s. \<not> free_run (bits v) s len | Some s \<Rightarrow> free_run (bits v) s len \<and> (\<forall>t < s. \<not> free_run (bits v) t len))"
  using assms(2-)
proof (induction "length (bits v) - i" arbitrary: i count start s0)
  case 0
  have "\<not> free_run (bits v) s len" for s
    using 0 by (cases "s < s0") (auto simp: free_run_def split: if_splits)
  then show ?case using 0 by simp
next
  case (Suc n)
  let ?bs = "bits v"
  have i: "i < length ?bs" "[i..<length ?bs] = i # [Suc i..<length ?bs]" "n = length ?bs - Suc i" "Suc i \<le> length ?bs"
    using Suc.hyps(2) by (auto simp: upt_conv_Cons)
  have g: "bv_get B v i = Some (?bs ! i)" using i(1) by (simp add: bitvec_simps [OF L])
  show ?case
  proof (cases "?bs ! i")
    case True
    have "\<not> free_run ?bs s len" if "s < Suc i" for s
    proof (cases "s < s0")
      case False
      then have "s \<le> i" "i < s + len" using that Suc.prems by auto
      then show ?thesis using True by (auto simp: free_run_def)
    qed (use Suc.prems in simp)
    then show ?thesis using Suc.hyps(1) [OF i(3), of 0 "Suc i" start] Suc.prems i True g by auto
  next
    case False
    have f: "\<forall>j. s0 \<le> j \<and> j < Suc i \<longrightarrow> \<not> ?bs ! j" using Suc.prems(5) False by (auto simp: less_Suc_eq)
    show ?thesis
    proof (cases "Suc count = len")
      case True
      then have "free_run ?bs s0 len" using f Suc.prems i by (auto simp: free_run_def)
      then show ?thesis using False True g i Suc.prems by (simp split: if_splits)
    next
      case c: False
      have "pgt_scan B v len [i..<length ?bs] count start = pgt_scan B v len [Suc i..<length ?bs] (Suc count) s0"
        using False c g i(2) Suc.prems(3) by (simp split: if_splits)
      then show ?thesis using Suc.hyps(1) [OF i(3), of "Suc count" s0 s0] Suc.prems i c f by simp
    qed
  qed
qed

lemma fill_slice_spec:
  assumes L: "bitvec_laws B bits" and "\<forall>i \<in> set is. i < length (bits v)"
  obtains v' where "fill_slice B v is x = Some v'" "length (bits v') = length (bits v)"
    "\<forall>j < length (bits v). bits v' ! j = (if j \<in> set is then x else bits v ! j)"
proof -
  have "\<exists>v'. fill_slice B v is x = Some v' \<and> length (bits v') = length (bits v) \<and>
    (\<forall>j < length (bits v). bits v' ! j = (if j \<in> set is then x else bits v ! j))"
    using assms(2)
  proof (induction "is" arbitrary: v)
    case (Cons i "is")
    obtain u where u: "bv_set B v i x = Some u" "bits u = (bits v)[i := x]" using bitvec_set [OF L, of i v x] Cons.prems by auto
    then show ?case using Cons.IH [of u] Cons.prems by (auto simp: nth_list_update)
  qed simp
  then show ?thesis using that by blast
qed

lemma pgt_alloc_spec:
  assumes L: "bitvec_laws B bits" and "0 < len"
  obtains (full) "pgt_alloc B v len = Some (v, None)" "\<forall>s. \<not> free_run (bits v) s len"
  | (found) v' s where "pgt_alloc B v len = Some (v', Some s)" "free_run (bits v) s len" "length (bits v') = length (bits v)"
      "\<forall>j < length (bits v). bits v' ! j \<longleftrightarrow> bits v ! j \<or> s \<le> j \<and> j < s + len"
proof -
  obtain r where r: "pgt_scan B v len [0..<length (bits v)] 0 0 = Some r"
    "case r of None \<Rightarrow> \<forall>s. \<not> free_run (bits v) s len | Some s \<Rightarrow> free_run (bits v) s len \<and> (\<forall>t < s. \<not> free_run (bits v) t len)"
    using pgt_scan_spec [OF L, of 0 len 0 v 0 0] assms(2) by auto
  show ?thesis
  proof (cases r)
    case None
    then show ?thesis using full r by (simp add: pgt_alloc_def bitvec_simps [OF L])
  next
    case (Some s)
    then have f: "free_run (bits v) s len" using r(2) by simp
    then obtain v' where v': "fill_slice B v [s..<s + len] True = Some v'" "length (bits v') = length (bits v)"
      "\<forall>j < length (bits v). bits v' ! j = (if j \<in> set [s..<s + len] then True else bits v ! j)"
      using fill_slice_spec [OF L, of "[s..<s + len]" v True] by (auto simp: free_run_def)
    show ?thesis by (rule found [of v' s]) (use v' f r(1) Some in \<open>auto simp: pgt_alloc_def bitvec_simps [OF L]\<close>)
  qed
qed

lemma pgt_dealloc_spec:
  assumes L: "bitvec_laws B bits" and "index + len \<le> length (bits v)" "length (bits v) < 2 ^ 64"
  obtains v' where "pgt_dealloc B v index len = Some (v', True)" "length (bits v') = length (bits v)"
    "\<forall>j < length (bits v). bits v' ! j \<longleftrightarrow> bits v ! j \<and> \<not> (index \<le> j \<and> j < index + len)"
proof -
  obtain v' where "fill_slice B v [index..<index + len] False = Some v'" "length (bits v') = length (bits v)"
    "\<forall>j < length (bits v). bits v' ! j = (if j \<in> set [index..<index + len] then False else bits v ! j)"
    using fill_slice_spec [OF L, of "[index..<index + len]" v False] assms(2) by auto
  note v' = this
  show ?thesis by (rule that [of v']) (use v' assms in \<open>auto simp: pgt_dealloc_def bitvec_simps [OF L]\<close>)
qed

subsection \<open>Histories of registrations\<close>

definition mr_idx :: "u32 \<Rightarrow> u32" where
  "mr_idx k = drop_bit LR_KEY_KEY_PART_WIDTH k"

definition region_pages :: "PgtEntry \<Rightarrow> nat set" where
  "region_pages e = {unat (pe_index e) ..< unat (pe_index e) + unat (pe_count e)}"

text \<open>Live regions have keys that are not in the free list and page table entries of their own, and these are the used ones.\<close>

definition keys_ok :: "'b Mtt \<Rightarrow> bool" where
  "keys_ok s \<longleftrightarrow> distinct (ta_mr (mtt_alloc s)) \<and> (\<forall>x \<in> set (ta_mr (mtt_alloc s)). unat x < MAX_MR_CNT) \<and>
     (\<forall>k \<in> dom (mtt_mrkey_map s). unat (mr_idx k) < MAX_MR_CNT \<and> mr_idx k \<notin> set (ta_mr (mtt_alloc s))) \<and>
     inj_on mr_idx (dom (mtt_mrkey_map s))"

definition pages_ok :: "('b \<Rightarrow> bool list) \<Rightarrow> 'b Mtt \<Rightarrow> bool" where
  "pages_ok bits s \<longleftrightarrow> length (bits (ta_pgt (mtt_alloc s))) = PGT_LEN \<and>
     (\<forall>e \<in> ran (mtt_mrkey_map s). unat (pe_index e) + unat (pe_count e) \<le> PGT_LEN) \<and>
     (\<forall>k e k' e'. mtt_mrkey_map s k = Some e \<and> mtt_mrkey_map s k' = Some e' \<and> k \<noteq> k' \<longrightarrow> region_pages e \<inter> region_pages e' = {}) \<and>
     (\<forall>j < PGT_LEN. bits (ta_pgt (mtt_alloc s)) ! j \<longleftrightarrow> (\<exists>k e. mtt_mrkey_map s k = Some e \<and> j \<in> region_pages e))"

lemma pages_used:
  assumes "pages_ok bits s"
  shows "{j. j < length (bits (ta_pgt (mtt_alloc s))) \<and> bits (ta_pgt (mtt_alloc s)) ! j} = \<Union> (region_pages ` ran (mtt_mrkey_map s))"
proof -
  have "region_pages e \<subseteq> {..<PGT_LEN}" if "e \<in> ran (mtt_mrkey_map s)" for e
    using assms that by (auto simp: pages_ok_def region_pages_def)
  then have "j \<in> \<Union> (region_pages ` ran (mtt_mrkey_map s)) \<longleftrightarrow>
      j < PGT_LEN \<and> (\<exists>k e. mtt_mrkey_map s k = Some e \<and> j \<in> region_pages e)" for j by (auto simp: ran_def)
  moreover have "length (bits (ta_pgt (mtt_alloc s))) = PGT_LEN"
    "\<forall>j < PGT_LEN. bits (ta_pgt (mtt_alloc s)) ! j \<longleftrightarrow> (\<exists>k e. mtt_mrkey_map s k = Some e \<and> j \<in> region_pages e)"
    using assms unfolding pages_ok_def by blast+
  ultimately show ?thesis by (intro set_eqI) (simp only: mem_Collect_eq, blast)
qed

inductive mtt_run :: "bool \<Rightarrow> ('b, 'z) bitvec_ops_scheme \<Rightarrow> 'b Mtt \<Rightarrow> bool" for dbg B where
  mtt_start: "mtt_run dbg B (mtt_new B)"
| mtt_reg: "mtt_run dbg B s \<Longrightarrow> key < 256 \<Longrightarrow> 0 < n \<Longrightarrow> mtt_register dbg B s key n = Some (s', r) \<Longrightarrow> mtt_run dbg B s'"
| mtt_dereg: "mtt_run dbg B s \<Longrightarrow> mtt_deregister B s k = Some (s', r) \<Longrightarrow> mtt_run dbg B s'"

lemma mr_idx_key: "unat idx < MAX_MR_CNT \<Longrightarrow> key < 256 \<Longrightarrow> mr_idx (push_bit LR_KEY_KEY_PART_WIDTH idx OR key) = idx"
proof -
  assume a: "unat idx < MAX_MR_CNT" "key < 256"
  have "drop_bit 8 key = 0" using a(2) by (simp add: word_unat_eq_iff drop_bit_eq_div unat_div word_less_nat_alt)
  moreover have "drop_bit 8 (push_bit 8 idx) = idx"
    using a(1) by (simp add: MAX_MR_CNT_def word_unat_eq_iff drop_bit_eq_div push_bit_eq_mult unat_div unat_word_ariths)
  ultimately show ?thesis by (simp add: mr_idx_def LR_KEY_KEY_PART_WIDTH_def)
qed

lemma keys_ok_new: "keys_ok (mtt_new B)"
proof -
  have "inj_on (word_of_nat :: nat \<Rightarrow> u32) {0..<MAX_MR_CNT}"
    by (auto simp: inj_on_def MAX_MR_CNT_def word_unat_eq_iff unat_of_nat)
  then show ?thesis by (auto simp: keys_ok_def mtt_new_def mr_table_new_def distinct_map MAX_MR_CNT_def unat_of_nat)
qed

lemma pages_ok_new: "bitvec_laws B bits \<Longrightarrow> pages_ok bits (mtt_new B)"
  by (auto simp: pages_ok_def mtt_new_def pgt_new_def bitvec_simps)


lemma take_mr_key:
  assumes "keys_ok s" "key < 256"
  obtains (none) "ta_mr (mtt_alloc s) = []" "alloc_mr_key (mtt_alloc s) key = (mtt_alloc s, None)"
  | (some) k where "ta_mr (mtt_alloc s) \<noteq> []"
      "alloc_mr_key (mtt_alloc s) key = ((mtt_alloc s)\<lparr> ta_mr := butlast (ta_mr (mtt_alloc s)) \<rparr>, Some k)"
      "mtt_mrkey_map s k = None" "mr_idx k = last (ta_mr (mtt_alloc s))"
proof (cases "ta_mr (mtt_alloc s) = []")
  case True
  then show ?thesis using none by (simp add: alloc_mr_key_def alloc_mr_key_idx_def)
next
  case False
  let ?l = "last (ta_mr (mtt_alloc s))"
  let ?k = "push_bit LR_KEY_KEY_PART_WIDTH ?l OR key"
  have l: "?l \<in> set (ta_mr (mtt_alloc s))" using False by simp
  then have "unat ?l < MAX_MR_CNT" using assms(1) by (auto simp: keys_ok_def)
  then have k: "mr_idx ?k = ?l" using assms(2) by (rule mr_idx_key)
  then have "?k \<notin> dom (mtt_mrkey_map s)" using assms(1) l unfolding keys_ok_def by metis
  then show ?thesis using some [of ?k] False k by (auto simp: alloc_mr_key_def alloc_mr_key_idx_def)
qed

lemma butlast_keys:
  assumes "xs \<noteq> []" "distinct xs"
  shows "distinct (butlast xs)" "last xs \<notin> set (butlast xs)" "set (butlast xs) \<subseteq> set xs"
  using assms by (cases xs rule: rev_cases; auto)+

text \<open>Claiming a free run of page table entries for a new key.\<close>

lemma pages_ok_add:
  assumes ok: "pages_ok bits s" and M: "mtt_mrkey_map s k = None" and f: "free_run (bits (ta_pgt (mtt_alloc s))) i n"
    and r: "unat (pe_index e) = i" "unat (pe_count e) = n" and v: "length (bits v) = length (bits (ta_pgt (mtt_alloc s)))"
      "\<forall>j < length (bits (ta_pgt (mtt_alloc s))). bits v ! j \<longleftrightarrow> bits (ta_pgt (mtt_alloc s)) ! j \<or> i \<le> j \<and> j < i + n"
  shows "pages_ok bits (s\<lparr> mtt_alloc := (mtt_alloc s)\<lparr> ta_mr := mr, ta_pgt := v \<rparr>, mtt_mrkey_map := (mtt_mrkey_map s)(k \<mapsto> e) \<rparr>)"
proof -
  let ?a = "mtt_alloc s" and ?M = "mtt_mrkey_map s"
  have len: "length (bits (ta_pgt ?a)) = PGT_LEN" using ok by (simp add: pages_ok_def)
  have r': "region_pages e = {i..<i + n}" using r by (simp add: region_pages_def)
  have un: "region_pages e' \<inter> {i..<i + n} = {}" if "?M k' = Some e'" for k' e'
  proof -
    have "unat (pe_index e') + unat (pe_count e') \<le> PGT_LEN" using ok that unfolding pages_ok_def by (blast intro: ranI)
    then have "region_pages e' \<subseteq> {..<PGT_LEN}" by (auto simp: region_pages_def)
    then have "bits (ta_pgt ?a) ! j" if "j \<in> region_pages e'" for j using ok that \<open>?M k' = Some e'\<close> unfolding pages_ok_def by blast
    then show ?thesis using f by (auto simp: free_run_def)
  qed
  have R: "ran (?M(k \<mapsto> e)) = insert e (ran ?M)" using M by simp
  have g: "(\<exists>k1 e1. N k1 = Some e1 \<and> j \<in> region_pages e1) \<longleftrightarrow> (\<exists>x \<in> ran N. j \<in> region_pages x)" for N :: "u32 \<rightharpoonup> PgtEntry" and j
    by (auto simp: ran_def)
  have "unat (pe_index e) + unat (pe_count e) \<le> PGT_LEN" using r f len by (auto simp: free_run_def)
  then have "\<forall>e \<in> ran (?M(k \<mapsto> e)). unat (pe_index e) + unat (pe_count e) \<le> PGT_LEN" using ok unfolding R pages_ok_def by blast
  moreover have "region_pages e1 \<inter> region_pages e2 = {}" if a: "(?M(k \<mapsto> e)) k1 = Some e1" "(?M(k \<mapsto> e)) k2 = Some e2" "k1 \<noteq> k2" for k1 e1 k2 e2
  proof -
    have c: "k1 = k \<and> e1 = e \<and> ?M k2 = Some e2 \<or> k2 = k \<and> e2 = e \<and> ?M k1 = Some e1 \<or> ?M k1 = Some e1 \<and> ?M k2 = Some e2"
      using a by (cases "k1 = k"; cases "k2 = k") simp_all
    have "region_pages e1 \<inter> region_pages e2 = {}" if "?M k1 = Some e1" "?M k2 = Some e2"
      using ok a(3) that unfolding pages_ok_def by blast
    then show ?thesis using c un [of k2 e2] un [of k1 e1] r' by blast
  qed
  moreover have "bits v ! j \<longleftrightarrow> (\<exists>k1 e1. (?M(k \<mapsto> e)) k1 = Some e1 \<and> j \<in> region_pages e1)" if "j < PGT_LEN" for j
  proof -
    have "bits v ! j \<longleftrightarrow> (\<exists>x \<in> ran ?M. j \<in> region_pages x) \<or> j \<in> region_pages e"
      using ok v(2) that len r' unfolding pages_ok_def g by simp
    then show ?thesis unfolding g R by blast
  qed
  ultimately show ?thesis using v(1) len unfolding pages_ok_def
    by (simp del: fun_upd_apply) blast
qed

text \<open>What a registration does in a debug build.\<close>

lemma register_debug:
  assumes L: "bitvec_laws B bits" and ok: "keys_ok s" "pages_ok bits s" and a: "key < 256" "0 < n"
  obtains (refused) s' where "mtt_register True B s key n = Some (s', None)" "keys_ok s'" "pages_ok bits s'"
      "mtt_mrkey_map s' = mtt_mrkey_map s" "ta_mr (mtt_alloc s) = [] \<or> (\<forall>i. \<not> free_run (bits (ta_pgt (mtt_alloc s))) i n)"
  | (accepted) s' k e where "mtt_register True B s key n = Some (s', Some (k, e))" "keys_ok s'" "pages_ok bits s'"
      "mtt_mrkey_map s k = None" "mtt_mrkey_map s' = (mtt_mrkey_map s)(k \<mapsto> e)" "card (region_pages e) = n"
      "ta_mr (mtt_alloc s) \<noteq> []" "\<exists>i. free_run (bits (ta_pgt (mtt_alloc s))) i n"
proof (cases rule: take_mr_key [OF ok(1) a(1)])
  case 1
  then show ?thesis using refused [of s] ok by (simp add: mtt_register_def alloc_region_def)
next
  case (2 k)
  let ?a = "mtt_alloc s" and ?M = "mtt_mrkey_map s"
  note b = butlast_keys [OF 2(1)]
  have d: "distinct (ta_mr ?a)" using ok(1) by (simp add: keys_ok_def)
  let ?mr = "butlast (ta_mr ?a)"
  have k1: "keys_ok (s\<lparr> mtt_alloc := ?a\<lparr> ta_mr := ?mr, ta_pgt := v \<rparr> \<rparr>)" for v
    using ok(1) b [OF d] by (auto simp: keys_ok_def)
  show ?thesis
  proof (cases rule: pgt_alloc_spec [OF L a(2), of "ta_pgt ?a"])
    case 1
    let ?s = "s\<lparr> mtt_alloc := ?a\<lparr> ta_mr := ?mr, ta_pgt := ta_pgt ?a \<rparr> \<rparr>"
    have "mtt_register True B s key n = Some (?s, None)"
      using 1 2 by (simp add: mtt_register_def alloc_region_def alloc_pgt_def)
    moreover have "pages_ok bits ?s" using ok(2) by (simp add: pages_ok_def)
    ultimately show ?thesis using refused [of ?s] k1 [of "ta_pgt ?a"] 1 by simp
  next
    case f: (2 v i)
    let ?e = "\<lparr> pe_index = word_of_nat i, pe_count = word_of_nat n \<rparr> :: PgtEntry"
    let ?s = "s\<lparr> mtt_alloc := ?a\<lparr> ta_mr := ?mr, ta_pgt := v \<rparr>, mtt_mrkey_map := ?M(k \<mapsto> ?e) \<rparr>"
    have len: "length (bits (ta_pgt ?a)) = PGT_LEN" using ok(2) by (simp add: pages_ok_def)
    then have "i + n \<le> 0x20000" using f(2) by (simp add: free_run_def PGT_LEN_def)
    then have r: "unat (pe_index ?e) = i" "unat (pe_count ?e) = n" by (simp_all add: unat_of_nat)
    have "mtt_register True B s key n = Some (?s, Some (k, ?e))"
      using f(1) 2 by (simp add: mtt_register_def alloc_region_def alloc_pgt_def)
    moreover have "keys_ok ?s"
    proof -
      have "last (ta_mr ?a) \<in> set (ta_mr ?a)" using 2(1) by simp
      then have "unat (mr_idx k) < MAX_MR_CNT" "mr_idx k \<notin> mr_idx ` dom ?M" using ok(1) 2(4) unfolding keys_ok_def by (metis, metis imageE)
      then show ?thesis using k1 [of v] b(2) [OF d] 2(3,4) by (auto simp: keys_ok_def inj_on_insert)
    qed
    moreover have "pages_ok bits ?s" using pages_ok_add [OF ok(2) 2(3) f(2) r f(3)] f(4) by simp
    ultimately show ?thesis using accepted [of ?s k ?e] 2(1,3) r f(2) by (auto simp: region_pages_def)
  qed
qed


lemma deregister_live:
  assumes L: "bitvec_laws B bits" and ok: "keys_ok s" "pages_ok bits s" and e: "mtt_mrkey_map s k = Some e"
  obtains s' where "mtt_deregister B s k = Some (s', None)" "keys_ok s'" "pages_ok bits s'" "mtt_mrkey_map s' = (mtt_mrkey_map s)(k := None)"
proof -
  let ?a = "mtt_alloc s" and ?M = "mtt_mrkey_map s"
  have len: "length (bits (ta_pgt ?a)) = PGT_LEN" using ok(2) by (simp add: pages_ok_def)
  have "unat (pe_index e) + unat (pe_count e) \<le> PGT_LEN" using ok(2) e unfolding pages_ok_def by (blast intro: ranI)
  then obtain v where v: "pgt_dealloc B (ta_pgt ?a) (unat (pe_index e)) (unat (pe_count e)) = Some (v, True)"
    "length (bits v) = PGT_LEN" "\<forall>j < PGT_LEN. bits v ! j \<longleftrightarrow> bits (ta_pgt ?a) ! j \<and> j \<notin> region_pages e"
    using pgt_dealloc_spec [OF L, of "unat (pe_index e)" "unat (pe_count e)" "ta_pgt ?a"] len
    by (auto simp: region_pages_def PGT_LEN_def)
  let ?s = "s\<lparr> mtt_alloc := ?a\<lparr> ta_mr := ta_mr ?a @ [mr_idx k], ta_pgt := v \<rparr>, mtt_mrkey_map := ?M(k := None) \<rparr>"
  have "mtt_deregister B s k = Some (?s, None)"
    using e v(1) by (simp add: mtt_deregister_def dealloc_region_def dealloc_mr_key_def mr_idx_def)
  moreover have "keys_ok ?s"
  proof -
    have k: "k \<in> dom ?M" using e by blast
    then have "mr_idx k' \<noteq> mr_idx k" if "k' \<in> dom ?M - {k}" for k' using ok(1) that unfolding keys_ok_def inj_on_def by blast
    then show ?thesis using ok(1) k unfolding keys_ok_def by (auto simp: inj_on_def)
  qed
  moreover have "pages_ok bits ?s"
  proof -
    have "bits v ! j \<longleftrightarrow> (\<exists>k1 e1. (?M(k := None)) k1 = Some e1 \<and> j \<in> region_pages e1)" if j: "j < PGT_LEN" for j
    proof -
      have d: "region_pages e1 \<inter> region_pages e = {}" if "?M k1 = Some e1" "k1 \<noteq> k" for k1 e1
        using ok(2) e that unfolding pages_ok_def by blast
      have "bits v ! j \<longleftrightarrow> (\<exists>k1 e1. ?M k1 = Some e1 \<and> j \<in> region_pages e1) \<and> j \<notin> region_pages e"
        using ok(2) v(3) j unfolding pages_ok_def by blast
      also have "\<dots> \<longleftrightarrow> (\<exists>k1 e1. k1 \<noteq> k \<and> ?M k1 = Some e1 \<and> j \<in> region_pages e1)" using d e by fastforce
      finally show ?thesis by (simp add: fun_upd_apply) blast
    qed
    moreover have "ran (?M(k := None)) \<subseteq> ran ?M" by (auto simp: ran_def)
    ultimately show ?thesis using ok(2) v(2) unfolding pages_ok_def by (simp add: subset_iff)
  qed
  ultimately show ?thesis using that [of ?s] by simp
qed

lemma mtt_run_ok: "mtt_run True B s \<Longrightarrow> bitvec_laws B bits \<Longrightarrow> keys_ok s \<and> pages_ok bits s"
proof (induction rule: mtt_run.induct)
  case mtt_start
  then show ?case by (simp add: keys_ok_new pages_ok_new)
next
  case (mtt_reg s key n s' r)
  then have ok: "keys_ok s" "pages_ok bits s" by auto
  show ?case by (rule register_debug [OF mtt_reg.prems ok mtt_reg.hyps(2,3)]) (use mtt_reg in auto)
next
  case (mtt_dereg s k s' r)
  then have ok: "keys_ok s" "pages_ok bits s" by auto
  show ?case
  proof (cases "mtt_mrkey_map s k")
    case None
    then show ?thesis using mtt_dereg ok by (simp add: mtt_deregister_def)
  next
    case (Some e)
    show ?thesis by (rule deregister_live [OF mtt_dereg.prems ok Some]) (use mtt_dereg in auto)
  qed
qed


text \<open>C34. In a debug build, over every history of registering and deregistering memory regions, two live regions never share a
  page table entry and have keys with different indices, and all their entries lie in the table. Nothing panics:
  deregistering a live region succeeds and forgets exactly that region, and registering is refused exactly when no key is left or
  no run of free entries is long enough, and otherwise returns a new key and that many entries, none of them in use. The entries
  marked as used in the table are exactly those of the live regions.
\<close>

theorem mtt_regions_separate:
  assumes L: "bitvec_laws B bits" and run: "mtt_run True B s"
  shows "(\<forall>k e k' e'. mtt_mrkey_map s k = Some e \<and> mtt_mrkey_map s k' = Some e' \<and> k \<noteq> k' \<longrightarrow>
      region_pages e \<inter> region_pages e' = {} \<and> mr_idx k \<noteq> mr_idx k') \<and>
    (\<forall>k e. mtt_mrkey_map s k = Some e \<longrightarrow> region_pages e \<subseteq> {..<PGT_LEN} \<and>
      (\<exists>s'. mtt_deregister B s k = Some (s', None) \<and> mtt_mrkey_map s' = (mtt_mrkey_map s)(k := None))) \<and>
    (\<forall>key n. key < 256 \<and> 0 < n \<longrightarrow> (\<exists>s' r. mtt_register True B s key n = Some (s', r) \<and>
      (r = None \<longleftrightarrow> ta_mr (mtt_alloc s) = [] \<or> (\<forall>i. \<not> free_run (bits (ta_pgt (mtt_alloc s))) i n)) \<and>
      (\<forall>k e. r = Some (k, e) \<longrightarrow> mtt_mrkey_map s k = None \<and> card (region_pages e) = n \<and> mtt_run True B s' \<and>
         mtt_mrkey_map s' = (mtt_mrkey_map s)(k \<mapsto> e)))) \<and>
    {j. j < length (bits (ta_pgt (mtt_alloc s))) \<and> bits (ta_pgt (mtt_alloc s)) ! j} = \<Union> (region_pages ` ran (mtt_mrkey_map s))"
proof (intro conjI allI impI)
  have ok: "keys_ok s" "pages_ok bits s" using mtt_run_ok [OF run L] by auto
  {
    fix k e k' e' assume a: "mtt_mrkey_map s k = Some e \<and> mtt_mrkey_map s k' = Some e' \<and> k \<noteq> k'"
    then show "region_pages e \<inter> region_pages e' = {}" using ok(2) unfolding pages_ok_def by blast
    show "mr_idx k \<noteq> mr_idx k'" using ok(1) a unfolding keys_ok_def inj_on_def by blast
  next
    fix k e assume e: "mtt_mrkey_map s k = Some e"
    then have "unat (pe_index e) + unat (pe_count e) \<le> PGT_LEN" using ok(2) unfolding pages_ok_def by (blast intro: ranI)
    then show "region_pages e \<subseteq> {..<PGT_LEN}" by (auto simp: region_pages_def)
    show "\<exists>s'. mtt_deregister B s k = Some (s', None) \<and> mtt_mrkey_map s' = (mtt_mrkey_map s)(k := None)"
      by (rule deregister_live [OF L ok e]) blast
  next
    fix key :: u32 and n :: nat assume a: "key < 256 \<and> 0 < n"
    show "\<exists>s' r. mtt_register True B s key n = Some (s', r) \<and>
      (r = None \<longleftrightarrow> ta_mr (mtt_alloc s) = [] \<or> (\<forall>i. \<not> free_run (bits (ta_pgt (mtt_alloc s))) i n)) \<and>
      (\<forall>k e. r = Some (k, e) \<longrightarrow> mtt_mrkey_map s k = None \<and> card (region_pages e) = n \<and> mtt_run True B s' \<and>
         mtt_mrkey_map s' = (mtt_mrkey_map s)(k \<mapsto> e))"
      by (rule register_debug [OF L ok conjunct1 [OF a] conjunct2 [OF a]]) (use mtt_reg [OF run] a in \<open>auto\<close>)
  next
    show "{j. j < length (bits (ta_pgt (mtt_alloc s))) \<and> bits (ta_pgt (mtt_alloc s)) ! j} = \<Union> (region_pages ` ran (mtt_mrkey_map s))"
      by (rule pages_used [OF ok(2)])
  }
qed

theorem mtt_regions_separate_witness:
  "\<exists>s' k e. mtt_register True list_bitvec (mtt_new list_bitvec) 7 3 = Some (s', Some (k, e)) \<and> card (region_pages e) = 3"
proof -
  let ?s = "mtt_new list_bitvec"
  have "ta_mr (mtt_alloc ?s) \<noteq> []" by (simp add: mtt_new_def mr_table_new_def) (simp add: MAX_MR_CNT_def)
  moreover have "3 \<le> PGT_LEN" by (simp add: PGT_LEN_def)
  then have "free_run (ta_pgt (mtt_alloc ?s)) 0 3"
    by (simp add: free_run_def mtt_new_def pgt_new_def list_bitvec_def)
  moreover have "(7 :: u32) < 256 \<and> 0 < (3 :: nat)" by simp
  from conjunct1 [OF conjunct2 [OF conjunct2 [OF mtt_regions_separate [OF list_bitvec_laws mtt_start]]], rule_format, OF this]
  obtain s' r where r: "mtt_register True list_bitvec ?s 7 3 = Some (s', r)"
    "r = None \<longleftrightarrow> ta_mr (mtt_alloc ?s) = [] \<or> (\<forall>i. \<not> free_run (ta_pgt (mtt_alloc ?s)) i 3)"
    "\<forall>k e. r = Some (k, e) \<longrightarrow> card (region_pages e) = 3" by blast
  ultimately have "r \<noteq> None" by blast
  then show ?thesis using r(1,3) by auto
qed

text \<open>C37. In a release build no memory region is ever given back: deregistering fails for every key and changes nothing, because the
  table of live regions is filled only inside a debug assertion. Every registration, also one that is refused for
  lack of page table entries, uses up a key, and without keys all are refused.
\<close>

theorem release_regions_leak:
  assumes "mtt_run False B s"
  shows "mtt_deregister B s k = Some (s, Some Err_InvalidInput) \<and>
    (\<forall>key n s' r. mtt_register False B s key n = Some (s', r) \<longrightarrow>
       length (ta_mr (mtt_alloc s')) = length (ta_mr (mtt_alloc s)) - 1 \<and> (ta_mr (mtt_alloc s) = [] \<longrightarrow> r = None))"
proof -
  have "mtt_mrkey_map s = Map.empty"
    using assms
  proof (induction rule: mtt_run.induct)
    case (mtt_reg s key n s' r)
    then show ?case by (auto simp: mtt_register_def split: Option.bind_splits option.splits)
  next
    case (mtt_dereg s k s' r)
    then show ?case by (auto simp: mtt_deregister_def)
  qed (simp add: mtt_new_def)
  moreover have "length (ta_mr (mtt_alloc s')) = length (ta_mr (mtt_alloc s)) - 1 \<and> (ta_mr (mtt_alloc s) = [] \<longrightarrow> r = None)"
    if "mtt_register False B s key n = Some (s', r)" for key n s' r
    using that by (auto simp: mtt_register_def alloc_region_def alloc_mr_key_def alloc_mr_key_idx_def alloc_pgt_def
      split: Option.bind_splits option.splits prod.splits if_splits)
  ultimately show ?thesis by (simp add: mtt_deregister_def)
qed

theorem release_regions_leak_witness:
  "\<exists>s k e. mtt_register False list_bitvec (mtt_new list_bitvec) 7 3 = Some (s, Some (k, e)) \<and>
     mtt_deregister list_bitvec s k = Some (s, Some Err_InvalidInput)"
proof -
  let ?s = "mtt_new list_bitvec"
  have ok: "keys_ok ?s" "pages_ok (\<lambda>v. v) ?s" using mtt_run_ok [OF mtt_start list_bitvec_laws] by auto
  have "ta_mr (mtt_alloc ?s) \<noteq> []" by (simp add: mtt_new_def mr_table_new_def) (simp add: MAX_MR_CNT_def)
  moreover have "3 \<le> PGT_LEN" by (simp add: PGT_LEN_def)
  then have "free_run (ta_pgt (mtt_alloc ?s)) 0 3"
    by (simp add: free_run_def mtt_new_def pgt_new_def list_bitvec_def)
  ultimately obtain s' k e where "mtt_register True list_bitvec ?s 7 3 = Some (s', Some (k, e))"
    by (rule_tac register_debug [OF list_bitvec_laws ok, of 7 3]) auto
  then obtain s where r: "mtt_register False list_bitvec ?s 7 3 = Some (s, Some (k, e))"
    by (auto simp: mtt_register_def split: Option.bind_splits option.splits if_splits)
  have "mtt_run False list_bitvec s" by (rule mtt_reg [OF mtt_start _ _ r]) simp_all
  from release_regions_leak [OF this, of k] r show ?thesis by blast
qed

end
