(* ===== verification/DeviceCtx.thy ===== *)
theory DeviceCtx
  imports Mtt Completion
begin

text \<open>
  The device context of the Rust driver (\<^verbatim>\<open>verbs/ctx.rs\<close>), which the verbs calls go through: creating and connecting queue
  pairs, posting work requests, polling completions and registering memory, with the channel that carries receive
  requests to the initiator (\<^verbatim>\<open>net/recv_chan.rs\<close>) and the commands for the card (\<^verbatim>\<open>cmd/types.rs\<close>). Tasks for the workers are
  collected as in the theories of the workers; what the operating system answers is an argument. An outer \<open>None\<close> is a panic.
\<close>

subsection \<open>Commands for the card\<close>

record UpdateQp =
  uq_ip_addr :: u32
  uq_qpn :: u32
  uq_peer_qpn :: u32
  uq_rq_access_flags :: u8
  uq_qp_type :: u8
  uq_pmtu :: u8
  uq_local_udp_port :: u16
  uq_peer_mac_addr :: u64

record MttUpdate =
  mu_mr_base_va :: u64
  mu_mr_length :: u32
  mu_mr_key :: u32
  mu_pd_handler :: u32
  mu_acc_flags :: u8
  mu_base_pgt_offset :: u32

record PgtUpdate =
  pu_dma_addr :: u64
  pu_pgt_offset :: u32
  pu_zero_based_entry_count :: u32

text \<open>A page table update reads its entries from the buffer, so the command carries what the buffer holds when it is issued.\<close>

datatype Command = Cmd_UpdateQp UpdateQp | Cmd_UpdateMtt MttUpdate | Cmd_UpdatePgt PgtUpdate "u64 list"

definition CARD_MAC_ADDRESS :: u64 where "CARD_MAC_ADDRESS = 0xAABBCCDDEE0A"

subsection \<open>The channel for receive requests\<close>

definition BASE_PORT :: u16 where "BASE_PORT = 60000"

definition PORT_RANGE :: u32 where "PORT_RANGE = 5535"

definition qpn_to_port :: "u32 \<Rightarrow> u16" where
  "qpn_to_port qpn = (let hash = qpn * 0x9E3779B9 in BASE_PORT + ucast (hash mod PORT_RANGE))"

text \<open>The sending end knows where to connect; the connection is made with the first message.\<close>

record TcpChannelTx =
  tx_addr :: u32
  tx_dqpn :: u32
  tx_connected :: bool

text \<open>\<open>connect\<close> and \<open>write\<close> are the answers of the operating system, \<open>None\<close> for success.\<close>

definition tcp_tx_send :: "RdmaError option \<Rightarrow> RdmaError option \<Rightarrow> TcpChannelTx \<Rightarrow> RecvWr \<Rightarrow> TcpChannelTx \<times> (RdmaError + u8 list)" where
  "tcp_tx_send connect write self wr =
     (if \<not> tx_connected self \<and> connect \<noteq> None then (self, Inl (the connect))
      else
        let self = self\<lparr> tx_connected := True \<rparr>
        in (case write of Some e \<Rightarrow> (self, Inl e) | None \<Rightarrow> (self, Inr (recv_wr_to_bytes wr))))"

definition recv_wr_pop :: "RecvWr list qp_table \<Rightarrow> u32 \<Rightarrow> RecvWr list qp_table \<times> RecvWr option" where
  "recv_wr_pop table qpn = (case get_qp table qpn of
     None \<Rightarrow> (table, None)
   | Some [] \<Rightarrow> (table, None)
   | Some (wr # wrs) \<Rightarrow> (put_qp table qpn wrs, Some wr))"

text \<open>One round of the thread that reads the channel of a queue pair.\<close>

definition recv_worker_run :: "RecvWr list qp_table \<Rightarrow> u32 \<Rightarrow> u8 list \<Rightarrow> RecvWr list qp_table" where
  "recv_worker_run table qpn bytes = (case get_qp table qpn of
     None \<Rightarrow> table
   | Some wrs \<Rightarrow> put_qp table qpn (wrs @ [recv_wr_from_bytes bytes]))"

subsection \<open>The context\<close>

record 'b DeviceCtx =
  dc_mtt :: "'b Mtt"
  dc_mtt_buffer_pa :: u64
  dc_qp_manager :: 'b
  dc_qp_attr_table :: "QpAttr qp_table"
  dc_cq_manager :: 'b
  dc_cq_table :: "Completion list list"
  dc_post_recv_tx_table :: "TcpChannelTx option qp_table"
  dc_recv_wr_queue_table :: "RecvWr list qp_table"
  dc_pd_table :: 'b
  dc_commands :: "Command list"

definition ctx_new :: "('b, 'z) bitvec_ops_scheme \<Rightarrow> u32 \<Rightarrow> u64 \<Rightarrow> 'b DeviceCtx option" where
  "ctx_new B ip mtt_buffer_pa = do {
     qps \<leftarrow> qp_manager_new B;
     pds \<leftarrow> pd_table_new B;
     Some \<lparr> dc_mtt = mtt_new B, dc_mtt_buffer_pa = mtt_buffer_pa, dc_qp_manager = qps, dc_qp_attr_table = qp_table_new (new_with_ip ip),
       dc_cq_manager = cq_manager_new B, dc_cq_table = replicate MAX_CQ_CNT [], dc_post_recv_tx_table = qp_table_new None,
       dc_recv_wr_queue_table = qp_table_new [], dc_pd_table = pds, dc_commands = [] \<rparr> }"

definition issue :: "Command \<Rightarrow> 'b DeviceCtx \<Rightarrow> 'b DeviceCtx" where
  "issue c self = self\<lparr> dc_commands := dc_commands self @ [c] \<rparr>"

definition ctx_create_qp :: "('b, 'z) bitvec_ops_scheme \<Rightarrow> u32 \<Rightarrow> 'b DeviceCtx \<Rightarrow> IbvQpInitAttr \<Rightarrow> ('b DeviceCtx \<times> (RdmaError + u32)) option" where
  "ctx_create_qp B key self attr = do {
     (qps, r) \<leftarrow> create_qp B key (dc_qp_manager self);
     let self = self\<lparr> dc_qp_manager := qps \<rparr>;
     (case r of
        None \<Rightarrow> Some (self, Inl ResourceExhausted)
      | Some qpn \<Rightarrow>
          let (table, _) = map_qp_mut (dc_qp_attr_table self) qpn (\<lambda>current. (current\<lparr> qa_qpn := qpn, qa_qp_type := ia_qp_type attr,
                qa_send_cq := ia_send_cq attr, qa_recv_cq := ia_recv_cq attr, qa_mac_addr := CARD_MAC_ADDRESS, qa_pmtu := 5 \<rparr>, ()));
              entry = \<lparr> uq_ip_addr = 0, uq_qpn = qpn, uq_peer_qpn = 0, uq_rq_access_flags = 0, uq_qp_type = ia_qp_type attr, uq_pmtu = 0,
                uq_local_udp_port = 0x100, uq_peer_mac_addr = 0 \<rparr>
          in Some (issue (Cmd_UpdateQp entry) (self\<lparr> dc_qp_attr_table := table \<rparr>), Inr qpn)) }"

text \<open>Local write, remote read and remote write access.\<close>

definition RQ_ACCESS_FLAGS :: u8 where "RQ_ACCESS_FLAGS = 1 OR 4 OR 2"

definition update_qp_entry :: "u32 \<Rightarrow> IbvQpAttr \<Rightarrow> QpAttr \<Rightarrow> UpdateQp" where
  "update_qp_entry qpn attr current = (
     let current_ip = (if qa_dqp_ip current \<noteq> 0 then Some (qa_dqp_ip current) else None);
         ip_addr = (case qpa_dest_qp_ip attr of Some ip \<Rightarrow> ip | None \<Rightarrow> (case current_ip of Some ip \<Rightarrow> ip | None \<Rightarrow> 0))
     in \<lparr> uq_ip_addr = ip_addr, uq_qpn = qpn,
          uq_peer_qpn = (case qpa_dest_qp_num attr of Some q \<Rightarrow> q | None \<Rightarrow> qa_dqpn current),
          uq_rq_access_flags = RQ_ACCESS_FLAGS, uq_qp_type = qa_qp_type current,
          uq_pmtu = (case qpa_path_mtu attr of Some m \<Rightarrow> ucast m | None \<Rightarrow> qa_pmtu current),
          uq_local_udp_port = 0x100, uq_peer_mac_addr = CARD_MAC_ADDRESS \<rparr>)"

text \<open>\<open>listen\<close> is the answer to binding the port of the queue pair.\<close>

definition ctx_update_qp :: "RdmaError option \<Rightarrow> 'b DeviceCtx \<Rightarrow> u32 \<Rightarrow> IbvQpAttr \<Rightarrow> 'b DeviceCtx \<times> (RdmaError + unit)" where
  "ctx_update_qp listen self qpn attr =
     (case map_qp_mut (dc_qp_attr_table self) qpn (\<lambda>current. let entry = update_qp_entry qpn attr current in
        (current\<lparr> qa_dqpn := uq_peer_qpn entry, qa_access_flags := RQ_ACCESS_FLAGS, qa_pmtu := uq_pmtu entry, qa_dqp_ip := uq_ip_addr entry \<rparr>, entry)) of
       (table, None) \<Rightarrow> (self, Inl NotFound)
     | (table, Some entry) \<Rightarrow>
         let self = issue (Cmd_UpdateQp entry) (self\<lparr> dc_qp_attr_table := table \<rparr>)
         in (case get_qp table qpn of
               None \<Rightarrow> (self, Inl NotFound)
             | Some qp \<Rightarrow>
                 if qa_dqpn qp \<noteq> 0 \<and> qa_dqp_ip qp \<noteq> 0 \<and> (case get_qp (dc_post_recv_tx_table self) qpn of Some (Some _) \<Rightarrow> False | _ \<Rightarrow> True) then
                   (case listen of
                      Some e \<Rightarrow> (self, Inl e)
                    | None \<Rightarrow>
                        let tx = \<lparr> tx_addr = qa_dqp_ip qp, tx_dqpn = qa_dqpn qp, tx_connected = False \<rparr>;
                            self = self\<lparr> dc_post_recv_tx_table := fst (replace_qp (dc_post_recv_tx_table self) qpn (Some tx)) \<rparr>
                        in (self, if get_qp (dc_recv_wr_queue_table self) qpn = None then Inl NotFound else Inr ()))
                 else (self, Inr ())))"

definition ctx_destroy_qp :: "('b, 'z) bitvec_ops_scheme \<Rightarrow> 'b DeviceCtx \<Rightarrow> u32 \<Rightarrow> ('b DeviceCtx \<times> (RdmaError + unit)) option" where
  "ctx_destroy_qp B self qpn = do {
     (m, ok) \<leftarrow> destroy_qp B (dc_qp_manager self) qpn;
     Some (self\<lparr> dc_qp_manager := m \<rparr>, if ok then Inr () else Inl Err_InvalidInput) }"

definition ctx_create_cq :: "('b, 'z) bitvec_ops_scheme \<Rightarrow> 'b DeviceCtx \<Rightarrow> ('b DeviceCtx \<times> (RdmaError + u32)) option" where
  "ctx_create_cq B self = do {
     (m, r) \<leftarrow> create_cq B (dc_cq_manager self);
     Some (self\<lparr> dc_cq_manager := m \<rparr>, case r of Some h \<Rightarrow> Inr h | None \<Rightarrow> Inl ResourceExhausted) }"

definition ctx_destroy_cq :: "('b, 'z) bitvec_ops_scheme \<Rightarrow> 'b DeviceCtx \<Rightarrow> u32 \<Rightarrow> ('b DeviceCtx \<times> (RdmaError + unit)) option" where
  "ctx_destroy_cq B self handle = do {
     (m, ok) \<leftarrow> destroy_cq B (dc_cq_manager self) handle;
     Some (self\<lparr> dc_cq_manager := m \<rparr>, if ok then Inr () else Inl Err_InvalidInput) }"

definition ctx_alloc_pd :: "('b, 'z) bitvec_ops_scheme \<Rightarrow> 'b DeviceCtx \<Rightarrow> ('b DeviceCtx \<times> (RdmaError + u32)) option" where
  "ctx_alloc_pd B self = do {
     (m, r) \<leftarrow> pd_alloc B (dc_pd_table self);
     Some (self\<lparr> dc_pd_table := m \<rparr>, case r of Some h \<Rightarrow> Inr h | None \<Rightarrow> Inl ResourceExhausted) }"

definition ctx_dealloc_pd :: "('b, 'z) bitvec_ops_scheme \<Rightarrow> 'b DeviceCtx \<Rightarrow> u32 \<Rightarrow> ('b DeviceCtx \<times> (RdmaError + unit)) option" where
  "ctx_dealloc_pd B self handle = do {
     (m, ok) \<leftarrow> pd_dealloc B (dc_pd_table self) handle;
     Some (self\<lparr> dc_pd_table := m \<rparr>, if ok then Inr () else Inl Err_InvalidInput) }"

subsection \<open>Work requests and completions\<close>

definition ctx_rdma_write :: "u32 \<Rightarrow> SendWrRdma \<Rightarrow> sent" where
  "ctx_rdma_write qpn wr = nothing_sent\<lparr> out_write := [Write_Wr qpn wr] \<rparr>"

text \<open>A send is a write into the buffer of the next posted receive; without one the driver panics.\<close>

definition ctx_send :: "'b DeviceCtx \<Rightarrow> u32 \<Rightarrow> SendWrBase \<Rightarrow> ('b DeviceCtx \<times> sent \<times> (RdmaError + unit)) option" where
  "ctx_send self qpn wr = (case recv_wr_pop (dc_recv_wr_queue_table self) qpn of
     (_, None) \<Rightarrow> None
   | (table, Some x) \<Rightarrow>
       let self = self\<lparr> dc_recv_wr_queue_table := table \<rparr>
       in if wb_length wr \<noteq> rw_length x then Some (self, nothing_sent, Inl Err_InvalidInput)
          else Some (self, ctx_rdma_write qpn (new_from_base wr (rw_addr x) (rw_lkey x)), Inr ()))"

definition ctx_post_send :: "'b DeviceCtx \<Rightarrow> u32 \<Rightarrow> SendWr \<Rightarrow> ('b DeviceCtx \<times> sent \<times> (RdmaError + unit)) option" where
  "ctx_post_send self qpn wr = (case wr of
     SendWr_Rdma wr \<Rightarrow> Some (self, ctx_rdma_write qpn wr, Inr ())
   | SendWr_Send wr \<Rightarrow> ctx_send self qpn wr)"

definition ctx_post_recv :: "RdmaError option \<Rightarrow> RdmaError option \<Rightarrow> 'b DeviceCtx \<Rightarrow> u32 \<Rightarrow> RecvWr \<Rightarrow> 'b DeviceCtx \<times> sent \<times> (RdmaError + u8 list)" where
  "ctx_post_recv connect write self qpn wr = (case get_qp (dc_qp_attr_table self) qpn of
     None \<Rightarrow> (self, nothing_sent, Inl QpError)
   | Some qp \<Rightarrow>
       let out = nothing_sent\<lparr> out_completion := [Register qpn (Event_PostRecv \<lparr> pr_qpn = qpn, pr_wr_id = rw_wr_id wr \<rparr>)] \<rparr>
       in (case get_qp (dc_post_recv_tx_table self) qpn of
             Some (Some tx) \<Rightarrow> (case tcp_tx_send connect write tx wr of (tx, r) \<Rightarrow>
               (self\<lparr> dc_post_recv_tx_table := put_qp (dc_post_recv_tx_table self) qpn (Some tx) \<rparr>, out, r))
           | _ \<Rightarrow> (self, out, Inl QpError)))"

fun pop_completions :: "nat \<Rightarrow> Completion list \<Rightarrow> Completion list \<times> Completion list" where
  "pop_completions 0 cq = ([], cq)"
| "pop_completions (Suc n) [] = ([], [])"
| "pop_completions (Suc n) (c # cq) = (case pop_completions n cq of (cs, cq) \<Rightarrow> (c # cs, cq))"

definition ctx_poll_cq :: "Completion list list \<Rightarrow> u32 \<Rightarrow> nat \<Rightarrow> Completion list list \<times> Completion list" where
  "ctx_poll_cq cqs handle max_num_entries =
     (if unat handle < length cqs then
        (case pop_completions max_num_entries (cqs ! unat handle) of (cs, cq) \<Rightarrow> (cqs[unat handle := cq], cs))
      else (cqs, []))"

subsection \<open>Memory regions\<close>

definition MAX_NUM_PGT_ENTRY_PER_ALLOC :: nat where "MAX_NUM_PGT_ENTRY_PER_ALLOC = 16"

definition pgt_chunks :: "PgtEntry \<Rightarrow> (nat \<times> nat) list" where
  "pgt_chunks entry = (let base_index = unat (pe_index entry); end_index = unat (pe_index entry + pe_count entry) in
     map (\<lambda>k. let index = base_index + MAX_NUM_PGT_ENTRY_PER_ALLOC * k in (index, min MAX_NUM_PGT_ENTRY_PER_ALLOC (end_index - index)))
       [0..<(end_index - base_index + MAX_NUM_PGT_ENTRY_PER_ALLOC - 1) div MAX_NUM_PGT_ENTRY_PER_ALLOC])"

fun pgt_commands :: "u64 \<Rightarrow> (nat \<times> nat) list \<Rightarrow> u64 list \<Rightarrow> Command list" where
  "pgt_commands pa [] addrs = []"
| "pgt_commands pa ((index, count) # cs) addrs =
     Cmd_UpdatePgt \<lparr> pu_dma_addr = pa, pu_pgt_offset = word_of_nat index, pu_zero_based_entry_count = word_of_nat count - 1 \<rparr> (take count addrs)
     # pgt_commands pa cs (drop count addrs)"

text \<open>\<open>pin\<close> and \<open>resolve\<close> are the answers of the operating system: pinning the pages, and their physical addresses.\<close>

definition ctx_reg_mr ::
  "bool \<Rightarrow> ('b, 'z) bitvec_ops_scheme \<Rightarrow> u64 \<Rightarrow> u32 \<Rightarrow> RdmaError option \<Rightarrow> (nat \<Rightarrow> RdmaError + u64 option list) \<Rightarrow>
   'b DeviceCtx \<Rightarrow> u64 \<Rightarrow> u64 \<Rightarrow> u32 \<Rightarrow> u8 \<Rightarrow> ('b DeviceCtx \<times> (RdmaError + u32)) option" where
  "ctx_reg_mr dbg B page_size key pin resolve self addr len pd_handle access = (case pin of
     Some e \<Rightarrow> Some (self, Inl e)
   | None \<Rightarrow> do {
       let num_pages = unat (get_num_page page_size addr len);
       (mtt, r) \<leftarrow> mtt_register dbg B (dc_mtt self) key num_pages;
       let self = self\<lparr> dc_mtt := mtt \<rparr>;
       (case r of
          None \<Rightarrow> Some (self, Inl (IoError None))
        | Some (mr_key, pgt_entry) \<Rightarrow>
            if 2 ^ 32 \<le> unat len then Some (self, Inl Err_InvalidInput)
            else (case resolve num_pages of
                Inl e \<Rightarrow> Some (self, Inl e)
              | Inr addrs \<Rightarrow>
                  if None \<in> set addrs then Some (self, Inl MemoryError)
                  else
                    let mtt_update = \<lparr> mu_mr_base_va = addr, mu_mr_length = ucast len, mu_mr_key = mr_key, mu_pd_handler = pd_handle,
                          mu_acc_flags = access, mu_base_pgt_offset = pe_index pgt_entry \<rparr>
                    in Some (self\<lparr> dc_commands := dc_commands self @ Cmd_UpdateMtt mtt_update #
                          pgt_commands (dc_mtt_buffer_pa self) (pgt_chunks pgt_entry) (map the addrs) \<rparr>, Inr mr_key))) })"

definition ctx_dereg_mr :: "('b, 'z) bitvec_ops_scheme \<Rightarrow> 'b DeviceCtx \<Rightarrow> u32 \<Rightarrow> ('b DeviceCtx \<times> (RdmaError + unit)) option" where
  "ctx_dereg_mr B self mr_key = do {
     (mtt, r) \<leftarrow> mtt_deregister B (dc_mtt self) mr_key;
     Some (self\<lparr> dc_mtt := mtt \<rparr>, case r of None \<Rightarrow> Inr () | Some e \<Rightarrow> Inl e) }"

end
