(* ===== verification/VerbsCore.thy ===== *)
theory VerbsCore
  imports DeviceCtx RdmaWrite KernelGid
begin

text \<open>
  The C interface of the Rust driver (\<^verbatim>\<open>verbs/core.rs\<close>): the functions that the provider library calls, over the device context.
  A pointer to an object is an option, \<open>None\<close> for a null pointer; a chain of work requests linked by their \<^verbatim>\<open>next\<close> pointers is a list.
  An outer \<open>None\<close> is a panic or an access outside the caller's memory. The array that \<^verbatim>\<open>poll_cq\<close> fills is always there: a null
  pointer is left out (the source then skips the first completion and writes the others to invalid addresses).
\<close>

definition EINVAL :: int where "EINVAL = 22"

definition errno_of :: "RdmaError + 'a \<Rightarrow> int" where
  "errno_of r = (case r of Inr _ \<Rightarrow> 0 | Inl e \<Rightarrow> to_errno e)"

definition ptr_of :: "RdmaError + 'a \<Rightarrow> 'a option" where
  "ptr_of r = (case r of Inr x \<Rightarrow> Some x | Inl _ \<Rightarrow> None)"

subsection \<open>Objects\<close>

definition core_alloc_pd :: "('b, 'z) bitvec_ops_scheme \<Rightarrow> 'b DeviceCtx \<Rightarrow> ('b DeviceCtx \<times> u32 option) option" where
  "core_alloc_pd B ctx = do { (ctx, r) \<leftarrow> ctx_alloc_pd B ctx; Some (ctx, ptr_of r) }"

definition core_dealloc_pd :: "('b, 'z) bitvec_ops_scheme \<Rightarrow> 'b DeviceCtx \<Rightarrow> u32 option \<Rightarrow> ('b DeviceCtx \<times> int) option" where
  "core_dealloc_pd B ctx pd = (case pd of
     None \<Rightarrow> Some (ctx, EINVAL)
   | Some handle \<Rightarrow> do { (ctx, r) \<leftarrow> ctx_dealloc_pd B ctx handle; Some (ctx, errno_of r) })"

definition core_create_cq :: "('b, 'z) bitvec_ops_scheme \<Rightarrow> 'b DeviceCtx \<Rightarrow> ('b DeviceCtx \<times> u32 option) option" where
  "core_create_cq B ctx = do { (ctx, r) \<leftarrow> ctx_create_cq B ctx; Some (ctx, ptr_of r) }"

definition core_destroy_cq :: "('b, 'z) bitvec_ops_scheme \<Rightarrow> 'b DeviceCtx \<Rightarrow> u32 option \<Rightarrow> ('b DeviceCtx \<times> int) option" where
  "core_destroy_cq B ctx cq = (case cq of
     None \<Rightarrow> Some (ctx, EINVAL)
   | Some handle \<Rightarrow> do { (ctx, r) \<leftarrow> ctx_destroy_cq B ctx handle; Some (ctx, errno_of r) })"

definition core_create_qp :: "('b, 'z) bitvec_ops_scheme \<Rightarrow> u32 \<Rightarrow> 'b DeviceCtx \<Rightarrow> u32 option \<Rightarrow> ibv_qp_init_attr option \<Rightarrow> ('b DeviceCtx \<times> u32 option) option" where
  "core_create_qp B key ctx pd init_attr = (case (pd, init_attr) of
     (Some _, Some attr) \<Rightarrow> do { (ctx, r) \<leftarrow> ctx_create_qp B key ctx (qp_init_attr_new attr); Some (ctx, ptr_of r) }
   | _ \<Rightarrow> Some (ctx, None))"

definition core_destroy_qp :: "('b, 'z) bitvec_ops_scheme \<Rightarrow> 'b DeviceCtx \<Rightarrow> u32 option \<Rightarrow> ('b DeviceCtx \<times> int) option" where
  "core_destroy_qp B ctx qp = (case qp of
     None \<Rightarrow> Some (ctx, EINVAL)
   | Some qpn \<Rightarrow> do { (ctx, r) \<leftarrow> ctx_destroy_qp B ctx qpn; Some (ctx, errno_of r) })"

definition core_modify_qp :: "RdmaError option \<Rightarrow> 'b DeviceCtx \<Rightarrow> u32 option \<Rightarrow> ibv_qp_attr option \<Rightarrow> u32 \<Rightarrow> 'b DeviceCtx \<times> int" where
  "core_modify_qp listen ctx qp attr attr_mask = (case (qp, attr) of
     (Some qpn, Some attr) \<Rightarrow> (case ctx_update_qp listen ctx qpn (qp_attr_new attr attr_mask) of (ctx, r) \<Rightarrow> (ctx, errno_of r))
   | _ \<Rightarrow> (ctx, EINVAL))"

definition core_reg_mr ::
  "bool \<Rightarrow> ('b, 'z) bitvec_ops_scheme \<Rightarrow> u64 \<Rightarrow> u32 \<Rightarrow> RdmaError option \<Rightarrow> (nat \<Rightarrow> RdmaError + u64 option list) \<Rightarrow>
   'b DeviceCtx \<Rightarrow> u32 option \<Rightarrow> u64 \<Rightarrow> u64 \<Rightarrow> u32 \<Rightarrow> ('b DeviceCtx \<times> u32 option) option" where
  "core_reg_mr dbg B page_size key pin resolve ctx pd addr len access = (case pd of
     None \<Rightarrow> Some (ctx, None)
   | Some pd_handle \<Rightarrow> do {
       (ctx, r) \<leftarrow> ctx_reg_mr dbg B page_size key pin resolve ctx addr len pd_handle (ucast access);
       Some (ctx, ptr_of r) })"

text \<open>A memory region is its handle and whether its protection domain is a null pointer.\<close>

definition core_dereg_mr :: "('b, 'z) bitvec_ops_scheme \<Rightarrow> 'b DeviceCtx \<Rightarrow> (u32 \<times> u32 option) option \<Rightarrow> ('b DeviceCtx \<times> int) option" where
  "core_dereg_mr B ctx mr = (case mr of
     Some (handle, Some _) \<Rightarrow> do { (ctx, r) \<leftarrow> ctx_dereg_mr B ctx handle; Some (ctx, errno_of r) }
   | _ \<Rightarrow> Some (ctx, EINVAL))"

subsection \<open>Work requests\<close>

text \<open>The result has the error number and, when it is set, the request that \<^verbatim>\<open>bad_wr\<close> points to, as a position in the chain.\<close>

definition core_post_send :: "'b DeviceCtx \<Rightarrow> u32 option \<Rightarrow> ibv_send_wr list \<Rightarrow> ('b DeviceCtx \<times> sent \<times> int \<times> nat option) option" where
  "core_post_send ctx qp wrs = (case (qp, wrs) of
     (Some qp_num, wr # _) \<Rightarrow> do {
       r \<leftarrow> send_wr_new wr;
       (case r of
          Inl _ \<Rightarrow> Some (ctx, nothing_sent, EINVAL, Some 0)
        | Inr send_wr \<Rightarrow> do {
            (ctx, out, r) \<leftarrow> ctx_post_send ctx qp_num send_wr;
            Some (ctx, out, errno_of r, None) }) }
   | _ \<Rightarrow> Some (ctx, nothing_sent, EINVAL, None))"

definition core_post_recv ::
  "RdmaError option \<Rightarrow> RdmaError option \<Rightarrow> 'b DeviceCtx \<Rightarrow> u32 option \<Rightarrow> ibv_recv_wr list \<Rightarrow> ('b DeviceCtx \<times> sent \<times> int \<times> nat option) option" where
  "core_post_recv connect write ctx qp wrs = (case (qp, wrs) of
     (Some qp_num, wr # _) \<Rightarrow> do {
       r \<leftarrow> recv_wr_new wr;
       (case r of
          None \<Rightarrow> Some (ctx, nothing_sent, EINVAL, Some 0)
        | Some recv_wr \<Rightarrow> (case ctx_post_recv connect write ctx qp_num recv_wr of (ctx, out, r) \<Rightarrow>
            Some (ctx, out, errno_of r, None))) }
   | _ \<Rightarrow> Some (ctx, nothing_sent, EINVAL, None))"

subsection \<open>Completions\<close>

record ibv_wc =
  wc_wr_id :: u64
  wc_status :: u32
  wc_opcode :: u32
  wc_imm_data :: u32

text \<open>The opcodes of the verbs interface.\<close>

definition completion_opcode :: "Completion \<Rightarrow> u32" where
  "completion_opcode c = (case c of
     Comp_Send _ \<Rightarrow> 0
   | Comp_RdmaWrite _ \<Rightarrow> 1
   | Comp_RdmaRead _ \<Rightarrow> 2
   | Comp_Recv _ _ \<Rightarrow> 128
   | Comp_RecvRdmaWithImm _ \<Rightarrow> 129)"

definition write_wc :: "Completion \<Rightarrow> ibv_wc \<Rightarrow> ibv_wc" where
  "write_wc c wc = (
     let wc = (case c of
           Comp_Send wr_id \<Rightarrow> wc\<lparr> wc_wr_id := wr_id \<rparr>
         | Comp_RdmaWrite wr_id \<Rightarrow> wc\<lparr> wc_wr_id := wr_id \<rparr>
         | Comp_RdmaRead wr_id \<Rightarrow> wc\<lparr> wc_wr_id := wr_id \<rparr>
         | Comp_Recv wr_id imm \<Rightarrow> (case imm of Some i \<Rightarrow> wc\<lparr> wc_wr_id := wr_id, wc_imm_data := i \<rparr> | None \<Rightarrow> wc\<lparr> wc_wr_id := wr_id \<rparr>)
         | Comp_RecvRdmaWithImm imm \<Rightarrow> wc\<lparr> wc_imm_data := imm \<rparr>)
     in wc\<lparr> wc_opcode := completion_opcode c, wc_status := 0 \<rparr>)"

text \<open>The caller's array; writing past its end is outside the caller's memory.\<close>

fun write_wcs :: "Completion list \<Rightarrow> ibv_wc list \<Rightarrow> ibv_wc list option" where
  "write_wcs [] wcs = Some wcs"
| "write_wcs (c # cs) [] = None"
| "write_wcs (c # cs) (wc # wcs) = do { wcs \<leftarrow> write_wcs cs wcs; Some (write_wc c wc # wcs) }"

definition core_poll_cq :: "Completion list list \<Rightarrow> u32 option \<Rightarrow> u32 \<Rightarrow> ibv_wc list \<Rightarrow> (Completion list list \<times> ibv_wc list \<times> u32) option" where
  "core_poll_cq cqs cq num_entries wc = (case cq of
     None \<Rightarrow> Some (cqs, wc, 0)
   | Some handle \<Rightarrow> (case ctx_poll_cq cqs handle (unat (scast num_entries :: u64)) of (cqs, cs) \<Rightarrow> do {
       wc \<leftarrow> write_wcs cs wc;
       Some (cqs, wc, word_of_nat (length cs)) }))"

subsection \<open>Polling completions\<close>

lemma pop_completions_take: "pop_completions n cq = (take n cq, drop n cq)"
  by (induction n cq rule: pop_completions.induct) simp_all

lemma write_wcs_spec: "write_wcs cs wcs = (if length cs \<le> length wcs then Some (map2 write_wc cs wcs @ drop (length cs) wcs) else None)"
  by (induction cs wcs rule: write_wcs.induct) simp_all

lemma unat_scast64: "unat (scast (n :: u32) :: u64) = (if 0 \<le> sint n then nat (sint n) else 2 ^ 64 - nat (- sint n))"
proof -
  have r: "- (2 ^ 31) \<le> sint n" "sint n < 2 ^ 31" using sint_ge [of n] sint_lt [of n] by simp_all
  have u: "uint (scast n :: u64) = sint n mod 2 ^ 64" unfolding scast_eq uint_word_of_int by (simp only: len_num1 len_bit0 len_bit1) simp
  have "sint n mod 2 ^ 64 = (if 0 \<le> sint n then sint n else sint n + 2 ^ 64)"
  proof (cases "0 \<le> sint n")
    case True
    then show ?thesis using r by simp
  next
    case False
    have "sint n mod 2 ^ 64 = (sint n + 2 ^ 64) mod 2 ^ 64" by simp
    also have "\<dots> = sint n + 2 ^ 64" using r False by (intro mod_pos_pos_trivial) auto
    finally show ?thesis using False by simp
  qed
  then show ?thesis using r u by (auto simp: unat_eq_nat_uint nat_diff_distrib nat_add_distrib)
qed

text \<open>C35. Polling a completion queue for \<open>n\<close> entries takes the \<open>k\<close> oldest completions, as many as there are but at most \<open>n\<close>, writes the
  first \<open>k\<close> entries of the caller's array in that order, leaves the later entries and the other queues alone and
  returns \<open>k\<close>. For a negative \<open>n\<close> all completions are taken, and the driver writes past an array that is too short for them.
\<close>

theorem poll_cq_exact:
  assumes h: "unat handle < length cqs"
  defines "cq \<equiv> cqs ! unat handle"
  shows "(0 \<le> sint n \<and> min (nat (sint n)) (length cq) \<le> length wc \<longrightarrow>
      (let k = min (nat (sint n)) (length cq) in
       core_poll_cq cqs (Some handle) n wc =
         Some (cqs[unat handle := drop k cq], map2 write_wc (take k cq) wc @ drop k wc, word_of_nat k))) \<and>
    (sint n < 0 \<and> length cq < 2 ^ 32 \<longrightarrow> core_poll_cq cqs (Some handle) n wc =
       (if length cq \<le> length wc then Some (cqs[unat handle := []], map2 write_wc cq wc @ drop (length cq) wc, word_of_nat (length cq)) else None))"
proof (intro conjI impI)
  have p: "ctx_poll_cq cqs handle m = (cqs[unat handle := drop m cq], take m cq)" for m
    using h by (simp add: ctx_poll_cq_def pop_completions_take cq_def)
  {
    assume a: "0 \<le> sint n \<and> min (nat (sint n)) (length cq) \<le> length wc"
    then have u: "unat (scast n :: u64) = nat (sint n)" by (simp add: unat_scast64)
    have m: "take (nat (sint n)) cq = take (min (nat (sint n)) (length cq)) cq" "drop (nat (sint n)) cq = drop (min (nat (sint n)) (length cq)) cq"
      by (simp_all add: min_def)
    show "let k = min (nat (sint n)) (length cq) in core_poll_cq cqs (Some handle) n wc =
         Some (cqs[unat handle := drop k cq], map2 write_wc (take k cq) wc @ drop k wc, word_of_nat k)"
      using a p [of "nat (sint n)"] unfolding core_poll_cq_def Let_def m by (simp add: u write_wcs_spec min.commute)
  next
    assume a: "sint n < 0 \<and> length cq < 2 ^ 32"
    have "2 ^ 32 \<le> unat (scast n :: u64)" using a sint_ge [of n] by (simp add: unat_scast64)
    then have "take (unat (scast n :: u64)) cq = cq" "drop (unat (scast n :: u64)) cq = []" using a by auto
    then show "core_poll_cq cqs (Some handle) n wc =
       (if length cq \<le> length wc then Some (cqs[unat handle := []], map2 write_wc cq wc @ drop (length cq) wc, word_of_nat (length cq)) else None)"
      using p [of "unat (scast n :: u64)"] by (simp add: core_poll_cq_def write_wcs_spec)
  }
qed

lemma sint_one_minus_one: "sint (1 :: u32) = 1" "sint (- 1 :: u32) = - 1"
  by simp_all

theorem poll_cq_exact_witness:
  "core_poll_cq [[Comp_Send 7, Comp_Recv 5 (Some 9)]] (Some 0) 1 [\<lparr> wc_wr_id = 1, wc_status = 2, wc_opcode = 3, wc_imm_data = 4 \<rparr>] =
     Some ([[Comp_Recv 5 (Some 9)]], [\<lparr> wc_wr_id = 7, wc_status = 0, wc_opcode = 0, wc_imm_data = 4 \<rparr>], 1) \<and>
   core_poll_cq [[Comp_Send 7, Comp_Recv 5 (Some 9)]] (Some 0) (- 1) [\<lparr> wc_wr_id = 1, wc_status = 2, wc_opcode = 3, wc_imm_data = 4 \<rparr>] = None"
proof -
  let ?q = "[Comp_Send 7, Comp_Recv 5 (Some 9)]" and ?w = "[\<lparr> wc_wr_id = 1, wc_status = 2, wc_opcode = 3, wc_imm_data = 4 \<rparr>]"
  have h: "unat (0 :: u32) < length [?q]" by simp
  show ?thesis
    using conjunct1 [OF poll_cq_exact [OF h, of 1 ?w]] conjunct2 [OF poll_cq_exact [OF h, of "- 1" ?w]]
    by (simp add: sint_one_minus_one write_wc_def completion_opcode_def)
qed

end
