(* ===== verification/SendRecovery.thy ===== *)
theory SendRecovery
  imports RdmaWrite Retransmit
begin

text \<open>
  The write worker and the retransmission worker together: the write worker hands out the sequence numbers and records each request
  with the retransmission worker, and both are told what was acknowledged. The queue of unacknowledged requests then holds exactly
  the packets that have to be sent again.
\<close>

subsection \<open>What stays in the queue\<close>

text \<open>An acknowledgement up to \<open>a\<close> leaves no request that ends before \<open>a\<close>, but for the last one that starts before it.\<close>

lemma pop_until_bound:
  assumes "consecutive p xs e" "p \<le> a" "a \<le> e" "e < p + 2 ^ 23" "\<forall>x \<in> set xs. packet_count x \<le> N"
  shows "\<exists>p'. p \<le> p' \<and> p' \<le> a \<and> a \<le> p' + N \<and>
    consecutive p' (drop (length (takeWhile (\<lambda>x. sqe_psn x < psn_of a) xs) - 1) xs) e"
  using assms
proof (induction xs arbitrary: p)
  case (Cons x xs)
  let ?P = "\<lambda>x. sqe_psn x < psn_of a" and ?q = "p + packet_count x"
  have q: "consecutive ?q xs e" "sqe_psn x = psn_of p" and qe: "?q \<le> e" using Cons.prems(1) flat_consecutive [of ?q xs e] by auto
  have xa: "?P x \<longleftrightarrow> p < a" using q(2) Cons.prems by (simp add: psn_of_less_iff)
  have next_start: "a \<le> ?q" if "takeWhile ?P xs = []"
  proof (cases xs)
    case Nil
    then show ?thesis using q(1) Cons.prems(3) by simp
  next
    case (Cons y ys)
    then have "\<not> psn_of ?q < psn_of a" using that q(1) by (auto split: if_splits)
    then show ?thesis using Cons.prems qe \<open>e < p + 2 ^ 23\<close> \<open>a \<le> e\<close> \<open>p \<le> a\<close> by (simp add: psn_of_less_iff)
  qed
  show ?case
  proof (cases "p < a \<and> takeWhile ?P xs \<noteq> []")
    case True
    then obtain y ys where y: "xs = y # ys" "?P y" by (cases xs) (auto split: if_splits)
    then have "?q < a" using q(1) Cons.prems qe by (auto simp: psn_of_less_iff)
    then obtain p' where "?q \<le> p'" "p' \<le> a" "a \<le> p' + N" "consecutive p' (drop (length (takeWhile ?P xs) - 1) xs) e"
      using Cons.IH [OF q(1)] Cons.prems by auto
    moreover have "drop (length (takeWhile ?P (x # xs)) - 1) (x # xs) = drop (length (takeWhile ?P xs) - 1) xs"
      using True xa by (cases "takeWhile ?P xs") auto
    ultimately show ?thesis by (intro exI [of _ p']) simp
  next
    case False
    then have "length (takeWhile ?P (x # xs)) - 1 = 0" using xa by auto
    moreover have "a \<le> p + N" using False next_start Cons.prems(2,5) by (cases "p < a") auto
    ultimately show ?thesis using Cons.prems by (intro exI [of _ p]) (simp del: takeWhile.simps)
  qed
qed simp

lemma flat_drop:
  "flat_packets xs = (ps, False) \<Longrightarrow> \<exists>k. k \<le> length ps \<and> flat_packets (drop j xs) = (drop k ps, False)"
proof (induction xs arbitrary: ps j)
  case (Cons x xs)
  show ?case
  proof (cases j)
    case 0
    then show ?thesis using Cons.prems by (intro exI [of _ 0]) simp
  next
    case (Suc i)
    obtain us vs where u: "wr_packets (sqe_wr x) (sqe_qp_param x) (sqe_psn x) = Some us" "flat_packets xs = (vs, False)" "ps = us @ vs"
      using Cons.prems by (auto split: option.splits prod.splits)
    obtain k where "k \<le> length vs" "flat_packets (drop i xs) = (drop k vs, False)" using Cons.IH [OF u(2), of i] by blast
    then show ?thesis using Suc u(3) by (intro exI [of _ "length us + k"]) simp
  qed
qed simp

subsection \<open>Histories of writes and acknowledgements\<close>

text \<open>
  A write for which the driver reserves as many sequence numbers as it has packets: the remote address is aligned to the
  path MTU, or the write ends before the first MTU boundary.
\<close>

definition whole_packets :: "QpAttr \<Rightarrow> SendWrRdma \<Rightarrow> bool" where
  "whole_packets qa wr = (case convert_ibv_mtu_to_u16 (qa_pmtu qa) of
     None \<Rightarrow> False
   | Some m \<Rightarrow> let off = unat (wr_raddr wr) mod unat m; l = unat (wb_length (wr_base wr)) in
       (off = 0 \<or> l < unat m - off) \<and> 0 < l \<and> unat (wr_raddr wr) + l + 2 ^ 16 < 2 ^ 64)"

text \<open>The retransmission worker takes the tasks it is sent.\<close>

fun take_tasks :: "IbvSendQueue qp_table \<Rightarrow> PacketRetransmitTask list \<Rightarrow> IbvSendQueue qp_table option" where
  "take_tasks qs [] = Some qs"
| "take_tasks qs (t # ts) = do { (qs, _) \<leftarrow> retransmit_process qs t; take_tasks qs ts }"

text \<open>
  The write worker and the retransmission worker of one queue pair: a write that is accepted, of whole packets and with
  fewer than 2^22 packets outstanding after it, an acknowledgement of what was sent, told to both workers, and the
  completion of messages. Beside their tables go the list of the packets of all writes so far and the number of those that are
  acknowledged.
\<close>

inductive recovery ::
  "QpAttr qp_table \<Rightarrow> u32 \<Rightarrow> SendQueueContext qp_table \<Rightarrow> IbvSendQueue qp_table \<Rightarrow> WrChunk list \<Rightarrow> nat \<Rightarrow> bool" for attrs qpn where
  rec_start: "recovery attrs qpn (qp_table_new sq_default) (qp_table_new ibq_default) [] 0"
| rec_write: "recovery attrs qpn sqs qs ps a \<Longrightarrow> get_qp attrs qpn = Some qa \<Longrightarrow> whole_packets qa wr \<Longrightarrow>
    get_qp sqs qpn = Some ctx \<Longrightarrow> wr_packets wr (qp_params_of qa (sq_msn ctx)) (sq_psn ctx) = Some new \<Longrightarrow>
    length ps + length new < a + 2 ^ 22 \<Longrightarrow>
    rdma_write attrs sqs qpn wr = Some (sqs', out, Io_Ok) \<Longrightarrow> take_tasks qs (out_retransmit out) = Some qs' \<Longrightarrow>
    recovery attrs qpn sqs' qs' (ps @ new) a"
| rec_ack: "recovery attrs qpn sqs qs ps a \<Longrightarrow> a \<le> b \<Longrightarrow> b \<le> length ps \<Longrightarrow>
    rdma_process attrs sqs (Write_Ack qpn (psn_of b)) = Some (sqs', out) \<Longrightarrow>
    retransmit_process qs (Retransmit_Ack qpn (psn_of b)) = Some (qs', out') \<Longrightarrow> recovery attrs qpn sqs' qs' ps b"
| rec_complete: "recovery attrs qpn sqs qs ps a \<Longrightarrow>
    rdma_process attrs sqs (NewComplete qpn msn) = Some (sqs', out) \<Longrightarrow> recovery attrs qpn sqs' qs ps a"

definition queue_inv :: "IbvSendQueue \<Rightarrow> WrChunk list \<Rightarrow> nat \<Rightarrow> bool" where
  "queue_inv q ps a \<longleftrightarrow> ibq_base_psn q = psn_of a \<and> a \<le> length ps \<and> length ps < a + 2 ^ 22 \<and>
     (\<forall>x \<in> set (ibq_inner q). packet_count x \<le> 2 ^ 22) \<and>
     (\<exists>p. p \<le> a \<and> a \<le> p + 2 ^ 22 \<and> consecutive p (ibq_inner q) (length ps) \<and>
        flat_packets (ibq_inner q) = (drop p ps, False))"

definition recovery_inv ::
  "u32 \<Rightarrow> SendQueueContext qp_table \<Rightarrow> IbvSendQueue qp_table \<Rightarrow> WrChunk list \<Rightarrow> nat \<Rightarrow> bool" where
  "recovery_inv qpn sqs qs ps a \<longleftrightarrow> (\<exists>ctx q. get_qp sqs qpn = Some ctx \<and> sq_psn ctx = psn_of (length ps) \<and>
     get_qp qs qpn = Some q \<and> queue_inv q ps a)"

lemma reserved_packets:
  assumes "whole_packets qa wr" "qp_pmtu qp = qa_pmtu qa"
  obtains n us where "num_psn (qa_pmtu qa) (wr_raddr wr) (wb_length (wr_base wr)) = Some n" "wr_packets wr qp p = Some us"
    "length us = unat n" "us \<noteq> []" "map ck_psn us = map (psn_at p) [0..<length us]"
proof -
  obtain m where m: "convert_ibv_mtu_to_u16 (qa_pmtu qa) = Some m" using assms(1) by (auto simp: whole_packets_def split: option.splits)
  obtain k where k: "unat m = 2 ^ k" "8 \<le> k" "k \<le> 12" using mtu_power [OF m] .
  let ?a = "wr_raddr wr" and ?l = "wb_length (wr_base wr)"
  have w: "unat ?a mod 2 ^ k = 0 \<or> unat ?l < 2 ^ k - unat ?a mod 2 ^ k" "0 < unat ?l" "unat ?a + unat ?l + 2 ^ 16 < 2 ^ 64"
    using assms(1) m k(1) by (auto simp: whole_packets_def Let_def)
  have l0: "0 < ?l" using w(2) by (simp add: word_less_nat_alt)
  have "(2 :: nat) ^ k \<le> 2 ^ 12" using k(3) by (intro power_increasing) simp_all
  then have "unat ?a + unat ?l + 2 ^ k < 2 ^ 64" using w(3) by simp
  then obtain n where n: "num_psn (qa_pmtu qa) ?a ?l = Some n" "frag_count k (2 ^ k) (unat ?a) (unat ?a + unat ?l) = unat n"
    using num_psn_count [OF m k(1,3) w(2), of ?a] w(1) by (auto simp: Let_def split: if_splits)
  have mq: "convert_ibv_mtu_to_u16 (qp_pmtu qp) = Some m" using m assms(2) by simp
  obtain us where us: "wr_packets wr qp p = Some us" "us \<noteq> []" "map ck_psn us = map (psn_at p) [0..<length us]"
    using wr_packets_numbered [of qp wr p] mq l0 w(3) by auto
  have "length us = unat n" using wr_packets_count [OF mq k(1,3) l0 w(3), of p] us(1) n(2) by simp
  with n(1) us that show thesis by blast
qed

lemma queue_pushed:
  assumes "queue_inv q ps a" "sqe_psn x = psn_of (length ps)" "wr_ok x"
    and "wr_packets (sqe_wr x) (sqe_qp_param x) (sqe_psn x) = Some new" "length ps + length new < a + 2 ^ 22"
  shows "queue_inv (ibq_push q x) (ps @ new) a"
proof -
  obtain p where p: "p \<le> a" "a \<le> p + 2 ^ 22" "consecutive p (ibq_inner q) (length ps)" "flat_packets (ibq_inner q) = (drop p ps, False)"
    and a: "a \<le> length ps" using assms(1) by (auto simp: queue_inv_def)
  have flat: "flat_packets (us @ [x]) = (vs @ new, False)" if "flat_packets us = (vs, False)" for us vs
    using that by (induction us arbitrary: vs) (auto simp: assms(4) split: option.splits prod.splits)
  have n: "packet_count x = length new" using assms(4) by (simp add: packet_count_def)
  have "consecutive p (ibq_inner q @ [x]) (length ps + length new)" using p(3) assms(2,3) n by (auto simp: consecutive_append)
  moreover have "packet_count x \<le> 2 ^ 22" using n assms(5) a by simp
  ultimately show ?thesis
    using assms(1,5) p(1,2) flat [OF p(4)] a by (auto simp: queue_inv_def ibq_push_def intro!: exI [of _ p])
qed

lemma queue_popped:
  assumes "queue_inv q ps a" "a \<le> b" "b \<le> length ps"
  shows "queue_inv (pop_until q (psn_of b)) ps b"
proof -
  obtain p where p: "p \<le> a" "a \<le> p + 2 ^ 22" "consecutive p (ibq_inner q) (length ps)" "flat_packets (ibq_inner q) = (drop p ps, False)"
    and i: "length ps < a + 2 ^ 22" "\<forall>x \<in> set (ibq_inner q). packet_count x \<le> 2 ^ 22"
    using assms(1) by (auto simp: queue_inv_def)
  define j where "j = length (takeWhile (\<lambda>x. sqe_psn x < psn_of b) (ibq_inner q)) - 1"
  obtain p' where p': "p \<le> p'" "p' \<le> b" "b \<le> p' + 2 ^ 22" "consecutive p' (drop j (ibq_inner q)) (length ps)"
    using pop_until_bound [OF p(3) _ assms(3) _ i(2)] p(1,2) i(1) assms(2) unfolding j_def by auto
  obtain k where k: "k \<le> length (drop p ps)" "flat_packets (drop j (ibq_inner q)) = (drop k (drop p ps), False)"
    using flat_drop [OF p(4)] by blast
  then have "length (drop k (drop p ps)) = length ps - p'"
    using flat_consecutive [OF p'(4)] by (auto dest: map_eq_imp_length_eq)
  then have "drop k (drop p ps) = drop p' ps" using k(1) p' p(1) assms by (auto intro: arg_cong2 [where f = drop])
  moreover have "ibq_inner (pop_until q (psn_of b)) = drop j (ibq_inner q)" "ibq_base_psn (pop_until q (psn_of b)) = psn_of b"
    by (simp_all add: pop_until_def partition_point_def Let_def j_def)
  ultimately show ?thesis using k(2) p' i assms by (auto simp: queue_inv_def dest: in_set_dropD)
qed

lemma next_wr_numbers:
  "next_wr ctx n = (ctx', Some (m, p)) \<Longrightarrow> m = sq_msn ctx \<and> p = sq_psn ctx \<and> sq_psn ctx' = psn_add (sq_psn ctx) n"
  by (auto simp: next_wr_def Let_def split: if_splits)

lemma write_effect:
  assumes "get_qp attrs qpn = Some qa" "whole_packets qa wr" "get_qp sqs qpn = Some ctx"
    and "wr_packets wr (qp_params_of qa (sq_msn ctx)) (sq_psn ctx) = Some new" "rdma_write attrs sqs qpn wr = Some (sqs', out, Io_Ok)"
  shows "(\<exists>ctx'. get_qp sqs' qpn = Some ctx' \<and> sq_psn ctx' = psn_add (sq_psn ctx) (word_of_nat (length new))) \<and>
    out_retransmit out = [NewWr qpn \<lparr> sqe_psn = sq_psn ctx, sqe_wr = wr, sqe_qp_param = qp_params_of qa (sq_msn ctx) \<rparr>]"
proof -
  obtain n where n: "num_psn (qa_pmtu qa) (wr_raddr wr) (wb_length (wr_base wr)) = Some n" "length new = unat n" "new \<noteq> []"
    using reserved_packets [OF assms(2), of "qp_params_of qa (sq_msn ctx)" "sq_psn ctx"] assms(4) by (auto simp: qp_params_of_def)
  obtain ctx' r where r: "next_wr ctx n = (ctx', r)" by fastforce
  then obtain m p where mp: "r = Some (m, p)" using assms(1,3,5) n(1) by (cases r) (auto simp: rdma_write_def reserve_def)
  note nm = next_wr_numbers [OF r [unfolded mp]]
  have "get_qp (put_qp sqs qpn ctx') qpn = Some ctx'" using get_qp_Some [OF assms(3)] by (simp add: get_put_qp)
  moreover have "sqs' = put_qp sqs qpn ctx' \<and>
      out_retransmit out = [NewWr qpn \<lparr> sqe_psn = sq_psn ctx, sqe_wr = wr, sqe_qp_param = qp_params_of qa (sq_msn ctx) \<rparr>]"
    using assms(1,3,5) n(1,3) r mp nm assms(4)
    by (auto simp: rdma_write_def reserve_def write_chunks_def Let_def bind_eq_Some_conv split: if_splits option.splits)
  ultimately show ?thesis using nm n(2) by auto
qed

lemma recovery_written:
  assumes "recovery_inv qpn sqs qs ps a" "get_qp attrs qpn = Some qa" "whole_packets qa wr" "get_qp sqs qpn = Some ctx"
    and "wr_packets wr (qp_params_of qa (sq_msn ctx)) (sq_psn ctx) = Some new" "length ps + length new < a + 2 ^ 22"
    and "rdma_write attrs sqs qpn wr = Some (sqs', out, Io_Ok)" "take_tasks qs (out_retransmit out) = Some qs'"
  shows "recovery_inv qpn sqs' qs' (ps @ new) a"
proof -
  obtain q where q: "sq_psn ctx = psn_of (length ps)" "get_qp qs qpn = Some q" "queue_inv q ps a"
    using assms(1,4) by (auto simp: recovery_inv_def)
  define x where "x = \<lparr> sqe_psn = sq_psn ctx, sqe_wr = wr, sqe_qp_param = qp_params_of qa (sq_msn ctx) \<rparr>"
  obtain ctx' where c: "get_qp sqs' qpn = Some ctx'" "sq_psn ctx' = psn_add (sq_psn ctx) (word_of_nat (length new))"
    and out: "out_retransmit out = [NewWr qpn x]"
    using write_effect [OF assms(2-5,7)] by (auto simp: x_def)
  have qs: "qs' = put_qp qs qpn (ibq_push q x)" using assms(8) out q(2) by (simp add: retransmit_process_def)
  have "length new < 2 ^ 32" using assms(6) q(3) by (simp add: queue_inv_def)
  then have "sq_psn ctx' = psn_of (length (ps @ new))" unfolding c(2) q(1) psn_add_of by (simp add: unat_of_nat)
  moreover have "wr_ok x" using assms(3) by (auto simp: wr_ok_def whole_packets_def x_def qp_params_of_def Let_def word_less_nat_alt split: option.splits)
  then have "queue_inv (ibq_push q x) (ps @ new) a"
    using q assms(5,6) by (intro queue_pushed [OF q(3)]) (simp_all add: x_def)
  moreover have "get_qp qs' qpn = Some (ibq_push q x)" using get_qp_Some [OF q(2)] by (simp add: qs get_put_qp)
  ultimately show ?thesis using c(1) by (auto simp: recovery_inv_def)
qed

lemma recovery_holds:
  "recovery attrs qpn sqs qs ps a \<Longrightarrow> qpn_to_index qpn < MAX_QP_CNT \<Longrightarrow> recovery_inv qpn sqs qs ps a"
proof (induction rule: recovery.induct)
  case rec_start
  then show ?case
    by (simp add: recovery_inv_def get_qp_def qp_table_new_def sq_default_def ibq_default_def queue_inv_def psn_of_def Let_def)
next
  case (rec_write sqs qs ps a qa wr ctx new sqs' out qs')
  then show ?case using recovery_written by blast
next
  case (rec_ack sqs qs ps a b sqs' out qs' out')
  then obtain ctx q where q: "get_qp sqs qpn = Some ctx" "sq_psn ctx = psn_of (length ps)" "get_qp qs qpn = Some q" "queue_inv q ps a"
    by (auto simp: recovery_inv_def)
  have "queue_inv (pop_until q (psn_of b)) ps b" using rec_ack.hyps(2,3) q(4) by (intro queue_popped)
  then show ?case using rec_ack.hyps(4,5) q get_qp_Some [OF q(1)] get_qp_Some [OF q(3)]
    by (auto simp: recovery_inv_def rdma_process_def retransmit_process_def update_psn_acked_def get_put_qp)
next
  case (rec_complete sqs qs ps a msn sqs' out)
  then show ?case using get_qp_Some
    by (fastforce simp: recovery_inv_def rdma_process_def update_msn_acked_def get_put_qp bind_eq_Some_conv)
qed

text \<open>C28. What is sent again after an acknowledgement is what was not acknowledged. After any history of accepted writes on a queue
  pair, each of whole packets and with fewer than 2^22 packets outstanding after it, and of acknowledgements and message
  completions, the next packet gets the number of all packets written so far as its sequence number, modulo 2^24; and when the first \<open>b\<close> packets are
  acknowledged and a retransmission of everything is asked for, the packets sent are exactly those written after the first \<open>b\<close>,
  in order, each marked as a retry, also when the sequence numbers have wrapped around.
\<close>

theorem retransmits_unacknowledged:
  assumes "recovery attrs qpn sqs qs ps a" "qpn_to_index qpn < MAX_QP_CNT" "a \<le> b" "b \<le> length ps"
  shows "map_option sq_psn (get_qp sqs qpn) = Some (psn_of (length ps)) \<and>
    (\<exists>qs' out. retransmit_process qs (Retransmit_Ack qpn (psn_of b)) = Some (qs', nothing_sent) \<and>
       retransmit_process qs' (RetransmitAll qpn) = Some (qs', out) \<and>
       out_chunks out = map set_is_retry (drop b ps) \<and> map ck_psn (drop b ps) = map psn_of [b..<length ps])"
proof -
  obtain ctx q where q: "get_qp sqs qpn = Some ctx" "sq_psn ctx = psn_of (length ps)" "get_qp qs qpn = Some q" "queue_inv q ps a"
    using recovery_holds [OF assms(1,2)] by (auto simp: recovery_inv_def)
  let ?q = "pop_until q (psn_of b)"
  have i: "queue_inv ?q ps b" using queue_popped [OF q(4) assms(3,4)] .
  then obtain p where p: "p \<le> b" "b \<le> p + 2 ^ 22" "length ps < b + 2 ^ 22" "consecutive p (ibq_inner ?q) (length ps)"
    "flat_packets (ibq_inner ?q) = (drop p ps, False)" "ibq_base_psn ?q = psn_of b" by (auto simp: queue_inv_def)
  let ?P = "\<lambda>x. ck_psn x < psn_of b"
  have m: "map ck_psn (drop p ps) = map psn_of [p..<length ps]" using flat_consecutive [OF p(4)] p(5) by auto
  have "length (takeWhile ?P (drop p ps)) = length (takeWhile (\<lambda>n. n < psn_of b) (map ck_psn (drop p ps)))"
    by (simp add: takeWhile_map comp_def)
  also have "\<dots> = b - p" unfolding m using p(1-3) assms(4) by (subst takeWhile_psns) auto
  finally have "dropWhile ?P (drop p ps) = drop b ps" using p(1) by (simp add: dropWhile_eq_drop)
  moreover have "get_qp (put_qp qs qpn ?q) qpn = Some ?q" using get_qp_Some [OF q(3)] by (simp add: get_put_qp)
  moreover have "map ck_psn (drop b ps) = map psn_of [b..<length ps]"
    using arg_cong [OF m, of "drop (b - p)"] p(1) by (simp add: drop_map)
  ultimately show ?thesis using q p(5,6) by (simp add: retransmit_process_def)
qed

text \<open>A queue pair with a path MTU of 256 bytes that writes 512 bytes.\<close>

definition demo_attrs :: "QpAttr qp_table" where
  "demo_attrs = qp_table_new (default_qp_attr\<lparr> qa_pmtu := 1 \<rparr>)"

lemma demo_get: "get_qp (qp_table_new x) 0x100 = Some x"
  by (simp add: qp_table_new_def get_qp_def qpn_to_index_def QPN_KEY_PART_WIDTH_def MAX_QP_CNT_def)

lemma demo_chunks: "\<exists>cs. wr_chunks (sqe_wr demo_elem) (qp_params_of (default_qp_attr\<lparr> qa_pmtu := 1 \<rparr>) 0) (Psn 0) = Some cs"
proof -
  let ?qp = "qp_params_of (default_qp_attr\<lparr> qa_pmtu := 1 \<rparr>) 0"
  have m: "convert_ibv_mtu_to_u16 (qp_pmtu ?qp) = Some 256" by (simp add: qp_params_of_def convert_ibv_mtu_to_u16_def)
  have "unat (256 :: u16) = 2 ^ 8" by simp
  from chunk_fragmenter_at [OF m this, of "ucast WR_CHUNK_SIZE" "unat WR_CHUNK_SIZE div 256" "sqe_wr demo_elem" "Psn 0" False]
  show ?thesis by (auto simp: wr_chunks_def WR_CHUNK_SIZE_def demo_elem_def)
qed

theorem retransmits_unacknowledged_witness:
  "\<exists>sqs qs ps qs' out. recovery demo_attrs 0x100 sqs qs ps 0 \<and> length ps = 2 \<and>
     retransmit_process qs (Retransmit_Ack 0x100 (psn_of 1)) = Some (qs', nothing_sent) \<and>
     retransmit_process qs' (RetransmitAll 0x100) = Some (qs', out) \<and> map ck_psn (drop 1 ps) = [psn_of 1]"
proof -
  let ?qa = "default_qp_attr\<lparr> qa_pmtu := 1 \<rparr>" and ?wr = "sqe_wr demo_elem"
  have w: "whole_packets ?qa ?wr" by (simp add: whole_packets_def demo_elem_def convert_ibv_mtu_to_u16_def Let_def)
  obtain n us where u: "num_psn (qa_pmtu ?qa) (wr_raddr ?wr) (wb_length (wr_base ?wr)) = Some n"
    "wr_packets ?wr (qp_params_of ?qa 0) (Psn 0) = Some us" "length us = unat n"
    by (rule reserved_packets [OF w, of "qp_params_of ?qa 0" "Psn 0"]) (simp add: qp_params_of_def)
  have n: "n = 2" using u(1) by (simp add: num_psn_def demo_elem_def convert_ibv_mtu_to_u16_def div_ceil_def Let_def)
  obtain cs where cs: "wr_chunks ?wr (qp_params_of ?qa 0) (Psn 0) = Some cs" using demo_chunks by blast
  have sq: "sq_msn sq_default = 0" "sq_psn sq_default = Psn 0" by (simp_all add: sq_default_def)
  obtain ctx where c: "next_wr sq_default 2 = (ctx, Some (0, Psn 0))"
    by (simp add: next_wr_def sq_default_def Let_def psn_diff_def psn_add_def and_PSN_MASK MAX_PSN_WINDOW_def MAX_SEND_WR_def)
  have "wb_send_flags (wr_base ?wr) = 0" by (simp add: demo_elem_def)
  then obtain sqs out where o: "rdma_write demo_attrs (qp_table_new sq_default) 0x100 ?wr = Some (sqs, out, Io_Ok)"
    using u(1) n c cs by (simp add: rdma_write_def reserve_def demo_attrs_def demo_get write_chunks_def Let_def)
  obtain qs where qs: "take_tasks (qp_table_new ibq_default) (out_retransmit out) = Some qs"
    using write_effect [of demo_attrs "0x100" ?qa ?wr "qp_table_new sq_default" sq_default us sqs out] o w u(2)
    by (auto simp: demo_attrs_def demo_get sq retransmit_process_def)
  have r: "recovery demo_attrs 0x100 sqs qs us 0"
    using rec_write [OF rec_start, of demo_attrs "0x100" ?qa ?wr sq_default us sqs out qs] o w u(2,3) n qs
    by (simp add: demo_attrs_def demo_get sq)
  have "qpn_to_index 0x100 < MAX_QP_CNT" by (simp add: qpn_to_index_def QPN_KEY_PART_WIDTH_def MAX_QP_CNT_def)
  from retransmits_unacknowledged [OF r this, of 1] u(3) n r show ?thesis by (fastforce simp: upt_conv_Cons)
qed

end
