(* ===== verification/RingBuf.thy ===== *)
theory RingBuf
  imports Prelude
begin

text \<open>
  The descriptor rings between the driver and the card (\<^verbatim>\<open>ringbuf/dma_rb.rs\<close>, \<^verbatim>\<open>ringbuf/desc.rs\<close>). A ring is shared memory with a head and
  a tail counter of 13 bits; the producer moves the head and the consumer the tail, and each side sees the other's counter only when it
  reads it. On the rings to the host the validity bit of a descriptor says that it is complete. The memory accesses of the two sides
  are the steps of the histories below; \<open>None\<close> is a failed assertion.
\<close>

subsection \<open>The ring buffer\<close>

definition RING_BUF_LEN_BITS :: nat where "RING_BUF_LEN_BITS = 12"

definition RING_BUF_LEN :: u64 where "RING_BUF_LEN = push_bit RING_BUF_LEN_BITS 1"

definition RING_BUF_LEN_MASK :: u64 where "RING_BUF_LEN_MASK = push_bit RING_BUF_LEN_BITS 1 - 1"

definition RING_BUF_LEN_WRAP_MASK :: u64 where "RING_BUF_LEN_WRAP_MASK = push_bit (RING_BUF_LEN_BITS + 1) 1 - 1"

text \<open>The slots are the mapped memory; an index into it is masked to less than \<open>RING_BUF_LEN\<close>, which the constructor asserts to fit.\<close>

record 'a DmaRingBuf =
  rb_slots :: "'a list"
  rb_head :: u64
  rb_tail :: u64

definition rb_new :: "'a list \<Rightarrow> 'a DmaRingBuf option" where
  "rb_new mmap = (if unat RING_BUF_LEN \<le> length mmap then Some \<lparr> rb_slots = mmap, rb_head = 0, rb_tail = 0 \<rparr> else None)"

definition rb_len :: "'a DmaRingBuf \<Rightarrow> u64" where
  "rb_len self = (let dlt = rb_head self - rb_tail self in dlt AND RING_BUF_LEN_WRAP_MASK)"

definition rb_remaining :: "'a DmaRingBuf \<Rightarrow> u64" where
  "rb_remaining self = RING_BUF_LEN - rb_len self"

definition rb_is_empty :: "'a DmaRingBuf \<Rightarrow> bool" where
  "rb_is_empty self \<longleftrightarrow> rb_head self = rb_tail self"

definition rb_is_full :: "'a DmaRingBuf \<Rightarrow> bool" where
  "rb_is_full self \<longleftrightarrow> rb_head self XOR rb_tail self = RING_BUF_LEN"

definition inc_head :: "'a DmaRingBuf \<Rightarrow> 'a DmaRingBuf" where
  "inc_head self = self\<lparr> rb_head := (rb_head self + 1) AND RING_BUF_LEN_WRAP_MASK \<rparr>"

definition inc_tail :: "'a DmaRingBuf \<Rightarrow> 'a DmaRingBuf" where
  "inc_tail self = self\<lparr> rb_tail := (rb_tail self + 1) AND RING_BUF_LEN_WRAP_MASK \<rparr>"

definition set_tail :: "'a DmaRingBuf \<Rightarrow> u32 \<Rightarrow> 'a DmaRingBuf" where
  "set_tail self tail = self\<lparr> rb_tail := ucast tail \<rparr>"

definition set_head :: "'a DmaRingBuf \<Rightarrow> u32 \<Rightarrow> 'a DmaRingBuf" where
  "set_head self head = self\<lparr> rb_head := ucast head \<rparr>"

definition head_idx :: "'a DmaRingBuf \<Rightarrow> u64" where
  "head_idx self = rb_head self AND RING_BUF_LEN_MASK"

definition tail_idx :: "'a DmaRingBuf \<Rightarrow> u64" where
  "tail_idx self = rb_tail self AND RING_BUF_LEN_MASK"

definition rb_push :: "'a DmaRingBuf \<Rightarrow> 'a \<Rightarrow> 'a DmaRingBuf \<times> bool" where
  "rb_push self value =
     (if rb_len self = RING_BUF_LEN then (self, False)
      else (inc_head (self\<lparr> rb_slots := (rb_slots self)[unat (head_idx self) := value] \<rparr>), True))"

definition read_index :: "'a DmaRingBuf \<Rightarrow> u64 \<Rightarrow> 'a" where
  "read_index self index = rb_slots self ! unat index"

text \<open>\<open>z\<close> is the value whose bytes are all zero.\<close>

definition zero_index :: "'a \<Rightarrow> 'a DmaRingBuf \<Rightarrow> u64 \<Rightarrow> 'a DmaRingBuf" where
  "zero_index z self index = self\<lparr> rb_slots := (rb_slots self)[unat index := z] \<rparr>"

definition read_and_advance :: "'a \<Rightarrow> 'a DmaRingBuf \<Rightarrow> u64 \<Rightarrow> 'a DmaRingBuf \<times> 'a" where
  "read_and_advance z self index = (let value = read_index self index in (inc_tail (zero_index z self index), value))"

definition rb_pop :: "'a \<Rightarrow> ('a \<Rightarrow> bool) \<Rightarrow> 'a DmaRingBuf \<Rightarrow> 'a DmaRingBuf \<times> 'a option" where
  "rb_pop z cond self = (
     let value = read_index self (tail_idx self)
     in if cond value then (let (self, value) = read_and_advance z self (tail_idx self) in (self, Some value)) else (self, None))"

definition rb_pop_two :: "'a \<Rightarrow> ('a \<Rightarrow> bool) \<Rightarrow> ('a \<Rightarrow> bool) \<Rightarrow> 'a DmaRingBuf \<Rightarrow> 'a DmaRingBuf \<times> 'a option \<times> 'a option" where
  "rb_pop_two z cond require_next self = (
     let idx_first = tail_idx self;
         idx_next = (idx_first + 1) AND RING_BUF_LEN_MASK;
         value_first = read_index self idx_first;
         value_next = read_index self idx_next
     in (case (cond value_first, cond value_next, require_next value_first) of
           (True, True, True) \<Rightarrow>
             let (self, value_first) = read_and_advance z self idx_first; (self, value_next) = read_and_advance z self idx_next
             in (self, Some value_first, Some value_next)
         | (True, _, False) \<Rightarrow> let (self, value_first) = read_and_advance z self idx_first in (self, Some value_first, None)
         | (True, False, True) \<Rightarrow> (self, None, None)
         | (False, _, _) \<Rightarrow> (self, None, None)))"

subsection \<open>Rings of descriptors\<close>

text \<open>A descriptor is 32 bytes; the two highest bits of the last byte say whether it is valid and whether another one belongs to it.\<close>

definition DESC_SIZE :: nat where "DESC_SIZE = 32"

definition desc_is_valid :: "u8 list \<Rightarrow> bool" where
  "desc_is_valid desc \<longleftrightarrow> drop_bit 7 (desc ! 31) = 1"

definition desc_has_next :: "u8 list \<Rightarrow> bool" where
  "desc_has_next desc \<longleftrightarrow> drop_bit 6 (desc ! 31) AND 1 = 1"

definition desc_zero :: "u8 list" where "desc_zero = replicate DESC_SIZE 0"

definition desc_push :: "('d \<Rightarrow> u8 list) \<Rightarrow> u8 list DmaRingBuf \<Rightarrow> 'd \<Rightarrow> u8 list DmaRingBuf \<times> bool" where
  "desc_push serialize self value = rb_push self (serialize value)"

lemma desc_zero_invalid: "\<not> desc_is_valid desc_zero"
  by (simp add: desc_is_valid_def desc_zero_def DESC_SIZE_def)

subsection \<open>Counters modulo twice the length\<close>

definition ctr :: "nat \<Rightarrow> u64" where "ctr n = word_of_nat (n mod 8192)"

lemma take_bit_word_of_int64: "k \<le> 64 \<Longrightarrow> take_bit k (word_of_int i :: u64) = word_of_int (take_bit k i)"
  by transfer (simp add: take_bit_take_bit min_def)

lemma masks: "RING_BUF_LEN_MASK = mask 12" "RING_BUF_LEN_WRAP_MASK = mask 13" "RING_BUF_LEN = 4096" "unat RING_BUF_LEN = 4096"
  by (simp_all add: RING_BUF_LEN_MASK_def RING_BUF_LEN_WRAP_MASK_def RING_BUF_LEN_def RING_BUF_LEN_BITS_def mask_eq_exp_minus_1 push_bit_of_1)

lemma wrap_of_int: "(word_of_int i :: u64) AND RING_BUF_LEN_WRAP_MASK = word_of_int (i mod 8192)"
proof -
  have "(word_of_int i :: u64) AND RING_BUF_LEN_WRAP_MASK = take_bit 13 (word_of_int i)" by (simp only: masks take_bit_eq_mask)
  also have "\<dots> = word_of_int (take_bit 13 i)" by (rule take_bit_word_of_int64) simp
  finally show ?thesis by (simp add: take_bit_eq_mod)
qed

lemma ctr_word: "ctr n = word_of_int (int n mod 8192)"
proof -
  have "int n mod 8192 = int (n mod 8192)" by (simp add: zmod_int)
  then show ?thesis by (simp only: ctr_def of_int_of_nat_eq)
qed

lemma ctr_inc: "(ctr n + 1) AND RING_BUF_LEN_WRAP_MASK = ctr (Suc n)"
proof -
  have "ctr n + 1 = word_of_int (int n mod 8192 + 1)" by (simp add: ctr_word)
  then have "(ctr n + 1) AND RING_BUF_LEN_WRAP_MASK = word_of_int ((int n mod 8192 + 1) mod 8192)" by (simp only: wrap_of_int)
  also have "(int n mod 8192 + 1) mod 8192 = int (Suc n) mod 8192" using mod_add_left_eq [of "int n" 8192 1] by (simp only: of_nat_Suc add.commute)
  finally show ?thesis by (simp only: ctr_word)
qed

lemma ctr_diff: "t \<le> h \<Longrightarrow> h - t < 8192 \<Longrightarrow> (ctr h - ctr t) AND RING_BUF_LEN_WRAP_MASK = word_of_nat (h - t)"
proof -
  assume a: "t \<le> h" "h - t < 8192"
  have "ctr h - ctr t = word_of_int (int h mod 8192 - int t mod 8192)" by (simp add: ctr_word)
  then have "(ctr h - ctr t) AND RING_BUF_LEN_WRAP_MASK = word_of_int ((int h mod 8192 - int t mod 8192) mod 8192)" by (simp only: wrap_of_int)
  also have "(int h mod 8192 - int t mod 8192) mod 8192 = (int h - int t) mod 8192" by (simp add: mod_diff_eq)
  also have "\<dots> = int (h - t)" using a by (simp add: of_nat_diff)
  finally show ?thesis by simp
qed

lemma unat_mask: "unat (w AND RING_BUF_LEN_MASK) = unat w mod 4096"
proof -
  have "w AND RING_BUF_LEN_MASK = take_bit 12 w" by (simp only: masks take_bit_eq_mask)
  then have "unat (w AND RING_BUF_LEN_MASK) = take_bit 12 (unat w)" by (simp only: unsigned_take_bit_eq)
  then show ?thesis by (simp add: take_bit_eq_mod)
qed

lemma ctr_idx: "unat (ctr n AND RING_BUF_LEN_MASK) = n mod 4096"
proof -
  have "n mod 8192 mod 4096 = n mod 4096" by (rule mod_mod_cancel) simp
  moreover have "unat (ctr n) = n mod 8192" by (simp add: ctr_def unat_of_nat)
  ultimately show ?thesis by (simp only: unat_mask)
qed

lemma ctr_next_idx: "unat (((ctr n AND RING_BUF_LEN_MASK) + 1) AND RING_BUF_LEN_MASK) = Suc n mod 4096"
proof -
  have "unat ((ctr n AND RING_BUF_LEN_MASK) + 1) = n mod 4096 + 1" by (simp add: unat_word_ariths ctr_idx)
  then show ?thesis by (simp only: unat_mask) (simp add: mod_Suc_eq)
qed

lemma ctr_0: "ctr 0 = 0"
  by (simp add: ctr_def)

lemma ctr_u32: "ucast (ucast (ctr n) :: u32) = ctr n"
proof -
  have "unat (ctr n) < 2 ^ 32" using mod_less_divisor [of 8192 n] by (simp add: ctr_def unat_of_nat)
  then show ?thesis by (simp add: word_unat_eq_iff unsigned_ucast_eq unsigned_take_bit_eq take_bit_nat_eq_self)
qed

subsection \<open>A ring to the card\<close>

text \<open>
  The host pushes values and publishes its head in a register; the card fetches the value at its tail as long as this differs from the
  published head and publishes its tail, which the host reads when it needs room. The history keeps the values pushed and those
  fetched.
\<close>

inductive to_card :: "'a DmaRingBuf \<Rightarrow> u32 \<Rightarrow> u32 \<Rightarrow> 'a list \<Rightarrow> 'a list \<Rightarrow> bool" where
  tc_new: "rb_new mmap = Some r \<Longrightarrow> to_card r 0 0 [] []"
| tc_push: "to_card r h t ps fs \<Longrightarrow> rb_push r v = (r', True) \<Longrightarrow> to_card r' h t (ps @ [v]) fs"
| tc_head: "to_card r h t ps fs \<Longrightarrow> to_card r (ucast (rb_head r)) t ps fs"
| tc_tail: "to_card r h t ps fs \<Longrightarrow> to_card (set_tail r t) h t ps fs"
| tc_fetch: "to_card r h t ps fs \<Longrightarrow> t \<noteq> h \<Longrightarrow>
    to_card r h (ucast ((ucast t + 1) AND RING_BUF_LEN_WRAP_MASK)) ps (fs @ [rb_slots r ! unat (ucast t AND RING_BUF_LEN_MASK)])"

definition tc_inv :: "'a DmaRingBuf \<Rightarrow> u32 \<Rightarrow> u32 \<Rightarrow> 'a list \<Rightarrow> 'a list \<Rightarrow> nat \<Rightarrow> nat \<Rightarrow> bool" where
  "tc_inv r h t ps fs T c \<longleftrightarrow>
     4096 \<le> length (rb_slots r) \<and> rb_head r = ctr (length ps) \<and> rb_tail r = ctr T \<and> h = ucast (ctr c) \<and> t = ucast (ctr (length fs)) \<and>
     T \<le> length fs \<and> length fs \<le> c \<and> c \<le> length ps \<and> length ps \<le> T + 4096 \<and> fs = take (length fs) ps \<and>
     (\<forall>i. T \<le> i \<longrightarrow> i < length ps \<longrightarrow> rb_slots r ! (i mod 4096) = ps ! i)"

lemma mod_neq: "i < j \<Longrightarrow> j < i + m \<Longrightarrow> i mod m \<noteq> j mod (m :: nat)"
  by (metis add_diff_inverse_nat less_imp_le less_diff_conv2 not_less mod_eq_dvd_iff_nat nat_dvd_not_less zero_less_diff add.commute)

lemma unat_ctr: "unat (ctr n) = n mod 8192"
  by (simp add: ctr_def unat_of_nat)

lemma ctr_inj: "a \<le> b \<Longrightarrow> b < a + 8192 \<Longrightarrow> ctr a = ctr b \<Longrightarrow> a = b"
  using mod_neq [of a b 8192] by (metis unat_ctr le_neq_implies_less)

lemma unat_rb_len: "rb_head r = ctr n \<Longrightarrow> rb_tail r = ctr T \<Longrightarrow> T \<le> n \<Longrightarrow> n < T + 8192 \<Longrightarrow> unat (rb_len r) = n - T"
  using ctr_diff [of T n] by (simp only: rb_len_def Let_def) (simp add: unat_of_nat del: of_nat_diff)

lemma tc_push_inv:
  assumes i: "tc_inv r h t ps fs T c" and p: "rb_push r v = (r', True)"
  shows "tc_inv r' h t (ps @ [v]) fs T c"
proof -
  let ?n = "length ps"
  have len: "unat (rb_len r) = ?n - T" using i by (intro unat_rb_len) (simp_all add: tc_inv_def)
  have room: "?n < T + 4096"
  proof (rule ccontr)
    assume "\<not> ?n < T + 4096"
    then have "?n - T = 4096" using i by (simp add: tc_inv_def)
    then have "rb_len r = RING_BUF_LEN" using len by (simp add: word_unat_eq_iff masks)
    then show False using p by (simp add: rb_push_def)
  qed
  have r': "r' = inc_head (r\<lparr> rb_slots := (rb_slots r)[?n mod 4096 := v] \<rparr>)"
    using i p by (auto simp: rb_push_def head_idx_def tc_inv_def ctr_idx split: if_splits)
  have s: "rb_slots r' ! (k mod 4096) = (ps @ [v]) ! k" if k: "T \<le> k" "k < length (ps @ [v])" for k
  proof (cases "k = ?n")
    case True
    moreover have "?n mod 4096 < length (rb_slots r)" using i by (auto simp: tc_inv_def intro: less_le_trans [of _ 4096])
    ultimately show ?thesis by (simp add: r' inc_head_def)
  next
    case False
    then have "k < ?n" using k by simp
    moreover have "k mod 4096 \<noteq> ?n mod 4096" using mod_neq [of k ?n] \<open>k < ?n\<close> room k by simp
    ultimately show ?thesis using i k by (simp add: r' inc_head_def nth_append tc_inv_def)
  qed
  show ?thesis using i room s by (simp add: tc_inv_def r' inc_head_def ctr_inc)
qed

lemma tc_fetch_inv:
  assumes i: "tc_inv r h t ps fs T c" and n: "t \<noteq> h"
  shows "tc_inv r h (ucast ((ucast t + 1) AND RING_BUF_LEN_WRAP_MASK)) ps (fs @ [rb_slots r ! unat (ucast t AND RING_BUF_LEN_MASK)]) T c"
proof -
  have "length fs < c" using i n by (cases "length fs = c") (auto simp: tc_inv_def)
  moreover have "rb_slots r ! (length fs mod 4096) = ps ! length fs" using i calculation by (simp add: tc_inv_def)
  moreover have "fs @ [ps ! length fs] = take (Suc (length fs)) ps" using i calculation by (simp add: tc_inv_def take_Suc_conv_app_nth)
  ultimately show ?thesis using i by (simp add: tc_inv_def ctr_u32 ctr_inc ctr_idx)
qed

lemma tc_inv_run: "to_card r h t ps fs \<Longrightarrow> \<exists>T c. tc_inv r h t ps fs T c"
proof (induction rule: to_card.induct)
  case (tc_new mmap r)
  then have "tc_inv r 0 0 [] [] 0 0" by (auto simp: tc_inv_def rb_new_def masks ctr_0 split: if_splits)
  then show ?case by blast
next
  case (tc_push r h t ps fs v r')
  then obtain T c where "tc_inv r h t ps fs T c" by blast
  from tc_push_inv [OF this tc_push(2)] show ?case by blast
next
  case (tc_head r h t ps fs)
  then obtain T c where "tc_inv r h t ps fs T c" by blast
  then have "tc_inv r (ucast (rb_head r)) t ps fs T (length ps)" by (simp add: tc_inv_def)
  then show ?case by blast
next
  case (tc_tail r h t ps fs)
  then obtain T c where "tc_inv r h t ps fs T c" by blast
  then have "tc_inv (set_tail r t) h t ps fs (length fs) c" by (simp add: tc_inv_def set_tail_def ctr_u32)
  then show ?case by blast
next
  case (tc_fetch r h t ps fs)
  then obtain T c where "tc_inv r h t ps fs T c" by blast
  from tc_fetch_inv [OF this tc_fetch(2)] show ?case by blast
qed

lemma tc_done:
  assumes "to_card r h t ps fs" "t = ucast (rb_head r)"
  shows "fs = ps"
proof -
  obtain T c where i: "tc_inv r h t ps fs T c" using tc_inv_run [OF assms(1)] by blast
  have "ctr (length fs) = ctr (length ps)" using assms(2) i ctr_u32 by (metis tc_inv_def)
  moreover have "length fs \<le> length ps" "length ps < length fs + 8192" using i by (simp_all add: tc_inv_def)
  ultimately have "length fs = length ps" by (intro ctr_inj)
  then show ?thesis using i by (metis tc_inv_def order_refl take_all)
qed

text \<open>
  A descriptor ring to the card is a first-in first-out queue: however pushes, publications of the head, reads of the tail
  register and fetches of the card interleave, and however often the counters wrap around, the card fetches the values in the
  order they were pushed, none twice, none skipped and none overwritten before it is fetched. The host never counts fewer values in the ring than
  the card has still to fetch; with a fresh tail it counts exactly these, and a push is refused exactly when 4096 values are counted. When the
  card's tail has reached the host's head everything pushed has been fetched.
\<close>

theorem ring_to_card_fifo:
  assumes "to_card r h t ps fs"
  shows "fs = take (length fs) ps \<and> length ps - length fs \<le> unat (rb_len r) \<and> unat (rb_len r) \<le> 4096 \<and>
    unat (rb_len (set_tail r t)) = length ps - length fs \<and> (snd (rb_push r v) \<longleftrightarrow> unat (rb_len r) < 4096) \<and>
    (t = ucast (rb_head r) \<longrightarrow> fs = ps)"
proof -
  obtain T c where i: "tc_inv r h t ps fs T c" using tc_inv_run [OF assms] by blast
  have len: "unat (rb_len r) = length ps - T" using i by (intro unat_rb_len) (simp_all add: tc_inv_def)
  have "unat (rb_len (set_tail r t)) = length ps - length fs"
    using i by (intro unat_rb_len) (simp_all add: tc_inv_def set_tail_def ctr_u32)
  moreover have "snd (rb_push r v) \<longleftrightarrow> unat (rb_len r) < 4096"
    using i len by (auto simp: rb_push_def word_unat_eq_iff masks tc_inv_def)
  ultimately show ?thesis using i len tc_done [OF assms] by (auto simp: tc_inv_def)
qed

subsection \<open>A ring to the host\<close>

text \<open>
  The card writes a value with the valid bit set to the slot at its head as long as the tail that the host has published leaves room. The host pops
  values by their valid bit, clears the slots and publishes its tail. The memory starts without valid values.
\<close>

inductive to_host :: "('a \<Rightarrow> bool) \<Rightarrow> ('a \<Rightarrow> bool) \<Rightarrow> 'a \<Rightarrow> 'a DmaRingBuf \<Rightarrow> u32 \<Rightarrow> u32 \<Rightarrow> 'a list \<Rightarrow> 'a list \<Rightarrow> bool"
  for valid nxt z where
  th_new: "rb_new mmap = Some r \<Longrightarrow> list_all (\<lambda>x. \<not> valid x) mmap \<Longrightarrow> to_host valid nxt z r 0 0 [] []"
| th_write: "to_host valid nxt z r h t ws ps \<Longrightarrow> valid v \<Longrightarrow> unat ((ucast h - ucast t) AND RING_BUF_LEN_WRAP_MASK) < 4096 \<Longrightarrow>
    to_host valid nxt z (r\<lparr> rb_slots := (rb_slots r)[unat (ucast h AND RING_BUF_LEN_MASK) := v] \<rparr>)
      (ucast ((ucast h + 1) AND RING_BUF_LEN_WRAP_MASK)) t (ws @ [v]) ps"
| th_pop: "to_host valid nxt z r h t ws ps \<Longrightarrow> rb_pop z valid r = (r', Some v) \<Longrightarrow> to_host valid nxt z r' h t ws (ps @ [v])"
| th_pop_one: "to_host valid nxt z r h t ws ps \<Longrightarrow> rb_pop_two z valid nxt r = (r', Some v, None) \<Longrightarrow> to_host valid nxt z r' h t ws (ps @ [v])"
| th_pop_two: "to_host valid nxt z r h t ws ps \<Longrightarrow> rb_pop_two z valid nxt r = (r', Some v, Some v') \<Longrightarrow> to_host valid nxt z r' h t ws (ps @ [v, v'])"
| th_tail: "to_host valid nxt z r h t ws ps \<Longrightarrow> to_host valid nxt z r h (ucast (rb_tail r)) ws ps"
| th_head: "to_host valid nxt z r h t ws ps \<Longrightarrow> to_host valid nxt z (set_head r h) h t ws ps"

definition th_inv :: "('a \<Rightarrow> bool) \<Rightarrow> 'a DmaRingBuf \<Rightarrow> u32 \<Rightarrow> u32 \<Rightarrow> 'a list \<Rightarrow> 'a list \<Rightarrow> nat \<Rightarrow> bool" where
  "th_inv valid r h t ws ps c \<longleftrightarrow>
     4096 \<le> length (rb_slots r) \<and> rb_tail r = ctr (length ps) \<and> h = ucast (ctr (length ws)) \<and> t = ucast (ctr c) \<and>
     c \<le> length ps \<and> length ps \<le> length ws \<and> length ws \<le> c + 4096 \<and> ps = take (length ps) ws \<and> list_all valid ws \<and>
     (\<forall>i. length ps \<le> i \<longrightarrow> i < length ps + 4096 \<longrightarrow>
        (if i < length ws then rb_slots r ! (i mod 4096) = ws ! i else \<not> valid (rb_slots r ! (i mod 4096))))"

lemma th_slot: "th_inv valid r h t ws ps c \<Longrightarrow> length ps \<le> i \<Longrightarrow> i < length ps + 4096 \<Longrightarrow>
    (if i < length ws then rb_slots r ! (i mod 4096) = ws ! i else \<not> valid (rb_slots r ! (i mod 4096)))"
  by (simp add: th_inv_def)

lemma th_write_inv:
  assumes i: "th_inv valid r h t ws ps c" and v: "valid v" and room: "unat ((ucast h - ucast t) AND RING_BUF_LEN_WRAP_MASK) < 4096"
  shows "th_inv valid (r\<lparr> rb_slots := (rb_slots r)[unat (ucast h AND RING_BUF_LEN_MASK) := v] \<rparr>)
    (ucast ((ucast h + 1) AND RING_BUF_LEN_WRAP_MASK)) t (ws @ [v]) ps c"
proof -
  let ?n = "length ws" and ?s = "(rb_slots r)[length ws mod 4096 := v]"
  have b: "c \<le> ?n" "?n \<le> c + 4096" "length ps \<le> ?n" "c \<le> length ps" using i by (auto simp: th_inv_def)
  then have "unat ((ctr ?n - ctr c) AND RING_BUF_LEN_WRAP_MASK) = ?n - c" by (subst ctr_diff) (simp_all add: unat_of_nat del: of_nat_diff)
  then have n: "?n < c + 4096" using room i b by (simp add: th_inv_def ctr_u32)
  have m: "?n mod 4096 < length (rb_slots r)" using i by (auto simp: th_inv_def intro: less_le_trans [of _ 4096])
  have s: "if k < length (ws @ [v]) then ?s ! (k mod 4096) = (ws @ [v]) ! k else \<not> valid (?s ! (k mod 4096))"
    if k: "length ps \<le> k" "k < length ps + 4096" for k
  proof (cases "k = ?n")
    case False
    then have "k mod 4096 \<noteq> ?n mod 4096" using mod_neq [of k ?n 4096] mod_neq [of ?n k 4096] k n b by (cases "k < ?n") auto
    then show ?thesis using th_slot [OF i k] False by (auto simp: nth_append split: if_splits)
  qed (use m in simp)
  show ?thesis using i n v s by (simp add: th_inv_def ctr_u32 ctr_idx ctr_inc)
qed

lemma th_advance:
  assumes i: "th_inv valid r h t ws ps c" and l: "length ps < length ws" and z: "\<not> valid z" and x: "unat x = length ps mod 4096"
  obtains r' where "read_and_advance z r x = (r', ws ! length ps)" "th_inv valid r' h t ws (ps @ [ws ! length ps]) c"
proof -
  let ?n = "length ps" let ?s = "(rb_slots r)[length ps mod 4096 := z]"
  have v: "read_index r x = ws ! ?n" using th_slot [OF i, of ?n] l x by (simp add: read_index_def)
  have m: "?n mod 4096 < length (rb_slots r)" using i by (auto simp: th_inv_def intro: less_le_trans [of _ 4096])
  have s: "if k < length ws then ?s ! (k mod 4096) = ws ! k else \<not> valid (?s ! (k mod 4096))" if k: "Suc ?n \<le> k" "k < Suc ?n + 4096" for k
  proof (cases "k = ?n + 4096")
    case True
    moreover have "length ws \<le> ?n + 4096" using i by (auto simp: th_inv_def)
    ultimately show ?thesis using m z by simp
  next
    case False
    then have "k mod 4096 \<noteq> ?n mod 4096" using mod_neq [of ?n k 4096] k by auto
    then show ?thesis using th_slot [OF i, of k] k False by (auto split: if_splits)
  qed
  have "ps @ [ws ! ?n] = take (Suc ?n) ws" using i l by (simp add: th_inv_def take_Suc_conv_app_nth)
  then have "th_inv valid (inc_tail (zero_index z r x)) h t ws (ps @ [ws ! ?n]) c"
    using i l s x by (simp add: th_inv_def inc_tail_def zero_index_def ctr_inc)
  then show ?thesis using that v by (simp add: read_and_advance_def Let_def)
qed

lemma th_front:
  assumes "th_inv valid r h t ws ps c"
  shows "unat (tail_idx r) = length ps mod 4096" "unat ((tail_idx r + 1) AND RING_BUF_LEN_MASK) = Suc (length ps) mod 4096"
    "valid (read_index r (tail_idx r)) \<longleftrightarrow> length ps < length ws"
    "valid (read_index r ((tail_idx r + 1) AND RING_BUF_LEN_MASK)) \<longleftrightarrow> Suc (length ps) < length ws"
    "length ps < length ws \<Longrightarrow> read_index r (tail_idx r) = ws ! length ps"
proof -
  show t: "unat (tail_idx r) = length ps mod 4096" "unat ((tail_idx r + 1) AND RING_BUF_LEN_MASK) = Suc (length ps) mod 4096"
    using assms by (simp_all add: th_inv_def tail_idx_def ctr_idx ctr_next_idx)
  have v: "i < length ws \<Longrightarrow> valid (ws ! i)" for i using assms by (auto simp: th_inv_def list_all_length)
  show "valid (read_index r (tail_idx r)) \<longleftrightarrow> length ps < length ws"
    using th_slot [OF assms, of "length ps"] v by (auto simp: read_index_def t split: if_splits)
  show "valid (read_index r ((tail_idx r + 1) AND RING_BUF_LEN_MASK)) \<longleftrightarrow> Suc (length ps) < length ws"
    using th_slot [OF assms, of "Suc (length ps)"] v by (auto simp: read_index_def t split: if_splits)
  show "length ps < length ws \<Longrightarrow> read_index r (tail_idx r) = ws ! length ps"
    using th_slot [OF assms, of "length ps"] by (simp add: read_index_def t)
qed

lemma th_pop_spec:
  assumes i: "th_inv valid r h t ws ps c" and z: "\<not> valid z"
  shows "if length ps < length ws then \<exists>r'. rb_pop z valid r = (r', Some (ws ! length ps)) \<and> th_inv valid r' h t ws (ps @ [ws ! length ps]) c
    else rb_pop z valid r = (r, None)"
proof (cases "length ps < length ws")
  case True
  obtain r' where "read_and_advance z r (tail_idx r) = (r', ws ! length ps)" "th_inv valid r' h t ws (ps @ [ws ! length ps]) c"
    using th_advance [OF i True z th_front(1) [OF i]] by blast
  then show ?thesis using True th_front(3) [OF i] by (simp add: rb_pop_def)
next
  case False
  then show ?thesis using th_front(3) [OF i] by (simp add: rb_pop_def)
qed

text \<open>What \<open>pop_two\<close> gives when \<open>n\<close> of the values \<open>ws\<close> have been popped.\<close>

definition two_next :: "('a \<Rightarrow> bool) \<Rightarrow> 'a list \<Rightarrow> nat \<Rightarrow> 'a option \<times> 'a option" where
  "two_next nxt ws n =
     (if length ws \<le> n then (None, None)
      else if \<not> nxt (ws ! n) then (Some (ws ! n), None)
      else if Suc n < length ws then (Some (ws ! n), Some (ws ! Suc n)) else (None, None))"

definition opt_list :: "'a option \<times> 'a option \<Rightarrow> 'a list" where
  "opt_list x = (case x of (a, b) \<Rightarrow> (case a of None \<Rightarrow> [] | Some v \<Rightarrow> [v]) @ (case b of None \<Rightarrow> [] | Some v \<Rightarrow> [v]))"

lemma th_pop_two_spec:
  assumes i: "th_inv valid r h t ws ps c" and z: "\<not> valid z"
  shows "\<exists>r'. rb_pop_two z valid nxt r = (r', two_next nxt ws (length ps)) \<and> th_inv valid r' h t ws (ps @ opt_list (two_next nxt ws (length ps))) c"
proof (cases "length ps < length ws")
  case True
  note f = th_front [OF i]
  obtain r' where r': "read_and_advance z r (tail_idx r) = (r', ws ! length ps)" "th_inv valid r' h t ws (ps @ [ws ! length ps]) c"
    using th_advance [OF i True z f(1)] by blast
  consider (one) "\<not> nxt (ws ! length ps)" | (wait) "nxt (ws ! length ps)" "\<not> Suc (length ps) < length ws"
    | (two) "nxt (ws ! length ps)" "Suc (length ps) < length ws" by blast
  then show ?thesis
  proof cases
    case one
    then show ?thesis using r' f True by (cases "Suc (length ps) < length ws") (simp_all add: rb_pop_two_def two_next_def opt_list_def Let_def)
  next
    case wait
    then show ?thesis using f True i by (simp add: rb_pop_two_def two_next_def opt_list_def Let_def)
  next
    case two
    obtain r'' where "read_and_advance z r' ((tail_idx r + 1) AND RING_BUF_LEN_MASK) = (r'', ws ! Suc (length ps))"
        "th_inv valid r'' h t ws (ps @ [ws ! length ps, ws ! Suc (length ps)]) c"
      using th_advance [OF r'(2) _ z, of "(tail_idx r + 1) AND RING_BUF_LEN_MASK"] two f(2) by auto
    then show ?thesis using r' f True two by (simp add: rb_pop_two_def two_next_def opt_list_def Let_def)
  qed
next
  case False
  then show ?thesis using th_front [OF i] i by (simp add: rb_pop_two_def two_next_def opt_list_def Let_def)
qed

lemma th_inv_run:
  assumes "to_host valid nxt z r h t ws ps" and z: "\<not> valid z"
  shows "\<exists>c. th_inv valid r h t ws ps c"
  using assms(1)
proof (induction rule: to_host.induct)
  case (th_new mmap r)
  then have "th_inv valid r 0 0 [] [] 0"
    by (auto simp: th_inv_def rb_new_def masks ctr_0 list_all_length split: if_splits)
  then show ?case by blast
next
  case (th_write r h t ws ps v)
  then obtain c where "th_inv valid r h t ws ps c" by blast
  from th_write_inv [OF this th_write(2,3)] show ?case by blast
next
  case (th_pop r h t ws ps r' v)
  then obtain c where "th_inv valid r h t ws ps c" by blast
  from th_pop_spec [OF this z] th_pop(2) show ?case by (auto split: if_splits)
next
  case (th_pop_one r h t ws ps r' v)
  then obtain c where i: "th_inv valid r h t ws ps c" by blast
  from th_pop_two_spec [OF i z, of nxt] th_pop_one(2) have "two_next nxt ws (length ps) = (Some v, None)" by auto
  with th_pop_two_spec [OF i z, of nxt] th_pop_one(2) show ?case by (auto simp: opt_list_def)
next
  case (th_pop_two r h t ws ps r' v v')
  then obtain c where i: "th_inv valid r h t ws ps c" by blast
  from th_pop_two_spec [OF i z, of nxt] th_pop_two(2) have "two_next nxt ws (length ps) = (Some v, Some v')" by auto
  with th_pop_two_spec [OF i z, of nxt] th_pop_two(2) show ?case by (auto simp: opt_list_def)
next
  case (th_tail r h t ws ps)
  then obtain c where "th_inv valid r h t ws ps c" by blast
  then have "th_inv valid r h (ucast (rb_tail r)) ws ps (length ps)" by (auto simp: th_inv_def)
  then show ?case by blast
next
  case (th_head r h t ws ps)
  then show ?case by (auto simp: th_inv_def set_head_def)
qed


definition report_a :: "u8 list" where "report_a = replicate 31 0 @ [0xC0]"
definition report_b :: "u8 list" where "report_b = replicate 31 1 @ [0x80]"


end
