(* ===== verification/Descriptors.thy ===== *)
theory Descriptors
  imports RingBuf RdmaTypes
begin

text \<open>
  The descriptors of the send rings (\<^verbatim>\<open>descriptors/mod.rs\<close>, \<^verbatim>\<open>descriptors/send.rs\<close>): four words of bit fields that are written to a ring as 32
  bytes. The bit fields are made by the bilge crate, which is a parameter \<open>G\<close> with the laws it documents; the fields of a word are
  given by their widths from the lowest bit on. A chunk read back from its two descriptors is the chunk, cut to the width of the fields.
\<close>

subsection \<open>Bit fields\<close>

record bilge_ops =
  bg_new :: "(nat \<times> u64) list \<Rightarrow> u64"
  bg_get :: "nat list \<Rightarrow> nat \<Rightarrow> u64 \<Rightarrow> u64"

definition bilge_laws :: "'z bilge_ops_scheme \<Rightarrow> bool" where
  "bilge_laws G \<longleftrightarrow>
     (\<forall>fs k. sum_list (map fst fs) \<le> 64 \<longrightarrow> k < length fs \<longrightarrow> bg_get G (map fst fs) k (bg_new G fs) = take_bit (fst (fs ! k)) (snd (fs ! k))) \<and>
     (\<forall>ws k v. sum_list ws \<le> 64 \<longrightarrow> k < length ws \<longrightarrow> bg_get G ws k v = take_bit (ws ! k) (drop_bit (sum_list (take k ws)) v))"

text \<open>Fields packed from the lowest bit upwards behave as documented.\<close>

fun pack_fields :: "(nat \<times> u64) list \<Rightarrow> u64" where
  "pack_fields [] = 0"
| "pack_fields ((w, v) # fs) = take_bit w v OR push_bit w (pack_fields fs)"

definition lsb_bilge :: bilge_ops where
  "lsb_bilge = \<lparr> bg_new = pack_fields, bg_get = \<lambda>ws k v. take_bit (ws ! k) (drop_bit (sum_list (take k ws)) v) \<rparr>"

lemma pack_fields_get:
  "sum_list (map fst fs) \<le> 64 \<Longrightarrow> k < length fs \<Longrightarrow>
   take_bit (map fst fs ! k) (drop_bit (sum_list (take k (map fst fs))) (pack_fields fs)) = take_bit (fst (fs ! k)) (snd (fs ! k))"
proof (induction fs arbitrary: k)
  case (Cons f fs)
  obtain w v where f: "f = (w, v)" by (cases f)
  show ?case
  proof (cases k)
    case 0
    show ?thesis unfolding 0 by (rule bit_word_eqI) (auto simp: f bit_simps)
  next
    case (Suc j)
    let ?o = "sum_list (take j (map fst fs))"
    have l: "sum_list (map fst fs) = ?o + map fst fs ! j + sum_list (drop (Suc j) (map fst fs))"
      using Cons.prems Suc id_take_nth_drop [of j "map fst fs"] by (metis length_map list.size(4) Suc_less_eq length_Cons sum_list.append sum_list.Cons add.assoc)
    have "take_bit (map fst fs ! j) (drop_bit (w + ?o) (take_bit w v OR push_bit w (pack_fields fs))) =
          take_bit (map fst fs ! j) (drop_bit ?o (pack_fields fs))"
      using Cons.prems l by (intro bit_word_eqI) (auto simp: f bit_simps)
    then show ?thesis using Cons.IH [of j] Cons.prems Suc by (simp add: f)
  qed
qed simp

lemma lsb_bilge_laws: "bilge_laws lsb_bilge"
  using pack_fields_get by (simp add: bilge_laws_def lsb_bilge_def)

lemma bg_get_new: "bilge_laws G \<Longrightarrow> sum_list (map fst fs) \<le> 64 \<Longrightarrow> k < length fs \<Longrightarrow> ws = map fst fs \<Longrightarrow>
    bg_get G ws k (bg_new G fs) = take_bit (fst (fs ! k)) (snd (fs ! k))"
  unfolding bilge_laws_def by blast

lemma bg_get_bits: "bilge_laws G \<Longrightarrow> sum_list ws \<le> 64 \<Longrightarrow> k < length ws \<Longrightarrow>
    bg_get G ws k v = take_bit (ws ! k) (drop_bit (sum_list (take k ws)) v)"
  unfolding bilge_laws_def by blast

subsection \<open>The header and the bytes of a descriptor\<close>

record RingBufDescCommonHead =
  hd_op_code :: u8
  hd_is_extended_op_code :: bool
  hd_has_next :: bool
  hd_valid :: bool

text \<open>The widths of the fields, reserved ones included.\<close>

abbreviation HEAD_WIDTHS :: "nat list" where "HEAD_WIDTHS \<equiv> [8, 1, 5, 1, 1]"

definition head_bits :: "'z bilge_ops_scheme \<Rightarrow> RingBufDescCommonHead \<Rightarrow> u64" where
  "head_bits G h = bg_new G [(8, ucast (hd_op_code h)), (1, of_bool (hd_is_extended_op_code h)), (5, 0), (1, of_bool (hd_has_next h)), (1, of_bool (hd_valid h))]"

definition new_with_op_code :: "u8 \<Rightarrow> RingBufDescCommonHead" where
  "new_with_op_code op_code = \<lparr> hd_op_code = op_code, hd_is_extended_op_code = False, hd_has_next = False, hd_valid = True \<rparr>"

text \<open>All descriptors are four words of 64 bits, in memory in the little-endian order of the machine.\<close>

record Desc =
  d_c0 :: u64
  d_c1 :: u64
  d_c2 :: u64
  d_c3 :: u64

definition to_le_bytes :: "u64 \<Rightarrow> u8 list" where
  "to_le_bytes w = rev (to_be_bytes 8 w)"

definition from_le_bytes :: "u8 list \<Rightarrow> u64" where
  "from_le_bytes bs = from_be_bytes (rev bs)"

definition serialize :: "Desc \<Rightarrow> u8 list" where
  "serialize self = to_le_bytes (d_c0 self) @ to_le_bytes (d_c1 self) @ to_le_bytes (d_c2 self) @ to_le_bytes (d_c3 self)"

definition deserialize :: "u8 list \<Rightarrow> Desc" where
  "deserialize d = \<lparr> d_c0 = from_le_bytes (take 8 d), d_c1 = from_le_bytes (take 8 (drop 8 d)), d_c2 = from_le_bytes (take 8 (drop 16 d)),
     d_c3 = from_le_bytes (take 8 (drop 24 d)) \<rparr>"

lemma length_to_le: "length (to_le_bytes w) = 8"
  by (simp add: to_le_bytes_def to_be_bytes_def)

lemma from_to_le: "from_le_bytes (to_le_bytes w) = w"
  using from_to_be [of 8 w] by (simp add: from_le_bytes_def to_le_bytes_def)

lemma deserialize_serialize: "deserialize (serialize d) = d"
  by (simp add: deserialize_def serialize_def length_to_le from_to_le)

lemma serialize_last: "serialize d ! 31 = ucast (drop_bit 56 (d_c3 d))"
proof -
  have "serialize d ! 31 = to_le_bytes (d_c3 d) ! 7" by (simp add: serialize_def nth_append length_to_le)
  also have "\<dots> = to_be_bytes 8 (d_c3 d) ! 0" by (simp add: to_le_bytes_def rev_nth to_be_bytes_def)
  also have "\<dots> = ucast (drop_bit 56 (d_c3 d))" by (simp add: to_be_bytes_def)
  finally show ?thesis .
qed

subsection \<open>Descriptors of send requests\<close>

primrec opcode_u8 :: "WorkReqOpCode \<Rightarrow> u8" where
  "opcode_u8 RdmaWrite = 0" | "opcode_u8 RdmaWriteWithImm = 1" | "opcode_u8 Send = 2" | "opcode_u8 SendWithImm = 3" | "opcode_u8 RdmaRead = 4"
| "opcode_u8 AtomicCmpAndSwp = 5" | "opcode_u8 AtomicFetchAndAdd = 6" | "opcode_u8 LocalInv = 7" | "opcode_u8 BindMw = 8"
| "opcode_u8 SendWithInv = 9" | "opcode_u8 Tso = 10" | "opcode_u8 Driver1 = 11" | "opcode_u8 RdmaReadResp = 12" | "opcode_u8 RdmaAck = 13"
| "opcode_u8 Flush = 14" | "opcode_u8 AtomicWrite = 15"

abbreviation SEG0_C0 :: "nat list" where "SEG0_C0 \<equiv> [3, 5, 24, 4, 4, 24]"
abbreviation SEG0_C1 :: "nat list" where "SEG0_C1 \<equiv> [64]"
abbreviation SEG0_C2 :: "nat list" where "SEG0_C2 \<equiv> [32, 32]"
abbreviation SEG0_C3 :: "nat list" where "SEG0_C3 \<equiv> [32, 16, 16]"
abbreviation SEG1_C0 :: "nat list" where "SEG1_C0 \<equiv> [64]"
abbreviation SEG1_C1 :: "nat list" where "SEG1_C1 \<equiv> [32, 32]"
abbreviation SEG1_C2 :: "nat list" where "SEG1_C2 \<equiv> [16, 48]"
abbreviation SEG1_C3 :: "nat list" where "SEG1_C3 \<equiv> [32, 8, 1, 1, 1, 1, 1, 3, 16]"

definition seg0_new :: "'z bilge_ops_scheme \<Rightarrow> WorkReqOpCode \<Rightarrow> u16 \<Rightarrow> u32 \<Rightarrow> u8 \<Rightarrow> u32 \<Rightarrow> u8 \<Rightarrow> u32 \<Rightarrow> u64 \<Rightarrow> u32 \<Rightarrow> u32 \<Rightarrow> Desc" where
  "seg0_new G op_code msn psn qp_type dqpn flags dqp_ip raddr rkey total_len = (
     let common_header = (new_with_op_code (opcode_u8 op_code))\<lparr> hd_has_next := True \<rparr>
     in \<lparr> d_c0 = bg_new G [(3, 0), (5, take_bit 5 (ucast flags)), (24, take_bit 24 (ucast dqpn)), (4, 0), (4, take_bit 4 (ucast qp_type)), (24, take_bit 24 (ucast psn))],
          d_c1 = bg_new G [(64, raddr)],
          d_c2 = bg_new G [(32, ucast dqp_ip), (32, ucast rkey)],
          d_c3 = bg_new G [(32, ucast total_len), (16, ucast msn), (16, head_bits G common_header)] \<rparr>)"

definition seg1_new :: "'z bilge_ops_scheme \<Rightarrow> WorkReqOpCode \<Rightarrow> u8 \<Rightarrow> bool \<Rightarrow> bool \<Rightarrow> bool \<Rightarrow> bool \<Rightarrow> u32 \<Rightarrow> u32 \<Rightarrow> u64 \<Rightarrow> u32 \<Rightarrow> u32 \<Rightarrow> u64 \<Rightarrow> Desc" where
  "seg1_new G op_code pmtu is_first is_last is_retry enable_ecn sqpn imm mac_addr lkey len laddr = (
     let common_header = new_with_op_code (opcode_u8 op_code)
     in \<lparr> d_c0 = bg_new G [(64, laddr)],
          d_c1 = bg_new G [(32, ucast len), (32, ucast lkey)],
          d_c2 = bg_new G [(16, ucast (ucast (drop_bit 8 sqpn) :: u16)), (48, take_bit 48 mac_addr)],
          d_c3 = bg_new G [(32, ucast imm), (8, ucast (ucast sqpn :: u8)), (1, 0), (1, of_bool enable_ecn), (1, of_bool is_retry), (1, of_bool is_last),
            (1, of_bool is_first), (3, take_bit 3 (ucast pmtu)), (16, head_bits G common_header)] \<rparr>)"

text \<open>The fields of the two descriptors, as their accessor methods read them.\<close>

definition head_op_code :: "'z bilge_ops_scheme \<Rightarrow> u64 \<Rightarrow> u8" where
  "head_op_code G h = ucast (bg_get G HEAD_WIDTHS 0 h)"

abbreviation seg0_flags :: "'z bilge_ops_scheme \<Rightarrow> Desc \<Rightarrow> u8" where "seg0_flags G d \<equiv> ucast (bg_get G SEG0_C0 1 (d_c0 d))"
abbreviation seg0_dqpn :: "'z bilge_ops_scheme \<Rightarrow> Desc \<Rightarrow> u32" where "seg0_dqpn G d \<equiv> ucast (bg_get G SEG0_C0 2 (d_c0 d))"
abbreviation seg0_qp_type :: "'z bilge_ops_scheme \<Rightarrow> Desc \<Rightarrow> u8" where "seg0_qp_type G d \<equiv> ucast (bg_get G SEG0_C0 4 (d_c0 d))"
abbreviation seg0_psn :: "'z bilge_ops_scheme \<Rightarrow> Desc \<Rightarrow> u32" where "seg0_psn G d \<equiv> ucast (bg_get G SEG0_C0 5 (d_c0 d))"
abbreviation seg0_raddr :: "'z bilge_ops_scheme \<Rightarrow> Desc \<Rightarrow> u64" where "seg0_raddr G d \<equiv> bg_get G SEG0_C1 0 (d_c1 d)"
abbreviation seg0_dqp_ip :: "'z bilge_ops_scheme \<Rightarrow> Desc \<Rightarrow> u32" where "seg0_dqp_ip G d \<equiv> ucast (bg_get G SEG0_C2 0 (d_c2 d))"
abbreviation seg0_rkey :: "'z bilge_ops_scheme \<Rightarrow> Desc \<Rightarrow> u32" where "seg0_rkey G d \<equiv> ucast (bg_get G SEG0_C2 1 (d_c2 d))"
abbreviation seg0_total_len :: "'z bilge_ops_scheme \<Rightarrow> Desc \<Rightarrow> u32" where "seg0_total_len G d \<equiv> ucast (bg_get G SEG0_C3 0 (d_c3 d))"
abbreviation seg0_msn :: "'z bilge_ops_scheme \<Rightarrow> Desc \<Rightarrow> u16" where "seg0_msn G d \<equiv> ucast (bg_get G SEG0_C3 1 (d_c3 d))"
abbreviation seg1_laddr :: "'z bilge_ops_scheme \<Rightarrow> Desc \<Rightarrow> u64" where "seg1_laddr G d \<equiv> bg_get G SEG1_C0 0 (d_c0 d)"
abbreviation seg1_len :: "'z bilge_ops_scheme \<Rightarrow> Desc \<Rightarrow> u32" where "seg1_len G d \<equiv> ucast (bg_get G SEG1_C1 0 (d_c1 d))"
abbreviation seg1_lkey :: "'z bilge_ops_scheme \<Rightarrow> Desc \<Rightarrow> u32" where "seg1_lkey G d \<equiv> ucast (bg_get G SEG1_C1 1 (d_c1 d))"
abbreviation seg1_sqpn_high :: "'z bilge_ops_scheme \<Rightarrow> Desc \<Rightarrow> u16" where "seg1_sqpn_high G d \<equiv> ucast (bg_get G SEG1_C2 0 (d_c2 d))"
abbreviation seg1_mac_addr :: "'z bilge_ops_scheme \<Rightarrow> Desc \<Rightarrow> u64" where "seg1_mac_addr G d \<equiv> bg_get G SEG1_C2 1 (d_c2 d)"
abbreviation seg1_imm :: "'z bilge_ops_scheme \<Rightarrow> Desc \<Rightarrow> u32" where "seg1_imm G d \<equiv> ucast (bg_get G SEG1_C3 0 (d_c3 d))"
abbreviation seg1_sqpn_low :: "'z bilge_ops_scheme \<Rightarrow> Desc \<Rightarrow> u8" where "seg1_sqpn_low G d \<equiv> ucast (bg_get G SEG1_C3 1 (d_c3 d))"
abbreviation seg1_enable_ecn :: "'z bilge_ops_scheme \<Rightarrow> Desc \<Rightarrow> bool" where "seg1_enable_ecn G d \<equiv> bg_get G SEG1_C3 3 (d_c3 d) \<noteq> 0"
abbreviation seg1_is_retry :: "'z bilge_ops_scheme \<Rightarrow> Desc \<Rightarrow> bool" where "seg1_is_retry G d \<equiv> bg_get G SEG1_C3 4 (d_c3 d) \<noteq> 0"
abbreviation seg1_is_last :: "'z bilge_ops_scheme \<Rightarrow> Desc \<Rightarrow> bool" where "seg1_is_last G d \<equiv> bg_get G SEG1_C3 5 (d_c3 d) \<noteq> 0"
abbreviation seg1_is_first :: "'z bilge_ops_scheme \<Rightarrow> Desc \<Rightarrow> bool" where "seg1_is_first G d \<equiv> bg_get G SEG1_C3 6 (d_c3 d) \<noteq> 0"
abbreviation seg1_pmtu :: "'z bilge_ops_scheme \<Rightarrow> Desc \<Rightarrow> u8" where "seg1_pmtu G d \<equiv> ucast (bg_get G SEG1_C3 7 (d_c3 d))"

text \<open>The two descriptors of a chunk, as the send worker builds them.\<close>

definition chunk_descs :: "'z bilge_ops_scheme \<Rightarrow> WrChunk \<Rightarrow> Desc \<times> Desc" where
  "chunk_descs G wr =
     (seg0_new G (ck_opcode wr) (ck_msn wr) (into_inner (ck_psn wr)) (ck_qp_type wr) (ck_dqpn wr) (ck_flags wr) (ck_dqp_ip wr) (ck_raddr wr) (ck_rkey wr)
        (ck_total_len wr),
      seg1_new G (ck_opcode wr) (ck_pmtu wr) (ck_is_first wr) (ck_is_last wr) (ck_is_retry wr) (ck_enable_ecn wr) (ck_sqpn wr) (ck_imm wr)
        (ck_mac_addr wr) (ck_lkey wr) (ck_len wr) (ck_laddr wr))"

subsection \<open>What the card reads\<close>

text \<open>The chunk that two descriptors describe, read field by field.\<close>

definition all_opcodes :: "WorkReqOpCode list" where
  "all_opcodes = [RdmaWrite, RdmaWriteWithImm, Send, SendWithImm, RdmaRead, AtomicCmpAndSwp, AtomicFetchAndAdd, LocalInv, BindMw, SendWithInv, Tso,
     Driver1, RdmaReadResp, RdmaAck, Flush, AtomicWrite]"

definition opcode_of_u8 :: "u8 \<Rightarrow> WorkReqOpCode" where
  "opcode_of_u8 c = all_opcodes ! unat c"

definition chunk_of_descs :: "'z bilge_ops_scheme \<Rightarrow> Desc \<times> Desc \<Rightarrow> WrChunk" where
  "chunk_of_descs G ds = (case ds of (f, s) \<Rightarrow>
     \<lparr> ck_opcode = opcode_of_u8 (head_op_code G (bg_get G SEG0_C3 2 (d_c3 f))), ck_qp_type = seg0_qp_type G f,
       ck_sqpn = push_bit 8 (ucast (seg1_sqpn_high G s)) OR ucast (seg1_sqpn_low G s), ck_mac_addr = seg1_mac_addr G s, ck_dqpn = seg0_dqpn G f,
       ck_dqp_ip = seg0_dqp_ip G f, ck_pmtu = seg1_pmtu G s, ck_flags = seg0_flags G f, ck_raddr = seg0_raddr G f, ck_rkey = seg0_rkey G f,
       ck_total_len = seg0_total_len G f, ck_lkey = seg1_lkey G s, ck_imm = seg1_imm G s, ck_laddr = seg1_laddr G s, ck_len = seg1_len G s,
       ck_is_first = seg1_is_first G s, ck_is_last = seg1_is_last G s, ck_msn = seg0_msn G f, ck_psn = Psn (seg0_psn G f),
       ck_is_retry = seg1_is_retry G s, ck_enable_ecn = seg1_enable_ecn G s \<rparr>)"

text \<open>A chunk with the fields cut to the bits they have in a descriptor.\<close>

definition cut_chunk :: "WrChunk \<Rightarrow> WrChunk" where
  "cut_chunk wr = wr\<lparr> ck_qp_type := take_bit 4 (ck_qp_type wr), ck_sqpn := take_bit 24 (ck_sqpn wr), ck_mac_addr := take_bit 48 (ck_mac_addr wr),
     ck_dqpn := take_bit 24 (ck_dqpn wr), ck_pmtu := take_bit 3 (ck_pmtu wr), ck_flags := take_bit 5 (ck_flags wr),
     ck_psn := Psn (take_bit 24 (into_inner (ck_psn wr))) \<rparr>"

lemma field_back:
  "ucast (take_bit n (ucast (a :: u8) :: u64)) = take_bit n a" "ucast (take_bit n (ucast (b :: u16) :: u64)) = take_bit n b"
  "ucast (take_bit n (ucast (c :: u32) :: u64)) = take_bit n c"
  by (rule bit_word_eqI; simp add: bit_simps)+

lemma field_full: "take_bit 8 (a :: u8) = a" "take_bit 16 (b :: u16) = b" "take_bit 32 (c :: u32) = c" "take_bit 64 (d :: u64) = d"
  by (simp_all add: take_bit_word_eq_self)

lemma field_bool: "take_bit (Suc 0) (of_bool p :: u64) = 0 \<longleftrightarrow> \<not> p" "take_bit 1 (of_bool p :: u64) = 0 \<longleftrightarrow> \<not> p"
  by (cases p; simp)+

lemma sqpn_parts: "push_bit 8 (ucast (ucast (drop_bit 8 q) :: u16)) OR ucast (ucast (q :: u32) :: u8) = take_bit 24 q"
  by (rule bit_word_eqI) (auto simp: bit_simps)

lemma opcode_back: "opcode_of_u8 (opcode_u8 op) = op"
  by (cases op) (simp_all add: opcode_of_u8_def all_opcodes_def)

lemma head_read:
  assumes g: "bilge_laws G"
  shows "head_op_code G (take_bit 16 (head_bits G h)) = hd_op_code h"
    "bit (head_bits G h) 15 = hd_valid h" "bit (head_bits G h) 14 = hd_has_next h"
proof -
  have f: "bg_get G HEAD_WIDTHS 0 (head_bits G h) = take_bit 8 (ucast (hd_op_code h))"
      "bg_get G HEAD_WIDTHS 4 (head_bits G h) = take_bit 1 (of_bool (hd_valid h))"
      "bg_get G HEAD_WIDTHS 3 (head_bits G h) = take_bit 1 (of_bool (hd_has_next h))"
    unfolding head_bits_def by (subst bg_get_new [OF g]; simp)+
  have "bg_get G HEAD_WIDTHS 0 (take_bit 16 w) = bg_get G HEAD_WIDTHS 0 w" for w by (simp add: bg_get_bits [OF g])
  then show "head_op_code G (take_bit 16 (head_bits G h)) = hd_op_code h"
    unfolding head_op_code_def by (simp only: f field_back field_full)
  have v: "take_bit 1 (drop_bit 15 (head_bits G h)) = bg_get G HEAD_WIDTHS 4 (head_bits G h)"
      "take_bit 1 (drop_bit 14 (head_bits G h)) = bg_get G HEAD_WIDTHS 3 (head_bits G h)" by (simp_all add: bg_get_bits [OF g])
  have b: "bit w n \<longleftrightarrow> take_bit 1 (drop_bit n w) \<noteq> 0" for w :: u64 and n
    by (simp add: bit_iff_odd_drop_bit take_bit_Suc odd_iff_mod_2_eq_one)
  show "bit (head_bits G h) 15 = hd_valid h" "bit (head_bits G h) 14 = hd_has_next h"
    unfolding b v f by (simp_all only: field_bool not_not)
qed

lemma top_bit_u8: "drop_bit 7 (x :: u8) = 1 \<longleftrightarrow> bit x 7"
proof
  assume b: "bit x 7"
  show "drop_bit 7 x = 1"
  proof (rule bit_word_eqI)
    fix n assume "n < LENGTH(8)"
    then show "bit (drop_bit 7 x) n = bit 1 n" using b by (cases n) (auto simp: bit_simps bit_1_iff dest: bit_imp_le_length)
  qed
next
  assume "drop_bit 7 x = 1"
  then have "bit (drop_bit 7 x) 0" by simp
  then show "bit x 7" by (simp add: bit_simps)
qed

lemma next_bit_u8: "drop_bit 6 (x :: u8) AND 1 = 1 \<longleftrightarrow> bit x 6"
  by (simp add: and_one_eq bit_iff_odd_drop_bit odd_iff_mod_2_eq_one)

lemma serialize_marks: "desc_is_valid (serialize d) \<longleftrightarrow> bit (d_c3 d) 63" "desc_has_next (serialize d) \<longleftrightarrow> bit (d_c3 d) 62"
  by (simp_all add: desc_is_valid_def desc_has_next_def top_bit_u8 next_bit_u8 serialize_last bit_simps)

lemma top_field:
  assumes "take_bit 16 (drop_bit 48 c) = take_bit 16 (h :: u64)"
  shows "bit c 63 = bit h 15" "bit c 62 = bit h 14"
proof -
  have "bit (take_bit 16 (drop_bit 48 c)) k = bit (take_bit 16 h) k" for k using assms by simp
  from this [of 15] this [of 14] show "bit c 63 = bit h 15" "bit c 62 = bit h 14" by (simp_all add: bit_simps)
qed

lemma seg_heads:
  assumes g: "bilge_laws G" and d: "chunk_descs G wr = (f, s)"
  defines "h \<equiv> new_with_op_code (opcode_u8 (ck_opcode wr))"
  shows "bg_get G SEG0_C3 2 (d_c3 f) = take_bit 16 (head_bits G (h\<lparr> hd_has_next := True \<rparr>))" "bg_get G SEG1_C3 8 (d_c3 s) = take_bit 16 (head_bits G h)"
proof -
  have c: "d_c3 f = bg_new G [(32, ucast (ck_total_len wr)), (16, ucast (ck_msn wr)), (16, head_bits G (h\<lparr> hd_has_next := True \<rparr>))]"
      "d_c3 s = bg_new G [(32, ucast (ck_imm wr)), (8, ucast (ucast (ck_sqpn wr) :: u8)), (1, 0), (1, of_bool (ck_enable_ecn wr)), (1, of_bool (ck_is_retry wr)),
        (1, of_bool (ck_is_last wr)), (1, of_bool (ck_is_first wr)), (3, take_bit 3 (ucast (ck_pmtu wr))), (16, head_bits G h)]"
    using d by (auto simp only: chunk_descs_def seg0_new_def seg1_new_def h_def Let_def Desc.simps prod.inject)
  show "bg_get G SEG0_C3 2 (d_c3 f) = take_bit 16 (head_bits G (h\<lparr> hd_has_next := True \<rparr>))"
    unfolding c by (subst bg_get_new [OF g]; simp)
  show "bg_get G SEG1_C3 8 (d_c3 s) = take_bit 16 (head_bits G h)" unfolding c by (subst bg_get_new [OF g]; simp)
qed

lemma descs_marked:
  assumes g: "bilge_laws G" and d: "chunk_descs G wr = (f, s)"
  shows "desc_is_valid (serialize f)" "desc_has_next (serialize f)" "desc_is_valid (serialize s)" "\<not> desc_has_next (serialize s)"
proof -
  have o: "bg_get G SEG0_C3 2 c = take_bit 16 (drop_bit 48 c)" "bg_get G SEG1_C3 8 c = take_bit 16 (drop_bit 48 c)" for c
    by (simp_all add: bg_get_bits [OF g])
  note t = top_field [OF seg_heads(1) [OF g d, unfolded o]] top_field [OF seg_heads(2) [OF g d, unfolded o]]
  show "desc_is_valid (serialize f)" "desc_has_next (serialize f)" "desc_is_valid (serialize s)" "\<not> desc_has_next (serialize s)"
    by (simp_all add: serialize_marks t head_read [OF g] new_with_op_code_def)
qed

lemma seg0_read:
  assumes g: "bilge_laws G" and d: "d = seg0_new G op msn psn qp_type dqpn flags dqp_ip raddr rkey total_len"
  shows "seg0_flags G d = take_bit 5 flags" "seg0_dqpn G d = take_bit 24 dqpn" "seg0_qp_type G d = take_bit 4 qp_type" "seg0_psn G d = take_bit 24 psn"
    "seg0_raddr G d = raddr" "seg0_dqp_ip G d = dqp_ip" "seg0_rkey G d = rkey" "seg0_total_len G d = total_len" "seg0_msn G d = msn"
  unfolding d seg0_new_def Let_def Desc.simps
  by (subst bg_get_new [OF g]; simp add: field_back field_full)+

lemma seg1_read:
  assumes g: "bilge_laws G" and d: "d = seg1_new G op pmtu is_first is_last is_retry enable_ecn sqpn imm mac_addr lkey len laddr"
  shows "seg1_laddr G d = laddr" "seg1_len G d = len" "seg1_lkey G d = lkey" "seg1_sqpn_high G d = ucast (drop_bit 8 sqpn)"
    "seg1_mac_addr G d = take_bit 48 mac_addr" "seg1_imm G d = imm" "seg1_sqpn_low G d = ucast sqpn" "seg1_enable_ecn G d = enable_ecn"
    "seg1_is_retry G d = is_retry" "seg1_is_last G d = is_last" "seg1_is_first G d = is_first" "seg1_pmtu G d = take_bit 3 pmtu"
  unfolding d seg1_new_def Let_def Desc.simps
  by (subst bg_get_new [OF g]; simp add: field_back field_full)+

lemma chunk_descs_back:
  assumes g: "bilge_laws G"
  shows "chunk_of_descs G (chunk_descs G wr) = cut_chunk wr"
proof -
  obtain f s where d: "chunk_descs G wr = (f, s)" by (cases "chunk_descs G wr")
  have op: "opcode_of_u8 (head_op_code G (bg_get G SEG0_C3 2 (d_c3 f))) = ck_opcode wr"
    unfolding seg_heads(1) [OF g d] head_read(1) [OF g] by (simp add: new_with_op_code_def opcode_back)
  have f: "f = seg0_new G (ck_opcode wr) (ck_msn wr) (into_inner (ck_psn wr)) (ck_qp_type wr) (ck_dqpn wr) (ck_flags wr) (ck_dqp_ip wr) (ck_raddr wr)
        (ck_rkey wr) (ck_total_len wr)"
      and s: "s = seg1_new G (ck_opcode wr) (ck_pmtu wr) (ck_is_first wr) (ck_is_last wr) (ck_is_retry wr) (ck_enable_ecn wr) (ck_sqpn wr) (ck_imm wr)
        (ck_mac_addr wr) (ck_lkey wr) (ck_len wr) (ck_laddr wr)"
    using d by (simp_all add: chunk_descs_def)
  show ?thesis unfolding d chunk_of_descs_def prod.case op seg0_read [OF g f] seg1_read [OF g s] sqpn_parts
    by (cases wr) (simp add: cut_chunk_def)
qed

end
