(* ===== verification/SendWorker.thy ===== *)
theory SendWorker
  imports Descriptors
begin

text \<open>
  The send workers of the Rust driver (\<^verbatim>\<open>workers/send/worker.rs\<close>, \<^verbatim>\<open>workers/send/types.rs\<close>): a worker takes chunks from its own queue, the
  queue all share or the queue of another worker, and writes each as two descriptors to its ring; the card fetches the descriptors.
  \<open>None\<close> is a panic; registers of the card can always be read and written (the source panics if not).
\<close>

subsection \<open>The queue of one channel\<close>

fun push_all :: "u8 list DmaRingBuf \<Rightarrow> Desc list \<Rightarrow> u8 list DmaRingBuf option" where
  "push_all sq [] = Some sq"
| "push_all sq (d # ds) = (case desc_push serialize sq d of (sq, ok) \<Rightarrow> if ok then push_all sq ds else None)"

definition sq_send :: "u32 \<Rightarrow> u8 list DmaRingBuf \<Rightarrow> Desc list \<Rightarrow> (u8 list DmaRingBuf \<times> bool) option" where
  "sq_send tail_csr sq descs = (
     let sq = (if unat (rb_remaining sq) < length descs then set_tail sq tail_csr else sq)
     in if unat (rb_remaining sq) < length descs then Some (sq, False) else do { sq \<leftarrow> push_all sq descs; Some (sq, True) })"

definition sync_head :: "u8 list DmaRingBuf \<Rightarrow> u32" where
  "sync_head sq = ucast (rb_head sq)"

subsection \<open>The worker\<close>

record SendWorker =
  sw_local :: "WrChunk list"
  sw_sq :: "u8 list DmaRingBuf"

text \<open>
  The local queue is first-in first-out. When it is empty the worker steals: from the shared queue a batch, of which it takes one and keeps the others, or
  one from another worker. What stealing gives is an argument.
\<close>

definition poll_one :: "WrChunk list \<Rightarrow> WrChunk list \<times> WrChunk option \<Rightarrow> WrChunk list \<times> WrChunk option" where
  "poll_one local stolen = (case local of wr # rest \<Rightarrow> (rest, Some wr) | [] \<Rightarrow> stolen)"

fun send_poll :: "WrChunk list \<Rightarrow> (WrChunk list \<times> WrChunk option) list \<Rightarrow> WrChunk list \<times> WrChunk option list" where
  "send_poll local [] = (local, [])"
| "send_poll local (stolen # ss) = (case poll_one local stolen of (local, wqe) \<Rightarrow> (case send_poll local ss of (local, ws) \<Rightarrow> (local, wqe # ws)))"

text \<open>One round of the loop over the polled requests; \<open>tail_csr\<close> is what the card has in its tail register then.\<close>

definition process_wr :: "'z bilge_ops_scheme \<Rightarrow> u32 \<Rightarrow> SendWorker \<times> bool \<Rightarrow> WrChunk option \<Rightarrow> (SendWorker \<times> bool) option" where
  "process_wr G tail_csr st wr = (case st of (self, has_new_desc) \<Rightarrow> (case wr of
     None \<Rightarrow> Some (self, has_new_desc)
   | Some wr \<Rightarrow> do {
       let (fst_desc, snd_desc) = chunk_descs G wr;
       (sq, ok) \<leftarrow> sq_send tail_csr (sw_sq self) [fst_desc, snd_desc];
       let self = self\<lparr> sw_sq := sq \<rparr>;
       if \<not> ok then Some (self\<lparr> sw_local := sw_local self @ [wr] \<rparr>, has_new_desc) else Some (self, True) }))"

fun process_wrs :: "'z bilge_ops_scheme \<Rightarrow> SendWorker \<times> bool \<Rightarrow> (WrChunk option \<times> u32) list \<Rightarrow> (SendWorker \<times> bool) option" where
  "process_wrs G st [] = Some st"
| "process_wrs G st ((wr, tail_csr) # wrs) = do { st \<leftarrow> process_wr G tail_csr st wr; process_wrs G st wrs }"

text \<open>The result has what is written to the head register, if anything.\<close>

definition send_process :: "'z bilge_ops_scheme \<Rightarrow> SendWorker \<Rightarrow> (WrChunk option \<times> u32) list \<Rightarrow> (SendWorker \<times> u32 option) option" where
  "send_process G self wrs = do {
     (self, has_new_desc) \<leftarrow> process_wrs G (self, False) wrs;
     Some (self, if has_new_desc then Some (sync_head (sw_sq self)) else None) }"

subsection \<open>The worker and the card\<close>

text \<open>
  Rounds of the worker, interleaved in any way with fetches of the card. The history keeps the chunks that were written to the ring and the descriptors that
  the card fetched.
\<close>

definition chunk_bytes :: "'z bilge_ops_scheme \<Rightarrow> WrChunk \<Rightarrow> u8 list list" where
  "chunk_bytes G wr = (case chunk_descs G wr of (f, s) \<Rightarrow> [serialize f, serialize s])"

inductive send_run :: "'z bilge_ops_scheme \<Rightarrow> SendWorker \<Rightarrow> bool \<Rightarrow> u32 \<Rightarrow> u32 \<Rightarrow> WrChunk list \<Rightarrow> u8 list list \<Rightarrow> bool" for G where
  sr_new: "rb_new mmap = Some r \<Longrightarrow> send_run G \<lparr> sw_local = [], sw_sq = r \<rparr> False 0 0 [] []"
| sr_poll: "send_run G w new h t cs fs \<Longrightarrow> send_run G (w\<lparr> sw_local := local \<rparr>) new h t cs fs"
| sr_wr: "send_run G w new h t cs fs \<Longrightarrow> process_wr G t (w, new) (Some wr) = Some (w', new') \<Longrightarrow>
    send_run G w' new' h t (if sw_local w' = sw_local w then cs @ [wr] else cs) fs"
| sr_end: "send_run G w new h t cs fs \<Longrightarrow> send_run G w False (if new then sync_head (sw_sq w) else h) t cs fs"
| sr_fetch: "send_run G w new h t cs fs \<Longrightarrow> t \<noteq> h \<Longrightarrow>
    send_run G w new h (ucast ((ucast t + 1) AND RING_BUF_LEN_WRAP_MASK)) cs (fs @ [rb_slots (sw_sq w) ! unat (ucast t AND RING_BUF_LEN_MASK)])"

lemma tc_room: "to_card r h t ps fs \<Longrightarrow> unat (rb_len r) \<le> 4096 \<and> unat (rb_remaining r) = 4096 - unat (rb_len r)"
proof -
  assume "to_card r h t ps fs"
  then obtain T c where i: "tc_inv r h t ps fs T c" using tc_inv_run by blast
  have len: "unat (rb_len r) = length ps - T" using i by (intro unat_rb_len) (simp_all add: tc_inv_def)
  moreover have "length ps - T \<le> 4096" using i by (auto simp: tc_inv_def)
  ultimately show ?thesis by (simp add: rb_remaining_def unat_sub masks word_le_nat_alt)
qed

lemma tc_push_ok: "to_card r h t ps fs \<Longrightarrow> 0 < unat (rb_remaining r) \<Longrightarrow> \<exists>r'. rb_push r v = (r', True) \<and> unat (rb_remaining r') = unat (rb_remaining r) - 1"
proof -
  assume a: "to_card r h t ps fs" "0 < unat (rb_remaining r)"
  then have "rb_len r \<noteq> RING_BUF_LEN" using tc_room [OF a(1)] by (auto simp: masks)
  then obtain r' where r': "rb_push r v = (r', True)" by (simp add: rb_push_def)
  obtain T c where i: "tc_inv r h t ps fs T c" using tc_inv_run [OF a(1)] by blast
  have "unat (rb_len r) = length ps - T" using i by (intro unat_rb_len) (simp_all add: tc_inv_def)
  moreover have "unat (rb_len r') = length (ps @ [v]) - T" using tc_push_inv [OF i r'] by (intro unat_rb_len) (simp_all add: tc_inv_def)
  moreover have "T \<le> length ps" using i by (simp add: tc_inv_def)
  ultimately show ?thesis using tc_room [OF a(1)] tc_room [OF tc_push [OF a(1) r']] r' by auto
qed

text \<open>Two descriptors are pushed together or not at all.\<close>

lemma tc_send:
  assumes "to_card r h t ps fs"
  obtains r' ok where "sq_send t r [f, s] = Some (r', ok)" "to_card r' h t (if ok then ps @ [serialize f, serialize s] else ps) fs"
    "\<not> ok \<Longrightarrow> rb_head r' = rb_head r"
proof -
  define q where "q = (if unat (rb_remaining r) < 2 then set_tail r t else r)"
  have q: "to_card q h t ps fs" using assms tc_tail [OF assms] by (simp add: q_def)
  show ?thesis
  proof (cases "unat (rb_remaining q) < 2")
    case True
    then show ?thesis using q that [of q False] by (simp add: sq_send_def q_def [symmetric] Let_def numeral_2_eq_2 [symmetric]) (simp add: q_def set_tail_def)
  next
    case False
    then obtain a where a: "rb_push q (serialize f) = (a, True)" "unat (rb_remaining a) = unat (rb_remaining q) - 1"
      using tc_push_ok [OF q, of "serialize f"] by auto
    have a': "to_card a h t (ps @ [serialize f]) fs" using tc_push [OF q a(1)] .
    then obtain b where b: "rb_push a (serialize s) = (b, True)" using tc_push_ok [OF a', of "serialize s"] a(2) False by auto
    have "sq_send t r [f, s] = Some (b, True)"
      using False a b by (simp add: sq_send_def q_def [symmetric] Let_def numeral_2_eq_2 [symmetric] desc_push_def)
    moreover have "to_card b h t (ps @ [serialize f, serialize s]) fs" using tc_push [OF a' b] by simp
    ultimately show ?thesis using that [of b True] by simp
  qed
qed

lemma process_wr_cases:
  assumes "to_card (sw_sq w) h t ps fs"
  obtains (full) w' where "process_wr G t (w, new) (Some wr) = Some (w', new)" "sw_local w' = sw_local w @ [wr]" "to_card (sw_sq w') h t ps fs"
      "rb_head (sw_sq w') = rb_head (sw_sq w)"
  | (written) w' where "process_wr G t (w, new) (Some wr) = Some (w', True)" "sw_local w' = sw_local w" "to_card (sw_sq w') h t (ps @ chunk_bytes G wr) fs"
proof -
  obtain f s where d: "chunk_descs G wr = (f, s)" by (cases "chunk_descs G wr")
  obtain r' ok where r': "sq_send t (sw_sq w) [f, s] = Some (r', ok)" "to_card r' h t (if ok then ps @ [serialize f, serialize s] else ps) fs"
      "\<not> ok \<Longrightarrow> rb_head r' = rb_head (sw_sq w)"
    by (rule tc_send [OF assms, of f s]) blast
  show ?thesis
  proof (cases ok)
    case True
    then show ?thesis using written [of "w\<lparr> sw_sq := r' \<rparr>"] r' d by (simp add: process_wr_def chunk_bytes_def)
  next
    case False
    then show ?thesis using full [of "w\<lparr> sw_sq := r', sw_local := sw_local w @ [wr] \<rparr>"] r' d by (simp add: process_wr_def)
  qed
qed

lemma send_run_ring: "send_run G w new h t cs fs \<Longrightarrow> to_card (sw_sq w) h t (concat (map (chunk_bytes G) cs)) fs \<and> (\<not> new \<longrightarrow> h = ucast (rb_head (sw_sq w)))"
proof (induction rule: send_run.induct)
  case (sr_new mmap r)
  then show ?case using tc_new [OF sr_new] by (auto simp: rb_new_def split: if_splits)
next
  case (sr_poll w new h t cs fs local)
  then show ?case by simp
next
  case (sr_wr w new h t cs fs wr w' new')
  then have r: "to_card (sw_sq w) h t (concat (map (chunk_bytes G) cs)) fs" by simp
  show ?case
  proof (rule process_wr_cases [OF r, where G = G and new = new and wr = wr])
    fix x assume x: "process_wr G t (w, new) (Some wr) = Some (x, new)" "sw_local x = sw_local w @ [wr]"
      "to_card (sw_sq x) h t (concat (map (chunk_bytes G) cs)) fs" "rb_head (sw_sq x) = rb_head (sw_sq w)"
    then show ?thesis using x sr_wr by simp
  next
    fix x assume "process_wr G t (w, new) (Some wr) = Some (x, True)" "sw_local x = sw_local w"
      "to_card (sw_sq x) h t (concat (map (chunk_bytes G) cs) @ chunk_bytes G wr) fs"
    then show ?thesis using sr_wr by simp
  qed
next
  case (sr_end w new h t cs fs)
  then have r: "to_card (sw_sq w) h t (concat (map (chunk_bytes G) cs)) fs" by simp
  show ?case using tc_head [OF r] sr_end by (auto simp: sync_head_def)
next
  case (sr_fetch w new h t cs fs)
  then have r: "to_card (sw_sq w) h t (concat (map (chunk_bytes G) cs)) fs" by simp
  show ?case using tc_fetch [OF r] sr_fetch by simp
qed

text \<open>A whole call of \<open>send_process\<close> is such a history: a step for each request, then the end of the round.\<close>

lemma process_wrs_run:
  "send_run G w new h t cs fs \<Longrightarrow> process_wrs G (w, new) (map (\<lambda>wr. (wr, t)) wrs) = Some (w', new') \<Longrightarrow>
   \<exists>cs'. send_run G w' new' h t (cs @ cs') fs"
proof (induction wrs arbitrary: w new cs)
  case Nil
  then have "send_run G w' new' h t (cs @ []) fs" by simp
  then show ?case by blast
next
  case (Cons wr wrs)
  show ?case
  proof (cases wr)
    case None
    then show ?thesis using Cons by (simp add: process_wr_def)
  next
    case (Some x)
    then obtain v n where v: "process_wr G t (w, new) (Some x) = Some (v, n)" and r: "process_wrs G (v, n) (map (\<lambda>wr. (wr, t)) wrs) = Some (w', new')"
      using Cons.prems(2) by (auto split: bind_splits)
    from Cons.IH [OF sr_wr [OF Cons.prems(1) v] r] show ?thesis by (auto split: if_splits)
  qed
qed

lemma send_process_run:
  assumes "send_run G w False h t cs fs" and "send_process G w (map (\<lambda>wr. (wr, t)) wrs) = Some (w', head)"
  shows "\<exists>cs'. send_run G w' False (case head of Some h' \<Rightarrow> h' | None \<Rightarrow> h) t (cs @ cs') fs"
proof -
  obtain new where p: "process_wrs G (w, False) (map (\<lambda>wr. (wr, t)) wrs) = Some (w', new)" and h: "head = (if new then Some (sync_head (sw_sq w')) else None)"
    using assms(2) by (auto simp: send_process_def split: bind_splits)
  obtain cs' where "send_run G w' new h t (cs @ cs') fs" using process_wrs_run [OF assms(1) p] by blast
  from sr_end [OF this] show ?thesis by (auto simp: h)
qed

text \<open>What the card makes of the descriptors it fetched, two for a chunk.\<close>

fun card_chunks :: "'z bilge_ops_scheme \<Rightarrow> u8 list list \<Rightarrow> WrChunk list" where
  "card_chunks G (a # b # ds) = chunk_of_descs G (deserialize a, deserialize b) # card_chunks G ds"
| "card_chunks G ds = []"

lemma card_chunks_take:
  assumes g: "bilge_laws G"
  shows "card_chunks G (take n (concat (map (chunk_bytes G) cs))) = take (n div 2) (map cut_chunk cs)"
proof (induction cs arbitrary: n)
  case (Cons c cs)
  obtain f s where d: "chunk_descs G c = (f, s)" by (cases "chunk_descs G c")
  have c: "chunk_of_descs G (f, s) = cut_chunk c" using chunk_descs_back [OF g, of c] d by simp
  show ?case
  proof (cases "n < 2")
    case True
    then have "n = 0 \<or> n = 1" by auto
    then show ?thesis by (auto simp: chunk_bytes_def d)
  next
    case False
    then obtain m where m: "n = Suc (Suc m)" by (metis not_less numeral_2_eq_2 le_Suc_ex add_Suc add_0)
    then show ?thesis using Cons.IH [of m] by (simp add: chunk_bytes_def d c deserialize_serialize)
  qed
qed simp

text \<open>C38. Whatever requests the send worker takes and however its rounds interleave with the fetches of the card, the chunks that the card reads from the
  descriptors it has fetched are the chunks written so far, in order, none lost, none doubled and none torn, each with its fields cut to the bits they
  have in a descriptor. A round never panics: the chunk is written, or it is put back into the local queue because the ring is full. After
  a round has published the head, the card that has caught up with it has read all chunks written.
\<close>

theorem chunks_reach_card:
  assumes "send_run G w new h t cs fs" and "bilge_laws G"
  shows "card_chunks G fs = take (length fs div 2) (map cut_chunk cs) \<and> (\<not> new \<and> t = h \<longrightarrow> card_chunks G fs = map cut_chunk cs) \<and>
    (\<exists>w' new'. process_wr G t (w, new) (Some wr) = Some (w', new') \<and> (sw_local w' = sw_local w \<or> sw_local w' = sw_local w @ [wr] \<and> new' = new))"
proof -
  have r: "to_card (sw_sq w) h t (concat (map (chunk_bytes G) cs)) fs" and h: "\<not> new \<longrightarrow> h = ucast (rb_head (sw_sq w))"
    using send_run_ring [OF assms(1)] by auto
  obtain T c where "tc_inv (sw_sq w) h t (concat (map (chunk_bytes G) cs)) fs T c" using tc_inv_run [OF r] by blast
  then have f: "fs = take (length fs) (concat (map (chunk_bytes G) cs))" by (simp add: tc_inv_def)
  have "card_chunks G fs = take (length fs div 2) (map cut_chunk cs)" by (subst f) (rule card_chunks_take [OF assms(2)])
  moreover have "card_chunks G fs = map cut_chunk cs" if "\<not> new" "t = h"
  proof -
    have e: "fs = concat (map (chunk_bytes G) cs)" using tc_done [OF r] h that by simp
    moreover have "length (concat (map (chunk_bytes G) cs)) = 2 * length cs"
      by (induction cs) (simp_all add: chunk_bytes_def split: prod.splits)
    ultimately show ?thesis using card_chunks_take [OF assms(2), of "length fs" cs] by simp
  qed
  moreover have "\<exists>w' new'. process_wr G t (w, new) (Some wr) = Some (w', new') \<and> (sw_local w' = sw_local w \<or> sw_local w' = sw_local w @ [wr] \<and> new' = new)"
    by (rule process_wr_cases [OF r, where G = G and new = new and wr = wr]) auto
  ultimately show ?thesis by blast
qed

lemma empty_ring_send:
  assumes "rb_new mmap = Some r"
  obtains r' where "sq_send 0 r [f, s] = Some (r', True)" "rb_head r' = 2"
proof -
  have r: "to_card r 0 0 [] []" by (rule tc_new [OF assms])
  have "unat (rb_remaining r) = 4096" using assms by (auto simp: rb_new_def rb_remaining_def rb_len_def masks split: if_splits)
  then have n: "sq_send 0 r [f, s] \<noteq> Some (q, False)" for q by (auto simp: sq_send_def Let_def split: bind_splits)
  obtain r' ok where a: "sq_send 0 r [f, s] = Some (r', ok)" "to_card r' 0 0 (if ok then [] @ [serialize f, serialize s] else []) []"
    by (rule tc_send [OF r, of f s]) blast
  then have ok using n by (cases ok) auto
  obtain T c where "tc_inv r' 0 0 [serialize f, serialize s] [] T c" using tc_inv_run a(2) \<open>ok\<close> by fastforce
  then have "rb_head r' = 2" by (simp add: tc_inv_def ctr_def)
  then show ?thesis using that a \<open>ok\<close> by simp
qed

theorem chunks_reach_card_witness:
  "\<exists>w t fs. send_run lsb_bilge w False 2 t [default_chunk] fs \<and> length fs = 2 \<and> card_chunks lsb_bilge fs = [cut_chunk default_chunk]"
proof -
  let ?G = lsb_bilge and ?m = "replicate (unat RING_BUF_LEN) desc_zero"
  obtain r where r: "rb_new ?m = Some r" by (simp add: rb_new_def)
  let ?w = "\<lparr> sw_local = [], sw_sq = r \<rparr>"
  obtain f s where d: "chunk_descs ?G default_chunk = (f, s)" by (cases "chunk_descs ?G default_chunk")
  obtain r' where r': "sq_send 0 r [f, s] = Some (r', True)" "rb_head r' = 2" by (rule empty_ring_send [OF r, of f s])
  let ?v = "\<lparr> sw_local = [], sw_sq = r' \<rparr>"
  have "process_wr ?G 0 (?w, False) (Some default_chunk) = Some (?v, True)" using r' d by (simp add: process_wr_def)
  from sr_wr [OF sr_new [OF r] this] have a: "send_run ?G ?v True 0 0 [default_chunk] []" by simp
  from sr_end [OF a] have b: "send_run ?G ?v False 2 0 [default_chunk] []" using r'(2) by (simp add: sync_head_def)
  from sr_fetch [OF b] obtain x where "send_run ?G ?v False 2 1 [default_chunk] [x]" by (auto simp: masks mask_eq_exp_minus_1)
  from sr_fetch [OF this] obtain t y where c: "send_run ?G ?v False 2 t [default_chunk] [x, y]" by auto
  show ?thesis using conjunct1 [OF chunks_reach_card [OF c lsb_bilge_laws, of default_chunk]] c by (intro exI [of _ ?v] exI [of _ t] exI [of _ "[x, y]"]) simp
qed

end
