(* ===== verification/MetaReport.thy ===== *)
theory MetaReport
  imports Descriptors MetaHandler
begin

text \<open>
  The report queues (\<^verbatim>\<open>descriptors/meta_report.rs\<close>, \<^verbatim>\<open>workers/meta_report/types.rs\<close>): the card writes one or two descriptors for a received packet
  or an acknowledgement, and the worker polls several such rings in turn and translates what it finds to the reports that \<open>MetaHandler\<close> handles.
  \<open>None\<close> is a panic.
\<close>

subsection \<open>Operation codes\<close>

datatype RdmaOpCode = SendFirst | SendMiddle | SendLast | SendLastWithImmediate | SendOnly | SendOnlyWithImmediate | RdmaWriteFirst | RdmaWriteMiddle
  | RdmaWriteLast | RdmaWriteLastWithImmediate | RdmaWriteOnly | RdmaWriteOnlyWithImmediate | RdmaReadRequest | RdmaReadResponseFirst
  | RdmaReadResponseMiddle | RdmaReadResponseLast | RdmaReadResponseOnly | Acknowledge | AtomicAcknowledge | CompareSwap | FetchAdd | Resync
  | SendLastWithInvalidate | SendOnlyWithInvalidate

definition rdma_op_from_u8 :: "u8 \<Rightarrow> RdmaOpCode option" where
  "rdma_op_from_u8 v = (
     let codes = [SendFirst, SendMiddle, SendLast, SendLastWithImmediate, SendOnly, SendOnlyWithImmediate, RdmaWriteFirst, RdmaWriteMiddle, RdmaWriteLast,
           RdmaWriteLastWithImmediate, RdmaWriteOnly, RdmaWriteOnlyWithImmediate, RdmaReadRequest, RdmaReadResponseFirst, RdmaReadResponseMiddle,
           RdmaReadResponseLast, RdmaReadResponseOnly, Acknowledge, AtomicAcknowledge, CompareSwap, FetchAdd, Resync, SendLastWithInvalidate,
           SendOnlyWithInvalidate]
     in if unat v < length codes then Some (codes ! unat v) else None)"

definition is_packet :: "RdmaOpCode \<Rightarrow> bool" where
  "is_packet op \<longleftrightarrow> op \<in> set [SendFirst, SendMiddle, SendLast, SendLastWithImmediate, SendOnly, SendOnlyWithImmediate, RdmaWriteFirst, RdmaWriteMiddle,
     RdmaWriteLast, RdmaWriteLastWithImmediate, RdmaWriteOnly, RdmaWriteOnlyWithImmediate, RdmaReadRequest, RdmaReadResponseFirst,
     RdmaReadResponseMiddle, RdmaReadResponseLast, RdmaReadResponseOnly]"

definition is_ack :: "RdmaOpCode \<Rightarrow> bool" where
  "is_ack op \<longleftrightarrow> op = Acknowledge \<or> op = AtomicAcknowledge"

definition packet_pos :: "RdmaOpCode \<Rightarrow> PacketPos option" where
  "packet_pos op =
     (if op \<in> set [SendFirst, RdmaWriteFirst, RdmaReadResponseFirst] then Some Pos_First
      else if op \<in> set [SendMiddle, RdmaWriteMiddle, RdmaReadResponseMiddle] then Some Pos_Middle
      else if op \<in> set [SendLast, SendLastWithImmediate, RdmaWriteLast, RdmaWriteLastWithImmediate, RdmaReadResponseLast, SendLastWithInvalidate] then Some Pos_Last
      else if op \<in> set [SendOnly, SendOnlyWithImmediate, RdmaWriteOnly, RdmaWriteOnlyWithImmediate, RdmaReadResponseOnly, SendOnlyWithInvalidate] then Some Pos_Only
      else None)"

definition header_type_of :: "RdmaOpCode \<Rightarrow> HeaderType option" where
  "header_type_of op =
     (if op \<in> set [RdmaWriteFirst, RdmaWriteMiddle, RdmaWriteLast, RdmaWriteOnly] then Some Header_Write
      else if op \<in> set [RdmaWriteLastWithImmediate, RdmaWriteOnlyWithImmediate] then Some Header_WriteWithImm
      else if op \<in> set [SendFirst, SendMiddle, SendLast, SendOnly] then Some Header_Send
      else if op \<in> set [SendLastWithImmediate, SendOnlyWithImmediate] then Some Header_SendWithImm
      else if op \<in> set [RdmaReadResponseFirst, RdmaReadResponseMiddle, RdmaReadResponseLast, RdmaReadResponseOnly] then Some Header_ReadResp
      else None)"

subsection \<open>Descriptors of reports\<close>

abbreviation PKT_C0 :: "nat list" where "PKT_C0 \<equiv> [32, 32]"
abbreviation PKT_C1 :: "nat list" where "PKT_C1 \<equiv> [64]"
abbreviation PKT_C2 :: "nat list" where "PKT_C2 \<equiv> [32, 8, 24]"
abbreviation PKT_C3 :: "nat list" where "PKT_C3 \<equiv> [4, 1, 1, 1, 1, 24, 16, 16]"
abbreviation READ_C1 :: "nat list" where "READ_C1 \<equiv> [32, 32]"
abbreviation READ_C2 :: "nat list" where "READ_C2 \<equiv> [64]"
abbreviation READ_C3 :: "nat list" where "READ_C3 \<equiv> [32, 16, 16]"
abbreviation ACK_C0 :: "nat list" where "ACK_C0 \<equiv> [64]"
abbreviation ACK_C2 :: "nat list" where "ACK_C2 \<equiv> [16, 24, 24]"
abbreviation ACK_C3 :: "nat list" where "ACK_C3 \<equiv> [8, 24, 8, 1, 1, 1, 1, 4, 16]"

abbreviation pkt_imm_data :: "'z bilge_ops_scheme \<Rightarrow> Desc \<Rightarrow> u32" where "pkt_imm_data G d \<equiv> ucast (bg_get G PKT_C0 0 (d_c0 d))"
abbreviation pkt_rkey :: "'z bilge_ops_scheme \<Rightarrow> Desc \<Rightarrow> u32" where "pkt_rkey G d \<equiv> ucast (bg_get G PKT_C0 1 (d_c0 d))"
abbreviation pkt_raddr :: "'z bilge_ops_scheme \<Rightarrow> Desc \<Rightarrow> u64" where "pkt_raddr G d \<equiv> bg_get G PKT_C1 0 (d_c1 d)"
abbreviation pkt_total_len :: "'z bilge_ops_scheme \<Rightarrow> Desc \<Rightarrow> u32" where "pkt_total_len G d \<equiv> ucast (bg_get G PKT_C2 0 (d_c2 d))"
abbreviation pkt_dqpn :: "'z bilge_ops_scheme \<Rightarrow> Desc \<Rightarrow> u32" where "pkt_dqpn G d \<equiv> ucast (bg_get G PKT_C2 2 (d_c2 d))"
abbreviation pkt_is_retry :: "'z bilge_ops_scheme \<Rightarrow> Desc \<Rightarrow> bool" where "pkt_is_retry G d \<equiv> bg_get G PKT_C3 1 (d_c3 d) \<noteq> 0"
abbreviation pkt_ack_req :: "'z bilge_ops_scheme \<Rightarrow> Desc \<Rightarrow> bool" where "pkt_ack_req G d \<equiv> bg_get G PKT_C3 2 (d_c3 d) \<noteq> 0"
abbreviation pkt_solicited :: "'z bilge_ops_scheme \<Rightarrow> Desc \<Rightarrow> bool" where "pkt_solicited G d \<equiv> bg_get G PKT_C3 3 (d_c3 d) \<noteq> 0"
abbreviation pkt_ecn_marked :: "'z bilge_ops_scheme \<Rightarrow> Desc \<Rightarrow> bool" where "pkt_ecn_marked G d \<equiv> bg_get G PKT_C3 4 (d_c3 d) \<noteq> 0"
abbreviation pkt_psn :: "'z bilge_ops_scheme \<Rightarrow> Desc \<Rightarrow> u32" where "pkt_psn G d \<equiv> ucast (bg_get G PKT_C3 5 (d_c3 d))"
abbreviation pkt_msn :: "'z bilge_ops_scheme \<Rightarrow> Desc \<Rightarrow> u16" where "pkt_msn G d \<equiv> ucast (bg_get G PKT_C3 6 (d_c3 d))"
abbreviation pkt_op_code :: "'z bilge_ops_scheme \<Rightarrow> Desc \<Rightarrow> u8" where "pkt_op_code G d \<equiv> head_op_code G (bg_get G PKT_C3 7 (d_c3 d))"
abbreviation read_lkey :: "'z bilge_ops_scheme \<Rightarrow> Desc \<Rightarrow> u32" where "read_lkey G d \<equiv> ucast (bg_get G READ_C1 1 (d_c1 d))"
abbreviation read_laddr :: "'z bilge_ops_scheme \<Rightarrow> Desc \<Rightarrow> u64" where "read_laddr G d \<equiv> bg_get G READ_C2 0 (d_c2 d)"
abbreviation read_total_len :: "'z bilge_ops_scheme \<Rightarrow> Desc \<Rightarrow> u32" where "read_total_len G d \<equiv> ucast (bg_get G READ_C3 0 (d_c3 d))"
abbreviation ack_msn :: "'z bilge_ops_scheme \<Rightarrow> Desc \<Rightarrow> u16" where "ack_msn G d \<equiv> ucast (bg_get G ACK_C2 0 (d_c2 d))"
abbreviation ack_qpn :: "'z bilge_ops_scheme \<Rightarrow> Desc \<Rightarrow> u32" where "ack_qpn G d \<equiv> ucast (bg_get G ACK_C2 1 (d_c2 d))"
abbreviation ack_psn_now :: "'z bilge_ops_scheme \<Rightarrow> Desc \<Rightarrow> u32" where "ack_psn_now G d \<equiv> ucast (bg_get G ACK_C2 2 (d_c2 d))"
abbreviation ack_psn_before_slide :: "'z bilge_ops_scheme \<Rightarrow> Desc \<Rightarrow> u32" where "ack_psn_before_slide G d \<equiv> ucast (bg_get G ACK_C3 1 (d_c3 d))"
abbreviation ack_is_send_by_driver :: "'z bilge_ops_scheme \<Rightarrow> Desc \<Rightarrow> bool" where "ack_is_send_by_driver G d \<equiv> bg_get G ACK_C3 5 (d_c3 d) \<noteq> 0"
abbreviation ack_is_send_by_local_hw :: "'z bilge_ops_scheme \<Rightarrow> Desc \<Rightarrow> bool" where "ack_is_send_by_local_hw G d \<equiv> bg_get G ACK_C3 6 (d_c3 d) \<noteq> 0"

text \<open>The bitmaps of an acknowledgement and of its second descriptor have the same place.\<close>

definition desc_bitmap :: "'z bilge_ops_scheme \<Rightarrow> Desc \<Rightarrow> 128 word" where
  "desc_bitmap G d = push_bit 64 (ucast (bg_get G ACK_C0 0 (d_c1 d))) OR ucast (bg_get G ACK_C0 0 (d_c0 d))"

datatype MetaReportQueueDescFirst = PacketInfo Desc | First_Ack Desc

datatype MetaReportQueueDescNext = ReadInfo Desc | AckExtra Desc

definition desc_op_code :: "'z bilge_ops_scheme \<Rightarrow> u8 list \<Rightarrow> RdmaOpCode option" where
  "desc_op_code G d = rdma_op_from_u8 (head_op_code G (push_bit 8 (ucast (d ! 31)) OR ucast (d ! 30)))"

definition first_deserialize :: "'z bilge_ops_scheme \<Rightarrow> u8 list \<Rightarrow> MetaReportQueueDescFirst option" where
  "first_deserialize G d = do {
     op \<leftarrow> desc_op_code G d;
     if is_packet op then Some (PacketInfo (deserialize d)) else if is_ack op then Some (First_Ack (deserialize d)) else None }"

definition next_deserialize :: "'z bilge_ops_scheme \<Rightarrow> u8 list \<Rightarrow> MetaReportQueueDescNext option" where
  "next_deserialize G d = do {
     op \<leftarrow> desc_op_code G d;
     if is_packet op then Some (ReadInfo (deserialize d)) else if is_ack op then Some (AckExtra (deserialize d)) else None }"

subsection \<open>The queues of reports\<close>

datatype MetaReportQueueDesc = WritePacketInfo Desc | ReadPacketInfo Desc Desc | CnpPacketInfo Desc | Desc_Ack Desc | Desc_Nak Desc Desc

text \<open>Which report one or two descriptors make; \<open>None\<close> is a panic.\<close>

definition classify :: "'z bilge_ops_scheme \<Rightarrow> u8 list option \<times> u8 list option \<Rightarrow> MetaReportQueueDesc option option" where
  "classify G ds = (case ds of
     (None, None) \<Rightarrow> Some None
   | (Some a, None) \<Rightarrow> do {
       f \<leftarrow> first_deserialize G a;
       (case f of
          PacketInfo d \<Rightarrow> if pkt_ecn_marked G d then Some (Some (CnpPacketInfo d)) else Some (Some (WritePacketInfo d))
        | First_Ack d \<Rightarrow> Some (Some (Desc_Ack d))) }
   | (Some a, Some b) \<Rightarrow> do {
       f \<leftarrow> first_deserialize G a;
       n \<leftarrow> next_deserialize G b;
       (case (f, n) of
          (PacketInfo f, ReadInfo n) \<Rightarrow> Some (Some (ReadPacketInfo f n))
        | (First_Ack f, AckExtra n) \<Rightarrow> Some (Some (Desc_Nak f n))
        | _ \<Rightarrow> None) }
   | _ \<Rightarrow> None)"

definition meta_queue_pop :: "'z bilge_ops_scheme \<Rightarrow> u8 list DmaRingBuf \<Rightarrow> (u8 list DmaRingBuf \<times> MetaReportQueueDesc option) option" where
  "meta_queue_pop G q = (case rb_pop_two desc_zero desc_is_valid desc_has_next q of (q, ds) \<Rightarrow> do { r \<leftarrow> classify G ds; Some (q, r) })"

definition remap_psn :: "psn \<Rightarrow> psn" where
  "remap_psn psn = psn_sub psn 112"

definition meta_of_desc :: "'z bilge_ops_scheme \<Rightarrow> MetaReportQueueDesc \<Rightarrow> ReportMeta option" where
  "meta_of_desc G desc = (case desc of
     WritePacketInfo d \<Rightarrow> do {
       op \<leftarrow> rdma_op_from_u8 (pkt_op_code G d);
       pos \<leftarrow> packet_pos op;
       ty \<leftarrow> header_type_of op;
       Some (HeaderWrite \<lparr> hw_pos = pos, hw_msn = pkt_msn G d, hw_psn = Psn (pkt_psn G d), hw_solicited = pkt_solicited G d, hw_ack_req = pkt_ack_req G d,
         hw_is_retry = pkt_is_retry G d, hw_dqpn = pkt_dqpn G d, hw_total_len = pkt_total_len G d, hw_raddr = pkt_raddr G d, hw_rkey = pkt_rkey G d,
         hw_imm = pkt_imm_data G d, hw_header_type = ty \<rparr>) }
   | ReadPacketInfo f n \<Rightarrow> Some (HeaderRead \<lparr> hr_msn = pkt_msn G f, hr_psn = Psn (pkt_psn G f), hr_dqpn = pkt_dqpn G f, hr_raddr = pkt_raddr G f,
       hr_rkey = pkt_rkey G f, hr_total_len = read_total_len G n, hr_laddr = read_laddr G n, hr_lkey = read_lkey G n, hr_ack_req = pkt_ack_req G f \<rparr>)
   | CnpPacketInfo d \<Rightarrow> Some (Cnp \<lparr> cnp_qpn = pkt_dqpn G d \<rparr>)
   | Desc_Ack d \<Rightarrow> (case (ack_is_send_by_driver G d, ack_is_send_by_local_hw G d) of
       (True, False) \<Rightarrow> Some (AckRemoteDriver \<lparr> ad_qpn = ack_qpn G d, ad_psn_now = Psn (ack_psn_now G d) \<rparr>)
     | (False, True) \<Rightarrow> Some (AckLocalHw \<lparr> al_qpn = ack_qpn G d, al_psn_now = remap_psn (Psn (ack_psn_now G d)), al_now_bitmap = desc_bitmap G d \<rparr>)
     | _ \<Rightarrow> None)
   | Desc_Nak f n \<Rightarrow> (
       let hw = \<lparr> nh_qpn = ack_qpn G f, nh_msn = ack_msn G f, nh_psn_now = remap_psn (Psn (ack_psn_now G f)), nh_now_bitmap = desc_bitmap G f,
             nh_psn_pre = remap_psn (Psn (ack_psn_before_slide G f)), nh_pre_bitmap = desc_bitmap G n \<rparr>
       in (case (ack_is_send_by_driver G f, ack_is_send_by_local_hw G f) of
         (True, False) \<Rightarrow> Some (NakRemoteDriver \<lparr> nd_qpn = ack_qpn G f, nd_psn_now = Psn (ack_psn_now G f), nd_psn_pre = Psn (ack_psn_before_slide G f) \<rparr>)
       | (False, True) \<Rightarrow> Some (NakLocalHw hw)
       | (False, False) \<Rightarrow> Some (NakRemoteHw hw)
       | (True, True) \<Rightarrow> None)))"

text \<open>\<open>heads\<close> is what the head register of each queue gives, \<open>None\<close> if it cannot be read.\<close>

record MetaReportQueueHandler =
  rq_inner :: "u8 list DmaRingBuf list"
  rq_pos :: nat

type_synonym received = "(MetaReportQueueHandler \<times> (nat \<times> u32 \<times> ReportMeta) option) option"

fun recv_scan :: "'z bilge_ops_scheme \<Rightarrow> (nat \<Rightarrow> u32 option) \<Rightarrow> MetaReportQueueHandler \<Rightarrow> nat list \<Rightarrow> received" where
  "recv_scan G heads self [] = Some (self, None)"
| "recv_scan G heads self (i # is) = (
     let num_queues = length (rq_inner self); idx = (rq_pos self + i) mod num_queues
     in do {
       (q, r) \<leftarrow> meta_queue_pop G (rq_inner self ! idx);
       (case r of
          None \<Rightarrow> recv_scan G heads (self\<lparr> rq_inner := (rq_inner self)[idx := q] \<rparr>) is
        | Some desc \<Rightarrow> do {
            let tail = ucast (rb_tail q);
            let q = (case heads idx of Some h \<Rightarrow> set_head q h | None \<Rightarrow> q);
            meta \<leftarrow> meta_of_desc G desc;
            Some (\<lparr> rq_inner = (rq_inner self)[idx := q], rq_pos = (idx + 1) mod num_queues \<rparr>, Some (idx, tail, meta)) }) })"

text \<open>The result has the report, its queue and what is written to the tail register of this queue.\<close>

definition try_recv_meta :: "'z bilge_ops_scheme \<Rightarrow> (nat \<Rightarrow> u32 option) \<Rightarrow> MetaReportQueueHandler \<Rightarrow> received" where
  "try_recv_meta G heads self = recv_scan G heads self [0..<length (rq_inner self)]"

subsection \<open>Polling is fair\<close>

definition queue_front :: "'z bilge_ops_scheme \<Rightarrow> u8 list DmaRingBuf \<Rightarrow> MetaReportQueueDesc option option" where
  "queue_front G q = classify G (snd (rb_pop_two desc_zero desc_is_valid desc_has_next q))"

definition front_meta :: "'z bilge_ops_scheme \<Rightarrow> u8 list DmaRingBuf \<Rightarrow> ReportMeta option" where
  "front_meta G q = (case queue_front G q of Some (Some d) \<Rightarrow> meta_of_desc G d | _ \<Rightarrow> None)"

text \<open>A queue whose next report is complete, and one whose next descriptors have the format of a report or that has none.\<close>

definition queue_ready :: "'z bilge_ops_scheme \<Rightarrow> u8 list DmaRingBuf \<Rightarrow> bool" where
  "queue_ready G q \<longleftrightarrow> queue_front G q \<noteq> Some None"

definition front_ok :: "'z bilge_ops_scheme \<Rightarrow> u8 list DmaRingBuf \<Rightarrow> bool" where
  "front_ok G q \<longleftrightarrow> queue_ready G q \<longrightarrow> front_meta G q \<noteq> None"

lemma pop_two_idle: "snd (rb_pop_two z v nx q) = (None, None) \<Longrightarrow> rb_pop_two z v nx q = (q, None, None)"
  by (auto simp: rb_pop_two_def Let_def split: bool.splits prod.splits)

lemma classify_none: "classify G ds = Some None \<longleftrightarrow> ds = (None, None)"
  by (auto simp: classify_def split: option.splits prod.splits bind_splits MetaReportQueueDescFirst.splits MetaReportQueueDescNext.splits if_splits)

lemma pop_idle: "\<not> queue_ready G q \<Longrightarrow> meta_queue_pop G q = Some (q, None)"
  using pop_two_idle [of desc_zero desc_is_valid desc_has_next q]
  by (auto simp: queue_ready_def queue_front_def classify_none meta_queue_pop_def) (simp add: classify_def)

lemma pop_ready: "queue_ready G q \<Longrightarrow> front_ok G q \<Longrightarrow>
    \<exists>q' d m. meta_queue_pop G q = Some (q', Some d) \<and> meta_of_desc G d = Some m \<and> front_meta G q = Some m"
  by (cases "rb_pop_two desc_zero desc_is_valid desc_has_next q")
    (auto simp: queue_ready_def front_ok_def front_meta_def queue_front_def meta_queue_pop_def split: option.splits)

lemma recv_scan_spec:
  assumes ok: "list_all (front_ok G) (rq_inner self)" and n: "rq_inner self \<noteq> []"
  defines "n \<equiv> length (rq_inner self)"
  defines "rdy \<equiv> \<lambda>i. queue_ready G (rq_inner self ! ((rq_pos self + i) mod n))"
  shows "case find rdy is of
      None \<Rightarrow> recv_scan G heads self is = Some (self, None)
    | Some i \<Rightarrow> \<exists>q tail m. recv_scan G heads self is =
        Some (\<lparr> rq_inner = (rq_inner self)[(rq_pos self + i) mod n := q], rq_pos = ((rq_pos self + i) mod n + 1) mod n \<rparr>, Some ((rq_pos self + i) mod n, tail, m)) \<and>
        front_meta G (rq_inner self ! ((rq_pos self + i) mod n)) = Some m"
proof (induction "is")
  case (Cons i "is")
  let ?idx = "(rq_pos self + i) mod n"
  have idx: "?idx < length (rq_inner self)" using n by (simp add: n_def)
  show ?case
  proof (cases "rdy i")
    case True
    then obtain q' d m where "meta_queue_pop G (rq_inner self ! ?idx) = Some (q', Some d)" "meta_of_desc G d = Some m" "front_meta G (rq_inner self ! ?idx) = Some m"
      using pop_ready [of G "rq_inner self ! ?idx"] ok idx by (auto simp: rdy_def list_all_length)
    then show ?thesis using True by (simp add: Let_def n_def [symmetric]) blast
  next
    case False
    then have "meta_queue_pop G (rq_inner self ! ?idx) = Some (rq_inner self ! ?idx, None)" by (intro pop_idle) (simp add: rdy_def)
    then have "recv_scan G heads self (i # is) = recv_scan G heads self is" by (simp add: Let_def n_def [symmetric])
    moreover have "find rdy (i # is) = find rdy is" using False by simp
    ultimately show ?thesis using Cons.IH by (simp only:)
  qed
qed simp

text \<open>The next report of a queue is made of the descriptors the card wrote after those that were popped.\<close>

lemma queue_front_history:
  assumes "to_host desc_is_valid desc_has_next desc_zero r h t ws ps"
  shows "queue_front G r = classify G (two_next desc_has_next ws (length ps))"
proof -
  obtain c where "th_inv desc_is_valid r h t ws ps c" using th_inv_run [OF assms desc_zero_invalid] by blast
  then show ?thesis using th_pop_two_spec [where z = desc_zero and nxt = desc_has_next and valid = desc_is_valid, OF _ desc_zero_invalid]
    by (fastforce simp: queue_front_def)
qed

text \<open>How many steps after position \<open>p\<close> the queue \<open>j\<close> comes.\<close>

definition turns :: "nat \<Rightarrow> nat \<Rightarrow> nat \<Rightarrow> nat" where
  "turns n p j = (j + n - p) mod n"

lemma turns_add: "p < n \<Longrightarrow> i < n \<Longrightarrow> turns n p ((p + i) mod n) = i"
proof -
  assume a: "p < n" "i < n"
  show ?thesis
  proof (cases "p + i < n")
    case False
    then have "(p + i) mod n = p + i - n" using a by (simp add: mod_if)
    then show ?thesis using a False by (simp add: turns_def)
  qed (use a in \<open>simp add: turns_def\<close>)
qed

lemma turns_later: "p < n \<Longrightarrow> k \<le> i \<Longrightarrow> i < n \<Longrightarrow> turns n ((p + k) mod n) ((p + i) mod n) = i - k"
proof -
  assume a: "p < n" "k \<le> i" "i < n"
  have "((p + k) mod n + (i - k)) mod n = (p + k + (i - k)) mod n" by (rule mod_add_left_eq)
  moreover have "p + k + (i - k) = p + i" using a by simp
  ultimately have "(p + i) mod n = ((p + k) mod n + (i - k)) mod n" by (simp only:)
  then show ?thesis using turns_add [of "(p + k) mod n" n "i - k"] a by simp
qed

lemma at_turn: "p < n \<Longrightarrow> j < n \<Longrightarrow> (p + turns n p j) mod n = j"
proof -
  assume a: "p < n" "j < n"
  have "(p + turns n p j) mod n = (p + (j + n - p)) mod n" by (simp add: turns_def mod_add_right_eq)
  also have "p + (j + n - p) = j + n" using a by simp
  finally show ?thesis using a by simp
qed


definition one_report :: "u8 list" where
  "one_report = serialize \<lparr> d_c0 = 0, d_c1 = 0, d_c2 = 0, d_c3 = push_bit 63 1 OR push_bit 48 10 \<rparr>"

definition report_ring :: "u8 list DmaRingBuf" where
  "report_ring = \<lparr> rb_slots = (replicate (unat RING_BUF_LEN) desc_zero)[0 := one_report], rb_head = 0, rb_tail = 0 \<rparr>"

definition idle_ring :: "u8 list DmaRingBuf" where
  "idle_ring = \<lparr> rb_slots = replicate (unat RING_BUF_LEN) desc_zero, rb_head = 0, rb_tail = 0 \<rparr>"

lemma one_report_decoded:
  "\<exists>d m. classify lsb_bilge (Some one_report, None) = Some (Some d) \<and> meta_of_desc lsb_bilge d = Some m"
proof -
  have "classify lsb_bilge (Some one_report, None) = Some (Some (WritePacketInfo (deserialize one_report)))" by code_simp
  moreover have "meta_of_desc lsb_bilge (WritePacketInfo (deserialize one_report)) \<noteq> None" by code_simp
  ultimately show ?thesis by blast
qed

lemma report_ring_front: "snd (rb_pop_two desc_zero desc_is_valid desc_has_next report_ring) = (Some one_report, None)"
proof -
  have "desc_is_valid one_report" "\<not> desc_has_next one_report" by code_simp+
  moreover have "rb_slots report_ring ! 0 = one_report" "rb_slots report_ring ! 1 = desc_zero" "rb_tail report_ring = 0"
    by (simp_all add: report_ring_def masks nth_list_update)
  ultimately show ?thesis
    by (simp add: rb_pop_two_def Let_def tail_idx_def read_index_def read_and_advance_def masks mask_eq_exp_minus_1 desc_zero_invalid)
qed

lemma idle_ring_front: "snd (rb_pop_two desc_zero desc_is_valid desc_has_next idle_ring) = (None, None)"
proof -
  have "rb_slots idle_ring ! 0 = desc_zero" "rb_tail idle_ring = 0" by (simp_all add: idle_ring_def masks)
  then show ?thesis by (simp add: rb_pop_two_def Let_def tail_idx_def read_index_def desc_zero_invalid)
qed


end
