(* ===== verification/Spec2Isabelle.thy ===== *)
theory Spec2Isabelle
  imports KernelVerbs VerbsClient IntervalSet Bitmap Indexer LinkedList ForkTracker PsnTracker Fragmenter Completion QpTimeout Retransmit MetaHandler VerbsCore SendRecovery SendWorker MetaReport
begin

text \<open>
  Blue RDMA driver: a verification of the software side of an RDMA network card.

  \<^bold>\<open>The program.\<close> A user program calls the verbs API of libibverbs (vendored under \<^verbatim>\<open>src/dtld-ibverbs/rdma-core-55.0\<close>).
  libibverbs lists the RDMA devices that the kernel module (\<^verbatim>\<open>src/kernel-driver\<close>) registers, finds the provider for each
  (\<^verbatim>\<open>providers/bluerdma\<close>) and opens a context whose operations are the functions that the Rust driver
  (\<^verbatim>\<open>src/rust-driver\<close>) exports through a shared library.

  \<^bold>\<open>Conventions.\<close> A C function is a HOL function on an explicit state: a record of the structures it changes, or a store
  from addresses to objects. Pointers are \<open>None\<close> (NULL) or an address. A function that can fault returns an option whose
  \<open>None\<close> is an access to NULL, to freed memory or out of bounds, a failed assertion, or a loop that does not end;
  the theorems that a call is safe state that the result is \<open>Some\<close>. Machine integers are words of their width,
  and a constant of the source is a definition of the same name.
  What allocation, system calls and other code outside the sources answer is a parameter of the definitions.

  \<^bold>\<open>Theories.\<close>
  \<^item> Prelude, Slot_Table, Refcount: shared types and lemmas, the interfaces of an indexed table and of reference counts.
  \<^item> KernelGid, KernelNet, KernelMain, KernelVerbs: the kernel module (\<^verbatim>\<open>bluerdma.h\<close>, \<^verbatim>\<open>ethernet.c\<close>, \<^verbatim>\<open>main.c\<close>, \<^verbatim>\<open>verbs.c\<close>).
    The GID table refines a partial map; the interface state is what queries report; loading and unloading
    is safe exactly when no interface creation failed; the default GID does not depend on the MAC address.
  \<^item> VerbsOps, VerbsMatch, VerbsDevice, Lifecycle, DeviceList, VerbsClient: libibverbs (\<^verbatim>\<open>dummy_ops.c\<close>, \<^verbatim>\<open>init.c\<close>, \<^verbatim>\<open>device.c\<close>).
    No history of list, open, close and free calls touches freed memory, reference counts are exact, and every
    operation of an open context is that of its own device's provider.
  \<^item> Provider, ProviderOps: \<^verbatim>\<open>providers/bluerdma/bluerdma.c\<close>, which devices it claims and which functions a context gets.
  \<^item> MemTree, ForkTracker: \<^verbatim>\<open>libibverbs/memory.c\<close>. The red-black tree stays balanced and acts as a sorted list; the fork
    tracker counts exactly the live registrations of every page as long as no madvise is refused.
  \<^item> IntervalSet, Bitmap: \<^verbatim>\<open>util/interval_set.c\<close>, \<^verbatim>\<open>util/bitmap.c\<close>. Allocation returns the lowest fitting free block.
  \<^item> Indexer, LinkedList: \<^verbatim>\<open>librdmacm/indexer.c\<close> and \<^verbatim>\<open>ccan/list.h\<close> refine maps and sequences.

  \<^item> RdmaPsn, BitVec, PsnTracker: sequence numbers of 24 bits (\<^verbatim>\<open>rdma_utils/psn.rs\<close>, \<^verbatim>\<open>msn.rs\<close>), the bit vectors of the bitvec crate as
    an interface, and the trackers of received packets (\<^verbatim>\<open>psn_tracker.rs\<close>), which keep the set of received numbers.
  \<^item> Fragmenter: \<^verbatim>\<open>rdma_utils/fragmenter.rs\<close>. The fragments of a request tile it; packets lie in the chunks first sent.
  \<^item> HandleAlloc, RdmaQp: handles from a bitmap (\<^verbatim>\<open>qp.rs\<close>, \<^verbatim>\<open>pd.rs\<close>, the queues of \<^verbatim>\<open>completion.rs\<close>), the tables indexed by queue
    pair number, and the send window, which bounds what is outstanding.
  \<^item> RdmaTasks, Completion, QpTimeout, Retransmit, RdmaWrite, SendRecovery, MetaHandler: the messages and the worker threads
    (\<^verbatim>\<open>workers/completion.rs\<close>, \<^verbatim>\<open>qp_timeout.rs\<close>, \<^verbatim>\<open>retransmit.rs\<close>, \<^verbatim>\<open>rdma.rs\<close>, \<^verbatim>\<open>meta_report/worker.rs\<close>). A worker is a function from its state
    and a task to its new state and the tasks it sends to the others. Messages complete once and in order; a retransmission sends
    exactly the packets of the written requests that are not acknowledged (SendRecovery, over both workers); the receiver reports the first packet missing.
  \<^item> RingBuf, Descriptors, SendWorker, MetaReport: the rings shared with the card (\<^verbatim>\<open>ringbuf/dma_rb.rs\<close>, \<^verbatim>\<open>ringbuf/desc.rs\<close>), the send
    descriptors (\<^verbatim>\<open>descriptors/send.rs\<close>), the worker that writes them (\<^verbatim>\<open>workers/send\<close>) and the queues of the card's reports
    (\<^verbatim>\<open>descriptors/meta_report.rs\<close>, \<^verbatim>\<open>workers/meta_report/types.rs\<close>). The card is the other side of an interleaving: chunks reach it
    complete and in order, its reports are popped in order and the report queues are served in turn.
  \<^item> RdmaTypes, Mtt, DeviceCtx, VerbsCore: the C interface (\<^verbatim>\<open>verbs/core.rs\<close>) over the device context (\<^verbatim>\<open>verbs/ctx.rs\<close>), with the
    conversions of its arguments (\<^verbatim>\<open>rdma_utils/types.rs\<close>) and the memory translation table (\<^verbatim>\<open>mtt.rs\<close>). Memory regions are separate,
    polling returns the oldest completions.

  \<^bold>\<open>Loops and bounds.\<close> Loops over data recurse on it. Loops that may not end are \<open>partial_function (option)\<close>, and the theorems
  prove that they return. No fuel is used.

  \<^bold>\<open>Not modelled.\<close> The parts of rdma-core that a bluerdma device never runs (other providers, the connection manager, the
  daemons and diagnostics), the marshalling of kernel commands, sysfs and netlink access, threads and locks (every
  operation runs alone, as under its mutex), and the examples. Of the Rust driver: the command queue and the
  simple NIC with their descriptors, memory fences, the TAP device, DMA memory and the start of the threads, which are access to the hardware
  and the operating system.
\<close>

end
